(* ===== verification/Go_Prelude.thy ===== *)
theory Go_Prelude
  imports Main "HOL-Library.Word" "HOL-Library.Multiset"
begin

text \<open>
  The vocabulary the component theories share: bytes and byte slices, Go's 64-bit
  signed arithmetic (\<open>int64\<close>, and \<open>int\<close> on a 64-bit target) with its wrap-around,
  the big-endian accessors of \<^verbatim>\<open>encoding/binary\<close>, the \<^verbatim>\<open>io.Reader\<close> and \<^verbatim>\<open>io.Writer\<close>
  a stream component is called with, in-place writes into a slice, and generic lemmas
  on lists.

  \<^item> \<open>i64 x\<close> is the value an \<open>int64\<close> holds after an operation whose mathematical
    result is \<open>x\<close>; it is the identity on the representable range.
  \<^item> a reader is the bytes that are still to come and the error that the stream reports
    once they are consumed; a writer is the list of chunks it accepted and a script of
    the outcomes of its next calls, so that short writes and write errors are inputs of
    the model.
  \<^item> the length of a slice is a \<open>nat\<close>; slice lengths never reach \<open>2 ^ 63\<close>, so
    arithmetic on them is written on \<open>int\<close> without wrap-around.
\<close>

named_theorems go_int "facts that remove the wrap-around of in-range 64-bit values"
named_theorems go_bytes "facts on byte accessors and slices"

type_synonym byte = "8 word"
type_synonym bytes = "8 word list"
type_synonym uint16 = "16 word"
type_synonym uint32 = "32 word"
type_synonym uint64 = "64 word"

section \<open>64-bit signed arithmetic\<close>

definition i64 :: "int \<Rightarrow> int" where
  "i64 x = (x + 2 ^ 63) mod 2 ^ 64 - 2 ^ 63"

definition in64 :: "int \<Rightarrow> bool" where
  "in64 x \<longleftrightarrow> - (2 ^ 63) \<le> x \<and> x < 2 ^ 63"

definition maxInt64 :: int where
  "maxInt64 = 2 ^ 63 - 1"

text \<open>
  The quotient and the remainder of Go truncate towards zero. Division by zero panics, which is
  \<open>None\<close>.
\<close>

definition go_quot :: "int \<Rightarrow> int \<Rightarrow> int" where
  "go_quot a b = i64 (sgn a * sgn b * (\<bar>a\<bar> div \<bar>b\<bar>))"

definition go_div :: "int \<Rightarrow> int \<Rightarrow> int option" where
  "go_div a b = (if b = 0 then None else Some (go_quot a b))"

definition go_mod :: "int \<Rightarrow> int \<Rightarrow> int option" where
  "go_mod a b = (if b = 0 then None else Some (sgn a * (\<bar>a\<bar> mod \<bar>b\<bar>)))"

section \<open>Big-endian accessors\<close>

definition putUint16 :: "uint16 \<Rightarrow> bytes" where
  "putUint16 v = [ucast (drop_bit 8 v), ucast v]"

definition getUint16 :: "byte \<Rightarrow> byte \<Rightarrow> uint16" where
  "getUint16 a b = or (ucast b) (push_bit 8 (ucast a))"

definition putUint32 :: "uint32 \<Rightarrow> bytes" where
  "putUint32 v = [ucast (drop_bit 24 v), ucast (drop_bit 16 v), ucast (drop_bit 8 v), ucast v]"

definition getUint32 :: "byte \<Rightarrow> byte \<Rightarrow> byte \<Rightarrow> byte \<Rightarrow> uint32" where
  "getUint32 a b c d =
     or (or (or (ucast d) (push_bit 8 (ucast c))) (push_bit 16 (ucast b))) (push_bit 24 (ucast a))"

definition putUint64 :: "uint64 \<Rightarrow> bytes" where
  "putUint64 v = [ucast (drop_bit 56 v), ucast (drop_bit 48 v), ucast (drop_bit 40 v),
     ucast (drop_bit 32 v), ucast (drop_bit 24 v), ucast (drop_bit 16 v), ucast (drop_bit 8 v),
     ucast v]"

section \<open>Slices\<close>

text \<open>\<open>subslice i j xs\<close> is \<open>xs[i:j]\<close>; the callers establish \<open>i \<le> j \<le> len xs\<close>.\<close>

definition subslice :: "nat \<Rightarrow> nat \<Rightarrow> 'a list \<Rightarrow> 'a list" where
  "subslice i j xs = take (j - i) (drop i xs)"

text \<open>\<open>put_at off xs buf\<close> overwrites \<open>buf[off : off + len xs]\<close> with \<open>xs\<close>.\<close>

definition put_at :: "nat \<Rightarrow> 'a list \<Rightarrow> 'a list \<Rightarrow> 'a list" where
  "put_at off xs buf = take off buf @ xs @ drop (off + length xs) buf"

text \<open>
  A buffer of \<open>n\<close> bytes handed out by the message pool. Pooled buffers are not cleared, so
  what they hold is an argument, padded or cut to the length that was asked for.
\<close>

definition pool_buffer :: "(nat \<Rightarrow> bytes) \<Rightarrow> nat \<Rightarrow> bytes" where
  "pool_buffer dirt n = take n (dirt n @ replicate n 0)"

section \<open>Readers and writers\<close>

datatype io_error = EOF | ErrUnexpectedEOF | ErrShortWrite | IoFailure nat

record reader =
  rd_data :: bytes
  rd_err :: io_error

text \<open>
  \<^verbatim>\<open>io.ReadFull(r, buf)\<close> with \<open>len buf = n\<close>. It reads until the buffer is full; \<open>EOF\<close>
  is returned only if no byte was read, \<open>ErrUnexpectedEOF\<close> replaces an \<open>EOF\<close> after some
  bytes, and every other error of the reader is returned as it is. The bytes read are
  consumed in each case.
\<close>

definition readFull :: "nat \<Rightarrow> reader \<Rightarrow> (io_error + bytes) \<times> reader" where
  "readFull n r =
     (if n \<le> length (rd_data r)
      then (Inr (take n (rd_data r)), r\<lparr>rd_data := drop n (rd_data r)\<rparr>)
      else (Inl (if rd_err r = EOF \<and> rd_data r \<noteq> [] then ErrUnexpectedEOF else rd_err r),
            r\<lparr>rd_data := []\<rparr>))"

record writer =
  wr_log :: "bytes list"
  wr_script :: "(nat \<times> io_error option) list"

text \<open>
  One \<open>w.Write(p)\<close>: the scripted outcome \<open>(n, err)\<close> accepts the first \<open>n\<close> bytes of
  \<open>p\<close>; with no scripted outcome left the whole chunk is accepted.
\<close>

fun writeCall :: "writer \<Rightarrow> bytes \<Rightarrow> (nat \<times> io_error option) \<times> writer" where
  "writeCall w p =
     (case wr_script w of
        [] \<Rightarrow> ((length p, None), w\<lparr>wr_log := wr_log w @ [p]\<rparr>)
      | (n, e) # rest \<Rightarrow>
          ((min n (length p), e),
           w\<lparr>wr_log := wr_log w @ [take n p], wr_script := rest\<rparr>))"

definition written :: "writer \<Rightarrow> bytes" where
  "written w = concat (wr_log w)"

section \<open>Lemmas: 64-bit arithmetic\<close>

lemma i64_id [go_int]: "in64 x \<Longrightarrow> i64 x = x"
  by (simp add: i64_def in64_def)

lemma in64_i64 [simp]: "in64 (i64 x)"
  using pos_mod_bound [of "2 ^ 64" "x + 2 ^ 63"] pos_mod_sign [of "2 ^ 64" "x + 2 ^ 63"]
  by (simp add: i64_def in64_def)

lemma i64_idem [simp]: "i64 (i64 x) = i64 x"
  by (simp add: i64_id)

lemma i64_mod: "i64 x = i64 y \<longleftrightarrow> x mod 2 ^ 64 = y mod 2 ^ 64"
  by (auto simp: i64_def mod_eq_dvd_iff)

lemma i64_congI: "x mod 2 ^ 64 = y mod 2 ^ 64 \<Longrightarrow> i64 x = i64 y"
  by (simp add: i64_mod)

lemma i64_mod_self [simp]: "i64 x mod 2 ^ 64 = x mod 2 ^ 64"
  using i64_mod [of "i64 x" x] by simp

lemma i64_add_left [simp]: "i64 (i64 x + y) = i64 (x + y)"
  by (rule i64_congI) (metis i64_mod_self mod_add_left_eq)

lemma i64_add_right [simp]: "i64 (x + i64 y) = i64 (x + y)"
  using i64_add_left [of y x] by (simp add: add.commute)

lemma i64_diff_left [simp]: "i64 (i64 x - y) = i64 (x - y)"
  by (rule i64_congI) (metis i64_mod_self mod_diff_left_eq)

lemma i64_diff_right [simp]: "i64 (x - i64 y) = i64 (x - y)"
  by (rule i64_congI) (metis i64_mod_self mod_diff_right_eq)

lemma i64_i64 [simp]: "i64 (i64 x) = i64 x"
  using i64_add_left [of x 0] by simp

lemma i64_uminus [simp]: "i64 (- i64 x) = i64 (- x)"
  using i64_diff_right [of 0 x] by simp

lemma in64_0 [simp]: "in64 0"
  by (simp add: in64_def)

lemma i64_0 [simp]: "i64 0 = 0"
  by (simp add: i64_id)

lemma go_div_pos:
  assumes "0 \<le> a" "0 < b" "a < 2 ^ 63"
  shows "go_div a b = Some (a div b)" "go_mod a b = Some (a mod b)"
proof -
  have "a div b \<le> a" "0 \<le> a div b" using zdiv_mono2 [of a 1 b] assms by (simp_all add: pos_imp_zdiv_nonneg_iff)
  then have "i64 (a div b) = a div b" using assms(3) by (intro i64_id) (simp add: in64_def)
  then show "go_div a b = Some (a div b)" "go_mod a b = Some (a mod b)"
    using assms by (cases "a = 0"; simp add: go_div_def go_mod_def go_quot_def)+
qed

lemma in64_between: "in64 a \<Longrightarrow> in64 b \<Longrightarrow> a \<le> x \<Longrightarrow> x \<le> b \<Longrightarrow> in64 x"
  by (simp add: in64_def)

lemma in64_nonneg_le: "0 \<le> x \<Longrightarrow> x \<le> b \<Longrightarrow> in64 b \<Longrightarrow> in64 x"
  using in64_between [of 0 b x] by simp

section \<open>Lemmas: big-endian accessors\<close>

lemma getUint16_put [simp, go_bytes]:
  "getUint16 (ucast (drop_bit 8 v)) (ucast v) = v"
  unfolding getUint16_def
  by (rule bit_word_eqI) (auto simp: bit_simps)

lemma getUint32_put [simp, go_bytes]:
  "getUint32 (ucast (drop_bit 24 v)) (ucast (drop_bit 16 v)) (ucast (drop_bit 8 v)) (ucast v) = v"
proof (rule bit_word_eqI)
  fix n
  assume "n < LENGTH(32)"
  then consider "n < 8" | "8 \<le> n \<and> n < 16" | "16 \<le> n \<and> n < 24" | "24 \<le> n \<and> n < 32"
    by fastforce
  then show "bit (getUint32 (ucast (drop_bit 24 v)) (ucast (drop_bit 16 v))
      (ucast (drop_bit 8 v)) (ucast v)) n = bit v n"
    by cases (auto simp: getUint32_def bit_simps)
qed

lemma length_put [simp]:
  "length (putUint16 v) = 2" "length (putUint32 w) = 4" "length (putUint64 x) = 8"
  by (simp_all add: putUint16_def putUint32_def putUint64_def)

section \<open>Lemmas: pairs\<close>

lemma map_prod_id_eqE:
  assumes "map_prod f id x = (a, b)"
  obtains c where "a = f c" and "x = (c, b)"
  using assms by (cases x) auto

section \<open>Lemmas: slices\<close>

lemma length_pool_buffer [simp]: "length (pool_buffer dirt n) = n"
  by (simp add: pool_buffer_def)

lemma length_put_at [simp]:
  "off + length xs \<le> length buf \<Longrightarrow> length (put_at off xs buf) = length buf"
  by (simp add: put_at_def)

lemma put_at_append:
  "off = length pre \<Longrightarrow> length xs \<le> length buf \<Longrightarrow>
   put_at off xs (pre @ buf) = pre @ xs @ drop (length xs) buf"
  by (simp add: put_at_def)

lemma subslice_0_length [simp]: "subslice 0 (length xs) xs = xs"
  by (simp add: subslice_def)

lemma length_subslice [simp]: "i \<le> j \<Longrightarrow> j \<le> length xs \<Longrightarrow> length (subslice i j xs) = j - i"
  by (simp add: subslice_def)

lemma subslice_append [go_bytes]:
  "i \<le> j \<Longrightarrow> j \<le> k \<Longrightarrow> subslice i j xs @ subslice j k xs = subslice i k xs"
proof -
  assume le: "i \<le> j" "j \<le> k"
  have "take (j - i + (k - j)) (drop i xs) = take (j - i) (drop i xs) @ take (k - j) (drop (j - i) (drop i xs))"
    by (rule take_add)
  moreover have "j - i + (k - j) = k - i" "j - i + i = j"
    using le by simp_all
  ultimately show ?thesis
    by (simp add: subslice_def)
qed

section \<open>Lemmas: readers and writers\<close>

lemma readFull_ok:
  "length xs = n \<Longrightarrow> readFull n \<lparr>rd_data = xs @ rest, rd_err = e\<rparr> =
     (Inr xs, \<lparr>rd_data = rest, rd_err = e\<rparr>)"
  by (simp add: readFull_def)

lemma written_append [simp]:
  "written (w\<lparr>wr_log := wr_log w @ ps\<rparr>) = written w @ concat ps"
  "written (w\<lparr>wr_log := wr_log w @ ps, wr_script := s\<rparr>) = written w @ concat ps"
  by (simp_all add: written_def)

end
