(* ===== verification/Message_Framer.thy ===== *)
theory Message_Framer
  imports Go_Prelude
begin

text \<open>
  The two length-prefixed stream formats: \<^verbatim>\<open>Framer\<close> (message_framer.go, a 16-bit length
  and a 16-bit split hint) and \<^verbatim>\<open>FramerXl\<close> (message_framer_xl.go, a 32-bit length). Each
  method of the source is one definition; the log lines of the rejected frames are left
  out. A buffer from the message pool is \<open>pool_buffer dirt n\<close>: \<open>n\<close> bytes whose old content
  \<open>dirt\<close> is arbitrary.

  The locale \<open>framed_stream\<close> states what a framed connection relies on, that reading a
  written frame gives the message back and leaves the rest of the stream, and both
  formats interpret it.
\<close>

section \<open>Framer: settings and construction\<close>

record framerSettings =
  fs_maxMessageLen :: int
  fs_splitMinimumLen :: int

record framer =
  fr_maxFrameLen :: int
  fr_settings :: framerSettings

datatype framer_error =
    MaxMessageLenExceeded int int
  | MaxPossibleMessageLenExceeded int int
  | FramerBatchStorageTooSmall int int
  | FramerBatchByteCountOverflow
  | FramerIo io_error

definition DefaultFramerSettings :: "int \<Rightarrow> framerSettings" where
  "DefaultFramerSettings maxMessageLen =
     \<lparr>fs_maxMessageLen = maxMessageLen, fs_splitMinimumLen = 256\<rparr>"

definition NewFramer :: "framerSettings \<Rightarrow> framer" where
  "NewFramer settings =
     \<lparr>fr_maxFrameLen = i64 (fs_maxMessageLen settings + 4), fr_settings = settings\<rparr>"

section \<open>Framer: reading\<close>

definition Framer_ReadHeader :: "framer \<Rightarrow> reader \<Rightarrow> (framer_error + nat) \<times> reader" where
  "Framer_ReadHeader f r =
     (case readFull 4 r of
        (Inl e, r') \<Rightarrow> (Inl (FramerIo e), r')
      | (Inr h, r') \<Rightarrow>
          let messageLen = unat (getUint16 (h ! 0) (h ! 1))
          in if fr_maxFrameLen f < int messageLen + 4
             then (Inl (MaxMessageLenExceeded (fs_maxMessageLen (fr_settings f)) (int messageLen)), r')
             else (Inr messageLen, r'))"

definition Framer_Read :: "framer \<Rightarrow> reader \<Rightarrow> (framer_error + bytes) \<times> reader" where
  "Framer_Read f r =
     (case Framer_ReadHeader f r of
        (Inl e, r') \<Rightarrow> (Inl e, r')
      | (Inr messageLen, r') \<Rightarrow>
          (case readFull messageLen r' of
             (Inl e, r'') \<Rightarrow> (Inl (FramerIo e), r'')
           | (Inr message, r'') \<Rightarrow> (Inr message, r'')))"

section \<open>Framer: writing\<close>

text \<open>One checked stream write: the error of the writer, or \<open>ErrShortWrite\<close>.\<close>

definition writeChunk :: "writer \<Rightarrow> bytes \<Rightarrow> io_error option \<times> writer" where
  "writeChunk w p =
     (case writeCall w p of
        ((nw, Some e), w') \<Rightarrow> (Some e, w')
      | ((nw, None), w') \<Rightarrow> (if nw < length p then Some ErrShortWrite else None, w'))"

definition Framer_Write ::
  "(nat \<Rightarrow> bytes) \<Rightarrow> framer \<Rightarrow> writer \<Rightarrow> bytes \<Rightarrow> framer_error option \<times> writer" where
  "Framer_Write dirt f w message =
     (let messageLen = length message in
      if fr_maxFrameLen f < int messageLen + 4
      then (Some (MaxMessageLenExceeded (fs_maxMessageLen (fr_settings f)) (int messageLen)), w)
      else if 65535 < int messageLen
      then (Some (MaxPossibleMessageLenExceeded 65535 (int messageLen)), w)
      else if int messageLen < max 16 (fs_splitMinimumLen (fr_settings f))
      then
        let buf = pool_buffer dirt (messageLen + 4);
            buf = put_at 0 (putUint16 (of_nat messageLen)) buf;
            buf = put_at 2 (putUint16 0) buf;
            buf = put_at 4 message buf
        in map_prod (map_option FramerIo) id (writeChunk w (take (messageLen + 4) buf))
      else
        let splitIndex = messageLen div 2;
            h = pool_buffer dirt (splitIndex + 4);
            h = put_at 0 (putUint16 (of_nat messageLen)) h;
            h = put_at 2 (putUint16 (of_nat splitIndex)) h;
            h = put_at 4 (take splitIndex message) h
        in (case writeChunk w (take (4 + splitIndex) h) of
              (Some e, w') \<Rightarrow> (Some (FramerIo e), w')
            | (None, w') \<Rightarrow>
                map_prod (map_option FramerIo) id
                  (writeChunk w' (subslice splitIndex messageLen message))))"

fun Framer_writeBatchByteCount_loop :: "framer \<Rightarrow> int \<Rightarrow> bytes list \<Rightarrow> framer_error + int" where
  "Framer_writeBatchByteCount_loop f totalByteCount [] = Inr totalByteCount"
| "Framer_writeBatchByteCount_loop f totalByteCount (message # messages) =
     (let n = int (length message) in
      if fr_maxFrameLen f < n + 4
      then Inl (MaxMessageLenExceeded (fs_maxMessageLen (fr_settings f)) n)
      else if 65535 < n then Inl (MaxPossibleMessageLenExceeded 65535 n)
      else if maxInt64 - totalByteCount < n + 4 then Inl FramerBatchByteCountOverflow
      else Framer_writeBatchByteCount_loop f (totalByteCount + (n + 4)) messages)"

definition Framer_writeBatchByteCount :: "framer \<Rightarrow> bytes list \<Rightarrow> framer_error + int" where
  "Framer_writeBatchByteCount f messages = Framer_writeBatchByteCount_loop f 0 messages"

fun writeFramerBatch_fill :: "nat \<Rightarrow> bytes list \<Rightarrow> bytes \<Rightarrow> bytes" where
  "writeFramerBatch_fill offset [] batchBytes = batchBytes"
| "writeFramerBatch_fill offset (message # messages) batchBytes =
     (let n = length message;
          b = put_at offset (putUint16 (of_nat n)) batchBytes;
          b = put_at (offset + 2) (putUint16 0) b;
          b = put_at (offset + 4) message b
      in writeFramerBatch_fill (offset + (n + 4)) messages b)"

definition writeFramerBatch :: "writer \<Rightarrow> bytes list \<Rightarrow> bytes \<Rightarrow> io_error option \<times> writer" where
  "writeFramerBatch w messages batchBytes =
     writeChunk w (writeFramerBatch_fill 0 messages batchBytes)"

definition Framer_WriteBatch ::
  "(nat \<Rightarrow> bytes) \<Rightarrow> framer \<Rightarrow> writer \<Rightarrow> bytes list \<Rightarrow> framer_error option \<times> writer" where
  "Framer_WriteBatch dirt f w messages =
     (case messages of
        [] \<Rightarrow> (None, w)
      | [message] \<Rightarrow> Framer_Write dirt f w message
      | _ \<Rightarrow>
          (case Framer_writeBatchByteCount f messages of
             Inl e \<Rightarrow> (Some e, w)
           | Inr totalByteCount \<Rightarrow>
               map_prod (map_option FramerIo) id
                 (writeFramerBatch w messages (pool_buffer dirt (nat totalByteCount)))))"

definition Framer_WriteBatchWithStorage ::
  "(nat \<Rightarrow> bytes) \<Rightarrow> framer \<Rightarrow> writer \<Rightarrow> bytes list \<Rightarrow> bytes \<Rightarrow> framer_error option \<times> writer" where
  "Framer_WriteBatchWithStorage dirt f w messages storage =
     (if messages = [] then (None, w)
      else if length messages = 1 \<and> length storage < length (hd messages) + 4
      then Framer_Write dirt f w (hd messages)
      else
        (case Framer_writeBatchByteCount f messages of
           Inl e \<Rightarrow> (Some e, w)
         | Inr totalByteCount \<Rightarrow>
             if int (length storage) < totalByteCount
             then (Some (FramerBatchStorageTooSmall (int (length storage)) totalByteCount), w)
             else map_prod (map_option FramerIo) id
                    (writeFramerBatch w messages (take (nat totalByteCount) storage))))"

section \<open>FramerXl: settings and construction\<close>

definition framerXlHeaderLen :: int where
  "framerXlHeaderLen = 4"

definition framerXlDefaultBatchLen :: int where
  "framerXlDefaultBatchLen = 16 * 1024"

definition MessagePoolMetaByteCount :: int where
  "MessagePoolMetaByteCount = 13"

record framerXlSettings =
  xs_maxMessageLen :: int
  xs_maxBatchLen :: int

datatype framer_xl_error =
    XlSettingsRequired
  | XlInvalidMaxMessageLen int
  | XlInvalidMaxBatchLen int
  | XlMessageLengthExceeds int int
  | XlBatchLengthExceeds int int
  | XlBatchByteCountOverflow
  | XlBatchStorageTooSmall int int
  | XlIo io_error

record framerXl =
  xl_maxMessageLen :: int
  xl_maxBatchLen :: int
  xl_settingsErr :: "framer_xl_error option"

definition DefaultFramerXlSettings :: "int \<Rightarrow> framerXlSettings" where
  "DefaultFramerXlSettings maxMessageLen =
     \<lparr>xs_maxMessageLen = maxMessageLen, xs_maxBatchLen = framerXlDefaultBatchLen\<rparr>"

definition NewFramerXl :: "framerXlSettings option \<Rightarrow> framerXl" where
  "NewFramerXl settings =
     (case settings of
        None \<Rightarrow> \<lparr>xl_maxMessageLen = 0, xl_maxBatchLen = 0, xl_settingsErr = Some XlSettingsRequired\<rparr>
      | Some s \<Rightarrow>
          \<lparr>xl_maxMessageLen = xs_maxMessageLen s, xl_maxBatchLen = xs_maxBatchLen s,
           xl_settingsErr =
             (if xs_maxMessageLen s < 0 \<or> 2 ^ 32 - 1 < xs_maxMessageLen s
                 \<or> maxInt64 - framerXlHeaderLen - MessagePoolMetaByteCount < xs_maxMessageLen s
              then Some (XlInvalidMaxMessageLen (xs_maxMessageLen s))
              else if xs_maxBatchLen s < framerXlHeaderLen
                 \<or> maxInt64 - MessagePoolMetaByteCount < xs_maxBatchLen s
              then Some (XlInvalidMaxBatchLen (xs_maxBatchLen s))
              else None)\<rparr>)"

section \<open>FramerXl: reading\<close>

text \<open>
  The comparison is between \<open>uint64\<close> values: a negative maximum would be converted to a
  huge unsigned one, so the conversion is written out.
\<close>

definition FramerXl_ReadHeader :: "framerXl \<Rightarrow> reader \<Rightarrow> (framer_xl_error + nat) \<times> reader" where
  "FramerXl_ReadHeader f r =
     (case xl_settingsErr f of
        Some e \<Rightarrow> (Inl e, r)
      | None \<Rightarrow>
          (case readFull 4 r of
             (Inl e, r') \<Rightarrow> (Inl (XlIo e), r')
           | (Inr h, r') \<Rightarrow>
               let wireLen = getUint32 (h ! 0) (h ! 1) (h ! 2) (h ! 3)
               in if unat (of_int (xl_maxMessageLen f) :: uint64) < unat wireLen
                  then (Inl (XlMessageLengthExceeds (uint wireLen) (xl_maxMessageLen f)), r')
                  else (Inr (unat wireLen), r')))"

definition FramerXl_Read :: "framerXl \<Rightarrow> reader \<Rightarrow> (framer_xl_error + bytes) \<times> reader" where
  "FramerXl_Read f r =
     (case FramerXl_ReadHeader f r of
        (Inl e, r') \<Rightarrow> (Inl e, r')
      | (Inr messageLen, r') \<Rightarrow>
          (case readFull messageLen r' of
             (Inl e, r'') \<Rightarrow> (Inl (XlIo e), r'')
           | (Inr message, r'') \<Rightarrow> (Inr message, r'')))"

section \<open>FramerXl: writing\<close>

definition FramerXl_validateMessageLen :: "framerXl \<Rightarrow> int \<Rightarrow> framer_xl_error option" where
  "FramerXl_validateMessageLen f messageLen =
     (case xl_settingsErr f of
        Some e \<Rightarrow> Some e
      | None \<Rightarrow>
          if messageLen < 0 \<or> xl_maxMessageLen f < messageLen
          then Some (XlMessageLengthExceeds messageLen (xl_maxMessageLen f))
          else None)"

definition framerXlAddFrameByteCount :: "int \<Rightarrow> int \<Rightarrow> framer_xl_error + int" where
  "framerXlAddFrameByteCount totalByteCount messageLen =
     (if totalByteCount < 0 \<or> messageLen < 0 \<or> maxInt64 - framerXlHeaderLen - totalByteCount < messageLen
      then Inl XlBatchByteCountOverflow
      else Inr (totalByteCount + framerXlHeaderLen + messageLen))"

text \<open>The loop of \<^verbatim>\<open>writeBatchByteCount\<close>; \<open>many\<close> is \<open>len(messages) > 1\<close> of the whole batch.\<close>

fun FramerXl_writeBatchByteCount_loop ::
  "framerXl \<Rightarrow> bool \<Rightarrow> int \<Rightarrow> bytes list \<Rightarrow> framer_xl_error + int" where
  "FramerXl_writeBatchByteCount_loop f many totalByteCount [] = Inr totalByteCount"
| "FramerXl_writeBatchByteCount_loop f many totalByteCount (message # messages) =
     (case FramerXl_validateMessageLen f (int (length message)) of
        Some e \<Rightarrow> Inl e
      | None \<Rightarrow>
          (case framerXlAddFrameByteCount totalByteCount (int (length message)) of
             Inl e \<Rightarrow> Inl e
           | Inr totalByteCount' \<Rightarrow>
               if many \<and> xl_maxBatchLen f < totalByteCount'
               then Inl (XlBatchLengthExceeds totalByteCount' (xl_maxBatchLen f))
               else FramerXl_writeBatchByteCount_loop f many totalByteCount' messages))"

definition FramerXl_writeBatchByteCount :: "framerXl \<Rightarrow> bytes list \<Rightarrow> framer_xl_error + int" where
  "FramerXl_writeBatchByteCount f messages =
     (case xl_settingsErr f of
        Some e \<Rightarrow> Inl e
      | None \<Rightarrow> FramerXl_writeBatchByteCount_loop f (1 < length messages) 0 messages)"

definition writeFramerXlBytes :: "writer \<Rightarrow> bytes \<Rightarrow> io_error option \<times> writer" where
  "writeFramerXlBytes w message =
     (case writeCall w message of
        ((n, Some e), w') \<Rightarrow> (Some e, w')
      | ((n, None), w') \<Rightarrow> (if n \<noteq> length message then Some ErrShortWrite else None, w'))"

fun writeFramerXlBatch_fill :: "nat \<Rightarrow> bytes list \<Rightarrow> bytes \<Rightarrow> bytes" where
  "writeFramerXlBatch_fill offset [] storage = storage"
| "writeFramerXlBatch_fill offset (message # messages) storage =
     (let s = put_at offset (putUint32 (of_nat (length message))) storage;
          s = put_at (offset + 4) message s
      in writeFramerXlBatch_fill (offset + 4 + length message) messages s)"

definition writeFramerXlBatch :: "writer \<Rightarrow> bytes list \<Rightarrow> bytes \<Rightarrow> io_error option \<times> writer" where
  "writeFramerXlBatch w messages storage =
     writeFramerXlBytes w (writeFramerXlBatch_fill 0 messages storage)"

definition FramerXl_Write ::
  "(nat \<Rightarrow> bytes) \<Rightarrow> framerXl \<Rightarrow> writer \<Rightarrow> bytes \<Rightarrow> framer_xl_error option \<times> writer" where
  "FramerXl_Write dirt f w message =
     (case FramerXl_validateMessageLen f (int (length message)) of
        Some e \<Rightarrow> (Some e, w)
      | None \<Rightarrow>
          let frame = pool_buffer dirt (length message + 4);
              frame = put_at 0 (putUint32 (of_nat (length message))) frame;
              frame = put_at 4 message frame
          in map_prod (map_option XlIo) id (writeFramerXlBytes w frame))"

definition FramerXl_WriteBatch ::
  "(nat \<Rightarrow> bytes) \<Rightarrow> framerXl \<Rightarrow> writer \<Rightarrow> bytes list \<Rightarrow> framer_xl_error option \<times> writer" where
  "FramerXl_WriteBatch dirt f w messages =
     (case xl_settingsErr f of
        Some e \<Rightarrow> (Some e, w)
      | None \<Rightarrow>
          (case messages of
             [] \<Rightarrow> (None, w)
           | [message] \<Rightarrow> FramerXl_Write dirt f w message
           | _ \<Rightarrow>
               (case FramerXl_writeBatchByteCount f messages of
                  Inl e \<Rightarrow> (Some e, w)
                | Inr byteCount \<Rightarrow>
                    map_prod (map_option XlIo) id
                      (writeFramerXlBatch w messages (pool_buffer dirt (nat byteCount))))))"

definition FramerXl_WriteBatchWithStorage ::
  "(nat \<Rightarrow> bytes) \<Rightarrow> framerXl \<Rightarrow> writer \<Rightarrow> bytes list \<Rightarrow> bytes \<Rightarrow>
   framer_xl_error option \<times> writer" where
  "FramerXl_WriteBatchWithStorage dirt f w messages storage =
     (case xl_settingsErr f of
        Some e \<Rightarrow> (Some e, w)
      | None \<Rightarrow>
          if messages = [] then (None, w)
          else
            (case FramerXl_writeBatchByteCount f messages of
               Inl e \<Rightarrow> (Some e, w)
             | Inr byteCount \<Rightarrow>
                 if int (length storage) < byteCount
                 then (if length messages = 1 then FramerXl_Write dirt f w (hd messages)
                       else (Some (XlBatchStorageTooSmall (int (length storage)) byteCount), w))
                 else map_prod (map_option XlIo) id
                        (writeFramerXlBatch w messages (take (nat byteCount) storage))))"


section \<open>The wire format\<close>

text \<open>
  What a frame looks like on the wire, and which messages a framer admits. The split hint
  is the only difference between a message written in one and in two stream writes.
\<close>

definition frame_wire :: "nat \<Rightarrow> bytes \<Rightarrow> bytes" where
  "frame_wire hint m = putUint16 (of_nat (length m)) @ putUint16 (of_nat hint) @ m"

definition framer_hint :: "framer \<Rightarrow> bytes \<Rightarrow> nat" where
  "framer_hint f m =
     (if int (length m) < max 16 (fs_splitMinimumLen (fr_settings f)) then 0 else length m div 2)"

definition framer_wire :: "framer \<Rightarrow> bytes \<Rightarrow> bytes" where
  "framer_wire f m = frame_wire (framer_hint f m) m"

definition framer_admits :: "framer \<Rightarrow> bytes \<Rightarrow> bool" where
  "framer_admits f m \<longleftrightarrow> int (length m) + 4 \<le> fr_maxFrameLen f \<and> length m \<le> 65535"

definition frame_wire_xl :: "bytes \<Rightarrow> bytes" where
  "frame_wire_xl m = putUint32 (of_nat (length m)) @ m"

definition framer_xl_admits :: "framerXl \<Rightarrow> bytes \<Rightarrow> bool" where
  "framer_xl_admits f m \<longleftrightarrow> xl_settingsErr f = None \<and> int (length m) \<le> xl_maxMessageLen f"

definition framer_xl_wf :: "framerXl \<Rightarrow> bool" where
  "framer_xl_wf f \<longleftrightarrow> xl_settingsErr f = None \<longrightarrow>
     0 \<le> xl_maxMessageLen f \<and> xl_maxMessageLen f < 2 ^ 32 \<and> 4 \<le> xl_maxBatchLen f"

text \<open>The client loops: write messages until the first error, read a number of messages.\<close>

fun write_all :: "(writer \<Rightarrow> bytes \<Rightarrow> 'e option \<times> writer) \<Rightarrow> writer \<Rightarrow> bytes list \<Rightarrow> 'e option \<times> writer" where
  "write_all wr w [] = (None, w)"
| "write_all wr w (m # ms) =
     (case wr w m of (Some e, w') \<Rightarrow> (Some e, w') | (None, w') \<Rightarrow> write_all wr w' ms)"

fun read_all :: "(reader \<Rightarrow> ('e + bytes) \<times> reader) \<Rightarrow> nat \<Rightarrow> reader \<Rightarrow> ('e + bytes list) \<times> reader" where
  "read_all rd 0 r = (Inr [], r)"
| "read_all rd (Suc n) r =
     (case rd r of
        (Inl e, r') \<Rightarrow> (Inl e, r')
      | (Inr m, r') \<Rightarrow> map_prod (map_sum id ((#) m)) id (read_all rd n r'))"

section \<open>The interface of a framed stream\<close>

locale framed_stream =
  fixes wire :: "bytes \<Rightarrow> bytes"
    and write_frame :: "writer \<Rightarrow> bytes \<Rightarrow> 'e option \<times> writer"
    and read_frame :: "reader \<Rightarrow> ('e + bytes) \<times> reader"
    and admits :: "bytes \<Rightarrow> bool"
  assumes read_wire: "admits m \<Longrightarrow>
      read_frame \<lparr>rd_data = wire m @ rest, rd_err = e\<rparr> = (Inr m, \<lparr>rd_data = rest, rd_err = e\<rparr>)"
    and write_wire: "admits m \<Longrightarrow> wr_script w = [] \<Longrightarrow>
      \<exists>w'. write_frame w m = (None, w') \<and> written w' = written w @ wire m \<and> wr_script w' = []"
begin

lemma read_all_wire:
  "list_all admits ms \<Longrightarrow>
   read_all read_frame (length ms) \<lparr>rd_data = concat (map wire ms) @ rest, rd_err = e\<rparr> =
     (Inr ms, \<lparr>rd_data = rest, rd_err = e\<rparr>)"
  by (induction ms) (simp_all add: read_wire)

lemma write_all_wire:
  "list_all admits ms \<Longrightarrow> wr_script w = [] \<Longrightarrow>
   \<exists>w'. write_all write_frame w ms = (None, w') \<and> wr_script w' = [] \<and>
        written w' = written w @ concat (map wire ms)"
proof (induction ms arbitrary: w)
  case (Cons m ms)
  obtain w1 where w1: "write_frame w m = (None, w1)" "written w1 = written w @ wire m"
    "wr_script w1 = []"
    using write_wire [of m w] Cons.prems by auto
  then show ?case
    using Cons.IH [of w1] Cons.prems(1) by auto
qed simp

lemma roundtrip:
  assumes "list_all admits ms" and "wr_script w = []" and "written w = []"
  shows "\<exists>w'. write_all write_frame w ms = (None, w') \<and>
    read_all read_frame (length ms) \<lparr>rd_data = written w' @ rest, rd_err = e\<rparr> =
      (Inr ms, \<lparr>rd_data = rest, rd_err = e\<rparr>)"
  using write_all_wire [OF assms(1,2)] read_all_wire [OF assms(1)] assms(3) by auto

end

section \<open>Lemmas: buffers and chunks\<close>

lemma frame_buffer:
  assumes "length buf = length m + 4"
  shows "put_at 4 m (put_at 2 (putUint16 b) (put_at 0 (putUint16 a) buf)) =
     putUint16 a @ putUint16 b @ m"
  using assms by (auto simp: put_at_def putUint16_def numeral_eq_Suc)

lemma frame_buffer_xl:
  assumes "length buf = length m + 4"
  shows "put_at 4 m (put_at 0 (putUint32 a) buf) = putUint32 a @ m"
  using assms by (auto simp: put_at_def putUint32_def numeral_eq_Suc)

lemma writeChunk_cases:
  assumes "writeChunk w p = (r, w')"
  shows "\<exists>k. written w' = written w @ take k p" and "r = None \<Longrightarrow> written w' = written w @ p"
    and "wr_script w = [] \<Longrightarrow> r = None \<and> wr_script w' = [] \<and> wr_log w' = wr_log w @ [p]"
  using assms by (auto simp: writeChunk_def split: list.splits prod.splits option.splits if_splits
      intro: exI [of _ "length p"])

lemma writeChunk_ok:
  "wr_script w = [] \<Longrightarrow> writeChunk w p = (None, w\<lparr>wr_log := wr_log w @ [p]\<rparr>)"
  by (simp add: writeChunk_def)

lemma writeFramerXlBytes_eq [simp]: "writeFramerXlBytes w p = writeChunk w p"
  by (auto simp: writeFramerXlBytes_def writeChunk_def split: list.splits prod.splits option.splits)

lemma writeFramerBatch_fill_wire:
  "offset = length pre \<Longrightarrow> sum_list (map (\<lambda>m. length m + 4) ms) \<le> length buf \<Longrightarrow>
   writeFramerBatch_fill offset ms (pre @ buf) =
     pre @ concat (map (frame_wire 0) ms) @ drop (sum_list (map (\<lambda>m. length m + 4) ms)) buf"
proof (induction ms arbitrary: offset pre buf)
  case (Cons m ms)
  have "put_at (offset + 4) m (put_at (offset + 2) (putUint16 0)
      (put_at offset (putUint16 (of_nat (length m))) (pre @ buf))) =
      (pre @ frame_wire 0 m) @ drop (length m + 4) buf"
    using Cons.prems by (simp add: put_at_def frame_wire_def putUint16_def numeral_eq_Suc)
  then show ?case
    using Cons.IH [of "offset + (length m + 4)" "pre @ frame_wire 0 m" "drop (length m + 4) buf"]
      Cons.prems by (simp add: frame_wire_def Let_def add.commute add.left_commute)
qed simp

lemma writeFramerXlBatch_fill_wire:
  "offset = length pre \<Longrightarrow> sum_list (map (\<lambda>m. length m + 4) ms) \<le> length buf \<Longrightarrow>
   writeFramerXlBatch_fill offset ms (pre @ buf) =
     pre @ concat (map frame_wire_xl ms) @ drop (sum_list (map (\<lambda>m. length m + 4) ms)) buf"
proof (induction ms arbitrary: offset pre buf)
  case (Cons m ms)
  have "put_at (offset + 4) m (put_at offset (putUint32 (of_nat (length m))) (pre @ buf)) =
      (pre @ frame_wire_xl m) @ drop (length m + 4) buf"
    using Cons.prems by (simp add: put_at_def frame_wire_xl_def putUint32_def numeral_eq_Suc)
  then show ?case
    using Cons.IH [of "offset + 4 + length m" "pre @ frame_wire_xl m" "drop (length m + 4) buf"]
      Cons.prems by (simp add: frame_wire_xl_def Let_def add.commute add.left_commute)
qed simp


section \<open>Lemmas: Framer\<close>

lemma length_wires [simp]:
  "length (frame_wire hint m) = length m + 4"
  "length (framer_wire f m) = length m + 4"
  "length (frame_wire_xl m) = length m + 4"
  by (simp_all add: frame_wire_def framer_wire_def frame_wire_xl_def)

text \<open>The two stream writes of a split frame.\<close>

definition writeTwoChunks :: "writer \<Rightarrow> bytes \<Rightarrow> bytes \<Rightarrow> io_error option \<times> writer" where
  "writeTwoChunks w p q =
     (case writeChunk w p of (Some e, w') \<Rightarrow> (Some e, w') | (None, w') \<Rightarrow> writeChunk w' q)"

lemma writeTwoChunks_cases:
  assumes "writeTwoChunks w p q = (r, w')"
  shows "\<exists>k. written w' = written w @ take k (p @ q)" and "r = None \<Longrightarrow> written w' = written w @ p @ q"
proof -
  obtain r1 w1 where first: "writeChunk w p = (r1, w1)" by fastforce
  have "(\<exists>k. written w' = written w @ take k (p @ q)) \<and> (r = None \<longrightarrow> written w' = written w @ p @ q)"
  proof (cases r1)
    case None
    then have second: "writeChunk w1 q = (r, w')" and w1: "written w1 = written w @ p"
      using assms first writeChunk_cases(2) [OF first] by (simp_all add: writeTwoChunks_def)
    obtain j where "written w' = written w1 @ take j q"
      using writeChunk_cases(1) [OF second] by blast
    then have "written w' = written w @ take (length p + j) (p @ q)"
      using w1 by simp
    moreover have "r = None \<Longrightarrow> written w' = written w @ p @ q"
      using writeChunk_cases(2) [OF second] w1 by simp
    ultimately show ?thesis by blast
  next
    case (Some e)
    then have "w' = w1" "r \<noteq> None"
      using assms first by (auto simp: writeTwoChunks_def)
    moreover obtain j where "written w1 = written w @ take j p"
      using writeChunk_cases(1) [OF first] by blast
    then have "written w1 = written w @ take (min j (length p)) (p @ q)"
      by (simp add: min_def)
    ultimately show ?thesis by blast
  qed
  then show "\<exists>k. written w' = written w @ take k (p @ q)"
    and "r = None \<Longrightarrow> written w' = written w @ p @ q" by simp_all
qed

lemma Framer_Write_admits:
  assumes adm: "framer_admits f m"
  shows "Framer_Write dirt f w m = map_prod (map_option FramerIo) id
    (if int (length m) < max 16 (fs_splitMinimumLen (fr_settings f))
     then writeChunk w (framer_wire f m)
     else writeTwoChunks w (take (4 + length m div 2) (framer_wire f m))
       (drop (4 + length m div 2) (framer_wire f m)))"
proof (cases "int (length m) < max 16 (fs_splitMinimumLen (fr_settings f))")
  case True
  moreover have "take (length m + 4) (put_at 4 m (put_at 2 (putUint16 0)
      (put_at 0 (putUint16 (of_nat (length m))) (pool_buffer dirt (length m + 4))))) = framer_wire f m"
    using True by (simp add: frame_buffer framer_wire_def frame_wire_def framer_hint_def)
  ultimately show ?thesis
    using adm by (simp add: Framer_Write_def framer_admits_def framer_hint_def Let_def)
next
  case False
  let ?k = "length m div 2"
  have first: "take (4 + ?k) (put_at 4 (take ?k m) (put_at 2 (putUint16 (of_nat ?k))
      (put_at 0 (putUint16 (of_nat (length m))) (pool_buffer dirt (?k + 4))))) = take (4 + ?k) (framer_wire f m)"
    using False by (simp add: frame_buffer framer_wire_def frame_wire_def framer_hint_def)
  have second: "subslice ?k (length m) m = drop (4 + ?k) (framer_wire f m)"
    using False by (simp add: subslice_def framer_wire_def frame_wire_def framer_hint_def)
  from False first second show ?thesis
    using adm unfolding Framer_Write_def framer_admits_def Let_def
    by (auto simp: writeTwoChunks_def split: prod.splits option.splits)
qed

lemma Framer_Write_rejects:
  "\<not> framer_admits f m \<Longrightarrow> \<exists>e. Framer_Write dirt f w m = (Some e, w)"
  by (auto simp: Framer_Write_def framer_admits_def Let_def)

lemma Framer_Write_ok:
  assumes "framer_admits f m" and "wr_script w = []"
  shows "\<exists>w'. Framer_Write dirt f w m = (None, w') \<and> written w' = written w @ framer_wire f m
    \<and> wr_script w' = []"
  using assms(2) by (auto simp: Framer_Write_admits [OF assms(1)] writeTwoChunks_def writeChunk_ok)

lemma Framer_Read_wire:
  assumes "framer_admits f m"
  shows "Framer_Read f \<lparr>rd_data = frame_wire hint m @ rest, rd_err = e\<rparr> =
    (Inr m, \<lparr>rd_data = rest, rd_err = e\<rparr>)"
proof -
  have "readFull 4 \<lparr>rd_data = frame_wire hint m @ rest, rd_err = e\<rparr> =
      (Inr (putUint16 (of_nat (length m)) @ putUint16 (of_nat hint)), \<lparr>rd_data = m @ rest, rd_err = e\<rparr>)"
    unfolding frame_wire_def
    using readFull_ok [of "putUint16 (of_nat (length m)) @ putUint16 (of_nat hint)" 4 "m @ rest" e]
    by simp
  moreover have "unat (of_nat (length m) :: uint16) = length m"
    using assms by (simp add: unat_of_nat framer_admits_def)
  ultimately have "Framer_ReadHeader f \<lparr>rd_data = frame_wire hint m @ rest, rd_err = e\<rparr> =
      (Inr (length m), \<lparr>rd_data = m @ rest, rd_err = e\<rparr>)"
    using assms by (simp add: Framer_ReadHeader_def putUint16_def Let_def framer_admits_def)
  then show ?thesis
    by (simp add: Framer_Read_def readFull_ok)
qed

lemma readFull_Inr:
  "readFull n r = (Inr xs, r') \<Longrightarrow>
   rd_data r = xs @ rd_data r' \<and> length xs = n \<and> rd_err r' = rd_err r"
  by (auto simp: readFull_def split: if_splits)

interpretation compact: framed_stream "framer_wire f" "Framer_Write dirt f"
  "Framer_Read f" "framer_admits f" for dirt f
proof unfold_locales
  fix m rest e
  assume "framer_admits f m"
  then show "Framer_Read f \<lparr>rd_data = framer_wire f m @ rest, rd_err = e\<rparr> =
      (Inr m, \<lparr>rd_data = rest, rd_err = e\<rparr>)"
    unfolding framer_wire_def by (rule Framer_Read_wire)
next
  fix m and w :: writer
  assume "framer_admits f m" and "wr_script w = []"
  then show "\<exists>w'. Framer_Write dirt f w m = (None, w')
      \<and> written w' = written w @ framer_wire f m \<and> wr_script w' = []"
    by (rule Framer_Write_ok)
qed

lemma Framer_byteCount_loop_Inr:
  "Framer_writeBatchByteCount_loop f t ms = Inr t' \<longleftrightarrow>
     list_all (framer_admits f) ms
   \<and> (ms \<noteq> [] \<longrightarrow> t + int (sum_list (map (\<lambda>m. length m + 4) ms)) \<le> maxInt64)
   \<and> t' = t + int (sum_list (map (\<lambda>m. length m + 4) ms))"
proof (induction ms arbitrary: t)
  case (Cons m ms)
  define S where "S = int (sum_list (map (\<lambda>m. length m + 4) ms))"
  define t1 where "t1 = t + (int (length m) + 4)"
  have S: "0 \<le> S" and tot: "t + int (sum_list (map (\<lambda>m. length m + 4) (m # ms))) = t1 + S"
    and nil: "ms = [] \<Longrightarrow> S = 0"
    by (simp_all add: S_def t1_def)
  have step: "Framer_writeBatchByteCount_loop f t (m # ms) =
      (if framer_admits f m \<and> t1 \<le> maxInt64 then Framer_writeBatchByteCount_loop f t1 ms
       else Inl (if fr_maxFrameLen f < int (length m) + 4
                 then MaxMessageLenExceeded (fs_maxMessageLen (fr_settings f)) (int (length m))
                 else if 65535 < length m then MaxPossibleMessageLenExceeded 65535 (int (length m))
                 else FramerBatchByteCountOverflow))"
    by (auto simp: framer_admits_def t1_def Let_def)
  have IH: "Framer_writeBatchByteCount_loop f t1 ms = Inr t' \<longleftrightarrow>
      list_all (framer_admits f) ms \<and> (ms \<noteq> [] \<longrightarrow> t1 + S \<le> maxInt64) \<and> t' = t1 + S"
    unfolding S_def by (rule Cons.IH)
  show ?case
    unfolding tot step using S nil by (cases "ms = []") (auto simp: IH)
qed auto

lemma writeFramerBatch_wire:
  assumes "length buf = sum_list (map (\<lambda>m. length m + 4) ms)"
  shows "writeFramerBatch w ms buf = writeChunk w (concat (map (frame_wire 0) ms))"
  using writeFramerBatch_fill_wire [of 0 "[]" ms buf] assms by (simp add: writeFramerBatch_def)

lemma Framer_WriteBatch_many:
  "2 \<le> length ms \<Longrightarrow> Framer_writeBatchByteCount f ms = Inr t \<Longrightarrow>
   Framer_WriteBatch dirt f w ms =
     map_prod (map_option FramerIo) id (writeFramerBatch w ms (pool_buffer dirt (nat t)))"
  by (auto simp: Framer_WriteBatch_def split: list.splits)

section \<open>Lemmas: FramerXl\<close>

lemma NewFramerXl_wf: "framer_xl_wf (NewFramerXl settings)"
  by (auto simp: NewFramerXl_def framer_xl_wf_def framerXlHeaderLen_def split: option.splits if_splits)

lemma FramerXl_validate_None:
  "FramerXl_validateMessageLen f (int (length m)) = None \<longleftrightarrow> framer_xl_admits f m"
  by (auto simp: FramerXl_validateMessageLen_def framer_xl_admits_def split: option.splits)

lemma FramerXl_Write_admits:
  assumes "framer_xl_admits f m"
  shows "FramerXl_Write dirt f w m = map_prod (map_option XlIo) id (writeChunk w (frame_wire_xl m))"
proof -
  have "put_at 4 m (put_at 0 (putUint32 (of_nat (length m))) (pool_buffer dirt (length m + 4))) =
      frame_wire_xl m"
    by (simp add: frame_buffer_xl frame_wire_xl_def)
  with assms show ?thesis
    by (simp add: FramerXl_Write_def FramerXl_validate_None [THEN iffD2] Let_def)
qed

lemma FramerXl_ReadHeader_wire:
  assumes "framer_xl_wf f" and "framer_xl_admits f m"
  shows "FramerXl_ReadHeader f \<lparr>rd_data = frame_wire_xl m @ rest, rd_err = e\<rparr> =
    (Inr (length m), \<lparr>rd_data = m @ rest, rd_err = e\<rparr>)"
proof -
  have range: "0 \<le> xl_maxMessageLen f" "xl_maxMessageLen f < 2 ^ 32"
      "int (length m) \<le> xl_maxMessageLen f"
    using assms by (auto simp: framer_xl_wf_def framer_xl_admits_def)
  then have "unat (of_nat (length m) :: uint32) = length m"
    by (simp add: unat_of_nat)
  moreover have "unat (of_int (xl_maxMessageLen f) :: uint64) = nat (xl_maxMessageLen f)"
    using range by (simp add: unat_eq_nat_uint uint_word_of_int)
  ultimately have "\<not> unat (of_int (xl_maxMessageLen f) :: uint64) < unat (of_nat (length m) :: uint32)"
    and "unat (of_nat (length m) :: uint32) = length m"
    using range by simp_all
  moreover have "readFull 4 \<lparr>rd_data = frame_wire_xl m @ rest, rd_err = e\<rparr> =
      (Inr (putUint32 (of_nat (length m))), \<lparr>rd_data = m @ rest, rd_err = e\<rparr>)"
    unfolding frame_wire_xl_def append_assoc by (rule readFull_ok) simp
  ultimately show ?thesis
    using assms(2) unfolding FramerXl_ReadHeader_def framer_xl_admits_def Let_def
    by (simp add: putUint32_def)
qed

lemma FramerXl_Read_wire:
  assumes "framer_xl_wf f" and "framer_xl_admits f m"
  shows "FramerXl_Read f \<lparr>rd_data = frame_wire_xl m @ rest, rd_err = e\<rparr> =
    (Inr m, \<lparr>rd_data = rest, rd_err = e\<rparr>)"
  by (simp add: FramerXl_Read_def FramerXl_ReadHeader_wire [OF assms] readFull_ok)

interpretation xl: framed_stream frame_wire_xl "FramerXl_Write dirt (NewFramerXl settings)"
  "FramerXl_Read (NewFramerXl settings)" "framer_xl_admits (NewFramerXl settings)" for dirt settings
proof unfold_locales
  fix m rest e
  assume "framer_xl_admits (NewFramerXl settings) m"
  then show "FramerXl_Read (NewFramerXl settings) \<lparr>rd_data = frame_wire_xl m @ rest, rd_err = e\<rparr> =
      (Inr m, \<lparr>rd_data = rest, rd_err = e\<rparr>)"
    by (rule FramerXl_Read_wire [OF NewFramerXl_wf])
next
  fix m and w :: writer
  assume "framer_xl_admits (NewFramerXl settings) m" and "wr_script w = []"
  then show "\<exists>w'. FramerXl_Write dirt (NewFramerXl settings) w m = (None, w')
      \<and> written w' = written w @ frame_wire_xl m \<and> wr_script w' = []"
    by (simp add: FramerXl_Write_admits writeChunk_ok)
qed

lemma FramerXl_byteCount_loop_Inr:
  assumes "0 \<le> t"
  shows "FramerXl_writeBatchByteCount_loop f many t ms = Inr t' \<longleftrightarrow>
     list_all (framer_xl_admits f) ms
   \<and> (ms \<noteq> [] \<longrightarrow> t + int (sum_list (map (\<lambda>m. length m + 4) ms)) \<le> maxInt64
        \<and> (many \<longrightarrow> t + int (sum_list (map (\<lambda>m. length m + 4) ms)) \<le> xl_maxBatchLen f))
   \<and> t' = t + int (sum_list (map (\<lambda>m. length m + 4) ms))"
  using assms
proof (induction ms arbitrary: t)
  case (Cons m ms)
  show ?case
  proof (cases "FramerXl_validateMessageLen f (int (length m))")
    case None
    then have adm: "framer_xl_admits f m" by (simp add: FramerXl_validate_None)
    define S where "S = int (sum_list (map (\<lambda>m. length m + 4) ms))"
    define t1 where "t1 = t + 4 + int (length m)"
    have S: "0 \<le> S" and tot: "t + int (sum_list (map (\<lambda>m. length m + 4) (m # ms))) = t1 + S"
      by (simp_all add: S_def t1_def)
    have step: "FramerXl_writeBatchByteCount_loop f many t (m # ms) =
        (if maxInt64 < t1 then Inl XlBatchByteCountOverflow
         else if many \<and> xl_maxBatchLen f < t1 then Inl (XlBatchLengthExceeds t1 (xl_maxBatchLen f))
         else FramerXl_writeBatchByteCount_loop f many t1 ms)"
      using None Cons.prems
      by (auto simp: framerXlAddFrameByteCount_def framerXlHeaderLen_def t1_def)
    have IH: "FramerXl_writeBatchByteCount_loop f many t1 ms = Inr t' \<longleftrightarrow>
        list_all (framer_xl_admits f) ms
      \<and> (ms \<noteq> [] \<longrightarrow> t1 + S \<le> maxInt64 \<and> (many \<longrightarrow> t1 + S \<le> xl_maxBatchLen f)) \<and> t' = t1 + S"
      unfolding S_def using Cons.prems by (intro Cons.IH) (simp add: t1_def)
    have "ms = [] \<Longrightarrow> S = 0" by (simp add: S_def)
    then show ?thesis
      unfolding tot step using S adm by (cases "ms = []") (auto simp: IH)
  next
    case (Some e)
    then show ?thesis
      using FramerXl_validate_None [of f m] by simp
  qed
qed auto

lemma writeFramerXlBatch_wire:
  assumes "length buf = sum_list (map (\<lambda>m. length m + 4) ms)"
  shows "writeFramerXlBatch w ms buf = writeChunk w (concat (map frame_wire_xl ms))"
  using writeFramerXlBatch_fill_wire [of 0 "[]" ms buf] assms by (simp add: writeFramerXlBatch_def)

lemma FramerXl_WriteBatch_many:
  "2 \<le> length ms \<Longrightarrow> xl_settingsErr f = None \<Longrightarrow>
   FramerXl_WriteBatch dirt f w ms =
     (case FramerXl_writeBatchByteCount f ms of
        Inl e \<Rightarrow> (Some e, w)
      | Inr t \<Rightarrow> map_prod (map_option XlIo) id (writeFramerXlBatch w ms (pool_buffer dirt (nat t))))"
  by (auto simp: FramerXl_WriteBatch_def split: list.splits)

section \<open>Properties of the framers\<close>

lemma framer_admits_New:
  assumes "- (2 ^ 63) \<le> fs_maxMessageLen settings" and "fs_maxMessageLen settings \<le> maxInt64 - 4"
  shows "framer_admits (NewFramer settings) m \<longleftrightarrow>
    int (length m) \<le> fs_maxMessageLen settings \<and> length m \<le> 65535"
  using assms by (simp add: framer_admits_def NewFramer_def i64_id in64_def maxInt64_def)

text \<open>
  C5. Whatever the split threshold, a sequence of messages that fit the configured maximum
  and the 16-bit length field, written one by one with \<open>Framer.Write\<close>, is read back by as
  many \<open>Framer.Read\<close> calls, in order, and the stream is left at the byte after the last
  frame.
\<close>

theorem framer_roundtrip:
  assumes "- (2 ^ 63) \<le> fs_maxMessageLen settings" and "fs_maxMessageLen settings \<le> maxInt64 - 4"
    and "\<forall>m \<in> set ms. int (length m) \<le> fs_maxMessageLen settings \<and> length m \<le> 65535"
    and "wr_script w = []" and "written w = []"
  shows "\<exists>w'. write_all (Framer_Write dirt (NewFramer settings)) w ms = (None, w') \<and>
    read_all (Framer_Read (NewFramer settings)) (length ms)
        \<lparr>rd_data = written w' @ rest, rd_err = e\<rparr> =
      (Inr ms, \<lparr>rd_data = rest, rd_err = e\<rparr>)"
proof (rule compact.roundtrip)
  show "list_all (framer_admits (NewFramer settings)) ms"
    using assms(3) by (simp add: list_all_iff framer_admits_New [OF assms(1,2)])
qed (fact assms)+

theorem framer_roundtrip_witness:
  "\<exists>w'. write_all (Framer_Write (\<lambda>_. [9]) (NewFramer (DefaultFramerSettings 100)))
      \<lparr>wr_log = [], wr_script = []\<rparr> [[1, 2], []] = (None, w') \<and>
    read_all (Framer_Read (NewFramer (DefaultFramerSettings 100))) 2
        \<lparr>rd_data = written w' @ [7], rd_err = EOF\<rparr> =
      (Inr [[1, 2], []], \<lparr>rd_data = [7], rd_err = EOF\<rparr>)"
  using framer_roundtrip [of "DefaultFramerSettings 100" "[[1, 2], []]"
      "\<lparr>wr_log = [], wr_script = []\<rparr>" "\<lambda>_. [9]" "[7]" EOF]
  by (simp add: DefaultFramerSettings_def maxInt64_def written_def numeral_2_eq_2)

text \<open>
  C6. A batch of at least two admissible messages is one stream write, whose bytes are
  those of the frames with split index zero in order, whether the scratch buffer comes
  from the pool or from the caller; reading it gives the messages back.
\<close>

theorem framer_batch_wire:
  assumes "list_all (framer_admits f) ms" and "2 \<le> length ms"
    and "int (sum_list (map (\<lambda>m. length m + 4) ms)) \<le> maxInt64"
    and "sum_list (map (\<lambda>m. length m + 4) ms) \<le> length storage" and "wr_script w = []"
  shows "Framer_WriteBatch dirt f w ms =
      (None, w\<lparr>wr_log := wr_log w @ [concat (map (frame_wire 0) ms)]\<rparr>)
    \<and> Framer_WriteBatchWithStorage dirt f w ms storage = Framer_WriteBatch dirt f w ms
    \<and> read_all (Framer_Read f) (length ms)
        \<lparr>rd_data = concat (map (frame_wire 0) ms) @ rest, rd_err = e\<rparr> =
      (Inr ms, \<lparr>rd_data = rest, rd_err = e\<rparr>)"
proof (intro conjI)
  let ?n = "sum_list (map (\<lambda>m. length m + 4) ms)"
  have count: "Framer_writeBatchByteCount f ms = Inr (int ?n)"
    using assms(1,3) by (simp add: Framer_writeBatchByteCount_def Framer_byteCount_loop_Inr)
  have chunk: "writeFramerBatch w ms buf =
      (None, w\<lparr>wr_log := wr_log w @ [concat (map (frame_wire 0) ms)]\<rparr>)" if "length buf = ?n" for buf
    by (simp add: writeFramerBatch_wire [OF that] writeChunk_ok [OF assms(5)])
  show batch: "Framer_WriteBatch dirt f w ms =
      (None, w\<lparr>wr_log := wr_log w @ [concat (map (frame_wire 0) ms)]\<rparr>)"
    using chunk [of "pool_buffer dirt ?n"] by (simp add: Framer_WriteBatch_many [OF assms(2) count])
  show "Framer_WriteBatchWithStorage dirt f w ms storage = Framer_WriteBatch dirt f w ms"
    unfolding batch using chunk [of "take ?n storage"] count assms(2,4)
    by (auto simp: Framer_WriteBatchWithStorage_def)
  show "read_all (Framer_Read f) (length ms)
      \<lparr>rd_data = concat (map (frame_wire 0) ms) @ rest, rd_err = e\<rparr> =
    (Inr ms, \<lparr>rd_data = rest, rd_err = e\<rparr>)"
    using assms(1) by (induction ms) (simp_all add: Framer_Read_wire)
qed

theorem framer_batch_wire_witness:
  "Framer_WriteBatch (\<lambda>_. []) (NewFramer (DefaultFramerSettings 64))
      \<lparr>wr_log = [], wr_script = []\<rparr> [[5], [6, 7]] =
    (None, \<lparr>wr_log = [[0, 1, 0, 0, 5, 0, 2, 0, 0, 6, 7]], wr_script = []\<rparr>)"
  using framer_batch_wire [of "NewFramer (DefaultFramerSettings 64)" "[[5], [6, 7]]" "replicate 20 0"
      "\<lparr>wr_log = [], wr_script = []\<rparr>" "\<lambda>_. []" "[]" EOF]
  by (simp add: framer_admits_def NewFramer_def DefaultFramerSettings_def i64_def maxInt64_def
      frame_wire_def putUint16_def)

text \<open>
  C7. The whole batch is validated before the stream sees a byte: if one message of it is
  longer than the maximum or than the length field can say, both batch writers return an
  error and leave the writer untouched.
\<close>

theorem framer_batch_rejects_before_output:
  assumes "\<not> list_all (framer_admits f) ms"
  shows "(\<exists>e. Framer_WriteBatch dirt f w ms = (Some e, w))
    \<and> (\<exists>e. Framer_WriteBatchWithStorage dirt f w ms storage = (Some e, w))"
proof -
  obtain e where e: "Framer_writeBatchByteCount f ms = Inl e"
    using assms Framer_byteCount_loop_Inr [of f 0 ms] unfolding Framer_writeBatchByteCount_def
    by (cases "Framer_writeBatchByteCount_loop f 0 ms") auto
  have single: "\<exists>e. Framer_Write dirt f w m = (Some e, w)" if "ms = [m]" for m
    using assms that by (intro Framer_Write_rejects) simp
  have "\<exists>e. Framer_WriteBatch dirt f w ms = (Some e, w)"
    using assms e single by (auto simp: Framer_WriteBatch_def split: list.splits)
  moreover have "\<exists>e. Framer_WriteBatchWithStorage dirt f w ms storage = (Some e, w)"
    using assms e single by (cases ms) (auto simp: Framer_WriteBatchWithStorage_def)
  ultimately show ?thesis by blast
qed

theorem framer_batch_rejects_before_output_witness:
  "\<exists>e. Framer_WriteBatch (\<lambda>_. []) (NewFramer (DefaultFramerSettings 1))
      \<lparr>wr_log = [], wr_script = []\<rparr> [[5], [6, 7]] = (Some e, \<lparr>wr_log = [], wr_script = []\<rparr>)"
  using framer_batch_rejects_before_output [of "NewFramer (DefaultFramerSettings 1)" "[[5], [6, 7]]"
      "\<lambda>_. []" "\<lparr>wr_log = [], wr_script = []\<rparr>" "[]"]
  by (simp add: framer_admits_def NewFramer_def DefaultFramerSettings_def i64_def)

text \<open>
  C8. \<open>Framer.Read\<close> is exact: a message it returns is precisely the bytes between a four
  byte header that announces its length and the rest of the stream, and its length is
  within the maximum; a stream that ends inside a frame never yields a message.
\<close>

theorem framer_read_exact:
  assumes "Framer_Read f r = (Inr m, r')"
  shows "\<exists>h. length h = 4 \<and> rd_data r = h @ m @ rd_data r'
    \<and> unat (getUint16 (h ! 0) (h ! 1)) = length m \<and> framer_admits f m"
proof -
  obtain n r1 where head: "Framer_ReadHeader f r = (Inr n, r1)" and body: "readFull n r1 = (Inr m, r')"
    using assms by (auto simp: Framer_Read_def split: prod.splits sum.splits)
  obtain h where h: "readFull 4 r = (Inr h, r1)" and n: "n = unat (getUint16 (h ! 0) (h ! 1))"
    and le: "int n + 4 \<le> fr_maxFrameLen f"
    using head by (auto simp: Framer_ReadHeader_def Let_def split: prod.splits sum.splits if_splits)
  have "n \<le> 65535"
    using unsigned_less [of "getUint16 (h ! 0) (h ! 1)", where 'a = nat] n by simp
  then show ?thesis
    using readFull_Inr [OF h] readFull_Inr [OF body] n le by (auto simp: framer_admits_def)
qed

theorem framer_read_exact_witness:
  "\<exists>h. length h = 4 \<and> [0, 1, 0, 0, 5, 9] = h @ [5] @ [9 :: byte]
    \<and> unat (getUint16 (h ! 0) (h ! 1)) = length [5 :: byte]
    \<and> framer_admits (NewFramer (DefaultFramerSettings 8)) [5]"
proof -
  have "Framer_Read (NewFramer (DefaultFramerSettings 8)) \<lparr>rd_data = [0, 1, 0, 0, 5, 9], rd_err = EOF\<rparr> =
      (Inr [5], \<lparr>rd_data = [9], rd_err = EOF\<rparr>)"
    by (simp add: Framer_Read_def Framer_ReadHeader_def readFull_def getUint16_def NewFramer_def
        DefaultFramerSettings_def i64_def)
  from framer_read_exact [OF this] show ?thesis by simp
qed

text \<open>
  A failing or short stream never makes \<open>Framer.Write\<close> report success: it returns no
  error exactly when all bytes of the frame reached the stream, and after an error the
  stream holds a prefix of the frame and nothing else.
\<close>

theorem framer_write_outcome:
  assumes "Framer_Write dirt f w m = (r, w')"
  shows "if r = None then framer_admits f m \<and> written w' = written w @ framer_wire f m
    else \<exists>k. written w' = written w @ take k (framer_wire f m)"
proof (cases "framer_admits f m")
  case False
  then show ?thesis
    using Framer_Write_rejects [OF False, of dirt w] assms by (auto intro: exI [of _ 0])
next
  case True
  let ?k = "4 + length m div 2"
  obtain r1 where r: "r = map_option FramerIo r1"
    and w': "(if int (length m) < max 16 (fs_splitMinimumLen (fr_settings f))
      then writeChunk w (framer_wire f m)
      else writeTwoChunks w (take ?k (framer_wire f m)) (drop ?k (framer_wire f m))) = (r1, w')"
    using assms unfolding Framer_Write_admits [OF True] by (elim map_prod_id_eqE)
  have "(\<exists>k. written w' = written w @ take k (framer_wire f m))
      \<and> (r1 = None \<longrightarrow> written w' = written w @ framer_wire f m)"
  proof (cases "int (length m) < max 16 (fs_splitMinimumLen (fr_settings f))")
    case True
    with w' have "writeChunk w (framer_wire f m) = (r1, w')" by simp
    from writeChunk_cases(1,2) [OF this] show ?thesis by blast
  next
    case False
    with w' have "writeTwoChunks w (take ?k (framer_wire f m)) (drop ?k (framer_wire f m)) = (r1, w')"
      by simp
    from writeTwoChunks_cases [OF this] show ?thesis
      unfolding append_take_drop_id by blast
  qed
  then show ?thesis
    using True r by auto
qed

theorem framer_write_outcome_witness:
  "\<exists>k. written \<lparr>wr_log = [[0, 2]], wr_script = []\<rparr> =
     written \<lparr>wr_log = [], wr_script = [(2, None)]\<rparr> @
       take k (framer_wire (NewFramer (DefaultFramerSettings 8)) [5, 6])"
proof -
  have "Framer_Write (\<lambda>_. []) (NewFramer (DefaultFramerSettings 8))
      \<lparr>wr_log = [], wr_script = [(2, None)]\<rparr> [5, 6] =
    (Some (FramerIo ErrShortWrite), \<lparr>wr_log = [[0, 2]], wr_script = []\<rparr>)"
    by code_simp
  from framer_write_outcome [OF this] show ?thesis by simp
qed

text \<open>
  C9. The large-message format round-trips as well: messages within the configured maximum,
  written one by one with \<open>FramerXl.Write\<close>, are read back in order by \<open>FramerXl.Read\<close>.
\<close>

theorem framer_xl_roundtrip:
  assumes "list_all (framer_xl_admits (NewFramerXl settings)) ms"
    and "wr_script w = []" and "written w = []"
  shows "\<exists>w'. write_all (FramerXl_Write dirt (NewFramerXl settings)) w ms = (None, w') \<and>
    read_all (FramerXl_Read (NewFramerXl settings)) (length ms)
        \<lparr>rd_data = written w' @ rest, rd_err = e\<rparr> =
      (Inr ms, \<lparr>rd_data = rest, rd_err = e\<rparr>)"
  using assms by (rule xl.roundtrip)

theorem framer_xl_roundtrip_witness:
  "\<exists>w'. write_all (FramerXl_Write (\<lambda>_. []) (NewFramerXl (Some (DefaultFramerXlSettings 2))))
      \<lparr>wr_log = [], wr_script = []\<rparr> [[1, 2], []] = (None, w') \<and>
    read_all (FramerXl_Read (NewFramerXl (Some (DefaultFramerXlSettings 2)))) 2
        \<lparr>rd_data = written w' @ [7], rd_err = EOF\<rparr> =
      (Inr [[1, 2], []], \<lparr>rd_data = [7], rd_err = EOF\<rparr>)"
  using framer_xl_roundtrip [of "Some (DefaultFramerXlSettings 2)" "[[1, 2], []]"
      "\<lparr>wr_log = [], wr_script = []\<rparr>" "\<lambda>_. []" "[7]" EOF]
  by (simp add: framer_xl_admits_def NewFramerXl_def DefaultFramerXlSettings_def maxInt64_def
      framerXlHeaderLen_def framerXlDefaultBatchLen_def MessagePoolMetaByteCount_def written_def
      numeral_2_eq_2)

text \<open>
  Invalid settings (none at all, a negative maximum, one that does not fit the 32-bit
  length field, a batch limit below one header) make every operation of \<open>FramerXl\<close> fail
  without touching the stream; they never widen a limit.
\<close>

theorem framer_xl_invalid_settings:
  assumes "settings = None \<or> (\<exists>s. settings = Some s \<and>
      (xs_maxMessageLen s < 0 \<or> 2 ^ 32 \<le> xs_maxMessageLen s \<or> xs_maxBatchLen s < 4))"
  shows "\<exists>e. FramerXl_ReadHeader (NewFramerXl settings) r = (Inl e, r)
    \<and> FramerXl_Read (NewFramerXl settings) r = (Inl e, r)
    \<and> FramerXl_Write dirt (NewFramerXl settings) w m = (Some e, w)
    \<and> FramerXl_WriteBatch dirt (NewFramerXl settings) w ms = (Some e, w)
    \<and> FramerXl_WriteBatchWithStorage dirt (NewFramerXl settings) w ms storage = (Some e, w)"
proof -
  have "xl_settingsErr (NewFramerXl settings) \<noteq> None"
    using assms by (auto simp: NewFramerXl_def framerXlHeaderLen_def)
  then obtain e where "xl_settingsErr (NewFramerXl settings) = Some e"
    by blast
  then show ?thesis
    by (simp add: FramerXl_ReadHeader_def FramerXl_Read_def FramerXl_Write_def FramerXl_WriteBatch_def
        FramerXl_WriteBatchWithStorage_def FramerXl_validateMessageLen_def)
qed

theorem framer_xl_invalid_settings_witness:
  "\<exists>e. FramerXl_Read (NewFramerXl (Some \<lparr>xs_maxMessageLen = -1, xs_maxBatchLen = 16\<rparr>))
      \<lparr>rd_data = [0, 0, 0, 0], rd_err = EOF\<rparr> = (Inl e, \<lparr>rd_data = [0, 0, 0, 0], rd_err = EOF\<rparr>)"
  using framer_xl_invalid_settings [of "Some \<lparr>xs_maxMessageLen = -1, xs_maxBatchLen = 16\<rparr>"
      "\<lparr>rd_data = [0, 0, 0, 0], rd_err = EOF\<rparr>" "\<lambda>_. []" "\<lparr>wr_log = [], wr_script = []\<rparr>" "[]" "[]" "[]"]
  by auto

text \<open>
  C10. The scratch memory of a multi-message batch is bounded: if \<open>FramerXl.WriteBatch\<close> of at
  least two messages succeeds, it made one stream write of exactly the frames, and that
  write is no longer than \<open>MaxBatchLen\<close>.
\<close>

theorem framer_xl_batch_bounded:
  assumes "2 \<le> length ms" and "wr_script w = []"
    and "FramerXl_WriteBatch dirt f w ms = (None, w')"
  shows "wr_log w' = wr_log w @ [concat (map frame_wire_xl ms)]
    \<and> int (length (concat (map frame_wire_xl ms))) \<le> xl_maxBatchLen f
    \<and> list_all (framer_xl_admits f) ms"
proof -
  let ?n = "sum_list (map (\<lambda>m. length m + 4) ms)"
  have valid: "xl_settingsErr f = None"
    using assms(3) by (auto simp: FramerXl_WriteBatch_def split: option.splits)
  obtain t where count: "FramerXl_writeBatchByteCount f ms = Inr t"
    using assms(3) by (auto simp: FramerXl_WriteBatch_many [OF assms(1) valid] split: sum.splits)
  then have t: "t = int ?n" "t \<le> xl_maxBatchLen f" "list_all (framer_xl_admits f) ms"
    using assms(1) valid FramerXl_byteCount_loop_Inr [of 0 f True ms t]
    by (auto simp: FramerXl_writeBatchByteCount_def)
  have "writeFramerXlBatch w ms (pool_buffer dirt ?n) =
      (None, w\<lparr>wr_log := wr_log w @ [concat (map frame_wire_xl ms)]\<rparr>)"
    by (subst writeFramerXlBatch_wire) (simp_all add: writeChunk_ok assms(2))
  then have "w' = w\<lparr>wr_log := wr_log w @ [concat (map frame_wire_xl ms)]\<rparr>"
    using assms(3) count t(1) by (simp add: FramerXl_WriteBatch_many [OF assms(1) valid])
  moreover have "length (concat (map frame_wire_xl ms)) = ?n"
    by (simp add: length_concat comp_def)
  ultimately show ?thesis
    using t by simp
qed

theorem framer_xl_batch_bounded_witness:
  "int (length (concat (map frame_wire_xl [[1], [2, 3]]))) \<le>
     xl_maxBatchLen (NewFramerXl (Some \<lparr>xs_maxMessageLen = 4, xs_maxBatchLen = 11\<rparr>))"
proof -
  have "FramerXl_WriteBatch (\<lambda>_. []) (NewFramerXl (Some \<lparr>xs_maxMessageLen = 4, xs_maxBatchLen = 11\<rparr>))
      \<lparr>wr_log = [], wr_script = []\<rparr> [[1], [2, 3]] =
    (None, \<lparr>wr_log = [[0, 0, 0, 1, 1, 0, 0, 0, 2, 2, 3]], wr_script = []\<rparr>)"
    by code_simp
  from framer_xl_batch_bounded [OF _ _ this] show ?thesis by simp
qed

end
