(* ===== verification/Go_Heap.thy ===== *)
theory Go_Heap
  imports Go_Prelude "HOL-Library.Multiset"
begin

text \<open>
  The part of Go's standard package container/heap that the transfer queue and the round-trip window use: \<open>heap.Push\<close>
  and \<open>heap.Remove\<close> with their helpers \<open>up\<close> and \<open>down\<close>, over an arbitrary implementation
  of \<open>heap.Interface\<close> (the arguments \<open>less\<close>, \<open>Swap\<close>, \<open>Push\<close>, \<open>Pop\<close>, \<open>Len\<close>), and what
  they promise to a client whose implementation is lawful (the locale \<open>heap_interface\<close>).
\<close>

section \<open>container/heap\<close>

function heap_up :: "('s \<Rightarrow> nat \<Rightarrow> nat \<Rightarrow> bool) \<Rightarrow> ('s \<Rightarrow> nat \<Rightarrow> nat \<Rightarrow> 's) \<Rightarrow> 's \<Rightarrow> nat \<Rightarrow> 's" where
  "heap_up Less Swap s j =
     (let i = (j - 1) div 2
      in if i = j \<or> \<not> Less s j i then s else heap_up Less Swap (Swap s i j) i)"
  by pat_completeness auto
termination
  by (relation "measure (\<lambda>(Less, Swap, s, j). j)") auto

function heap_down ::
  "('s \<Rightarrow> nat \<Rightarrow> nat \<Rightarrow> bool) \<Rightarrow> ('s \<Rightarrow> nat \<Rightarrow> nat \<Rightarrow> 's) \<Rightarrow> 's \<Rightarrow> nat \<Rightarrow> nat \<Rightarrow> nat \<times> 's" where
  "heap_down Less Swap s i n =
     (let j1 = 2 * i + 1 in
      if n \<le> j1 then (i, s)
      else
        let j = (if j1 + 1 < n \<and> Less s (j1 + 1) j1 then j1 + 1 else j1)
        in if \<not> Less s j i then (i, s) else heap_down Less Swap (Swap s i j) j n)"
  by pat_completeness auto
termination
  by (relation "measure (\<lambda>(Less, Swap, s, i, n). n - i)") (auto split: if_splits)

declare heap_up.simps [simp del] heap_down.simps [simp del]

definition heap_Push ::
  "('s \<Rightarrow> nat \<Rightarrow> nat \<Rightarrow> bool) \<Rightarrow> ('s \<Rightarrow> nat \<Rightarrow> nat \<Rightarrow> 's) \<Rightarrow> ('s \<Rightarrow> 'a \<Rightarrow> 's) \<Rightarrow> ('s \<Rightarrow> nat) \<Rightarrow> 's \<Rightarrow> 'a \<Rightarrow> 's" where
  "heap_Push Less Swap Push Len s x = (let s1 = Push s x in heap_up Less Swap s1 (Len s1 - 1))"

text \<open>
  \<open>heap.Remove\<close>: \<open>None\<close> is the index panic of \<open>Swap\<close> or \<open>Pop\<close> for an index outside the
  slice.
\<close>

definition heap_Remove ::
  "('s \<Rightarrow> nat \<Rightarrow> nat \<Rightarrow> bool) \<Rightarrow> ('s \<Rightarrow> nat \<Rightarrow> nat \<Rightarrow> 's) \<Rightarrow> ('s \<Rightarrow> 'a \<times> 's) \<Rightarrow> ('s \<Rightarrow> nat) \<Rightarrow> 's \<Rightarrow> nat \<Rightarrow>
     ('a \<times> 's) option" where
  "heap_Remove Less Swap Pop Len s i =
     (if Len s \<le> i then None
      else
        let n = Len s - 1
        in if n = i then Some (Pop s)
           else
             (case heap_down Less Swap (Swap s i n) i n of
                (k, s1) \<Rightarrow> Some (Pop (if i < k then s1 else heap_up Less Swap s1 i))))"

section \<open>Heap order on a slice\<close>

definition heap_ok :: "('a \<Rightarrow> 'a \<Rightarrow> bool) \<Rightarrow> 'a list \<Rightarrow> nat \<Rightarrow> bool" where
  "heap_ok lt xs k \<longleftrightarrow> 0 < k \<longrightarrow> \<not> lt (xs ! k) (xs ! ((k - 1) div 2))"

definition is_heap :: "('a \<Rightarrow> 'a \<Rightarrow> bool) \<Rightarrow> 'a list \<Rightarrow> nat \<Rightarrow> bool" where
  "is_heap lt xs n \<longleftrightarrow> (\<forall>k < n. heap_ok lt xs k)"

text \<open>A heap but for the element at position \<open>i\<close>.\<close>

definition near_heap :: "('a \<Rightarrow> 'a \<Rightarrow> bool) \<Rightarrow> 'a list \<Rightarrow> nat \<Rightarrow> nat \<Rightarrow> bool" where
  "near_heap lt xs n i \<longleftrightarrow>
     (\<forall>k < n. k \<noteq> i \<longrightarrow> 0 < k \<longrightarrow> (k - 1) div 2 \<noteq> i \<longrightarrow> heap_ok lt xs k)
   \<and> (\<forall>c < n. 0 < c \<longrightarrow> (c - 1) div 2 = i \<longrightarrow> 0 < i \<longrightarrow> \<not> lt (xs ! c) (xs ! ((i - 1) div 2)))"

definition swapped :: "'a list \<Rightarrow> nat \<Rightarrow> nat \<Rightarrow> 'a list" where
  "swapped xs i j = xs[i := xs ! j, j := xs ! i]"

lemma swapped_nth:
  "i < length xs \<Longrightarrow> j < length xs \<Longrightarrow> swapped xs i j ! k = (if k = j then xs ! i else if k = i then xs ! j else xs ! k)"
  by (auto simp: swapped_def nth_list_update)

lemma length_swapped [simp]: "length (swapped xs i j) = length xs"
  by (simp add: swapped_def)

lemma mset_swapped: "i < length xs \<Longrightarrow> j < length xs \<Longrightarrow> mset (swapped xs i j) = mset xs"
  unfolding swapped_def by (rule mset_swap)

lemma distinct_swapped: "i < length xs \<Longrightarrow> j < length xs \<Longrightarrow> distinct (swapped xs i j) = distinct xs"
  unfolding swapped_def by (rule distinct_swap)

lemma swapped_index:
  assumes "distinct xs" "\<forall>k < length xs. f (xs ! k) = k" "i < length xs" "j < length xs" "k < length xs"
    "\<And>a. g a = (if a = xs ! i then j else if a = xs ! j then i else f a)"
  shows "g (swapped xs i j ! k) = k"
  using assms nth_eq_iff_index_eq [OF assms(1)] by (auto simp: swapped_nth)

section \<open>The interface\<close>

text \<open>
  A lawful \<open>heap.Interface\<close>: \<open>view\<close> is the slice behind it, \<open>inv\<close> what its methods keep
  (for the transfer queue, that every item knows its index), \<open>lt\<close> a strict weak order on the
  elements.
\<close>

locale heap_interface =
  fixes view :: "'s \<Rightarrow> 'a list" and lt :: "'a \<Rightarrow> 'a \<Rightarrow> bool" and inv :: "'s \<Rightarrow> bool"
    and Less :: "'s \<Rightarrow> nat \<Rightarrow> nat \<Rightarrow> bool" and Swap :: "'s \<Rightarrow> nat \<Rightarrow> nat \<Rightarrow> 's"
    and Push :: "'s \<Rightarrow> 'a \<Rightarrow> 's" and Pop :: "'s \<Rightarrow> 'a \<times> 's" and Len :: "'s \<Rightarrow> nat"
  assumes lt_asym: "lt a b \<Longrightarrow> \<not> lt b a"
    and lt_neg_trans: "\<not> lt a b \<Longrightarrow> \<not> lt b c \<Longrightarrow> \<not> lt a c"
    and less_law: "inv s \<Longrightarrow> i < length (view s) \<Longrightarrow> j < length (view s) \<Longrightarrow> Less s i j \<longleftrightarrow> lt (view s ! i) (view s ! j)"
    and swap_law: "inv s \<Longrightarrow> i < length (view s) \<Longrightarrow> j < length (view s) \<Longrightarrow>
      inv (Swap s i j) \<and> view (Swap s i j) = swapped (view s) i j"
    and push_law: "inv s \<Longrightarrow> x \<notin> set (view s) \<Longrightarrow> inv (Push s x) \<and> view (Push s x) = view s @ [x]"
    and pop_law: "inv s \<Longrightarrow> view s \<noteq> [] \<Longrightarrow>
      inv (snd (Pop s)) \<and> view (snd (Pop s)) = butlast (view s) \<and> fst (Pop s) = last (view s)"
    and len_law: "Len s = length (view s)"
begin

lemma heap_up_correct:
  assumes "inv s" "j < n" "n \<le> length (view s)" "near_heap lt (view s) n j"
    "\<forall>c < n. 0 < c \<longrightarrow> (c - 1) div 2 = j \<longrightarrow> heap_ok lt (view s) c"
  shows "inv (heap_up Less Swap s j) \<and> is_heap lt (view (heap_up Less Swap s j)) n
    \<and> mset (view (heap_up Less Swap s j)) = mset (view s)
    \<and> (\<forall>k. n \<le> k \<longrightarrow> view (heap_up Less Swap s j) ! k = view s ! k)"
  using assms
proof (induction j arbitrary: s rule: less_induct)
  case (less j)
  let ?i = "(j - 1) div 2" and ?xs = "view s"
  note S = less.prems
  have bounds: "?i < length ?xs" "j < length ?xs" using S(2,3) by auto
  show ?case
  proof (cases "?i = j \<or> \<not> lt (?xs ! j) (?xs ! ?i)")
    case True
    have "heap_ok lt ?xs k" if "k < n" for k
      using that True S(4,5) lt_asym by (cases "k = j") (auto simp: near_heap_def heap_ok_def)
    moreover have "heap_up Less Swap s j = s"
      using True less_law [OF S(1) bounds(2,1)] by (subst heap_up.simps) (auto simp: Let_def)
    ultimately show ?thesis using S(1) by (simp add: is_heap_def)
  next
    case False
    let ?s = "Swap s ?i j"
    have j: "0 < j" "?i < j" using False by (cases j; simp)+
    have up: "heap_up Less Swap s j = heap_up Less Swap ?s ?i"
      using False less_law [OF S(1) bounds(2,1)] by (subst heap_up.simps) (simp add: Let_def)
    have sw: "inv ?s" "view ?s = swapped ?xs ?i j" using swap_law [OF S(1) bounds] by auto
    have nth: "view ?s ! k = (if k = j then ?xs ! ?i else if k = ?i then ?xs ! j else ?xs ! k)" for k
      using sw(2) swapped_nth [OF bounds] by simp
    have par: "heap_ok lt ?xs k" if "k < n" "0 < k" "k \<noteq> j" for k
      using S(4,5) that by (cases "(k - 1) div 2 = j") (auto simp: near_heap_def)
    have "near_heap lt (view ?s) n ?i"
    proof -
      have "heap_ok lt (view ?s) k" if k: "k < n" "k \<noteq> ?i" "0 < k" "(k - 1) div 2 \<noteq> ?i" for k
      proof (cases "(k - 1) div 2 = j")
        case True
        then have "\<not> lt (?xs ! k) (?xs ! ?i)" "k \<noteq> j" using S(4) k j by (auto simp: near_heap_def)
        then show ?thesis using True k nth by (simp add: heap_ok_def)
      next
        case False
        moreover have "k \<noteq> j" using k by auto
        ultimately show ?thesis using par [of k] k nth by (simp add: heap_ok_def)
      qed
      moreover have "\<not> lt (view ?s ! c) (view ?s ! ((?i - 1) div 2))"
        if c: "c < n" "0 < c" "(c - 1) div 2 = ?i" "0 < ?i" for c
      proof -
        have gp: "\<not> lt (?xs ! ?i) (?xs ! ((?i - 1) div 2))"
          using par [of ?i] c(4) S(2) j by (auto simp: heap_ok_def)
        have ne: "(?i - 1) div 2 \<noteq> j" "(?i - 1) div 2 \<noteq> ?i" using c(4) by auto
        show ?thesis
        proof (cases "c = j")
          case True
          then show ?thesis using gp ne nth by simp
        next
          case False
          moreover have "c \<noteq> ?i" using c by auto
          ultimately have "\<not> lt (?xs ! c) (?xs ! ?i)" using par [of c] c by (simp add: heap_ok_def)
          then show ?thesis using lt_neg_trans [OF _ gp] False \<open>c \<noteq> ?i\<close> ne nth by simp
        qed
      qed
      ultimately show ?thesis by (simp add: near_heap_def)
    qed
    moreover have "\<forall>c < n. 0 < c \<longrightarrow> (c - 1) div 2 = ?i \<longrightarrow> heap_ok lt (view ?s) c"
    proof (intro allI impI)
      fix c assume c: "c < n" "0 < c" "(c - 1) div 2 = ?i"
      have lt: "\<not> lt (?xs ! ?i) (?xs ! j)" using False lt_asym by blast
      show "heap_ok lt (view ?s) c"
      proof (cases "c = j")
        case True
        then show ?thesis using lt nth j by (simp add: heap_ok_def)
      next
        case False
        have ci: "c \<noteq> ?i" using c by auto
        have "\<not> lt (?xs ! c) (?xs ! ?i)" using par [of c] c False by (simp add: heap_ok_def)
        then show ?thesis using lt_neg_trans [OF _ lt] False ci c nth j by (simp add: heap_ok_def)
      qed
    qed
    ultimately have "inv (heap_up Less Swap ?s ?i) \<and> is_heap lt (view (heap_up Less Swap ?s ?i)) n
        \<and> mset (view (heap_up Less Swap ?s ?i)) = mset (view ?s)
        \<and> (\<forall>k. n \<le> k \<longrightarrow> view (heap_up Less Swap ?s ?i) ! k = view ?s ! k)"
      using less.IH [of ?i ?s] j S(2,3) sw by simp
    moreover have "mset (view ?s) = mset ?xs" using mset_swapped [OF bounds] sw(2) by simp
    moreover have "n \<le> k \<Longrightarrow> view ?s ! k = ?xs ! k" for k using nth S(2) j by simp
    ultimately show ?thesis by (simp add: up)
  qed
qed

lemma heap_down_correct:
  assumes "inv s" "i < n" "n \<le> length (view s)" "near_heap lt (view s) n i" "heap_down Less Swap s i n = (k, s')"
  shows "inv s'" "mset (view s') = mset (view s)" "\<forall>p. n \<le> p \<longrightarrow> view s' ! p = view s ! p" "i \<le> k"
    "i < k \<or> heap_ok lt (view s) i \<Longrightarrow> is_heap lt (view s') n"
    "k = i \<Longrightarrow> s' = s \<and> (\<forall>c < n. 0 < c \<longrightarrow> (c - 1) div 2 = i \<longrightarrow> heap_ok lt (view s) c)"
proof -
  have "inv s' \<and> mset (view s') = mset (view s) \<and> (\<forall>p. n \<le> p \<longrightarrow> view s' ! p = view s ! p) \<and> i \<le> k
    \<and> (i < k \<or> heap_ok lt (view s) i \<longrightarrow> is_heap lt (view s') n)
    \<and> (k = i \<longrightarrow> s' = s \<and> (\<forall>c < n. 0 < c \<longrightarrow> (c - 1) div 2 = i \<longrightarrow> heap_ok lt (view s) c))"
    using assms
  proof (induction "n - i" arbitrary: i s rule: less_induct)
    case less
    let ?xs = "view s" and ?j1 = "2 * i + 1"
    note S = less.prems
    have stop: ?case if eq: "(k, s') = (i, s)" and ch: "\<forall>c < n. 0 < c \<longrightarrow> (c - 1) div 2 = i \<longrightarrow> heap_ok lt ?xs c"
    proof -
      have "heap_ok lt ?xs i \<Longrightarrow> is_heap lt ?xs n"
        unfolding is_heap_def
      proof (intro allI impI)
        fix q assume "heap_ok lt ?xs i" "q < n"
        then show "heap_ok lt ?xs q"
          using S(4) ch by (cases "q = 0"; cases "q = i"; cases "(q - 1) div 2 = i") (auto simp: near_heap_def heap_ok_def)
      qed
      then show ?thesis using eq ch S(1) by auto
    qed
    show ?case
    proof (cases "n \<le> ?j1")
      case True
      have "heap_down Less Swap s i n = (i, s)" using True by (subst heap_down.simps) (simp add: Let_def)
      moreover have "c < n \<Longrightarrow> 0 < c \<Longrightarrow> (c - 1) div 2 \<noteq> i" for c using True by auto
      ultimately show ?thesis using S(5) by (intro stop) auto
    next
      case False
      define j where "j = (if ?j1 + 1 < n \<and> Less s (?j1 + 1) ?j1 then ?j1 + 1 else ?j1)"
      have step: "heap_down Less Swap s i n = (if \<not> Less s j i then (i, s) else heap_down Less Swap (Swap s i j) j n)"
        using False unfolding j_def by (subst heap_down.simps) (simp only: Let_def if_False)
      have jn: "j < n" "i < j" "(j - 1) div 2 = i" "0 < j" using False by (auto simp: j_def)
      have bounds: "i < length ?xs" "j < length ?xs" using jn S(2,3) by auto
      have child: "c = ?j1 \<or> c = ?j1 + 1" if "(c - 1) div 2 = i" "0 < c" for c using that by arith
      have small: "\<not> lt (?xs ! c) (?xs ! j)" if c: "c < n" "0 < c" "(c - 1) div 2 = i" for c
      proof -
        have law: "Less s (?j1 + 1) ?j1 \<longleftrightarrow> lt (?xs ! (?j1 + 1)) (?xs ! ?j1)" if "?j1 + 1 < n"
          using less_law [OF S(1)] that S(3) by simp
        show ?thesis
          using child [OF c(3,2)] c(1) law lt_asym by (auto simp: j_def)
      qed
      show ?thesis
      proof (cases "lt (?xs ! j) (?xs ! i)")
        case False
        have "heap_down Less Swap s i n = (i, s)"
          using False less_law [OF S(1) bounds(2,1)] by (simp add: step)
        moreover have "heap_ok lt ?xs c" if "c < n" "0 < c" "(c - 1) div 2 = i" for c
          using lt_neg_trans [OF small [OF that] False] that by (simp add: heap_ok_def)
        ultimately show ?thesis using S(5) by (intro stop) auto
      next
        case True
        let ?s = "Swap s i j"
        have down: "heap_down Less Swap ?s j n = (k, s')"
          using S(5) True less_law [OF S(1) bounds(2,1)] by (simp add: step)
        have sw: "inv ?s" "view ?s = swapped ?xs i j" using swap_law [OF S(1) bounds] by auto
        have nth: "view ?s ! p = (if p = j then ?xs ! i else if p = i then ?xs ! j else ?xs ! p)" for p
          using sw(2) swapped_nth [OF bounds] by simp
        have near: "near_heap lt (view ?s) n j"
        proof -
          have "heap_ok lt (view ?s) q" if q: "q < n" "q \<noteq> j" "0 < q" "(q - 1) div 2 \<noteq> j" for q
          proof (cases "(q - 1) div 2 = i")
            case True
            then show ?thesis using small [OF q(1,3)] q nth by (auto simp: heap_ok_def)
          next
            case qi: False
            show ?thesis
            proof (cases "q = i")
              case True
              then have "\<not> lt (?xs ! j) (?xs ! ((i - 1) div 2))" using S(4) jn q by (auto simp: near_heap_def)
              moreover have "(i - 1) div 2 < i" using True q by simp
              ultimately show ?thesis using True q jn(2) by (simp add: heap_ok_def nth)
            next
              case False
              then have "heap_ok lt ?xs q" using S(4) q qi by (auto simp: near_heap_def)
              then show ?thesis using False q qi nth by (auto simp: heap_ok_def)
            qed
          qed
          moreover have "\<not> lt (view ?s ! c) (view ?s ! ((j - 1) div 2))" if c: "c < n" "0 < c" "(c - 1) div 2 = j" for c
          proof -
            have ne: "c \<noteq> i" "c \<noteq> j" using c jn by auto
            have "heap_ok lt ?xs c" using S(4) c ne jn by (auto simp: near_heap_def)
            then show ?thesis using c ne nth jn by (auto simp: heap_ok_def)
          qed
          ultimately show ?thesis by (simp add: near_heap_def)
        qed
        have "heap_ok lt (view ?s) j" using lt_asym [OF True] nth jn by (auto simp: heap_ok_def)
        then have IH: "inv s' \<and> mset (view s') = mset (view ?s) \<and> (\<forall>p. n \<le> p \<longrightarrow> view s' ! p = view ?s ! p) \<and> j \<le> k
            \<and> is_heap lt (view s') n"
          using less.hyps [of j ?s] jn S(2,3) sw near down by simp
        moreover have "mset (view ?s) = mset ?xs" using mset_swapped [OF bounds] sw(2) by simp
        moreover have "n \<le> p \<Longrightarrow> view ?s ! p = ?xs ! p" for p using nth jn S(2) by simp
        ultimately show ?thesis using jn by simp
      qed
    qed
  qed
  then show "inv s'" "mset (view s') = mset (view s)" "\<forall>p. n \<le> p \<longrightarrow> view s' ! p = view s ! p" "i \<le> k"
    "i < k \<or> heap_ok lt (view s) i \<Longrightarrow> is_heap lt (view s') n"
    "k = i \<Longrightarrow> s' = s \<and> (\<forall>c < n. 0 < c \<longrightarrow> (c - 1) div 2 = i \<longrightarrow> heap_ok lt (view s) c)"
    by blast+
qed

text \<open>The first element of a heap is a least one.\<close>

lemma heap_first_least:
  assumes "is_heap lt xs n" "k < n"
  shows "\<not> lt (xs ! k) (xs ! 0)"
  using assms(2)
proof (induction k rule: less_induct)
  case (less k)
  show ?case
  proof (cases "k = 0")
    case True
    then show ?thesis using lt_asym by blast
  next
    case False
    then have "\<not> lt (xs ! ((k - 1) div 2)) (xs ! 0)" using less by simp
    moreover have "\<not> lt (xs ! k) (xs ! ((k - 1) div 2))"
      using assms(1) less.prems False by (auto simp: is_heap_def heap_ok_def)
    ultimately show ?thesis using lt_neg_trans by blast
  qed
qed

lemma heap_Push_correct:
  assumes "inv s" "is_heap lt (view s) (length (view s))" "x \<notin> set (view s)"
  defines "s' \<equiv> heap_Push Less Swap Push Len s x"
  shows "inv s'" "is_heap lt (view s') (length (view s'))" "mset (view s') = add_mset x (mset (view s))"
proof -
  let ?n = "length (view s)"
  have p: "inv (Push s x)" "view (Push s x) = view s @ [x]" using push_law [OF assms(1,3)] by auto
  have ok: "k < ?n \<Longrightarrow> heap_ok lt (view s @ [x]) k" for k
    using assms(2) by (auto simp: is_heap_def heap_ok_def nth_append)
  have up: "s' = heap_up Less Swap (Push s x) ?n"
    by (simp add: s'_def heap_Push_def Let_def len_law p)
  have "near_heap lt (view (Push s x)) (Suc ?n) ?n"
    using ok by (auto simp: near_heap_def p)
  moreover have "\<forall>c < Suc ?n. 0 < c \<longrightarrow> (c - 1) div 2 = ?n \<longrightarrow> heap_ok lt (view (Push s x)) c" by auto
  ultimately have "inv s' \<and> is_heap lt (view s') (Suc ?n) \<and> mset (view s') = mset (view s @ [x])"
    using heap_up_correct [of "Push s x" ?n "Suc ?n"] by (simp add: up p)
  moreover from this have "length (view s') = Suc ?n" by (metis length_append_singleton mset_eq_length)
  ultimately show "inv s'" "is_heap lt (view s') (length (view s'))" "mset (view s') = add_mset x (mset (view s))"
    by simp_all
qed

lemma pop_heap:
  assumes "inv s" "is_heap lt (view s) n" "length (view s) = Suc n" "view s ! n = x" "Pop s = (y, s')"
  shows "inv s' \<and> y = x \<and> is_heap lt (view s') (length (view s')) \<and> mset (view s') = mset (view s) - {#x#}"
proof -
  have ne: "view s \<noteq> []" using assms(3) by auto
  have law: "inv s'" "view s' = butlast (view s)" "y = last (view s)" using pop_law [OF assms(1) ne] assms(5) by auto
  have "last (view s) = x" using assms(3,4) ne by (simp add: last_conv_nth)
  moreover have "mset (view s) = add_mset (last (view s)) (mset (butlast (view s)))"
    using arg_cong [OF append_butlast_last_id [OF ne], of mset] by simp
  moreover have "is_heap lt (butlast (view s)) n"
    using assms(2,3) by (auto simp: is_heap_def heap_ok_def nth_butlast)
  ultimately show ?thesis using law assms(3) by simp
qed

lemma heap_Remove_correct:
  assumes "inv s" "is_heap lt (view s) (length (view s))" "i < length (view s)"
  obtains s' where "heap_Remove Less Swap Pop Len s i = Some (view s ! i, s')" "inv s'"
    "is_heap lt (view s') (length (view s'))" "mset (view s') = mset (view s) - {#view s ! i#}"
proof -
  let ?xs = "view s" and ?n = "length (view s) - 1"
  have len: "length ?xs = Suc ?n" using assms(3) by simp
  show thesis
  proof (cases "?n = i")
    case True
    obtain y s' where p: "Pop s = (y, s')" by (cases "Pop s")
    have "is_heap lt ?xs ?n" using assms(2) by (auto simp: is_heap_def)
    then show thesis
      using pop_heap [OF assms(1) _ len refl p] that [of s'] True p assms(3) by (simp add: heap_Remove_def len_law)
  next
    case False
    then have i: "i < ?n" using assms(3) by simp
    have bounds: "i < length ?xs" "?n < length ?xs" using assms(3) by auto
    let ?s = "Swap s i ?n"
    have sw: "inv ?s" "view ?s = swapped ?xs i ?n" using swap_law [OF assms(1) bounds] by auto
    have nth: "view ?s ! p = (if p = ?n then ?xs ! i else if p = i then ?xs ! ?n else ?xs ! p)" for p
      using sw(2) swapped_nth [OF bounds] by simp
    have near: "near_heap lt (view ?s) ?n i"
    proof -
      have ok: "heap_ok lt ?xs q" if "q < ?n" for q using assms(2) that by (auto simp: is_heap_def)
      have "heap_ok lt (view ?s) q" if "q < ?n" "q \<noteq> i" "0 < q" "(q - 1) div 2 \<noteq> i" for q
      proof -
        have "(q - 1) div 2 \<noteq> ?n" using that(1,3) by arith
        then show ?thesis using ok [of q] that nth by (auto simp: heap_ok_def)
      qed
      moreover have "\<not> lt (view ?s ! c) (view ?s ! ((i - 1) div 2))"
        if c: "c < ?n" "0 < c" "(c - 1) div 2 = i" "0 < i" for c
      proof -
        have ne: "c \<noteq> i" "(i - 1) div 2 \<noteq> i" "(i - 1) div 2 \<noteq> ?n" using c i by auto
        have "\<not> lt (?xs ! c) (?xs ! i)" "\<not> lt (?xs ! i) (?xs ! ((i - 1) div 2))"
          using ok [of c] ok [of i] c i by (auto simp: heap_ok_def)
        then have "\<not> lt (?xs ! c) (?xs ! ((i - 1) div 2))" by (rule lt_neg_trans)
        then show ?thesis using c(1) ne nth [of c] nth [of "(i - 1) div 2"] by simp
      qed
      ultimately show ?thesis by (simp add: near_heap_def)
    qed
    obtain k s1 where d: "heap_down Less Swap ?s i ?n = (k, s1)" by (cases "heap_down Less Swap ?s i ?n")
    have nl: "?n \<le> length (view ?s)" using sw(2) by simp
    note D = heap_down_correct [OF sw(1) i nl near d]
    define s2 where "s2 = (if i < k then s1 else heap_up Less Swap s1 i)"
    have s2: "inv s2 \<and> is_heap lt (view s2) ?n \<and> mset (view s2) = mset (view ?s) \<and> (\<forall>p. ?n \<le> p \<longrightarrow> view s2 ! p = view ?s ! p)"
    proof (cases "i < k")
      case True
      then show ?thesis using D by (simp add: s2_def)
    next
      case False
      then have "k = i" using D(4) by simp
      then have "s1 = ?s" "\<forall>c < ?n. 0 < c \<longrightarrow> (c - 1) div 2 = i \<longrightarrow> heap_ok lt (view ?s) c" using D(6) by auto
      then show ?thesis using heap_up_correct [OF sw(1) i nl near] False by (simp add: s2_def)
    qed
    have m: "mset (view s2) = mset ?xs" using s2 mset_swapped [OF bounds] sw(2) by simp
    then have l2: "length (view s2) = Suc ?n" using len by (metis mset_eq_length)
    obtain y s' where p: "Pop s2 = (y, s')" by (cases "Pop s2")
    have "view s2 ! ?n = ?xs ! i" using s2 nth by simp
    then have "inv s' \<and> y = ?xs ! i \<and> is_heap lt (view s') (length (view s')) \<and> mset (view s') = mset ?xs - {#?xs ! i#}"
      using pop_heap [OF _ _ l2 _ p] s2 m by simp
    moreover have "heap_Remove Less Swap Pop Len s i = Some (y, s')"
      using False assms(3) d p by (simp add: heap_Remove_def len_law Let_def s2_def)
    ultimately show thesis using that [of s'] by simp
  qed
qed

end

end
