(* ===== verification/Transfer_Memory_Budget.thy ===== *)
theory Transfer_Memory_Budget
  imports Go_Prelude
begin

text \<open>
  The shared byte budget of the transfer queues (transfer_memory_budget.go). Budgets and
  admission waiters are heap objects that point at each other, so the state is an explicit
  store: \<open>budgets\<close> and \<open>waiters\<close> give the object at an address, and \<open>nil\<close> is \<open>None\<close>.

  \<^item> every counter is an \<open>int64\<close> and every addition to it wraps (\<open>i64\<close>);
  \<^item> a method that holds the admission lock of the root, or the waiter lock of the root, is
    one definition; \<open>Release\<close> and the other methods that unlock before they notify are
    the composition of two such steps (\<open>releaseCharge\<close>, \<open>notifyCapacityChanged\<close>), and
    the step relation \<open>budget_step\<close> interleaves those steps;
  \<^item> a notification channel is its address; \<open>closed\<close> lists the channels that were closed.
    A waiter's channel has one slot, so its state is whether the slot is full;
  \<^item> the parent of a budget is fixed when the budget is made, and a budget is made after its
    parent, so addresses decrease along the parent chain; \<open>chain\<close> relies on that to walk
    it.
\<close>

section \<open>State\<close>

record budget =
  bg_parent :: "nat option"
  bg_root :: "nat option"
  bg_hasChildren :: bool
  bg_total :: int
  bg_used :: int
  bg_floor :: int
  bg_reserved :: int
  bg_released :: int
  bg_notify :: "nat option"
  bg_waitHead :: "nat option"
  bg_waitTail :: "nat option"
  bg_waiterCount :: int

record waiter =
  wt_token :: bool
  wt_budget :: "nat option"
  wt_required :: int
  wt_prev :: "nat option"
  wt_next :: "nat option"
  wt_registered :: bool

record mem =
  budgets :: "nat \<Rightarrow> budget"
  waiters :: "nat \<Rightarrow> waiter"
  nextBudget :: nat
  nextChan :: nat
  closed :: "nat list"

record wait_scratch =
  sc_granted :: int
  sc_blocked :: bool

definition upd_budget :: "nat \<Rightarrow> (budget \<Rightarrow> budget) \<Rightarrow> mem \<Rightarrow> mem" where
  "upd_budget b f m = m\<lparr>budgets := (budgets m)(b := f (budgets m b))\<rparr>"

definition upd_waiter :: "nat \<Rightarrow> (waiter \<Rightarrow> waiter) \<Rightarrow> mem \<Rightarrow> mem" where
  "upd_waiter w f m = m\<lparr>waiters := (waiters m)(w := f (waiters m w))\<rparr>"

text \<open>The budgets visited by \<^verbatim>\<open>for budget := self; budget != nil; budget = budget.parent\<close>.\<close>

function chain :: "(nat \<Rightarrow> budget) \<Rightarrow> nat \<Rightarrow> nat list" where
  "chain B b =
     b # (case bg_parent (B b) of None \<Rightarrow> [] | Some p \<Rightarrow> if p < b then chain B p else [])"
  by pat_completeness auto
termination
  by (relation "measure snd") auto

declare chain.simps [simp del]

definition upd_chain :: "nat \<Rightarrow> (budget \<Rightarrow> budget) \<Rightarrow> mem \<Rightarrow> mem" where
  "upd_chain b f m = fold (\<lambda>x. upd_budget x f) (chain (budgets m) b) m"

section \<open>Construction and reads\<close>

definition empty_budget :: budget where
  "empty_budget = \<lparr>bg_parent = None, bg_root = None, bg_hasChildren = False, bg_total = 0,
     bg_used = 0, bg_floor = 0, bg_reserved = 0, bg_released = 0, bg_notify = None,
     bg_waitHead = None, bg_waitTail = None, bg_waiterCount = 0\<rparr>"

definition admissionRoot :: "mem \<Rightarrow> nat \<Rightarrow> nat" where
  "admissionRoot m self = (case bg_root (budgets m self) of Some r \<Rightarrow> r | None \<Rightarrow> self)"

definition NewTransferMemoryBudget :: "mem \<Rightarrow> int \<Rightarrow> nat \<times> mem" where
  "NewTransferMemoryBudget m totalByteCount =
     (nextBudget m,
      m\<lparr>budgets := (budgets m)(nextBudget m := empty_budget\<lparr>bg_total := totalByteCount\<rparr>),
        nextBudget := Suc (nextBudget m)\<rparr>)"

definition NewTransferMemoryBudgetWithParent :: "mem \<Rightarrow> int \<Rightarrow> nat option \<Rightarrow> nat \<times> mem" where
  "NewTransferMemoryBudgetWithParent m totalByteCount parent =
     (case NewTransferMemoryBudget m totalByteCount of
        (b, m') \<Rightarrow>
          (case parent of
             None \<Rightarrow> (b, m')
           | Some p \<Rightarrow>
               let root = admissionRoot m' p;
                   m'' = upd_budget b (bg_parent_update (\<lambda>_. Some p) \<circ> bg_root_update (\<lambda>_. Some root)) m'
               in (b, upd_budget root (bg_hasChildren_update (\<lambda>_. True)) m'')))"

definition Parent :: "mem \<Rightarrow> nat \<Rightarrow> nat option" where
  "Parent m self = bg_parent (budgets m self)"

definition addFloor :: "mem \<Rightarrow> nat \<Rightarrow> int \<Rightarrow> mem" where
  "addFloor m self byteCount = upd_budget self (bg_floor_update (\<lambda>x. i64 (x + max 0 byteCount))) m"

definition removeFloor :: "mem \<Rightarrow> nat \<Rightarrow> int \<Rightarrow> mem" where
  "removeFloor m self byteCount = upd_budget self (bg_floor_update (\<lambda>x. i64 (x - max 0 byteCount))) m"

definition LendableByteCount :: "mem \<Rightarrow> nat \<Rightarrow> int \<Rightarrow> int" where
  "LendableByteCount m self ownFloorByteCount =
     (let otherFloors = max 0 (i64 (bg_floor (budgets m self) - max 0 ownFloorByteCount))
      in max 0 (i64 (bg_total (budgets m self) - otherFloors)))"

definition own_available :: "budget \<Rightarrow> int" where
  "own_available b = max 0 (i64 (bg_total b - bg_used b))"

definition Available :: "mem \<Rightarrow> nat \<Rightarrow> int" where
  "Available m self =
     fold (\<lambda>p available. min available (own_available (budgets m p))) (tl (chain (budgets m) self))
       (own_available (budgets m self))"

definition TotalByteCount :: "mem \<Rightarrow> nat \<Rightarrow> int" where
  "TotalByteCount m self = bg_total (budgets m self)"

definition UsedByteCount :: "mem \<Rightarrow> nat \<Rightarrow> int" where
  "UsedByteCount m self = bg_used (budgets m self)"

definition Counts :: "mem \<Rightarrow> nat \<Rightarrow> int \<times> int" where
  "Counts m self = (bg_reserved (budgets m self), bg_released (budgets m self))"

record budget_stats =
  st_total :: int
  st_used :: int
  st_reserved :: int
  st_released :: int

definition statsWithLock :: "mem \<Rightarrow> nat \<Rightarrow> budget_stats" where
  "statsWithLock m self =
     (let b = budgets m self
      in \<lparr>st_total = bg_total b, st_used = bg_used b, st_reserved = bg_reserved b,
          st_released = bg_released b\<rparr>)"

definition Stats :: "mem \<Rightarrow> nat \<Rightarrow> budget_stats" where
  "Stats m self = statsWithLock m self"

text \<open>\<open>None\<close> is the panic on an unrelated budget.\<close>

definition StatsWithDescendants :: "mem \<Rightarrow> nat \<Rightarrow> nat option list \<Rightarrow> budget_stats list option" where
  "StatsWithDescendants m self descendants =
     (let root = admissionRoot m self
      in if list_ex (\<lambda>d. case d of None \<Rightarrow> True | Some b \<Rightarrow> admissionRoot m b \<noteq> root) descendants
         then None
         else Some (statsWithLock m self # map (\<lambda>d. statsWithLock m (the d)) descendants))"

section \<open>The admission waiters: an intrusive doubly linked list\<close>

definition addCapacityWaiter :: "mem \<Rightarrow> nat \<Rightarrow> nat \<Rightarrow> mem" where
  "addCapacityWaiter m self w =
     (let root = admissionRoot m self in
      if wt_registered (waiters m w) then m
      else
        let tailw = bg_waitTail (budgets m root);
            m1 = upd_waiter w (\<lambda>x. x\<lparr>wt_prev := tailw, wt_next := None\<rparr>) m;
            m2 = (case tailw of
                    None \<Rightarrow> upd_budget root (bg_waitHead_update (\<lambda>_. Some w)) m1
                  | Some t \<Rightarrow> upd_waiter t (wt_next_update (\<lambda>_. Some w)) m1);
            m3 = upd_budget root (bg_waitTail_update (\<lambda>_. Some w)) m2;
            m4 = upd_waiter w (wt_registered_update (\<lambda>_. True)) m3
        in upd_budget root (bg_waiterCount_update (\<lambda>n. i64 (n + 1))) m4)"

definition removeCapacityWaiterWithLock :: "mem \<Rightarrow> nat \<Rightarrow> nat \<Rightarrow> mem" where
  "removeCapacityWaiterWithLock m root w =
     (if \<not> wt_registered (waiters m w) then m
      else
        let prev = wt_prev (waiters m w);
            m1 = (case prev of
                    None \<Rightarrow> upd_budget root (bg_waitHead_update (\<lambda>_. wt_next (waiters m w))) m
                  | Some p \<Rightarrow> upd_waiter p (wt_next_update (\<lambda>_. wt_next (waiters m w))) m);
            nxt = wt_next (waiters m1 w);
            m2 = (case nxt of
                    None \<Rightarrow> upd_budget root (bg_waitTail_update (\<lambda>_. wt_prev (waiters m1 w))) m1
                  | Some n \<Rightarrow> upd_waiter n (wt_prev_update (\<lambda>_. wt_prev (waiters m1 w))) m1);
            m3 = upd_waiter w (\<lambda>x. x\<lparr>wt_prev := None, wt_next := None, wt_registered := False\<rparr>) m2
        in upd_budget root (bg_waiterCount_update (\<lambda>n. i64 (n - 1))) m3)"

definition removeCapacityWaiter :: "mem \<Rightarrow> nat \<Rightarrow> nat \<Rightarrow> mem" where
  "removeCapacityWaiter m self w = removeCapacityWaiterWithLock m (admissionRoot m self) w"

definition newTransferMemoryBudgetWaiter :: waiter where
  "newTransferMemoryBudgetWaiter =
     \<lparr>wt_token = False, wt_budget = None, wt_required = 0, wt_prev = None, wt_next = None,
      wt_registered = False\<rparr>"

definition waiter_reset :: "mem \<Rightarrow> nat \<Rightarrow> mem" where
  "waiter_reset m w =
     (let m1 = (case wt_budget (waiters m w) of
                  None \<Rightarrow> m
                | Some b \<Rightarrow> upd_waiter w (wt_budget_update (\<lambda>_. None)) (removeCapacityWaiter m b w))
      in upd_waiter w (wt_token_update (\<lambda>_. False)) m1)"

text \<open>\<open>subscribe\<close> returns the waiter's own channel, or \<open>nil\<close> for no budget.\<close>

definition waiter_subscribe :: "mem \<Rightarrow> nat \<Rightarrow> nat option \<Rightarrow> int \<Rightarrow> nat option \<times> mem" where
  "waiter_subscribe m w budget requiredByteCount =
     (let m1 = waiter_reset m w in
      case budget of
        None \<Rightarrow> (None, m1)
      | Some b \<Rightarrow>
          let m2 = upd_waiter w (wt_token_update (\<lambda>_. False)) m1;
              m3 = upd_waiter w (\<lambda>x. x\<lparr>wt_budget := Some b, wt_required := max 0 requiredByteCount\<rparr>) m2
          in (Some w, addCapacityWaiter m3 b w))"

section \<open>Notifying the waiters\<close>

definition scratch_free :: "mem \<Rightarrow> (nat \<Rightarrow> wait_scratch) \<Rightarrow> nat \<Rightarrow> int" where
  "scratch_free m sc b =
     max 0 (i64 (bg_total (budgets m b) - bg_used (budgets m b) - sc_granted (sc b)))"

definition waiter_chain :: "mem \<Rightarrow> nat \<Rightarrow> nat list" where
  "waiter_chain m w = (case wt_budget (waiters m w) of None \<Rightarrow> [] | Some b \<Rightarrow> chain (budgets m) b)"

text \<open>
  The inner loop over the budgets of a waiter: whether the request fits at every level, is
  held back at some level by an earlier waiter, and can never fit at some level.
\<close>

definition waiter_verdict ::
  "mem \<Rightarrow> (nat \<Rightarrow> wait_scratch) \<Rightarrow> nat \<Rightarrow> int \<Rightarrow> bool \<times> bool \<times> bool" where
  "waiter_verdict m sc w required =
     fold (\<lambda>b (eligible, blocked, impossible).
         (eligible \<and> \<not> scratch_free m sc b < required,
          blocked \<or> sc_blocked (sc b),
          impossible \<or> bg_total (budgets m b) < required))
       (waiter_chain m w) (True, False, False)"

definition scratch_grant ::
  "int \<Rightarrow> nat list \<Rightarrow> (nat \<Rightarrow> wait_scratch) \<Rightarrow> nat \<Rightarrow> wait_scratch" where
  "scratch_grant required bs sc =
     fold (\<lambda>b sc. sc(b := (sc b)\<lparr>sc_granted := i64 (sc_granted (sc b) + required)\<rparr>)) bs sc"

definition scratch_hold ::
  "mem \<Rightarrow> int \<Rightarrow> nat list \<Rightarrow> (nat \<Rightarrow> wait_scratch) \<Rightarrow> nat \<Rightarrow> wait_scratch" where
  "scratch_hold m required bs sc =
     fold (\<lambda>b sc. if scratch_free m sc b < required then sc(b := (sc b)\<lparr>sc_blocked := True\<rparr>) else sc)
       bs sc"

text \<open>One waiter of the pass: the new scratch map and store.\<close>

definition notify_visit ::
  "nat \<Rightarrow> nat \<Rightarrow> (nat \<Rightarrow> wait_scratch) \<Rightarrow> mem \<Rightarrow> (nat \<Rightarrow> wait_scratch) \<times> mem" where
  "notify_visit root w sc m =
     (let required = max 0 (wt_required (waiters m w)) in
      case waiter_verdict m sc w required of
        (eligible, blocked, impossible) \<Rightarrow>
          if eligible \<and> (\<not> blocked \<or> required = 0)
          then
            let m1 = removeCapacityWaiterWithLock m root w
            in if wt_token (waiters m1 w) then (sc, m1)
               else (scratch_grant required (waiter_chain m1 w) sc,
                     upd_waiter w (wt_token_update (\<lambda>_. True)) m1)
          else if \<not> eligible \<and> \<not> blocked \<and> \<not> impossible
          then (scratch_hold m required (waiter_chain m w) sc, m)
          else (sc, m))"

text \<open>
  The loop over the linked list. \<open>None\<close> is a walk that did not reach the end of the list
  within the fuel; \<open>notify_loop_terminates\<close> shows that the number of registered waiters
  is enough.
\<close>

fun notify_loop ::
  "nat \<Rightarrow> nat \<Rightarrow> nat option \<Rightarrow> (nat \<Rightarrow> wait_scratch) \<Rightarrow> mem \<Rightarrow> mem option" where
  "notify_loop fuel root None sc m = Some m"
| "notify_loop 0 root (Some w) sc m = None"
| "notify_loop (Suc fuel) root (Some w) sc m =
     (let nextWaiter = wt_next (waiters m w)
      in case notify_visit root w sc m of (sc', m') \<Rightarrow> notify_loop fuel root nextWaiter sc' m')"

definition empty_scratch :: "nat \<Rightarrow> wait_scratch" where
  "empty_scratch b = \<lparr>sc_granted = 0, sc_blocked = False\<rparr>"

definition notifyEligibleCapacityWaiters :: "mem \<Rightarrow> nat \<Rightarrow> mem" where
  "notifyEligibleCapacityWaiters m self =
     (let root = admissionRoot m self in
      if bg_waiterCount (budgets m root) = 0 then m
      else if Available m root \<le> 0 then m
      else
        (case notify_loop (nat (bg_waiterCount (budgets m root))) root
                (bg_waitHead (budgets m root)) empty_scratch m of
           Some m' \<Rightarrow> m'
         | None \<Rightarrow> m))"

definition CapacityNotify :: "mem \<Rightarrow> nat \<Rightarrow> nat \<times> mem" where
  "CapacityNotify m self =
     (let root = admissionRoot m self in
      case bg_notify (budgets m root) of
        Some c \<Rightarrow> (c, m)
      | None \<Rightarrow>
          (nextChan m,
           upd_budget root (bg_notify_update (\<lambda>_. Some (nextChan m))) (m\<lparr>nextChan := Suc (nextChan m)\<rparr>)))"

definition notifyCapacityChanged :: "mem \<Rightarrow> nat \<Rightarrow> mem" where
  "notifyCapacityChanged m self =
     (let root = admissionRoot m self;
          m1 = (case bg_notify (budgets m root) of
                  None \<Rightarrow> m
                | Some c \<Rightarrow> (upd_budget root (bg_notify_update (\<lambda>_. None)) m)\<lparr>closed := c # closed m\<rparr>)
      in notifyEligibleCapacityWaiters m1 root)"

section \<open>Reserving, releasing, moving\<close>

definition requiresAdmissionLock :: "mem \<Rightarrow> nat \<Rightarrow> bool" where
  "requiresAdmissionLock m self \<longleftrightarrow>
     bg_parent (budgets m self) \<noteq> None \<or> bg_root (budgets m self) \<noteq> None
   \<or> bg_hasChildren (budgets m self)"

definition charge :: "int \<Rightarrow> budget \<Rightarrow> budget" where
  "charge n b = b\<lparr>bg_used := i64 (bg_used b + n), bg_reserved := i64 (bg_reserved b + n)\<rparr>"

definition releaseByteCount :: "int \<Rightarrow> budget \<Rightarrow> budget" where
  "releaseByteCount n b = b\<lparr>bg_used := i64 (bg_used b - n), bg_released := i64 (bg_released b + n)\<rparr>"

definition tryReserveWithLock :: "mem \<Rightarrow> nat \<Rightarrow> int \<Rightarrow> bool \<times> mem" where
  "tryReserveWithLock m self byteCount =
     (if byteCount < 0 then (False, m)
      else if list_ex (\<lambda>b. bg_total (budgets m b) < byteCount
                 \<or> i64 (bg_total (budgets m b) - byteCount) < bg_used (budgets m b))
                (chain (budgets m) self)
      then (False, m)
      else (True, upd_chain self (charge byteCount) m))"

definition TryReserve :: "mem \<Rightarrow> nat \<Rightarrow> int \<Rightarrow> bool \<times> mem" where
  "TryReserve m self byteCount = tryReserveWithLock m self byteCount"

definition Reserve :: "mem \<Rightarrow> nat \<Rightarrow> int \<Rightarrow> mem" where
  "Reserve m self byteCount =
     (if \<not> requiresAdmissionLock m self then upd_budget self (charge byteCount) m
      else
        (case tryReserveWithLock m self byteCount of
           (True, m') \<Rightarrow> m'
         | (False, m') \<Rightarrow> upd_chain self (charge byteCount) m'))"

definition releaseCharge :: "mem \<Rightarrow> nat \<Rightarrow> int \<Rightarrow> mem" where
  "releaseCharge m self byteCount =
     (if \<not> requiresAdmissionLock m self then upd_budget self (releaseByteCount byteCount) m
      else upd_chain self (releaseByteCount byteCount) m)"

definition Release :: "mem \<Rightarrow> nat \<Rightarrow> int \<Rightarrow> mem" where
  "Release m self byteCount = notifyCapacityChanged (releaseCharge m self byteCount) self"

definition setTotal :: "mem \<Rightarrow> nat \<Rightarrow> int \<Rightarrow> mem" where
  "setTotal m self totalByteCount = upd_budget self (bg_total_update (\<lambda>_. totalByteCount)) m"

definition SetTotalByteCount :: "mem \<Rightarrow> nat \<Rightarrow> int \<Rightarrow> mem" where
  "SetTotalByteCount m self totalByteCount =
     notifyCapacityChanged (setTotal m self totalByteCount) self"

text \<open>The part of \<open>tryMoveReservation\<close> under the admission lock, and the whole method.\<close>

definition moveCharge :: "mem \<Rightarrow> nat \<Rightarrow> nat \<Rightarrow> int \<Rightarrow> bool \<times> mem" where
  "moveCharge m self target byteCount =
     (let from = chain (budgets m) self; to = chain (budgets m) target in
      if list_ex (\<lambda>b. bg_used (budgets m b) < byteCount) from then (False, m)
      else if list_ex (\<lambda>b. b \<notin> set from
                 \<and> i64 (bg_total (budgets m b) - bg_used (budgets m b)) < byteCount) to
      then (False, m)
      else
        let m1 = fold (\<lambda>b. if b \<notin> set to then upd_budget b (releaseByteCount byteCount) else id) from m
        in (True, fold (\<lambda>b. if b \<notin> set from then upd_budget b (charge byteCount) else id) to m1))"

definition tryMoveReservation :: "mem \<Rightarrow> nat option \<Rightarrow> nat option \<Rightarrow> int \<Rightarrow> bool \<times> mem" where
  "tryMoveReservation m self target byteCount =
     (case (self, target) of
        (Some s, Some t) \<Rightarrow>
          if byteCount < 0 \<or> admissionRoot m s \<noteq> admissionRoot m t then (False, m)
          else
            (case moveCharge m s t byteCount of
               (False, m') \<Rightarrow> (False, m')
             | (True, m') \<Rightarrow>
                 (True, if s \<noteq> t \<and> byteCount \<noteq> 0 then notifyCapacityChanged m' s else m'))
      | _ \<Rightarrow> (False, m))"

section \<open>Lemmas: the parent chain\<close>

lemma chain_Cons: "\<exists>xs. chain B b = b # xs"
  by (subst chain.simps) simp

lemma chain_self [simp]: "b \<in> set (chain B b)"
  using chain_Cons [of B b] by auto

lemma chain_le: "x \<in> set (chain B b) \<Longrightarrow> x \<le> b"
proof (induction b rule: less_induct)
  case (less b)
  then show ?case
    by (subst (asm) chain.simps) (fastforce split: option.splits if_splits)
qed

lemma chain_distinct: "distinct (chain B b)"
proof (induction b rule: less_induct)
  case (less b)
  then show ?case
    by (subst chain.simps) (auto split: option.splits dest: chain_le)
qed

lemma chain_cong:
  assumes "\<And>x. x \<le> b \<Longrightarrow> bg_parent (B' x) = bg_parent (B x)"
  shows "chain B' b = chain B b"
  using assms
proof (induction b rule: less_induct)
  case (less b)
  have "p < b \<Longrightarrow> chain B' p = chain B p" for p
    using less.IH [of p] less.prems by simp
  then show ?case
    using less.prems [of b] by (simp add: chain.simps [of _ b] split: option.splits)
qed

lemma chain_trans: "x \<in> set (chain B b) \<Longrightarrow> set (chain B x) \<subseteq> set (chain B b)"
proof (induction b rule: less_induct)
  case (less b)
  show ?case
  proof (cases "x = b")
    case False
    then obtain p where "bg_parent (B b) = Some p" "p < b" "x \<in> set (chain B p)"
      using less.prems chain.simps [of B b] by (auto split: option.splits if_splits)
    then show ?thesis
      using less.IH [of p] by (simp add: chain.simps [of B b]) blast
  qed simp
qed

lemma upd_budget_sel [simp]:
  "budgets (upd_budget b f m) = (budgets m)(b := f (budgets m b))"
  "waiters (upd_budget b f m) = waiters m" "nextBudget (upd_budget b f m) = nextBudget m"
  "nextChan (upd_budget b f m) = nextChan m" "closed (upd_budget b f m) = closed m"
  by (simp_all add: upd_budget_def)

lemma upd_waiter_sel [simp]:
  "waiters (upd_waiter w g m) = (waiters m)(w := g (waiters m w))"
  "budgets (upd_waiter w g m) = budgets m" "nextBudget (upd_waiter w g m) = nextBudget m"
  "nextChan (upd_waiter w g m) = nextChan m" "closed (upd_waiter w g m) = closed m"
  by (simp_all add: upd_waiter_def)

lemma fold_upd_budget:
  "distinct bs \<Longrightarrow> fold (\<lambda>x. upd_budget x f) bs m =
     m\<lparr>budgets := (\<lambda>x. if x \<in> set bs then f (budgets m x) else budgets m x)\<rparr>"
proof (induction bs arbitrary: m)
  case (Cons b bs)
  let ?B = "(budgets m)(b := f (budgets m b))"
  have "(\<lambda>x. if x \<in> set bs then f (?B x) else ?B x) =
      (\<lambda>x. if x \<in> set (b # bs) then f (budgets m x) else budgets m x)"
    using Cons.prems by (intro ext) auto
  moreover have "fold (\<lambda>x. upd_budget x f) bs (upd_budget b f m) =
      (upd_budget b f m)\<lparr>budgets := (\<lambda>x. if x \<in> set bs then f (?B x) else ?B x)\<rparr>"
    using Cons.IH [of "upd_budget b f m"] Cons.prems unfolding upd_budget_sel by simp
  ultimately show ?case
    by (simp only: fold_simps comp_apply) (simp add: upd_budget_def)
qed simp

lemma upd_chain_eq:
  "upd_chain b f m = m\<lparr>budgets := (\<lambda>x. if x \<in> set (chain (budgets m) b)
     then f (budgets m x) else budgets m x)\<rparr>"
  by (simp add: upd_chain_def fold_upd_budget chain_distinct)

lemma fold_upd_budget_filter:
  "fold (\<lambda>x. if P x then upd_budget x f else id) bs m = fold (\<lambda>x. upd_budget x f) (filter P bs) m"
  by (induction bs arbitrary: m) simp_all

lemma fold_upd_budget_if:
  "distinct bs \<Longrightarrow> fold (\<lambda>x. if P x then upd_budget x f else id) bs m =
     m\<lparr>budgets := (\<lambda>x. if x \<in> set bs \<and> P x then f (budgets m x) else budgets m x)\<rparr>"
  by (simp add: fold_upd_budget_filter fold_upd_budget)

section \<open>Lemmas: what the waiter operations leave alone\<close>

text \<open>\<open>core\<close> forgets the notification fields of a budget.\<close>

definition core :: "budget \<Rightarrow> nat option \<times> nat option \<times> bool \<times> int \<times> int \<times> int \<times> int \<times> int" where
  "core b = (bg_parent b, bg_root b, bg_hasChildren b, bg_total b, bg_used b, bg_floor b,
     bg_reserved b, bg_released b)"

definition same_core :: "mem \<Rightarrow> mem \<Rightarrow> bool" where
  "same_core m m' \<longleftrightarrow> nextBudget m' = nextBudget m \<and> (\<forall>b. core (budgets m' b) = core (budgets m b))"

lemma core_fields:
  assumes "core b = core b'"
  shows "bg_parent b = bg_parent b'" "bg_root b = bg_root b'" "bg_total b = bg_total b'"
    "bg_used b = bg_used b'" "bg_floor b = bg_floor b'" "bg_reserved b = bg_reserved b'"
    "bg_released b = bg_released b'" "bg_hasChildren b = bg_hasChildren b'"
  using assms by (simp_all add: core_def)

lemma same_core_refl [simp]: "same_core m m"
  by (simp add: same_core_def)

lemma same_core_trans [trans]: "same_core a b \<Longrightarrow> same_core b c \<Longrightarrow> same_core a c"
  by (simp add: same_core_def)

lemma same_core_upd_waiter [simp]: "same_core m (upd_waiter w f m') = same_core m m'"
  by (simp add: same_core_def upd_waiter_def)

lemma same_core_upd_budget:
  "(\<And>b. core (f b) = core b) \<Longrightarrow> same_core m (upd_budget x f m') = same_core m m'"
  by (auto simp: same_core_def upd_budget_def)

lemma same_core_links [simp]:
  "same_core m (upd_budget x (bg_waitHead_update g) m') = same_core m m'"
  "same_core m (upd_budget x (bg_waitTail_update g) m') = same_core m m'"
  "same_core m (upd_budget x (bg_waiterCount_update h) m') = same_core m m'"
  "same_core m (upd_budget x (bg_notify_update g) m') = same_core m m'"
  by (rule same_core_upd_budget; simp add: core_def)+

lemma same_core_chans [simp]:
  "same_core m (m'\<lparr>closed := c\<rparr>) = same_core m m'"
  "same_core m (m'\<lparr>nextChan := n\<rparr>) = same_core m m'"
  by (simp_all add: same_core_def)

lemma same_core_addCapacityWaiter: "same_core m (addCapacityWaiter m b w)"
  by (simp add: addCapacityWaiter_def Let_def split: option.splits)

lemma same_core_removeWithLock: "same_core m (removeCapacityWaiterWithLock m r w)"
  by (simp add: removeCapacityWaiterWithLock_def Let_def split: option.splits)

lemma same_core_notify_visit: "notify_visit r w sc m = (sc', m') \<Longrightarrow> same_core m m'"
  by (auto simp: notify_visit_def Let_def same_core_removeWithLock split: prod.splits if_splits)

lemma same_core_notify_loop: "notify_loop fuel r w sc m = Some m' \<Longrightarrow> same_core m m'"
proof (induction fuel r w sc m rule: notify_loop.induct)
  case (3 fuel r w sc m)
  then show ?case
    by (auto simp: Let_def split: prod.splits intro: same_core_trans dest: same_core_notify_visit)
qed simp_all

lemma same_core_notifyEligible: "same_core m (notifyEligibleCapacityWaiters m b)"
  by (auto simp: notifyEligibleCapacityWaiters_def Let_def split: option.splits
      dest: same_core_notify_loop)

lemma same_core_notifyCapacityChanged: "same_core m (notifyCapacityChanged m b)"
proof -
  define m1 where "m1 = (case bg_notify (budgets m (admissionRoot m b)) of None \<Rightarrow> m
      | Some c \<Rightarrow> (upd_budget (admissionRoot m b) (bg_notify_update (\<lambda>_. None)) m)\<lparr>closed := c # closed m\<rparr>)"
  have "same_core m m1"
    by (simp add: m1_def split: option.splits)
  also have "same_core m1 (notifyEligibleCapacityWaiters m1 (admissionRoot m b))"
    by (rule same_core_notifyEligible)
  finally show ?thesis
    by (simp add: notifyCapacityChanged_def m1_def Let_def)
qed

lemma same_core_waiter_reset: "same_core m (waiter_reset m w)"
  by (simp add: waiter_reset_def removeCapacityWaiter_def same_core_removeWithLock split: option.splits)

lemma same_core_waiter_subscribe: "same_core m (snd (waiter_subscribe m w b n))"
  by (auto simp: waiter_subscribe_def Let_def split: option.splits
      intro: same_core_trans [OF _ same_core_addCapacityWaiter] simp: same_core_waiter_reset)

lemma same_core_CapacityNotify: "same_core m (snd (CapacityNotify m b))"
  by (simp add: CapacityNotify_def Let_def split: option.splits)

lemmas same_core_ops = same_core_addCapacityWaiter same_core_removeWithLock
  same_core_notifyCapacityChanged same_core_waiter_reset same_core_waiter_subscribe
  same_core_CapacityNotify

section \<open>Exact admission: claims on a budget tree\<close>

text \<open>
  The owners of retained bytes hold claims: a claim \<open>(b, n)\<close> is \<open>n\<close> bytes admitted at
  budget \<open>b\<close>. \<open>held\<close> is what the claims at or below a budget add up to.
\<close>

definition held :: "(nat \<Rightarrow> budget) \<Rightarrow> (nat \<times> int) multiset \<Rightarrow> nat \<Rightarrow> int" where
  "held B C b = (\<Sum>(c, n) \<in># C. if b \<in> set (chain B c) then n else 0)"

text \<open>Every budget that was made has a parent made before it, and the parent's root.\<close>

definition wf_budgets :: "mem \<Rightarrow> bool" where
  "wf_budgets m \<longleftrightarrow> (\<forall>b < nextBudget m.
     (case bg_parent (budgets m b) of
        None \<Rightarrow> bg_root (budgets m b) = None
      | Some p \<Rightarrow> p < b \<and> bg_root (budgets m b) = Some (admissionRoot m p)
          \<and> bg_hasChildren (budgets m (admissionRoot m p))))"

record bstate =
  bs_mem :: mem
  bs_claims :: "(nat \<times> int) multiset"
  bs_peak :: "nat \<Rightarrow> int"

text \<open>
  The steps of the owners, of the code that resizes the pools and of the waiters, one step
  per critical section. \<open>bs_peak b\<close> records the largest total budget \<open>b\<close> ever had. A
  release gives back a whole claim, as its owner does. \<open>Reserve\<close>, which charges past the
  total on purpose, is not a step of this relation; a root has fewer than \<open>2 ^ 63 - 1\<close>
  waiters when one more subscribes.
\<close>

inductive budget_step :: "bstate \<Rightarrow> bstate \<Rightarrow> bool" where
  step_new: "0 \<le> t \<Longrightarrow> in64 t \<Longrightarrow> (\<forall>p. parent = Some p \<longrightarrow> p < nextBudget (bs_mem s)) \<Longrightarrow>
     NewTransferMemoryBudgetWithParent (bs_mem s) t parent = (b, m') \<Longrightarrow>
     budget_step s (s\<lparr>bs_mem := m', bs_peak := (bs_peak s)(b := t)\<rparr>)"
| step_reserve: "b < nextBudget (bs_mem s) \<Longrightarrow> in64 n \<Longrightarrow> TryReserve (bs_mem s) b n = (ok, m') \<Longrightarrow>
     budget_step s (s\<lparr>bs_mem := m', bs_claims := (if ok then add_mset (b, n) (bs_claims s) else bs_claims s)\<rparr>)"
| step_release: "(b, n) \<in># bs_claims s \<Longrightarrow>
     budget_step s (s\<lparr>bs_mem := releaseCharge (bs_mem s) b n, bs_claims := bs_claims s - {#(b, n)#}\<rparr>)"
| step_move: "(c, n) \<in># bs_claims s \<Longrightarrow> d < nextBudget (bs_mem s) \<Longrightarrow>
     admissionRoot (bs_mem s) c = admissionRoot (bs_mem s) d \<Longrightarrow>
     moveCharge (bs_mem s) c d n = (ok, m') \<Longrightarrow>
     budget_step s (s\<lparr>bs_mem := m', bs_claims :=
       (if ok then add_mset (d, n) (bs_claims s - {#(c, n)#}) else bs_claims s)\<rparr>)"
| step_resize: "b < nextBudget (bs_mem s) \<Longrightarrow> 0 \<le> t \<Longrightarrow> in64 t \<Longrightarrow>
     budget_step s (s\<lparr>bs_mem := setTotal (bs_mem s) b t, bs_peak := (bs_peak s)(b := max (bs_peak s b) t)\<rparr>)"
| step_floor: "m' = addFloor (bs_mem s) b n \<or> m' = removeFloor (bs_mem s) b n \<Longrightarrow>
     budget_step s (s\<lparr>bs_mem := m'\<rparr>)"
| step_notify: "b < nextBudget (bs_mem s) \<Longrightarrow>
     m' = notifyCapacityChanged (bs_mem s) b \<or> m' = snd (CapacityNotify (bs_mem s) b) \<Longrightarrow>
     budget_step s (s\<lparr>bs_mem := m'\<rparr>)"
| step_subscribe: "b < nextBudget (bs_mem s) \<Longrightarrow>
     bg_waiterCount (budgets (bs_mem s) (admissionRoot (bs_mem s) b)) < maxInt64 \<Longrightarrow>
     waiter_subscribe (bs_mem s) w (Some b) n = (c, m') \<Longrightarrow> budget_step s (s\<lparr>bs_mem := m'\<rparr>)"
| step_reset: "budget_step s (s\<lparr>bs_mem := waiter_reset (bs_mem s) w\<rparr>)"

definition mem0 :: mem where
  "mem0 = \<lparr>budgets = (\<lambda>_. empty_budget), waiters = (\<lambda>_. newTransferMemoryBudgetWaiter), nextBudget = 0,
     nextChan = 0, closed = []\<rparr>"

inductive budget_reachable :: "bstate \<Rightarrow> bool" where
  reach_init: "bs_mem s = mem0 \<Longrightarrow> bs_claims s = {#} \<Longrightarrow> budget_reachable s"
| reach_step: "budget_reachable s \<Longrightarrow> budget_step s s' \<Longrightarrow> budget_reachable s'"

definition budget_ok :: "mem \<Rightarrow> (nat \<times> int) multiset \<Rightarrow> (nat \<Rightarrow> int) \<Rightarrow> nat \<Rightarrow> bool" where
  "budget_ok m C peak b \<longleftrightarrow>
     0 \<le> bg_total (budgets m b) \<and> bg_total (budgets m b) \<le> peak b \<and> in64 (peak b)
   \<and> bg_used (budgets m b) = held (budgets m) C b \<and> bg_used (budgets m b) \<le> peak b
   \<and> i64 (bg_reserved (budgets m b) - bg_released (budgets m b)) = bg_used (budgets m b)"

definition budget_inv :: "bstate \<Rightarrow> bool" where
  "budget_inv s \<longleftrightarrow> wf_budgets (bs_mem s)
   \<and> (\<forall>(c, n) \<in># bs_claims s. c < nextBudget (bs_mem s) \<and> 0 \<le> n)
   \<and> (\<forall>b < nextBudget (bs_mem s). budget_ok (bs_mem s) (bs_claims s) (bs_peak s) b)"

section \<open>Lemmas: claims\<close>

lemma held_empty [simp]: "held B {#} b = 0"
  by (simp add: held_def)

lemma held_add [simp]:
  "held B (add_mset (c, n) C) b = (if b \<in> set (chain B c) then n else 0) + held B C b"
  by (simp add: held_def)

lemma held_remove:
  "(c, n) \<in># C \<Longrightarrow> held B (C - {#(c, n)#}) b = held B C b - (if b \<in> set (chain B c) then n else 0)"
  by (metis add_diff_cancel_left' held_add insert_DiffM)

lemma held_nonneg: "\<forall>(c, n) \<in># C. 0 \<le> n \<Longrightarrow> 0 \<le> held B C b"
proof (induction C)
  case (add x C)
  then show ?case
    by (cases x) auto
qed simp

lemma held_cong:
  assumes "\<And>c. c \<in> fst ` set_mset C \<Longrightarrow> chain B' c = chain B c"
  shows "held B' C b = held B C b"
  unfolding held_def using assms
  by (intro arg_cong [where f = sum_mset] image_mset_cong) (fastforce split: prod.splits)

lemma held_ge:
  "(c, n) \<in># C \<Longrightarrow> b \<in> set (chain B c) \<Longrightarrow> \<forall>(c, n) \<in># C. 0 \<le> n \<Longrightarrow> n \<le> held B C b"
  using held_remove [of c n C B b] held_nonneg [of "C - {#(c, n)#}" B b] by (auto dest: in_diffD)

lemma same_parents_chain:
  "(\<And>x. bg_parent (B' x) = bg_parent (B x)) \<Longrightarrow> chain B' = chain B"
  by (rule ext) (rule chain_cong)

lemma same_core_chain: "same_core m m' \<Longrightarrow> chain (budgets m') = chain (budgets m)"
  by (rule same_parents_chain, rule core_fields(1)) (simp add: same_core_def)

lemma wf_budgets_cong:
  assumes "wf_budgets m" and "nextBudget m' = nextBudget m"
    and "\<And>x. bg_parent (budgets m' x) = bg_parent (budgets m x)"
    and "\<And>x. bg_root (budgets m' x) = bg_root (budgets m x)"
    and "\<And>x. bg_hasChildren (budgets m' x) = bg_hasChildren (budgets m x)"
  shows "wf_budgets m'"
proof -
  have "admissionRoot m' = admissionRoot m"
    using assms(4) by (simp add: admissionRoot_def fun_eq_iff)
  then show ?thesis
    using assms unfolding wf_budgets_def by (auto split: option.splits)
qed

lemma budget_ok_cong:
  assumes "chain (budgets m') = chain (budgets m)"
    and "bg_total (budgets m' b) = bg_total (budgets m b)" "bg_used (budgets m' b) = bg_used (budgets m b)"
    and "bg_reserved (budgets m' b) = bg_reserved (budgets m b)"
    and "bg_released (budgets m' b) = bg_released (budgets m b)"
  shows "budget_ok m' C peak b = budget_ok m C peak b"
  using assms by (simp add: budget_ok_def held_def)

lemma budget_inv_same_core:
  assumes "budget_inv s" and "same_core (bs_mem s) m'"
  shows "budget_inv (s\<lparr>bs_mem := m'\<rparr>)"
proof -
  have f: "\<And>b. core (budgets m' b) = core (budgets (bs_mem s) b)" and n: "nextBudget m' = nextBudget (bs_mem s)"
    using assms(2) by (auto simp: same_core_def)
  have "budget_ok m' C peak b = budget_ok (bs_mem s) C peak b" for C peak b
    by (rule budget_ok_cong [OF same_core_chain [OF assms(2)]]) (rule core_fields [OF f])+
  moreover have "wf_budgets (bs_mem s) \<Longrightarrow> wf_budgets m'"
    by (erule wf_budgets_cong) (rule n core_fields [OF f])+
  ultimately show ?thesis
    using assms(1) n by (simp add: budget_inv_def)
qed

section \<open>Lemmas: one critical section\<close>

lemma releaseCharge_chain:
  assumes "wf_budgets m" and "b < nextBudget m"
  shows "releaseCharge m b n = upd_chain b (releaseByteCount n) m"
proof (cases "requiresAdmissionLock m b")
  case False
  then have "chain (budgets m) b = [b]"
    by (simp add: chain.simps [of _ b] requiresAdmissionLock_def)
  then show ?thesis
    using False by (simp add: releaseCharge_def upd_chain_def)
qed (simp add: releaseCharge_def)

lemma Reserve_chain:
  assumes "wf_budgets m" and "b < nextBudget m"
  shows "Reserve m b n = upd_chain b (charge n) m"
proof (cases "requiresAdmissionLock m b")
  case False
  then have "chain (budgets m) b = [b]"
    by (simp add: chain.simps [of _ b] requiresAdmissionLock_def)
  then show ?thesis
    using False by (simp add: Reserve_def upd_chain_def)
qed (simp add: Reserve_def tryReserveWithLock_def)

lemma upd_chain_keeps:
  assumes "\<And>b. bg_parent (f b) = bg_parent b" "\<And>b. bg_root (f b) = bg_root b"
    "\<And>b. bg_hasChildren (f b) = bg_hasChildren b"
  shows "chain (budgets (upd_chain c f m)) = chain (budgets m)"
    and "wf_budgets m \<Longrightarrow> wf_budgets (upd_chain c f m)"
    and "nextBudget (upd_chain c f m) = nextBudget m"
proof -
  show "chain (budgets (upd_chain c f m)) = chain (budgets m)"
    by (rule same_parents_chain) (simp add: upd_chain_eq assms)
  show "wf_budgets m \<Longrightarrow> wf_budgets (upd_chain c f m)"
    by (erule wf_budgets_cong) (simp_all add: upd_chain_eq assms)
qed (simp add: upd_chain_eq)

lemma charge_sel [simp]:
  "bg_parent (charge n b) = bg_parent b" "bg_root (charge n b) = bg_root b"
  "bg_hasChildren (charge n b) = bg_hasChildren b" "bg_total (charge n b) = bg_total b"
  "bg_used (charge n b) = i64 (bg_used b + n)" "bg_reserved (charge n b) = i64 (bg_reserved b + n)"
  "bg_released (charge n b) = bg_released b"
  by (simp_all add: charge_def)

lemma releaseByteCount_sel [simp]:
  "bg_parent (releaseByteCount n b) = bg_parent b" "bg_root (releaseByteCount n b) = bg_root b"
  "bg_hasChildren (releaseByteCount n b) = bg_hasChildren b" "bg_total (releaseByteCount n b) = bg_total b"
  "bg_used (releaseByteCount n b) = i64 (bg_used b - n)" "bg_reserved (releaseByteCount n b) = bg_reserved b"
  "bg_released (releaseByteCount n b) = i64 (bg_released b + n)"
  by (simp_all add: releaseByteCount_def)

lemma i64_balance_charge: "i64 (r - l) = u \<Longrightarrow> i64 (i64 (r + n) - l) = i64 (u + n)"
  by (drule sym) (simp add: algebra_simps)

lemma i64_balance_release: "i64 (r - l) = u \<Longrightarrow> i64 (r - i64 (l + n)) = i64 (u - n)"
  by (drule sym) (simp add: algebra_simps)

text \<open>A claim that fits is charged at every level without wrap-around; one that does not is refused.\<close>

lemma tryReserve_True:
  "TryReserve m b n = (True, m') \<Longrightarrow>
     0 \<le> n \<and> m' = upd_chain b (charge n) m
   \<and> (\<forall>x \<in> set (chain (budgets m) b). n \<le> bg_total (budgets m x)
        \<and> bg_used (budgets m x) \<le> i64 (bg_total (budgets m x) - n))"
  by (auto simp: TryReserve_def tryReserveWithLock_def list_ex_iff not_less split: if_splits)

lemma tryReserve_False: "TryReserve m b n = (False, m') \<Longrightarrow> m' = m"
  by (auto simp: TryReserve_def tryReserveWithLock_def split: if_splits)

lemma i64_fits: "0 \<le> n \<Longrightarrow> n \<le> t \<Longrightarrow> t \<le> p \<Longrightarrow> in64 p \<Longrightarrow> i64 (t - n) = t - n"
  by (rule i64_id) (auto simp: in64_def)

lemma budget_ok_delta:
  assumes ok: "budget_ok m C peak x" and total: "bg_total (budgets m' x) = bg_total (budgets m x)"
    and used: "bg_used (budgets m' x) = i64 (bg_used (budgets m x) + d)"
    and bal: "i64 (bg_reserved (budgets m' x) - bg_released (budgets m' x)) = i64 (bg_used (budgets m x) + d)"
    and held: "held (budgets m') C' x = held (budgets m) C x + d"
    and range: "0 \<le> bg_used (budgets m x) + d" "bg_used (budgets m x) + d \<le> peak x"
  shows "budget_ok m' C' peak x"
proof -
  have "i64 (bg_used (budgets m x) + d) = bg_used (budgets m x) + d"
    using ok range by (auto simp: budget_ok_def intro!: i64_id elim: in64_nonneg_le [of _ "peak x"])
  then show ?thesis
    using ok range unfolding budget_ok_def total used bal held by simp
qed

lemma budget_ok_same:
  assumes "budget_ok m C peak x" and "budgets m' x = budgets m x"
    and "held (budgets m') C' x = held (budgets m) C x"
  shows "budget_ok m' C' peak x"
  using assms by (simp add: budget_ok_def)

lemma budget_ok_charge:
  assumes "budget_ok m C peak x" and "budgets m' x = charge n (budgets m x)"
    and "held (budgets m') C' x = held (budgets m) C x + n" and "0 \<le> n" and "0 \<le> bg_used (budgets m x)"
    and "bg_used (budgets m x) + n \<le> bg_total (budgets m x)"
  shows "budget_ok m' C' peak x"
proof (rule budget_ok_delta [OF assms(1) _ _ _ assms(3)])
  show "i64 (bg_reserved (budgets m' x) - bg_released (budgets m' x)) = i64 (bg_used (budgets m x) + n)"
    unfolding assms(2) charge_sel using assms(1) by (intro i64_balance_charge) (simp add: budget_ok_def)
qed (use assms in \<open>auto simp: budget_ok_def\<close>)

lemma budget_ok_release:
  assumes "budget_ok m C peak x" and "budgets m' x = releaseByteCount n (budgets m x)"
    and "held (budgets m') C' x = held (budgets m) C x - n" and "0 \<le> n"
    and "n \<le> bg_used (budgets m x)"
  shows "budget_ok m' C' peak x"
proof (rule budget_ok_delta [OF assms(1), where d = "- n"])
  show "i64 (bg_reserved (budgets m' x) - bg_released (budgets m' x)) = i64 (bg_used (budgets m x) + - n)"
    unfolding assms(2) releaseByteCount_sel using assms(1) i64_balance_release
    by (simp add: budget_ok_def)
qed (use assms in \<open>auto simp: budget_ok_def\<close>)

section \<open>Lemmas: every step keeps the invariant\<close>

lemma budget_invD:
  assumes "budget_inv s"
  shows "wf_budgets (bs_mem s)" and "\<forall>(c, n) \<in># bs_claims s. 0 \<le> n"
    and "(c, n) \<in># bs_claims s \<Longrightarrow> c < nextBudget (bs_mem s) \<and> 0 \<le> n"
    and "b < nextBudget (bs_mem s) \<Longrightarrow> budget_ok (bs_mem s) (bs_claims s) (bs_peak s) b"
    and "b < nextBudget (bs_mem s) \<Longrightarrow> 0 \<le> bg_used (budgets (bs_mem s) b)"
proof -
  show nonneg: "\<forall>(c, n) \<in># bs_claims s. 0 \<le> n"
    using assms by (auto simp: budget_inv_def)
  show "b < nextBudget (bs_mem s) \<Longrightarrow> 0 \<le> bg_used (budgets (bs_mem s) b)"
    using assms held_nonneg [OF nonneg] by (auto simp: budget_inv_def budget_ok_def)
qed (use assms in \<open>auto simp: budget_inv_def\<close>)

lemma budget_inv_reserve:
  assumes inv: "budget_inv s" and b: "b < nextBudget (bs_mem s)"
    and ok: "TryReserve (bs_mem s) b n = (True, m')"
  shows "budget_inv (s\<lparr>bs_mem := m', bs_claims := add_mset (b, n) (bs_claims s)\<rparr>)"
proof -
  note D = budget_invD [OF inv]
  let ?m = "bs_mem s"
  from tryReserve_True [OF ok] have n: "0 \<le> n" and m': "m' = upd_chain b (charge n) ?m"
    and fit: "\<And>x. x \<in> set (chain (budgets ?m) b) \<Longrightarrow> n \<le> bg_total (budgets ?m x)
        \<and> bg_used (budgets ?m x) \<le> i64 (bg_total (budgets ?m x) - n)"
    by auto
  have ch: "chain (budgets m') = chain (budgets ?m)" and wf: "wf_budgets m'"
    and nb: "nextBudget m' = nextBudget ?m"
    unfolding m' using D(1) by (simp_all add: upd_chain_keeps)
  have held: "held (budgets m') C x = held (budgets ?m) C x" for C x
    by (simp add: held_def ch)
  have bx: "budgets m' x = (if x \<in> set (chain (budgets ?m) b) then charge n (budgets ?m x) else budgets ?m x)" for x
    by (simp add: m' upd_chain_eq)
  have "budget_ok m' (add_mset (b, n) (bs_claims s)) (bs_peak s) x" if x: "x < nextBudget ?m" for x
  proof (cases "x \<in> set (chain (budgets ?m) b)")
    case True
    have "bg_used (budgets ?m x) + n \<le> bg_total (budgets ?m x)"
      using fit [OF True] n D(4) [OF x] i64_fits [of n "bg_total (budgets ?m x)" "bs_peak s x"]
      by (simp add: budget_ok_def)
    then show ?thesis
      using True n D(5) [OF x] by (intro budget_ok_charge [OF D(4) [OF x], where n = n]) (simp_all add: bx held ch)
  next
    case False
    then show ?thesis
      by (intro budget_ok_same [OF D(4) [OF x]]) (simp_all add: bx held ch)
  qed
  then show ?thesis
    using D(3) wf nb n b by (auto simp: budget_inv_def)
qed

lemma budget_inv_release:
  assumes inv: "budget_inv s" and claim: "(b, n) \<in># bs_claims s"
  shows "budget_inv (s\<lparr>bs_mem := releaseCharge (bs_mem s) b n, bs_claims := bs_claims s - {#(b, n)#}\<rparr>)"
proof -
  note D = budget_invD [OF inv]
  let ?m = "bs_mem s"
  define m' where "m' = upd_chain b (releaseByteCount n) ?m"
  have eq: "releaseCharge ?m b n = m'"
    unfolding m'_def using D(1) D(3) [OF claim] by (intro releaseCharge_chain) simp_all
  have ch: "chain (budgets m') = chain (budgets ?m)" and wf: "wf_budgets m'"
    and nb: "nextBudget m' = nextBudget ?m"
    unfolding m'_def using D(1) by (simp_all add: upd_chain_keeps)
  have held: "held (budgets m') C x = held (budgets ?m) C x" for C x
    by (simp add: held_def ch)
  have bx: "budgets m' x = (if x \<in> set (chain (budgets ?m) b) then releaseByteCount n (budgets ?m x) else budgets ?m x)" for x
    by (simp add: m'_def upd_chain_eq)
  have "budget_ok m' (bs_claims s - {#(b, n)#}) (bs_peak s) x" if x: "x < nextBudget ?m" for x
  proof (cases "x \<in> set (chain (budgets ?m) b)")
    case True
    have "n \<le> bg_used (budgets ?m x)"
      using held_ge [OF claim True D(2)] D(4) [OF x] by (simp add: budget_ok_def)
    then show ?thesis
      using True D(3) [OF claim]
      by (intro budget_ok_release [OF D(4) [OF x], where n = n])
        (simp_all add: bx held held_remove [OF claim] ch)
  next
    case False
    then show ?thesis
      by (intro budget_ok_same [OF D(4) [OF x]])
        (simp_all add: bx held held_remove [OF claim] ch)
  qed
  then show ?thesis
    using D(3) wf nb by (auto simp: budget_inv_def eq dest: in_diffD)
qed

lemma moveCharge_True:
  assumes "moveCharge m c d n = (True, m')"
  shows "\<forall>x \<in> set (chain (budgets m) c). n \<le> bg_used (budgets m x)"
    and "\<forall>x \<in> set (chain (budgets m) d) - set (chain (budgets m) c).
      n \<le> i64 (bg_total (budgets m x) - bg_used (budgets m x))"
    and "nextBudget m' = nextBudget m"
    and "budgets m' x =
      (if x \<in> set (chain (budgets m) c) \<and> x \<notin> set (chain (budgets m) d) then releaseByteCount n (budgets m x)
       else if x \<in> set (chain (budgets m) d) \<and> x \<notin> set (chain (budgets m) c) then charge n (budgets m x)
       else budgets m x)"
  using assms
  by (auto simp: moveCharge_def Let_def list_ex_iff fold_upd_budget_if chain_distinct not_less
      split: if_splits)

lemma moveCharge_False: "moveCharge m c d n = (False, m') \<Longrightarrow> m' = m"
  by (auto simp: moveCharge_def Let_def split: if_splits)

lemma budget_inv_move:
  assumes inv: "budget_inv s" and claim: "(c, n) \<in># bs_claims s" and d: "d < nextBudget (bs_mem s)"
    and ok: "moveCharge (bs_mem s) c d n = (True, m')"
  shows "budget_inv (s\<lparr>bs_mem := m', bs_claims := add_mset (d, n) (bs_claims s - {#(c, n)#})\<rparr>)"
proof -
  note D = budget_invD [OF inv]
  note M = moveCharge_True [OF ok]
  let ?m = "bs_mem s" and ?C = "add_mset (d, n) (bs_claims s - {#(c, n)#})"
  have n: "0 \<le> n" using D(3) [OF claim] by simp
  have ch: "chain (budgets m') = chain (budgets ?m)"
    by (rule same_parents_chain) (simp add: M(4))
  have wf: "wf_budgets m'"
    by (rule wf_budgets_cong [OF D(1) M(3)]) (simp_all add: M(4))
  have held: "held (budgets m') C x = held (budgets ?m) C x" for C x
    by (simp add: held_def ch)
  have "budget_ok m' ?C (bs_peak s) x" if x: "x < nextBudget ?m" for x
  proof -
    note ok_x = D(4) [OF x]
    consider "x \<in> set (chain (budgets ?m) c)" "x \<notin> set (chain (budgets ?m) d)"
      | "x \<in> set (chain (budgets ?m) d)" "x \<notin> set (chain (budgets ?m) c)"
      | "x \<in> set (chain (budgets ?m) c) \<longleftrightarrow> x \<in> set (chain (budgets ?m) d)" by blast
    then show ?thesis
    proof cases
      case 1
      then show ?thesis
        using M(1) n by (intro budget_ok_release [OF ok_x, where n = n])
          (simp_all add: M(4) held held_remove [OF claim] ch)
    next
      case 2
      have "0 \<le> bg_total (budgets ?m x)" "bg_total (budgets ?m x) \<le> bs_peak s x" "in64 (bs_peak s x)"
        "bg_used (budgets ?m x) \<le> bs_peak s x" "0 \<le> bg_used (budgets ?m x)"
        using ok_x D(5) [OF x] by (auto simp: budget_ok_def)
      then have "i64 (bg_total (budgets ?m x) - bg_used (budgets ?m x)) =
          bg_total (budgets ?m x) - bg_used (budgets ?m x)"
        by (intro i64_id) (auto simp: in64_def)
      then have "bg_used (budgets ?m x) + n \<le> bg_total (budgets ?m x)"
        using bspec [OF M(2), of x] 2 by simp
      then show ?thesis
        using 2 n D(5) [OF x] by (intro budget_ok_charge [OF ok_x, where n = n])
          (simp_all add: M(4) held held_remove [OF claim] ch)
    next
      case 3
      then show ?thesis
        by (intro budget_ok_same [OF ok_x]) (auto simp: M(4) held held_remove [OF claim] ch)
    qed
  qed
  then show ?thesis
    using D(3) wf M(3) n d by (auto simp: budget_inv_def dest: in_diffD)
qed

lemma budget_inv_resize:
  assumes inv: "budget_inv s" and b: "b < nextBudget (bs_mem s)" and t: "0 \<le> t" "in64 t"
  shows "budget_inv (s\<lparr>bs_mem := setTotal (bs_mem s) b t, bs_peak := (bs_peak s)(b := max (bs_peak s b) t)\<rparr>)"
proof -
  note D = budget_invD [OF inv]
  let ?m' = "setTotal (bs_mem s) b t"
  have ch: "chain (budgets ?m') = chain (budgets (bs_mem s))"
    by (rule same_parents_chain) (simp add: setTotal_def)
  have "wf_budgets ?m'"
    by (rule wf_budgets_cong [OF D(1)]) (simp_all add: setTotal_def)
  moreover have "budget_ok ?m' (bs_claims s) ((bs_peak s)(b := max (bs_peak s b) t)) x"
    if x: "x < nextBudget (bs_mem s)" for x
    using D(4) [OF x] t ch by (auto simp: budget_ok_def held_def setTotal_def max_def)
  ultimately show ?thesis
    using D(3) by (auto simp: budget_inv_def setTotal_def)
qed

lemma budget_inv_floor:
  assumes "budget_inv s" and "m' = addFloor (bs_mem s) b n \<or> m' = removeFloor (bs_mem s) b n"
  shows "budget_inv (s\<lparr>bs_mem := m'\<rparr>)"
proof -
  note D = budget_invD [OF assms(1)]
  have f: "bg_parent (budgets m' x) = bg_parent (budgets (bs_mem s) x)"
    "bg_root (budgets m' x) = bg_root (budgets (bs_mem s) x)"
    "bg_hasChildren (budgets m' x) = bg_hasChildren (budgets (bs_mem s) x)"
    "bg_total (budgets m' x) = bg_total (budgets (bs_mem s) x)"
    "bg_used (budgets m' x) = bg_used (budgets (bs_mem s) x)"
    "bg_reserved (budgets m' x) = bg_reserved (budgets (bs_mem s) x)"
    "bg_released (budgets m' x) = bg_released (budgets (bs_mem s) x)"
    and n: "nextBudget m' = nextBudget (bs_mem s)" for x
    using assms(2) by (elim disjE; simp add: addFloor_def removeFloor_def)+
  have "wf_budgets m'" by (rule wf_budgets_cong [OF D(1) n f(1,2,3)])
  moreover have "budget_ok m' C p x = budget_ok (bs_mem s) C p x" for C p x
    by (rule budget_ok_cong [OF same_parents_chain]) (rule f)+
  ultimately show ?thesis
    using assms(1) n by (simp add: budget_inv_def)
qed

lemma admissionRoot_le: "wf_budgets m \<Longrightarrow> b < nextBudget m \<Longrightarrow> admissionRoot m b \<le> b"
proof (induction b rule: less_induct)
  case (less b)
  show ?case
  proof (cases "bg_parent (budgets m b)")
    case None
    then show ?thesis
      using less.prems by (auto simp: wf_budgets_def admissionRoot_def)
  next
    case (Some p)
    then have "p < b" "admissionRoot m b = admissionRoot m p"
      using less.prems by (auto simp: wf_budgets_def admissionRoot_def)
    then show ?thesis
      using less.IH [of p] less.prems by simp
  qed
qed

lemma New_eq:
  assumes "NewTransferMemoryBudgetWithParent m t parent = (b, m')"
    and "\<forall>p. parent = Some p \<longrightarrow> p < nextBudget m" and "wf_budgets m"
  shows "b = nextBudget m" and "nextBudget m' = Suc (nextBudget m)"
    and "x < b \<Longrightarrow> core (budgets m' x) = core ((budgets m x)
      \<lparr>bg_hasChildren := bg_hasChildren (budgets m x) \<or> (\<exists>p. parent = Some p \<and> x = admissionRoot m p)\<rparr>)"
    and "budgets m' b = empty_budget\<lparr>bg_total := t, bg_parent := parent,
      bg_root := map_option (admissionRoot m) parent\<rparr>"
proof -
  show b: "b = nextBudget m" and "nextBudget m' = Suc (nextBudget m)"
    using assms(1) by (auto simp: NewTransferMemoryBudgetWithParent_def NewTransferMemoryBudget_def Let_def
        split: option.splits)
  have root: "admissionRoot m p < nextBudget m" if "parent = Some p" for p
    using admissionRoot_le [OF assms(3), of p] assms(2) that by simp
  have same: "admissionRoot (m\<lparr>budgets := (budgets m)(nextBudget m := e), nextBudget := k\<rparr>) p = admissionRoot m p"
    if "parent = Some p" for p e k
    using assms(2) that by (simp add: admissionRoot_def)
  show "x < b \<Longrightarrow> core (budgets m' x) = core ((budgets m x)
      \<lparr>bg_hasChildren := bg_hasChildren (budgets m x) \<or> (\<exists>p. parent = Some p \<and> x = admissionRoot m p)\<rparr>)"
    using assms(1) b root same
    by (auto simp: NewTransferMemoryBudgetWithParent_def NewTransferMemoryBudget_def Let_def core_def
        split: option.splits)
  show "budgets m' b = empty_budget\<lparr>bg_total := t, bg_parent := parent,
      bg_root := map_option (admissionRoot m) parent\<rparr>"
    using assms(1) b root same
    by (auto simp: NewTransferMemoryBudgetWithParent_def NewTransferMemoryBudget_def Let_def empty_budget_def
        split: option.splits)
qed

lemma budget_inv_new:
  assumes inv: "budget_inv s" and t: "0 \<le> t" "in64 t"
    and parent: "\<forall>p. parent = Some p \<longrightarrow> p < nextBudget (bs_mem s)"
    and new: "NewTransferMemoryBudgetWithParent (bs_mem s) t parent = (b, m')"
  shows "budget_inv (s\<lparr>bs_mem := m', bs_peak := (bs_peak s)(b := t)\<rparr>)"
proof -
  note D = budget_invD [OF inv]
  note N = New_eq [OF new parent D(1)]
  let ?m = "bs_mem s"
  have old: "bg_parent (budgets m' x) = bg_parent (budgets ?m x)" "bg_root (budgets m' x) = bg_root (budgets ?m x)"
    "bg_total (budgets m' x) = bg_total (budgets ?m x)" "bg_used (budgets m' x) = bg_used (budgets ?m x)"
    "bg_reserved (budgets m' x) = bg_reserved (budgets ?m x)"
    "bg_released (budgets m' x) = bg_released (budgets ?m x)"
    "bg_hasChildren (budgets ?m x) \<Longrightarrow> bg_hasChildren (budgets m' x)"
    "\<And>p. parent = Some p \<Longrightarrow> x = admissionRoot ?m p \<Longrightarrow> bg_hasChildren (budgets m' x)"
    if "x < b" for x
    using N(3) [OF that] by (auto simp: core_def)
  have ch: "chain (budgets m') x = chain (budgets ?m) x" if "x < b" for x
    using that by (intro chain_cong old) simp
  have root: "admissionRoot m' x = admissionRoot ?m x" if "x < b" for x
    using old(2) [OF that] by (simp add: admissionRoot_def)
  have held: "held (budgets m') (bs_claims s) x = held (budgets ?m) (bs_claims s) x" for x
    using D(3) N(1) by (intro held_cong ch) auto
  have wf: "wf_budgets m'"
    unfolding wf_budgets_def
  proof (intro allI impI)
    fix x assume "x < nextBudget m'"
    then consider "x < b" | "x = b" using N(1,2) by linarith
    then show "case bg_parent (budgets m' x) of None \<Rightarrow> bg_root (budgets m' x) = None
      | Some p \<Rightarrow> p < x \<and> bg_root (budgets m' x) = Some (admissionRoot m' p)
          \<and> bg_hasChildren (budgets m' (admissionRoot m' p))"
    proof cases
      case 1
      show ?thesis
      proof (cases "bg_parent (budgets ?m x)")
        case None
        then show ?thesis
          using D(1) 1 N(1) old(1,2) [OF 1] by (auto simp: wf_budgets_def)
      next
        case (Some p)
        then have p: "p < x" "bg_root (budgets ?m x) = Some (admissionRoot ?m p)"
          "bg_hasChildren (budgets ?m (admissionRoot ?m p))"
          using D(1) 1 N(1) by (auto simp: wf_budgets_def)
        have "admissionRoot ?m p < b"
          using admissionRoot_le [OF D(1), of p] p(1) 1 N(1) by simp
        then show ?thesis
          using p Some old(1,2) [OF 1] old(7) root [of p] 1 by simp
      qed
    next
      case 2
      show ?thesis
      proof (cases parent)
        case None
        then show ?thesis using 2 N(4) by (simp add: empty_budget_def)
      next
        case (Some p)
        then have p: "p < b" using parent N(1) by simp
        then have "admissionRoot ?m p < b"
          using admissionRoot_le [OF D(1), of p] N(1) by simp
        then show ?thesis
          using Some p 2 N(4) root [OF p] old(8) [of "admissionRoot ?m p" p] by (simp add: empty_budget_def)
      qed
    qed
  qed
  have "budget_ok m' (bs_claims s) ((bs_peak s)(b := t)) x" if "x < nextBudget m'" for x
  proof (cases "x = b")
    case True
    have "held (budgets ?m) (bs_claims s) b = held (budgets ?m) {#} b"
    proof -
      have "(\<Sum>(c, n) \<in># bs_claims s. if b \<in> set (chain (budgets ?m) c) then n else 0) =
          (\<Sum>_ \<in># bs_claims s. 0)"
        using D(3) N(1) by (intro arg_cong [where f = sum_mset] image_mset_cong) (auto dest!: chain_le D(3))
      then show ?thesis by (simp add: held_def)
    qed
    then show ?thesis
      using True N(4) t held by (simp add: budget_ok_def empty_budget_def)
  next
    case False
    then have x: "x < b" using that N by simp
    then show ?thesis
      using D(4) [of x] N(1) held old [OF x] by (simp add: budget_ok_def)
  qed
  then show ?thesis
    using wf inv N(1,2) by (auto simp: budget_inv_def)
qed

lemma budget_step_inv: "budget_step s s' \<Longrightarrow> budget_inv s \<Longrightarrow> budget_inv s'"
proof (induction rule: budget_step.induct)
  case (step_new t parent s b m')
  then show ?case by (blast intro: budget_inv_new)
next
  case (step_reserve b s n ok m')
  then show ?case
    by (cases ok) (auto intro: budget_inv_reserve dest: tryReserve_False)
next
  case (step_release b n s)
  then show ?case by (blast intro: budget_inv_release)
next
  case (step_move c n s d ok m')
  then show ?case
    by (cases ok) (auto intro: budget_inv_move dest: moveCharge_False)
next
  case (step_resize b s t)
  then show ?case by (blast intro: budget_inv_resize)
next
  case (step_floor m' s b n)
  then show ?case by (blast intro: budget_inv_floor)
next
  case (step_notify b s m')
  then have "same_core (bs_mem s) m'" by (auto intro: same_core_ops)
  then show ?case using step_notify.prems by (rule budget_inv_same_core [rotated])
next
  case (step_subscribe b s w n c m')
  then have "same_core (bs_mem s) m'" using same_core_waiter_subscribe [of "bs_mem s" w "Some b" n] by simp
  then show ?case using step_subscribe.prems by (rule budget_inv_same_core [rotated])
next
  case (step_reset s w)
  then show ?case using same_core_waiter_reset by (rule budget_inv_same_core)
qed

lemma budget_reachable_inv: "budget_reachable s \<Longrightarrow> budget_inv s"
proof (induction rule: budget_reachable.induct)
  case (reach_init s)
  then show ?case by (simp add: budget_inv_def wf_budgets_def mem0_def)
next
  case (reach_step s s')
  then show ?case by (blast intro: budget_step_inv)
qed

section \<open>Lemmas: availability and roots\<close>

lemma le_fold_min:
  "n \<le> fold (\<lambda>p a. min a (g p)) xs a \<longleftrightarrow> n \<le> a \<and> (\<forall>p \<in> set xs. n \<le> g p)" for n a :: int
  by (induction xs arbitrary: a) auto

lemma le_Available: "n \<le> Available m b \<longleftrightarrow> (\<forall>x \<in> set (chain (budgets m) b). n \<le> own_available (budgets m x))"
proof -
  obtain xs where "chain (budgets m) b = b # xs" using chain_Cons by blast
  then show ?thesis by (simp add: Available_def le_fold_min)
qed

lemma admissionRoot_in_chain:
  "wf_budgets m \<Longrightarrow> b < nextBudget m \<Longrightarrow> admissionRoot m b \<in> set (chain (budgets m) b)"
proof (induction b rule: less_induct)
  case (less b)
  show ?case
  proof (cases "bg_parent (budgets m b)")
    case None
    then show ?thesis
      using less.prems by (auto simp: wf_budgets_def admissionRoot_def)
  next
    case (Some p)
    then have "p < b" "admissionRoot m b = admissionRoot m p"
      using less.prems by (auto simp: wf_budgets_def admissionRoot_def)
    then show ?thesis
      using less.IH [of p] less.prems Some by (simp add: chain.simps [of _ b])
  qed
qed

lemma budget_ok_diff:
  assumes "budget_ok m C peak x" and "0 \<le> bg_used (budgets m x)"
  shows "i64 (bg_total (budgets m x) - bg_used (budgets m x)) = bg_total (budgets m x) - bg_used (budgets m x)"
  using assms by (intro i64_id) (auto simp: budget_ok_def in64_def)

section \<open>Properties of exact admission\<close>

text \<open>
  C11. In every state that admissions, releases, moves, resizes, waiters and notifications can
  reach in any interleaving, the used counter of a budget is exactly the sum of the live
  claims at or below it, it never exceeds the largest total the budget ever had (so the owners
  of a tree can never collectively overdraw its root), and the cumulative reserved and
  released counters differ by the used bytes even when they wrap around.
\<close>

theorem budget_never_overdrawn:
  assumes "budget_reachable s" and "b < nextBudget (bs_mem s)"
  shows "UsedByteCount (bs_mem s) b = held (budgets (bs_mem s)) (bs_claims s) b
    \<and> 0 \<le> UsedByteCount (bs_mem s) b \<and> UsedByteCount (bs_mem s) b \<le> bs_peak s b
    \<and> i64 (fst (Counts (bs_mem s) b) - snd (Counts (bs_mem s) b)) = UsedByteCount (bs_mem s) b"
  using budget_invD(4,5) [OF budget_reachable_inv [OF assms(1)] assms(2)]
  by (simp add: UsedByteCount_def Counts_def budget_ok_def)

definition example_run :: "bstate list" where
  "example_run =
     (let s0 = \<lparr>bs_mem = mem0, bs_claims = {#}, bs_peak = (\<lambda>_. 0)\<rparr>;
          s1 = s0\<lparr>bs_mem := snd (NewTransferMemoryBudgetWithParent (bs_mem s0) 10 None), bs_peak := (\<lambda>_. 0)(0 := 10)\<rparr>;
          s2 = s1\<lparr>bs_mem := snd (NewTransferMemoryBudgetWithParent (bs_mem s1) 8 (Some 0)), bs_peak := (\<lambda>_. 0)(0 := 10, 1 := 8)\<rparr>;
          s3 = s2\<lparr>bs_mem := snd (TryReserve (bs_mem s2) 1 5), bs_claims := {#(1, 5)#}\<rparr>
      in [s0, s1, s2, s3])"

lemma example_reachable: "budget_reachable (last example_run)" "nextBudget (bs_mem (last example_run)) = 2"
proof -
  let ?s = "\<lambda>i. example_run ! i"
  have s0: "budget_reachable (?s 0)"
    by (rule reach_init) (simp_all add: example_run_def Let_def mem0_def)
  have s1: "budget_step (?s 0) (?s 1)"
    using step_new [of 10 None "?s 0" 0 "bs_mem (?s 1)"]
    by (simp add: example_run_def Let_def mem0_def NewTransferMemoryBudgetWithParent_def
        NewTransferMemoryBudget_def in64_def)
  have s2: "budget_step (?s 1) (?s 2)"
    using step_new [of 8 "Some 0" "?s 1" 1 "bs_mem (?s 2)"]
    by (simp add: example_run_def Let_def mem0_def NewTransferMemoryBudgetWithParent_def
        NewTransferMemoryBudget_def in64_def)
  have s3: "budget_step (?s 2) (?s 3)"
    using step_reserve [of 1 "?s 2" 5 True "bs_mem (?s 3)"]
    by (simp add: example_run_def Let_def mem0_def NewTransferMemoryBudgetWithParent_def
        NewTransferMemoryBudget_def in64_def TryReserve_def tryReserveWithLock_def chain.simps
        admissionRoot_def empty_budget_def i64_def)
  have "last example_run = ?s 3"
    by (simp add: example_run_def Let_def)
  then show "budget_reachable (last example_run)"
    using reach_step [OF reach_step [OF reach_step [OF s0 s1] s2] s3] by simp
  show "nextBudget (bs_mem (last example_run)) = 2"
    by (simp add: example_run_def Let_def mem0_def NewTransferMemoryBudgetWithParent_def
        NewTransferMemoryBudget_def TryReserve_def tryReserveWithLock_def upd_chain_eq)
qed

theorem budget_never_overdrawn_witness:
  "UsedByteCount (bs_mem (last example_run)) 0 \<le> 10"
  using budget_never_overdrawn [OF example_reachable(1), of 0] example_reachable(2)
  by (simp add: example_run_def Let_def)

text \<open>
  C12. Exact admission. In every reachable state \<open>TryReserve\<close> succeeds exactly when the request is
  not negative and fits, added to what is used, in the total of every level of the chain. For a
  positive request this is what \<open>Available\<close> announces: it succeeds exactly when it is at most
  \<open>Available\<close>, also where a level was shrunk below what it holds. (Of the requests that reserve
  nothing, zero is refused at such a level although \<open>Available\<close> is zero there, and a negative
  one is always refused.) A success charges every level of the chain and no other budget, and a
  refused request changes nothing.
\<close>

theorem tryReserve_exact:
  assumes "budget_reachable s" and "b < nextBudget (bs_mem s)" and "TryReserve (bs_mem s) b n = (ok, m')"
  shows "(ok \<longleftrightarrow> 0 \<le> n \<and> (\<forall>x \<in> set (chain (budgets (bs_mem s)) b).
          bg_used (budgets (bs_mem s) x) + n \<le> bg_total (budgets (bs_mem s) x)))
    \<and> (0 < n \<longrightarrow> (ok \<longleftrightarrow> n \<le> Available (bs_mem s) b))
    \<and> (\<not> ok \<longrightarrow> m' = bs_mem s)
    \<and> (ok \<longrightarrow> (\<forall>x < nextBudget (bs_mem s). bg_used (budgets m' x) =
          bg_used (budgets (bs_mem s) x) + (if x \<in> set (chain (budgets (bs_mem s)) b) then n else 0)))"
proof -
  let ?m = "bs_mem s"
  note inv = budget_reachable_inv [OF assms(1)]
  note D = budget_invD [OF inv]
  let ?fits = "\<lambda>x. bg_used (budgets ?m x) + n \<le> bg_total (budgets ?m x)"
  have lt: "x < nextBudget ?m" if "x \<in> set (chain (budgets ?m) b)" for x using chain_le [OF that] assms(2) by simp
  have level: "bg_total (budgets ?m x) < n \<or> i64 (bg_total (budgets ?m x) - n) < bg_used (budgets ?m x) \<longleftrightarrow> \<not> ?fits x"
    if x: "x \<in> set (chain (budgets ?m) b)" "0 \<le> n" for x
  proof -
    have "i64 (bg_total (budgets ?m x) - n) = bg_total (budgets ?m x) - n" if "n \<le> bg_total (budgets ?m x)"
      using that x(2) D(4) [OF lt [OF x(1)]] by (intro i64_fits) (auto simp: budget_ok_def)
    then show ?thesis using D(5) [OF lt [OF x(1)]] by (cases "n \<le> bg_total (budgets ?m x)") auto
  qed
  have "n \<le> own_available (budgets ?m x) \<longleftrightarrow> ?fits x" if "x \<in> set (chain (budgets ?m) b)" "0 < n" for x
    using budget_ok_diff [OF D(4,5) [OF lt [OF that(1)]]] that(2) by (auto simp: own_available_def)
  then have available: "0 < n \<Longrightarrow> n \<le> Available ?m b \<longleftrightarrow> (\<forall>x \<in> set (chain (budgets ?m) b). ?fits x)"
    unfolding le_Available by simp
  have ok: "ok \<longleftrightarrow> 0 \<le> n \<and> (\<forall>x \<in> set (chain (budgets ?m) b). ?fits x)"
    using assms(3) level by (auto simp: TryReserve_def tryReserveWithLock_def list_ex_iff split: if_splits)
  have "bg_used (budgets m' x) = bg_used (budgets ?m x) + (if x \<in> set (chain (budgets ?m) b) then n else 0)"
    if "ok" and x: "x < nextBudget ?m" for x
  proof -
    have res: "TryReserve ?m b n = (True, m')" using assms(3) that(1) by simp
    have ch: "chain (budgets m') = chain (budgets ?m)"
      using tryReserve_True [OF res] by (simp add: upd_chain_keeps)
    have "x < nextBudget m'" using tryReserve_True [OF res] x by (simp add: upd_chain_keeps)
    then show ?thesis
      using budget_invD(4) [OF budget_inv_reserve [OF inv assms(2) res], of x] D(4) [OF x] ch
      by (simp add: budget_ok_def held_def)
  qed
  then show ?thesis
    using ok available tryReserve_False [of ?m b n m'] assms(3) by (cases ok) auto
qed

definition example_shrunk :: bstate where
  "example_shrunk = (last example_run)\<lparr>bs_mem := setTotal (bs_mem (last example_run)) 1 4,
     bs_peak := (bs_peak (last example_run))(1 := max (bs_peak (last example_run) 1) 4)\<rparr>"

lemma example_shrunk_reachable: "budget_reachable example_shrunk" "nextBudget (bs_mem example_shrunk) = 2"
  using reach_step [OF example_reachable(1) step_resize [of 1 "last example_run" 4]] example_reachable(2)
  by (simp_all add: example_shrunk_def in64_def setTotal_def)

lemma example_budgets:
  "budgets (bs_mem (last example_run)) 0 = empty_budget\<lparr>bg_total := 10, bg_used := 5, bg_reserved := 5, bg_hasChildren := True\<rparr>"
  "budgets (bs_mem (last example_run)) (Suc 0) =
     empty_budget\<lparr>bg_total := 8, bg_used := 5, bg_reserved := 5, bg_parent := Some 0, bg_root := Some 0\<rparr>"
proof -
  let ?m = "bs_mem (example_run ! 2)"
  have m: "budgets ?m 0 = empty_budget\<lparr>bg_total := 10, bg_hasChildren := True\<rparr>"
    "budgets ?m (Suc 0) = empty_budget\<lparr>bg_total := 8, bg_parent := Some 0, bg_root := Some 0\<rparr>"
    by (simp_all add: example_run_def Let_def mem0_def NewTransferMemoryBudgetWithParent_def NewTransferMemoryBudget_def
        admissionRoot_def empty_budget_def)
  have c: "chain (budgets ?m) (Suc 0) = [Suc 0, 0]"
    by (simp add: chain.simps [of _ "Suc 0"] chain.simps [of _ 0] m empty_budget_def)
  have e: "bs_mem (last example_run) = snd (TryReserve ?m (Suc 0) 5)" by (simp add: example_run_def Let_def)
  have "TryReserve ?m (Suc 0) 5 = (True, upd_chain (Suc 0) (charge 5) ?m)"
    by (simp add: TryReserve_def tryReserveWithLock_def c m empty_budget_def i64_def)
  then show "budgets (bs_mem (last example_run)) 0 = empty_budget\<lparr>bg_total := 10, bg_used := 5, bg_reserved := 5, bg_hasChildren := True\<rparr>"
    "budgets (bs_mem (last example_run)) (Suc 0) =
     empty_budget\<lparr>bg_total := 8, bg_used := 5, bg_reserved := 5, bg_parent := Some 0, bg_root := Some 0\<rparr>"
    unfolding e by (simp_all add: upd_chain_eq c m charge_def empty_budget_def i64_def)
qed

lemma example_shrunk_budgets:
  "budgets (bs_mem example_shrunk) b = (if b = 1 then (budgets (bs_mem (last example_run)) 1)\<lparr>bg_total := 4\<rparr> else budgets (bs_mem (last example_run)) b)"
  by (simp add: example_shrunk_def setTotal_def)

lemma example_chains:
  "chain (budgets (bs_mem (last example_run))) (Suc 0) = [Suc 0, 0]" "chain (budgets (bs_mem example_shrunk)) (Suc 0) = [Suc 0, 0]"
  by (simp_all add: chain.simps [of _ "Suc 0"] chain.simps [of _ 0] example_shrunk_budgets example_budgets empty_budget_def)

theorem tryReserve_exact_witness:
  "fst (TryReserve (bs_mem (last example_run)) 1 3) \<and> 3 \<le> Available (bs_mem (last example_run)) 1
   \<and> bg_used (budgets (snd (TryReserve (bs_mem (last example_run)) 1 3)) 0) = 8
   \<and> \<not> fst (TryReserve (bs_mem (last example_run)) 1 4) \<and> \<not> fst (TryReserve (bs_mem example_shrunk) 1 0)
   \<and> \<not> fst (TryReserve (bs_mem example_shrunk) 1 1)"
proof -
  let ?m = "bs_mem (last example_run)" and ?q = "bs_mem example_shrunk"
  have b: "1 < nextBudget ?m" "1 < nextBudget ?q" using example_reachable(2) example_shrunk_reachable(2) by simp_all
  note c = example_budgets example_shrunk_budgets example_chains empty_budget_def
  note at = tryReserve_exact [OF example_reachable(1) b(1) prod.collapse [symmetric]]
    and shrunk = tryReserve_exact [OF example_shrunk_reachable(1) b(2) prod.collapse [symmetric]]
  have 1: "fst (TryReserve ?m 1 3)" using at [of 3] by (simp add: c)
  then have "3 \<le> Available ?m 1" "bg_used (budgets (snd (TryReserve ?m 1 3)) 0) = 8"
    using at [of 3] b by (simp_all add: c)
  moreover have "\<not> fst (TryReserve ?m 1 4)" using at [of 4] by (simp add: c)
  moreover have "\<not> fst (TryReserve ?q 1 0)" "\<not> fst (TryReserve ?q 1 1)" using shrunk [of 0] shrunk [of 1] by (simp_all add: c)
  ultimately show ?thesis using 1 by simp
qed

text \<open>
  Moving a claim inside one tree succeeds exactly when every level that only the target
  has can take it, also when a shared ancestor is full or was shrunk below what it holds; the
  shared ancestors, the root among them, keep their counters untouched, so there is neither
  a double charge nor a gap in which another owner could take the bytes.
\<close>

theorem moveReservation_exact:
  assumes "budget_reachable s" and "(c, n) \<in># bs_claims s" and "d < nextBudget (bs_mem s)"
    and "admissionRoot (bs_mem s) c = admissionRoot (bs_mem s) d"
    and "tryMoveReservation (bs_mem s) (Some c) (Some d) n = (ok, m')"
  shows "(ok \<longleftrightarrow> (\<forall>x \<in> set (chain (budgets (bs_mem s)) d) - set (chain (budgets (bs_mem s)) c).
        bg_used (budgets (bs_mem s) x) + n \<le> bg_total (budgets (bs_mem s) x)))
    \<and> (\<forall>x \<in> set (chain (budgets (bs_mem s)) c) \<inter> set (chain (budgets (bs_mem s)) d).
        bg_used (budgets m' x) = bg_used (budgets (bs_mem s) x)
      \<and> Counts m' x = Counts (bs_mem s) x)
    \<and> admissionRoot (bs_mem s) c \<in> set (chain (budgets (bs_mem s)) c) \<inter> set (chain (budgets (bs_mem s)) d)"
proof -
  let ?m = "bs_mem s"
  note D = budget_invD [OF budget_reachable_inv [OF assms(1)]]
  have n: "0 \<le> n" and c: "c < nextBudget ?m" using D(3) [OF assms(2)] by auto
  obtain m1 where mv: "moveCharge ?m c d n = (ok, m1)" and core: "same_core m1 m'"
    using assms(4,5) n same_core_notifyCapacityChanged
    by (auto simp: tryMoveReservation_def split: if_splits prod.splits bool.splits)
  have own: "\<not> list_ex (\<lambda>x. bg_used (budgets ?m x) < n) (chain (budgets ?m) c)"
  proof -
    have "n \<le> bg_used (budgets ?m x)" if "x \<in> set (chain (budgets ?m) c)" for x
      using held_ge [OF assms(2) that D(2)] D(4) [of x] chain_le [OF that] c by (simp add: budget_ok_def)
    then show ?thesis by (auto simp: list_ex_iff not_less)
  qed
  have free: "i64 (bg_total (budgets ?m x) - bg_used (budgets ?m x)) = bg_total (budgets ?m x) - bg_used (budgets ?m x)"
    if "x \<in> set (chain (budgets ?m) d)" for x
    using budget_ok_diff [OF D(4) D(5)] chain_le [OF that] assms(3) by simp
  have "ok \<longleftrightarrow> (\<forall>x \<in> set (chain (budgets ?m) d) - set (chain (budgets ?m) c).
      bg_used (budgets ?m x) + n \<le> bg_total (budgets ?m x))"
  proof -
    have "ok \<longleftrightarrow> \<not> list_ex (\<lambda>x. x \<notin> set (chain (budgets ?m) c)
        \<and> i64 (bg_total (budgets ?m x) - bg_used (budgets ?m x)) < n) (chain (budgets ?m) d)"
      using mv own by (auto simp: moveCharge_def Let_def split: if_splits)
    also have "\<dots> \<longleftrightarrow> (\<forall>x \<in> set (chain (budgets ?m) d) - set (chain (budgets ?m) c).
        \<not> bg_total (budgets ?m x) - bg_used (budgets ?m x) < n)"
      by (auto simp: list_ex_iff free)
    finally show ?thesis by (simp add: not_less le_diff_eq add.commute)
  qed
  moreover have "budgets m1 x = budgets ?m x" if "x \<in> set (chain (budgets ?m) c) \<inter> set (chain (budgets ?m) d)" for x
    using that mv moveCharge_True(4) [of ?m c d n m1 x] moveCharge_False [of ?m c d n m1] by (cases ok) auto
  ultimately show ?thesis
    using core admissionRoot_in_chain [OF D(1)] assms(3,4) c
    by (fastforce simp: same_core_def core_def Counts_def)
qed

theorem moveReservation_exact_witness:
  "fst (tryMoveReservation (bs_mem (last example_run)) (Some 1) (Some 0) 5)"
proof -
  have "(1, 5) \<in># bs_claims (last example_run)"
    by (simp add: example_run_def Let_def)
  moreover have "admissionRoot (bs_mem (last example_run)) 1 = admissionRoot (bs_mem (last example_run)) 0"
    and "set (chain (budgets (bs_mem (last example_run))) 0) - set (chain (budgets (bs_mem (last example_run))) 1) = {}"
    by (auto simp: example_run_def Let_def mem0_def NewTransferMemoryBudgetWithParent_def
        NewTransferMemoryBudget_def TryReserve_def tryReserveWithLock_def upd_chain_eq chain.simps
        admissionRoot_def empty_budget_def i64_def charge_def)
  ultimately show ?thesis
    using moveReservation_exact [OF example_reachable(1), of 1 5 0] example_reachable(2)
    by (cases "tryMoveReservation (bs_mem (last example_run)) (Some 1) (Some 0) 5") auto
qed

end
