(* ===== verification/Memory_Waiters.thy ===== *)
theory Memory_Waiters
  imports Transfer_Memory_Budget
begin

text \<open>
  The admission waiters of the memory budget: the intrusive doubly linked list of
  transfer_memory_budget.go represents a queue (\<open>waiter_rep\<close>), the list operations act on that
  queue, and the notification pass is a first-in first-out pass over it.
\<close>

section \<open>The waiter list as an abstract queue\<close>

text \<open>
  \<open>waiter_seg W p x ws l n\<close>: following the \<open>next\<close> pointers from \<open>x\<close> visits exactly \<open>ws\<close>
  and arrives at \<open>n\<close>, the \<open>prev\<close> pointers run back to \<open>p\<close>, and \<open>l\<close> is the last one
  visited.
\<close>

fun waiter_seg ::
  "(nat \<Rightarrow> waiter) \<Rightarrow> nat option \<Rightarrow> nat option \<Rightarrow> nat list \<Rightarrow> nat option \<Rightarrow> nat option \<Rightarrow> bool" where
  "waiter_seg W p x [] l n \<longleftrightarrow> x = n \<and> l = p"
| "waiter_seg W p x (w # ws) l n \<longleftrightarrow>
     x = Some w \<and> wt_prev (W w) = p \<and> waiter_seg W (Some w) (wt_next (W w)) ws l n"

text \<open>
  The waiters registered at each root, as lists: the abstract state that the pointers
  represent.
\<close>

definition waiter_rep :: "mem \<Rightarrow> (nat \<Rightarrow> nat list) \<Rightarrow> bool" where
  "waiter_rep m L \<longleftrightarrow>
     (\<forall>r. waiter_seg (waiters m) None (bg_waitHead (budgets m r)) (L r) (bg_waitTail (budgets m r)) None
        \<and> distinct (L r) \<and> bg_waiterCount (budgets m r) = int (length (L r))
        \<and> in64 (int (length (L r))))
   \<and> (\<forall>w r. w \<in> set (L r) \<longleftrightarrow>
        wt_registered (waiters m w) \<and> (\<exists>b. wt_budget (waiters m w) = Some b \<and> admissionRoot m b = r))
   \<and> (\<forall>w. wt_registered (waiters m w) \<longrightarrow> wt_budget (waiters m w) \<noteq> None)"

lemma waiter_seg_append:
  "waiter_seg W p x (us @ vs) l n \<longleftrightarrow> (\<exists>y k. waiter_seg W p x us k y \<and> waiter_seg W k y vs l n)"
  by (induction us arbitrary: p x) auto

lemma waiter_seg_cong:
  "(\<And>w. w \<in> set ws \<Longrightarrow> wt_prev (W' w) = wt_prev (W w) \<and> wt_next (W' w) = wt_next (W w)) \<Longrightarrow>
   waiter_seg W' p x ws l n = waiter_seg W p x ws l n"
  by (induction ws arbitrary: p x) auto

lemma waiter_seg_last: "waiter_seg W p x ws l n \<Longrightarrow> l = (if ws = [] then p else Some (last ws))"
  by (induction ws arbitrary: p x) auto

lemma waiter_seg_relink_last:
  "waiter_seg W p x (us @ [u]) l n \<Longrightarrow> u \<notin> set us \<Longrightarrow>
   wt_prev (W' u) = wt_prev (W u) \<Longrightarrow> wt_next (W' u) = n' \<Longrightarrow>
   (\<And>w. w \<in> set us \<Longrightarrow> wt_prev (W' w) = wt_prev (W w) \<and> wt_next (W' w) = wt_next (W w)) \<Longrightarrow>
   waiter_seg W' p x (us @ [u]) l n'"
  using waiter_seg_cong [of us W' W p x "wt_prev (W u)" "Some u"] by (simp add: waiter_seg_append)

lemma waiter_seg_relink_first:
  "waiter_seg W p x (v # vs) l n \<Longrightarrow> wt_prev (W' v) = p' \<Longrightarrow> wt_next (W' v) = wt_next (W v) \<Longrightarrow>
   (\<And>w. w \<in> set vs \<Longrightarrow> wt_prev (W' w) = wt_prev (W w) \<and> wt_next (W' w) = wt_next (W w)) \<Longrightarrow>
   waiter_seg W' p' (Some v) (v # vs) l n"
  using waiter_seg_cong [of vs W' W "Some v" "wt_next (W v)" l n] by simp

lemma waiter_repD:
  assumes "waiter_rep m L"
  shows "waiter_seg (waiters m) None (bg_waitHead (budgets m r)) (L r) (bg_waitTail (budgets m r)) None"
    and "distinct (L r)" and "bg_waiterCount (budgets m r) = int (length (L r))"
    and "in64 (int (length (L r)))"
    and "w \<in> set (L r) \<longleftrightarrow> wt_registered (waiters m w)
      \<and> (\<exists>b. wt_budget (waiters m w) = Some b \<and> admissionRoot m b = r)"
    and "wt_registered (waiters m w) \<Longrightarrow> wt_budget (waiters m w) \<noteq> None"
  using assms unfolding waiter_rep_def by blast+

lemma waiter_rep_disjoint: "waiter_rep m L \<Longrightarrow> w \<in> set (L r) \<Longrightarrow> w \<in> set (L r') \<Longrightarrow> r = r'"
  using waiter_repD(5) by fastforce


section \<open>The list operations\<close>

lemma add_fields:
  assumes "\<not> wt_registered (waiters m w)" "bg_waitTail (budgets m r) \<noteq> Some w" "admissionRoot m b = r"
  shows "waiters (addCapacityWaiter m b w) x =
      (if x = w then (waiters m w)\<lparr>wt_prev := bg_waitTail (budgets m r), wt_next := None, wt_registered := True\<rparr>
       else if bg_waitTail (budgets m r) = Some x then (waiters m x)\<lparr>wt_next := Some w\<rparr> else waiters m x)"
    and "budgets (addCapacityWaiter m b w) y =
      (if y = r then (budgets m r)\<lparr>
          bg_waitHead := (if bg_waitTail (budgets m r) = None then Some w else bg_waitHead (budgets m r)),
          bg_waitTail := Some w, bg_waiterCount := i64 (bg_waiterCount (budgets m r) + 1)\<rparr>
       else budgets m y)"
  using assms by (auto simp: addCapacityWaiter_def Let_def split: option.splits)

lemma remove_fields:
  assumes "wt_registered (waiters m w)" "wt_prev (waiters m w) = p" "wt_next (waiters m w) = n"
    "p \<noteq> Some w" "n \<noteq> Some w" "p = None \<or> p \<noteq> n"
  shows "waiters (removeCapacityWaiterWithLock m r w) x =
      (if x = w then (waiters m w)\<lparr>wt_prev := None, wt_next := None, wt_registered := False\<rparr>
       else if p = Some x then (waiters m x)\<lparr>wt_next := n\<rparr>
       else if n = Some x then (waiters m x)\<lparr>wt_prev := p\<rparr> else waiters m x)"
    and "budgets (removeCapacityWaiterWithLock m r w) y =
      (if y = r then (budgets m r)\<lparr>
          bg_waitHead := (if p = None then n else bg_waitHead (budgets m r)),
          bg_waitTail := (if n = None then p else bg_waitTail (budgets m r)),
          bg_waiterCount := i64 (bg_waiterCount (budgets m r) - 1)\<rparr>
       else budgets m y)"
  using assms by (cases p; cases n; simp add: removeCapacityWaiterWithLock_def Let_def)+

lemma same_core_root: "same_core m m' \<Longrightarrow> admissionRoot m' x = admissionRoot m x"
  using core_fields(2) [of "budgets m' x" "budgets m x"] by (simp add: admissionRoot_def same_core_def)

lemma addCapacityWaiter_rep:
  assumes rep: "waiter_rep m L" and fresh: "\<not> wt_registered (waiters m w)"
    and b: "wt_budget (waiters m w) = Some b" and r: "admissionRoot m b = r"
    and room: "in64 (int (length (L r)) + 1)"
  shows "waiter_rep (addCapacityWaiter m b w) (L(r := L r @ [w]))"
proof -
  let ?m' = "addCapacityWaiter m b w"
  note R = waiter_repD [OF rep]
  have notin: "w \<notin> set (L q)" for q
    using R(5) [of w q] fresh by simp
  have roots: "admissionRoot ?m' x = admissionRoot m x" for x
    by (rule same_core_root [OF same_core_addCapacityWaiter])
  have tail: "bg_waitTail (budgets m r) = (if L r = [] then None else Some (last (L r)))"
    using waiter_seg_last [OF R(1) [of r]] by simp
  have tw: "bg_waitTail (budgets m r) \<noteq> Some w"
    using tail notin [of r] last_in_set by (auto split: if_splits)
  note F = add_fields [OF fresh tw r]
  have seg: "waiter_seg (waiters ?m') None (bg_waitHead (budgets ?m' r)) (L r @ [w]) (Some w) None"
  proof (cases "L r" rule: rev_cases)
    case Nil
    then show ?thesis using tail by (simp add: F)
  next
    case (snoc us u)
    have "waiter_seg (waiters ?m') None (bg_waitHead (budgets m r)) (us @ [u]) (Some u) (Some w)"
      by (rule waiter_seg_relink_last [of "waiters m" _ _ _ _ _ None])
        (use R(1,2) [of r] notin [of r] tail snoc in \<open>auto simp: F\<close>)
    then show ?thesis using snoc tail by (auto simp: waiter_seg_append F)
  qed
  have other: "waiter_seg (waiters ?m') None (bg_waitHead (budgets ?m' q)) (L q) (bg_waitTail (budgets ?m' q)) None"
    if "q \<noteq> r" for q
  proof -
    have "u \<in> set (L q) \<Longrightarrow> bg_waitTail (budgets m r) \<noteq> Some u" for u
      using tail waiter_rep_disjoint [OF rep, of u r q] that last_in_set by (auto split: if_splits)
    then show ?thesis
      using R(1) [of q] notin [of q] that by (subst waiter_seg_cong [of _ _ "waiters m"]) (auto simp: F)
  qed
  show ?thesis
    unfolding waiter_rep_def roots
  proof (intro conjI allI impI)
    fix q
    show "waiter_seg (waiters ?m') None (bg_waitHead (budgets ?m' q)) ((L(r := L r @ [w])) q) (bg_waitTail (budgets ?m' q)) None"
      using seg other [of q] by (cases "q = r") (simp_all add: F(2))
    show "distinct ((L(r := L r @ [w])) q)" "in64 (int (length ((L(r := L r @ [w])) q)))"
      using R(2,4) [of q] notin room by (auto simp: add.commute)
    show "bg_waiterCount (budgets ?m' q) = int (length ((L(r := L r @ [w])) q))"
      using R(3) [of q] room by (auto simp: F(2) i64_id add.commute)
  next
    fix v q
    show "v \<in> set ((L(r := L r @ [w])) q) \<longleftrightarrow> wt_registered (waiters ?m' v)
        \<and> (\<exists>b. wt_budget (waiters ?m' v) = Some b \<and> admissionRoot m b = q)"
      using R(5) [of v q] b r notin by (auto simp: F(1))
  next
    fix v assume "wt_registered (waiters ?m' v)"
    then show "wt_budget (waiters ?m' v) \<noteq> None"
      using R(6) [of v] b by (auto simp: F(1) split: if_splits)
  qed
qed

definition first_of :: "'a list \<Rightarrow> 'a option" where
  "first_of xs = (case xs of [] \<Rightarrow> None | x # _ \<Rightarrow> Some x)"

lemma first_of_simps [simp]: "first_of [] = None" "first_of (x # xs) = Some x"
  by (simp_all add: first_of_def)

lemma first_of_None [simp]: "first_of xs = None \<longleftrightarrow> xs = []" "None = first_of xs \<longleftrightarrow> xs = []"
  by (auto simp: first_of_def split: list.splits)

lemma waiter_seg_first: "waiter_seg W p x ws l None \<Longrightarrow> x = first_of ws"
  by (cases ws) auto

lemma waiter_seg_split:
  assumes "waiter_seg W None x (us @ w # vs) l None"
  shows "wt_prev (W w) = (if us = [] then None else Some (last us))" "wt_next (W w) = first_of vs"
    "waiter_seg W None x us (wt_prev (W w)) (Some w)" "waiter_seg W (Some w) (first_of vs) vs l None"
  using assms waiter_seg_last [of W None x us] waiter_seg_first [of W "Some w" "wt_next (W w)" vs]
  by (auto simp: waiter_seg_append)

lemma waiter_seg_unlink:
  assumes "waiter_seg W None x (us @ w # vs) l None" "distinct (us @ w # vs)"
    and W': "\<And>v. W' v = (if v = w then y else if wt_prev (W w) = Some v then (W v)\<lparr>wt_next := wt_next (W w)\<rparr>
       else if wt_next (W w) = Some v then (W v)\<lparr>wt_prev := wt_prev (W w)\<rparr> else W v)"
  shows "waiter_seg W' None (if us = [] then first_of vs else x) (us @ vs)
    (if vs = [] then wt_prev (W w) else l) None"
proof -
  note S = waiter_seg_split [OF assms(1)]
  have front: "waiter_seg W' None (if us = [] then first_of vs else x) us (wt_prev (W w)) (first_of vs)"
  proof (cases us rule: rev_cases)
    case Nil
    then show ?thesis using S by simp
  next
    case (snoc us' u)
    have "waiter_seg W' None x (us' @ [u]) (wt_prev (W w)) (first_of vs)"
      by (rule waiter_seg_relink_last [of W _ _ _ _ _ "Some w"])
        (use S(1-3) snoc assms(2) in \<open>cases vs; force simp: W'\<close>)+
    then show ?thesis using snoc by simp
  qed
  have rear: "waiter_seg W' (wt_prev (W w)) (first_of vs) vs (if vs = [] then wt_prev (W w) else l) None"
  proof (cases vs)
    case (Cons v vs')
    have "waiter_seg W' (wt_prev (W w)) (Some v) (v # vs') l None"
      by (rule waiter_seg_relink_first [of W "Some w" "Some v"])
        (use S(1,2,4) Cons assms(2) in \<open>force simp: W' dest: last_in_set split: if_splits\<close>)+
    then show ?thesis using Cons by simp
  qed simp
  show ?thesis unfolding waiter_seg_append using front rear by blast
qed

lemma removeWithLock_rep:
  assumes rep: "waiter_rep m L" and L: "L r = us @ w # vs"
  shows "waiter_rep (removeCapacityWaiterWithLock m r w) (L(r := us @ vs))"
proof -
  let ?m' = "removeCapacityWaiterWithLock m r w"
  note R = waiter_repD [OF rep]
  have reg: "wt_registered (waiters m w)" using R(5) [of w r] L by auto
  note S = waiter_seg_split [OF R(1) [of r, unfolded L]]
  have d: "distinct (us @ w # vs)" using R(2) [of r] L by simp
  have "wt_prev (waiters m w) \<noteq> Some w" "wt_next (waiters m w) \<noteq> Some w"
    "wt_prev (waiters m w) = None \<or> wt_prev (waiters m w) \<noteq> wt_next (waiters m w)"
    using S(1,2) d last_in_set [of us] by (auto simp: first_of_def split: list.splits if_splits)
  note F = remove_fields [OF reg refl refl this]
  have roots: "admissionRoot ?m' x = admissionRoot m x" for x
    by (rule same_core_root [OF same_core_removeWithLock])
  have ends: "bg_waitHead (budgets ?m' r) = (if us = [] then first_of vs else bg_waitHead (budgets m r))"
    "bg_waitTail (budgets ?m' r) = (if vs = [] then wt_prev (waiters m w) else bg_waitTail (budgets m r))"
    using S(1,2) by (auto simp: F(2) split: list.splits)
  have seg: "waiter_seg (waiters ?m') None (bg_waitHead (budgets ?m' r)) (us @ vs) (bg_waitTail (budgets ?m' r)) None"
    unfolding ends by (rule waiter_seg_unlink [OF R(1) [of r, unfolded L] d F(1)])
  have other: "waiter_seg (waiters ?m') None (bg_waitHead (budgets ?m' q)) (L q) (bg_waitTail (budgets ?m' q)) None"
    if "q \<noteq> r" for q
  proof -
    have "u \<in> set (L q) \<Longrightarrow> u \<notin> set (L r)" for u
      using waiter_rep_disjoint [OF rep] that by blast
    then have "u \<in> set (L q) \<Longrightarrow> u \<noteq> w \<and> wt_prev (waiters m w) \<noteq> Some u \<and> wt_next (waiters m w) \<noteq> Some u" for u
      using S(1,2) L last_in_set [of us] by (force simp: first_of_def split: list.splits if_splits)
    then show ?thesis
      using R(1) [of q] that by (subst waiter_seg_cong [of _ _ "waiters m"]) (auto simp: F)
  qed
  show ?thesis
    unfolding waiter_rep_def roots
  proof (intro conjI allI impI)
    fix q
    show "waiter_seg (waiters ?m') None (bg_waitHead (budgets ?m' q)) ((L(r := us @ vs)) q) (bg_waitTail (budgets ?m' q)) None"
      using seg other [of q] by (cases "q = r") simp_all
    have "in64 (int (length us + length vs))"
      using R(4) [of r] L by (auto simp: in64_def)
    then show "in64 (int (length ((L(r := us @ vs)) q)))"
      "bg_waiterCount (budgets ?m' q) = int (length ((L(r := us @ vs)) q))"
      using R(3,4) [of q] L by (auto simp: F(2) i64_id)
    show "distinct ((L(r := us @ vs)) q)"
      using R(2) [of q] d by auto
  next
    fix v q
    show "v \<in> set ((L(r := us @ vs)) q) \<longleftrightarrow> wt_registered (waiters ?m' v)
        \<and> (\<exists>b. wt_budget (waiters ?m' v) = Some b \<and> admissionRoot m b = q)"
      using R(5) [of v q] R(5) [of w q] R(5) [of w r] L d by (auto simp: F(1))
  next
    fix v assume "wt_registered (waiters ?m' v)"
    then show "wt_budget (waiters ?m' v) \<noteq> None"
      using R(6) [of v] by (auto simp: F(1) split: if_splits)
  qed
qed

section \<open>The notification pass\<close>

text \<open>
  The pass over a queue as a list function: the waiters that stay, and those that are sent a
  token. A waiter whose channel is still full leaves the queue without a new token.
\<close>

definition waiter_need :: "mem \<Rightarrow> nat \<Rightarrow> int" where
  "waiter_need m w = max 0 (wt_required (waiters m w))"

fun grant_pass :: "mem \<Rightarrow> (nat \<Rightarrow> wait_scratch) \<Rightarrow> nat list \<Rightarrow> nat list \<times> nat list" where
  "grant_pass m sc [] = ([], [])"
| "grant_pass m sc (w # ws) =
     (case waiter_verdict m sc w (waiter_need m w) of
        (eligible, blocked, impossible) \<Rightarrow>
          if eligible \<and> (\<not> blocked \<or> waiter_need m w = 0)
          then if wt_token (waiters m w) then grant_pass m sc ws
               else map_prod id ((#) w) (grant_pass m (scratch_grant (waiter_need m w) (waiter_chain m w) sc) ws)
          else map_prod ((#) w) id
                 (grant_pass m
                   (if \<not> eligible \<and> \<not> blocked \<and> \<not> impossible
                    then scratch_hold m (waiter_need m w) (waiter_chain m w) sc else sc) ws))"

text \<open>What a pass keeps: everything but the list pointers, the registration and the tokens.\<close>

definition same_needs :: "mem \<Rightarrow> mem \<Rightarrow> bool" where
  "same_needs m m' \<longleftrightarrow> same_core m m'
   \<and> (\<forall>w. wt_budget (waiters m' w) = wt_budget (waiters m w) \<and> wt_required (waiters m' w) = wt_required (waiters m w))"

lemma same_needs_cong:
  assumes "same_needs m m'"
  shows "waiter_need m' = waiter_need m" "waiter_chain m' = waiter_chain m" "scratch_free m' = scratch_free m"
    "waiter_verdict m' = waiter_verdict m" "scratch_hold m' = scratch_hold m"
proof -
  have c: "same_core m m'" using assms by (simp add: same_needs_def)
  have B: "bg_total (budgets m' b) = bg_total (budgets m b)" "bg_used (budgets m' b) = bg_used (budgets m b)" for b
    using c core_fields(3,4) [of "budgets m' b" "budgets m b"] by (simp_all add: same_core_def)
  show "waiter_need m' = waiter_need m" "waiter_chain m' = waiter_chain m"
    using assms same_core_chain [OF c] by (simp_all add: fun_eq_iff waiter_need_def waiter_chain_def same_needs_def split: option.split)
  then show "scratch_free m' = scratch_free m" "waiter_verdict m' = waiter_verdict m" "scratch_hold m' = scratch_hold m"
    by (simp_all add: fun_eq_iff scratch_free_def waiter_verdict_def scratch_hold_def B)
qed

lemma same_needs_trans: "same_needs a b \<Longrightarrow> same_needs b c \<Longrightarrow> same_needs a c"
  by (auto simp: same_needs_def intro: same_core_trans)

lemma same_needs_upd_token [simp]: "same_needs m (upd_waiter w (wt_token_update f) m') = same_needs m m'"
  by (auto simp: same_needs_def)

lemma remove_needs:
  "same_needs m (removeCapacityWaiterWithLock m r w)"
  "wt_token (waiters (removeCapacityWaiterWithLock m r w) v) = wt_token (waiters m v)"
  using same_core_removeWithLock [of m r w]
  by (auto simp: same_needs_def removeCapacityWaiterWithLock_def Let_def split: option.splits)

lemma waiter_rep_token: "waiter_rep m L \<Longrightarrow> waiter_rep (upd_waiter w (wt_token_update f) m) L"
  unfolding waiter_rep_def admissionRoot_def
  by (simp add: waiter_seg_cong [of _ "(waiters m)(w := wt_token_update f (waiters m w))" "waiters m"])

lemma grant_pass_cong:
  assumes "same_needs m m'" and "\<And>w. w \<in> set ws \<Longrightarrow> wt_token (waiters m' w) = wt_token (waiters m w)"
  shows "grant_pass m' sc ws = grant_pass m sc ws"
  using assms(2)
proof (induction ws arbitrary: sc)
  case (Cons w ws)
  then show ?case
    by (cases "waiter_verdict m sc w (waiter_need m w)") (auto simp: same_needs_cong [OF assms(1)])
qed simp

text \<open>The pointer walk computes the list pass, within as many turns as there are waiters.\<close>

lemma notify_loop_pass:
  assumes "waiter_rep m L" "L r = us @ vs" "length vs \<le> fuel"
  shows "\<exists>m'. notify_loop fuel r (first_of vs) sc m = Some m' \<and> same_needs m m'
    \<and> waiter_rep m' (L(r := us @ fst (grant_pass m sc vs)))
    \<and> (\<forall>w. wt_token (waiters m' w) \<longleftrightarrow> wt_token (waiters m w) \<or> w \<in> set (snd (grant_pass m sc vs)))"
  using assms
proof (induction vs arbitrary: fuel us m L sc)
  case Nil
  then have "L(r := us) = L" by auto
  with Nil show ?case by (cases fuel) (auto simp: same_needs_def)
next
  case (Cons w vs)
  obtain f where fuel: "fuel = Suc f" "length vs \<le> f" using Cons.prems(3) by (cases fuel) auto
  have next_w: "wt_next (waiters m w) = first_of vs"
    using waiter_seg_split(2) waiter_repD(1) [OF Cons.prems(1), of r] Cons.prems(2) by metis
  have d: "distinct (us @ w # vs)" using waiter_repD(2) [OF Cons.prems(1), of r] Cons.prems(2) by simp
  obtain el bl im where v: "waiter_verdict m sc w (waiter_need m w) = (el, bl, im)" by (cases "waiter_verdict m sc w (waiter_need m w)") auto
  let ?rm = "removeCapacityWaiterWithLock m r w"
  note rm = removeWithLock_rep [OF Cons.prems(1,2)]
  have Lr: "(L(r := us @ vs))(r := xs) = L(r := xs)" for xs by simp
  have step: ?case if vis: "notify_visit r w sc m = (sc', m1)" and rep: "waiter_rep m1 (L(r := us' @ vs))"
    and p: "grant_pass m1 sc' vs = (k, g)" and n: "same_needs m m1"
    and k: "us' @ k = us @ fst (grant_pass m sc (w # vs))"
    and t: "\<And>v. wt_token (waiters m1 v) \<or> v \<in> set g
       \<longleftrightarrow> wt_token (waiters m v) \<or> v \<in> set (snd (grant_pass m sc (w # vs)))" for sc' m1 us' k g
  proof -
    obtain m' where m': "notify_loop f r (first_of vs) sc' m1 = Some m'" "same_needs m1 m'"
      "waiter_rep m' ((L(r := us' @ vs))(r := us' @ k))"
      "\<And>v. wt_token (waiters m' v) \<longleftrightarrow> wt_token (waiters m1 v) \<or> v \<in> set g"
      using Cons.IH [OF rep fun_upd_same fuel(2), of sc'] unfolding p fst_conv snd_conv by blast
    have "notify_loop fuel r (first_of (w # vs)) sc m = Some m'"
      using m'(1) by (simp add: fuel next_w vis)
    moreover have "waiter_rep m' (L(r := us @ fst (grant_pass m sc (w # vs))))"
      using m'(3) unfolding fun_upd_upd k .
    ultimately show ?thesis
      using same_needs_trans [OF n m'(2)] m'(4) t by blast
  qed
  show ?case
  proof (cases "el \<and> (\<not> bl \<or> waiter_need m w = 0)")
    case False
    let ?sc = "if \<not> el \<and> \<not> bl \<and> \<not> im then scratch_hold m (waiter_need m w) (waiter_chain m w) sc else sc"
    obtain k g where p: "grant_pass m ?sc vs = (k, g)" by (cases "grant_pass m ?sc vs")
    have pw: "grant_pass m sc (w # vs) = (w # k, g)" using v False p by auto
    have vis: "notify_visit r w sc m = (?sc, m)"
      using v False by (auto simp: notify_visit_def Let_def waiter_need_def)
    have "L(r := (us @ [w]) @ vs) = L" using Cons.prems(2) by auto
    then show ?thesis
      using Cons.prems(1) by (intro step [OF vis _ p, of "us @ [w]"]) (simp_all add: pw same_needs_def del: grant_pass.simps)
  next
    case granted: True
    show ?thesis
    proof (cases "wt_token (waiters m w)")
      case True
      have vis: "notify_visit r w sc m = (sc, ?rm)"
        using v granted True by (auto simp: notify_visit_def Let_def waiter_need_def remove_needs)
      have "grant_pass ?rm sc vs = grant_pass m sc vs"
        by (rule grant_pass_cong) (simp_all add: remove_needs)
      moreover have "grant_pass m sc (w # vs) = grant_pass m sc vs" using v granted True by simp
      ultimately show ?thesis
        by (intro step [OF vis rm prod.collapse [symmetric]]) (simp_all add: remove_needs)
    next
      case False
      let ?sc = "scratch_grant (waiter_need m w) (waiter_chain m w) sc"
      let ?m = "upd_waiter w (wt_token_update (\<lambda>_. True)) ?rm"
      have vis: "notify_visit r w sc m = (?sc, ?m)"
        using v granted False
        by (auto simp: notify_visit_def Let_def waiter_need_def remove_needs same_needs_cong [OF remove_needs(1)])
      have pass: "grant_pass ?m ?sc vs = grant_pass m ?sc vs"
        using d by (intro grant_pass_cong) (auto simp: remove_needs)
      have pw: "grant_pass m sc (w # vs) = map_prod id ((#) w) (grant_pass m ?sc vs)" using v granted False by auto
      show ?thesis
        by (rule step [OF vis waiter_rep_token [OF rm] prod.collapse [symmetric]])
          (auto simp: remove_needs pass pw simp del: grant_pass.simps)
    qed
  qed
qed

section \<open>Lemmas: one waiter of the pass\<close>

lemma verdict_iff:
  "waiter_verdict m sc w n =
     ((\<forall>b \<in> set (waiter_chain m w). n \<le> scratch_free m sc b),
      (\<exists>b \<in> set (waiter_chain m w). sc_blocked (sc b)),
      (\<exists>b \<in> set (waiter_chain m w). bg_total (budgets m b) < n))"
proof -
  have "fold (\<lambda>b (e, k, i). (e \<and> \<not> scratch_free m sc b < n, k \<or> sc_blocked (sc b), i \<or> bg_total (budgets m b) < n))
      bs (e, k, i) =
    (e \<and> (\<forall>b \<in> set bs. n \<le> scratch_free m sc b), k \<or> (\<exists>b \<in> set bs. sc_blocked (sc b)),
     i \<or> (\<exists>b \<in> set bs. bg_total (budgets m b) < n))" for bs e k i
    by (induction bs arbitrary: e k i) auto
  then show ?thesis by (simp add: waiter_verdict_def)
qed

lemma waiter_chain_distinct: "distinct (waiter_chain m w)"
  by (simp add: waiter_chain_def chain_distinct split: option.split)

lemma scratch_grant_apply:
  "distinct bs \<Longrightarrow> scratch_grant n bs sc b =
     (if b \<in> set bs then (sc b)\<lparr>sc_granted := i64 (sc_granted (sc b) + n)\<rparr> else sc b)"
  unfolding scratch_grant_def by (induction bs arbitrary: sc) auto

lemma scratch_hold_apply:
  "sc_granted (scratch_hold m n bs sc b) = sc_granted (sc b)"
  "sc_blocked (scratch_hold m n bs sc b) \<longleftrightarrow> sc_blocked (sc b) \<or> b \<in> set bs \<and> scratch_free m sc b < n"
proof -
  have "sc_granted (scratch_hold m n bs sc b) = sc_granted (sc b)
      \<and> (sc_blocked (scratch_hold m n bs sc b) \<longleftrightarrow> sc_blocked (sc b) \<or> b \<in> set bs \<and> scratch_free m sc b < n)"
  proof (induction bs arbitrary: sc)
    case (Cons x bs)
    let ?sc = "if scratch_free m sc x < n then sc(x := (sc x)\<lparr>sc_blocked := True\<rparr>) else sc"
    have "scratch_hold m n (x # bs) sc = scratch_hold m n bs ?sc" by (simp add: scratch_hold_def)
    moreover have "scratch_free m ?sc b = scratch_free m sc b" by (simp add: scratch_free_def)
    ultimately show ?case using Cons.IH [of ?sc] by auto
  qed (simp add: scratch_hold_def)
  then show "sc_granted (scratch_hold m n bs sc b) = sc_granted (sc b)"
    "sc_blocked (scratch_hold m n bs sc b) \<longleftrightarrow> sc_blocked (sc b) \<or> b \<in> set bs \<and> scratch_free m sc b < n"
    by auto
qed

text \<open>Case distinction for one waiter, with the scratch map it leaves.\<close>

lemma grant_pass_cases:
  obtains (woken) "grant_pass m sc (w # ws) =
        map_prod id ((#) w) (grant_pass m (scratch_grant (waiter_need m w) (waiter_chain m w) sc) ws)"
      "\<forall>b \<in> set (waiter_chain m w). waiter_need m w \<le> scratch_free m sc b"
      "waiter_need m w = 0 \<or> (\<forall>b \<in> set (waiter_chain m w). \<not> sc_blocked (sc b))" "\<not> wt_token (waiters m w)"
  | (spent) "grant_pass m sc (w # ws) = grant_pass m sc ws" "wt_token (waiters m w)"
  | (stays) sc' where "grant_pass m sc (w # ws) = map_prod ((#) w) id (grant_pass m sc' ws)"
      "\<And>b. sc_granted (sc' b) = sc_granted (sc b)" "\<And>b. sc_blocked (sc b) \<Longrightarrow> sc_blocked (sc' b)"
      "(\<forall>b \<in> set (waiter_chain m w). waiter_need m w \<le> bg_total (budgets m b)) \<Longrightarrow>
       \<exists>b \<in> set (waiter_chain m w). sc_blocked (sc' b)"
proof -
  let ?n = "waiter_need m w" and ?C = "set (waiter_chain m w)"
  let ?el = "\<forall>b \<in> ?C. ?n \<le> scratch_free m sc b" and ?bl = "\<exists>b \<in> ?C. sc_blocked (sc b)"
    and ?im = "\<exists>b \<in> ?C. bg_total (budgets m b) < ?n"
  consider (a) "?el \<and> (\<not> ?bl \<or> ?n = 0)" "\<not> wt_token (waiters m w)" | (b) "?el \<and> (\<not> ?bl \<or> ?n = 0)" "wt_token (waiters m w)"
    | (c) "\<not> (?el \<and> (\<not> ?bl \<or> ?n = 0))"
    by blast
  then show thesis
  proof cases
    case a
    then show thesis by (intro woken) (auto simp: verdict_iff)
  next
    case b
    then show thesis by (intro spent) (auto simp: verdict_iff)
  next
    case c
    let ?sc = "if \<not> ?el \<and> \<not> ?bl \<and> \<not> ?im then scratch_hold m ?n (waiter_chain m w) sc else sc"
    have eq: "grant_pass m sc (w # ws) = map_prod ((#) w) id (grant_pass m ?sc ws)"
      using c by (simp only: grant_pass.simps verdict_iff prod.case if_False)
    show thesis
    proof (rule stays [OF eq])
      show "sc_granted (?sc b) = sc_granted (sc b)" for b by (simp add: scratch_hold_apply)
      show "sc_blocked (sc b) \<Longrightarrow> sc_blocked (?sc b)" for b by (simp add: scratch_hold_apply)
      show "\<exists>b \<in> ?C. sc_blocked (?sc b)" if "\<forall>b \<in> ?C. ?n \<le> bg_total (budgets m b)"
      proof (cases ?bl)
        case True
        then show ?thesis by (auto simp: scratch_hold_apply)
      next
        case False
        then have "\<not> ?el" using c by blast
        moreover from this obtain x where "x \<in> ?C" "scratch_free m sc x < ?n" by force
        moreover have "\<not> ?im" using that by force
        ultimately show ?thesis using False by (auto simp: scratch_hold_apply)
      qed
    qed
  qed
qed

lemma grant_pass_sub:
  "set (fst (grant_pass m sc ws)) \<subseteq> set ws" "set (snd (grant_pass m sc ws)) \<subseteq> set ws"
  "distinct ws \<Longrightarrow> distinct (snd (grant_pass m sc ws))"
  "v \<in> set (snd (grant_pass m sc ws)) \<Longrightarrow> \<not> wt_token (waiters m v)"
proof -
  have "set (fst (grant_pass m sc ws)) \<subseteq> set ws \<and> set (snd (grant_pass m sc ws)) \<subseteq> set ws
      \<and> (distinct ws \<longrightarrow> distinct (snd (grant_pass m sc ws)))
      \<and> (v \<in> set (snd (grant_pass m sc ws)) \<longrightarrow> \<not> wt_token (waiters m v))"
  proof (induction ws arbitrary: sc)
    case (Cons w ws)
    show ?case
    proof (cases rule: grant_pass_cases [of m sc w ws])
      case woken
      show ?thesis
        using Cons.IH [of "scratch_grant (waiter_need m w) (waiter_chain m w) sc"] woken(4) unfolding woken(1) by auto
    next
      case spent
      show ?thesis using Cons.IH [of sc] unfolding spent(1) by auto
    next
      case (stays sc')
      show ?thesis using Cons.IH [of sc'] unfolding stays(1) by auto
    qed
  qed simp
  then show "set (fst (grant_pass m sc ws)) \<subseteq> set ws" "set (snd (grant_pass m sc ws)) \<subseteq> set ws"
    "distinct ws \<Longrightarrow> distinct (snd (grant_pass m sc ws))"
    "v \<in> set (snd (grant_pass m sc ws)) \<Longrightarrow> \<not> wt_token (waiters m v)"
    by blast+
qed

text \<open>Grants fit: the capacity promised at a budget stays within what is free there.\<close>

definition room_at :: "mem \<Rightarrow> nat \<Rightarrow> int" where
  "room_at m b = max 0 (bg_total (budgets m b) - bg_used (budgets m b))"

definition sane_budget :: "mem \<Rightarrow> nat \<Rightarrow> bool" where
  "sane_budget m b \<longleftrightarrow> 0 \<le> bg_total (budgets m b) \<and> in64 (bg_total (budgets m b))
     \<and> 0 \<le> bg_used (budgets m b) \<and> in64 (bg_used (budgets m b))"

definition need_at :: "mem \<Rightarrow> nat \<Rightarrow> nat \<Rightarrow> int" where
  "need_at m b w = (if b \<in> set (waiter_chain m w) then waiter_need m w else 0)"

lemma scratch_free_eq:
  assumes "sane_budget m b" "0 \<le> sc_granted (sc b)" "sc_granted (sc b) \<le> room_at m b"
  shows "scratch_free m sc b = room_at m b - sc_granted (sc b)"
proof -
  have "in64 (bg_total (budgets m b) - bg_used (budgets m b) - sc_granted (sc b))"
    using assms by (auto simp: sane_budget_def in64_def room_at_def max_def split: if_splits)
  then show ?thesis using assms by (auto simp: scratch_free_def i64_id room_at_def max_def split: if_splits)
qed

lemma grant_pass_bound:
  assumes "\<forall>w \<in> set ws. set (waiter_chain m w) \<subseteq> A" and "\<forall>b \<in> A. sane_budget m b"
    and "\<forall>b \<in> A. 0 \<le> sc_granted (sc b) \<and> sc_granted (sc b) \<le> room_at m b" and "b \<in> A"
  shows "sc_granted (sc b) + (\<Sum>w \<leftarrow> snd (grant_pass m sc ws). need_at m b w) \<le> room_at m b"
  using assms
proof (induction ws arbitrary: sc)
  case (Cons w ws)
  show ?case
  proof (cases rule: grant_pass_cases [of m sc w ws])
    case woken
    let ?sc = "scratch_grant (waiter_need m w) (waiter_chain m w) sc"
    have g: "sc_granted (?sc x) = sc_granted (sc x) + need_at m x w \<and> need_at m x w \<le> room_at m x - sc_granted (sc x)
        \<and> 0 \<le> need_at m x w" if x: "x \<in> A" for x
    proof (cases "x \<in> set (waiter_chain m w)")
      case True
      have f: "waiter_need m w \<le> room_at m x - sc_granted (sc x)" "0 \<le> waiter_need m w"
        using woken(2) True scratch_free_eq [of m x sc] Cons.prems(2,3) x by (auto simp: waiter_need_def)
      have "in64 (room_at m x)" using Cons.prems(2) x by (auto simp: room_at_def sane_budget_def in64_def max_def)
      then have "in64 (sc_granted (sc x) + waiter_need m w)"
        using f Cons.prems(3) x by (auto simp: in64_def)
      then show ?thesis
        using True f by (simp add: scratch_grant_apply waiter_chain_distinct i64_id need_at_def)
    qed (use Cons.prems(3) x in \<open>simp add: scratch_grant_apply waiter_chain_distinct need_at_def\<close>)
    have "sc_granted (?sc b) + (\<Sum>w \<leftarrow> snd (grant_pass m ?sc ws). need_at m b w) \<le> room_at m b"
      by (rule Cons.IH) (use Cons.prems g in \<open>fastforce+\<close>)
    then show ?thesis using g [OF Cons.prems(4)] by (simp add: woken(1) del: grant_pass.simps)
  next
    case spent
    then show ?thesis using Cons by (simp del: grant_pass.simps)
  next
    case (stays sc')
    then have "sc_granted (sc' b) + (\<Sum>w \<leftarrow> snd (grant_pass m sc' ws). need_at m b w) \<le> room_at m b"
      using Cons.prems by (intro Cons.IH) auto
    then show ?thesis using stays by (simp del: grant_pass.simps)
  qed
qed simp

text \<open>First in, first out: a held level stays closed to the waiters behind.\<close>

lemma grant_pass_blocked:
  "sc_blocked (sc b) \<Longrightarrow> v \<in> set (snd (grant_pass m sc ws)) \<Longrightarrow> 0 < waiter_need m v \<Longrightarrow>
   b \<notin> set (waiter_chain m v)"
proof (induction ws arbitrary: sc)
  case (Cons w ws)
  show ?case
  proof (cases rule: grant_pass_cases [of m sc w ws])
    case woken
    let ?sc = "scratch_grant (waiter_need m w) (waiter_chain m w) sc"
    have "sc_blocked (?sc b)" using Cons.prems(1) by (simp add: scratch_grant_apply waiter_chain_distinct)
    moreover have "v = w \<or> v \<in> set (snd (grant_pass m ?sc ws))"
      using Cons.prems(2) unfolding woken(1) by simp
    ultimately show ?thesis using Cons.IH [of ?sc] Cons.prems(1,3) woken(3) by auto
  next
    case spent
    then show ?thesis using Cons by (simp del: grant_pass.simps)
  next
    case (stays sc')
    then show ?thesis using Cons.IH [of sc'] Cons.prems by (simp del: grant_pass.simps)
  qed
qed simp

lemma grant_pass_no_overtaking:
  assumes "distinct (us @ w # vs)" and "w \<in> set (fst (grant_pass m sc (us @ w # vs)))"
    and "\<forall>b \<in> set (waiter_chain m w). waiter_need m w \<le> bg_total (budgets m b)"
  shows "\<exists>b \<in> set (waiter_chain m w). \<forall>v \<in> set vs \<inter> set (snd (grant_pass m sc (us @ w # vs))).
    0 < waiter_need m v \<longrightarrow> b \<notin> set (waiter_chain m v)"
  using assms
proof (induction us arbitrary: sc)
  case Nil
  then show ?case
  proof (cases rule: grant_pass_cases [of m sc w vs])
    case woken
    then show ?thesis
      using Nil.prems(1,2) grant_pass_sub(1) [of m "scratch_grant (waiter_need m w) (waiter_chain m w) sc" vs]
      by (auto simp del: grant_pass.simps)
  next
    case spent
    then show ?thesis using Nil.prems(1,2) grant_pass_sub(1) [of m sc vs] by (auto simp del: grant_pass.simps)
  next
    case (stays sc')
    then obtain b where "b \<in> set (waiter_chain m w)" "sc_blocked (sc' b)" using Nil.prems(3) by blast
    then show ?thesis using grant_pass_blocked [of sc' b _ m vs] stays(1) by (auto simp del: grant_pass.simps)
  qed
next
  case (Cons u us)
  have "\<exists>sc'. snd (grant_pass m sc (u # us @ w # vs)) \<in> {snd (grant_pass m sc' (us @ w # vs)), u # snd (grant_pass m sc' (us @ w # vs))}
      \<and> fst (grant_pass m sc (u # us @ w # vs)) \<in> {fst (grant_pass m sc' (us @ w # vs)), u # fst (grant_pass m sc' (us @ w # vs))}"
    by (cases rule: grant_pass_cases [of m sc u "us @ w # vs"]) (auto simp del: grant_pass.simps)
  then obtain sc' where sc': "snd (grant_pass m sc (u # us @ w # vs)) \<in> {snd (grant_pass m sc' (us @ w # vs)), u # snd (grant_pass m sc' (us @ w # vs))}"
    "fst (grant_pass m sc (u # us @ w # vs)) \<in> {fst (grant_pass m sc' (us @ w # vs)), u # fst (grant_pass m sc' (us @ w # vs))}"
    by blast
  have ne: "u \<noteq> w" "u \<notin> set vs" using Cons.prems(1) by auto
  have "w \<in> set (fst (grant_pass m sc' (us @ w # vs)))" using Cons.prems(2) sc'(2) ne by (auto simp del: grant_pass.simps)
  then have "\<exists>b \<in> set (waiter_chain m w). \<forall>v \<in> set vs \<inter> set (snd (grant_pass m sc' (us @ w # vs))).
      0 < waiter_need m v \<longrightarrow> b \<notin> set (waiter_chain m v)"
    using Cons.IH [of sc'] Cons.prems(1,3) by simp
  moreover have "set vs \<inter> set (snd (grant_pass m sc (u # us @ w # vs))) = set vs \<inter> set (snd (grant_pass m sc' (us @ w # vs)))"
    using sc'(1) ne by (auto simp del: grant_pass.simps)
  ultimately show ?case by (simp del: grant_pass.simps)
qed

section \<open>Subscribing and resetting\<close>

lemma waiter_rep_cong:
  assumes "waiter_rep m L"
    and "\<And>w. wt_prev (waiters m' w) = wt_prev (waiters m w)" "\<And>w. wt_next (waiters m' w) = wt_next (waiters m w)"
    and "\<And>w. wt_registered (waiters m' w) = wt_registered (waiters m w)"
    and "\<And>w. wt_registered (waiters m w) \<Longrightarrow> wt_budget (waiters m' w) = wt_budget (waiters m w)"
    and "\<And>b. bg_waitHead (budgets m' b) = bg_waitHead (budgets m b)"
    and "\<And>b. bg_waitTail (budgets m' b) = bg_waitTail (budgets m b)"
    and "\<And>b. bg_waiterCount (budgets m' b) = bg_waiterCount (budgets m b)"
    and "\<And>w b. wt_registered (waiters m w) \<Longrightarrow> wt_budget (waiters m w) = Some b \<Longrightarrow> admissionRoot m' b = admissionRoot m b"
  shows "waiter_rep m' L"
proof -
  have "waiter_seg (waiters m') p x ws l n = waiter_seg (waiters m) p x ws l n" for p x ws l n
    by (rule waiter_seg_cong) (simp add: assms)
  moreover have "wt_registered (waiters m w) \<and> (\<exists>b. wt_budget (waiters m' w) = Some b \<and> admissionRoot m' b = r)
      \<longleftrightarrow> wt_registered (waiters m w) \<and> (\<exists>b. wt_budget (waiters m w) = Some b \<and> admissionRoot m b = r)" for w r
    using assms(5,9) [of w] by (cases "wt_budget (waiters m w)") auto
  moreover have "(\<forall>w. wt_registered (waiters m w) \<longrightarrow> wt_budget (waiters m' w) \<noteq> None)
      \<longleftrightarrow> (\<forall>w. wt_registered (waiters m w) \<longrightarrow> wt_budget (waiters m w) \<noteq> None)"
    using assms(5) by auto
  ultimately show ?thesis
    using assms(1) unfolding waiter_rep_def assms(4,6-8) by simp
qed

lemma waiter_rep_unregistered:
  assumes "waiter_rep m L" "\<not> wt_registered (waiters m w)"
    "\<And>x. wt_prev (f x) = wt_prev x \<and> wt_next (f x) = wt_next x \<and> wt_registered (f x) = wt_registered x"
  shows "waiter_rep (upd_waiter w f m) L"
  by (rule waiter_rep_cong [OF assms(1)]) (use assms(2,3) in \<open>auto simp: admissionRoot_def\<close>)

lemma removeCapacityWaiter_rep:
  assumes "waiter_rep m L" and "wt_budget (waiters m w) = Some b"
  shows "waiter_rep (removeCapacityWaiter m b w) (\<lambda>r. remove1 w (L r))"
    "\<not> wt_registered (waiters (removeCapacityWaiter m b w) w)"
proof -
  let ?r = "admissionRoot m b"
  note R = waiter_repD [OF assms(1)]
  have "waiter_rep (removeCapacityWaiter m b w) (\<lambda>r. remove1 w (L r))
    \<and> \<not> wt_registered (waiters (removeCapacityWaiter m b w) w)"
  proof (cases "wt_registered (waiters m w)")
    case True
    then have "w \<in> set (L ?r)" using R(5) assms(2) by auto
    then obtain us vs where L: "L ?r = us @ w # vs" "w \<notin> set us" by (meson split_list_first)
    have "remove1 w (L q) = (L(?r := us @ vs)) q" for q
    proof (cases "q = ?r")
      case True
      then show ?thesis using L by (simp add: remove1_append)
    next
      case False
      then have "w \<notin> set (L q)" using R(5) [of w q] assms(2) by auto
      then show ?thesis using False by (simp add: remove1_idem)
    qed
    then have "(\<lambda>q. remove1 w (L q)) = L(?r := us @ vs)" by auto
    moreover have "\<not> wt_registered (waiters (removeCapacityWaiterWithLock m ?r w) w)"
      using True by (simp add: removeCapacityWaiterWithLock_def Let_def)
    ultimately show ?thesis
      using removeWithLock_rep [OF assms(1) L(1)] by (simp add: removeCapacityWaiter_def)
  next
    case False
    then have "w \<notin> set (L q)" for q using R(5) by blast
    then show ?thesis
      using assms(1) False by (simp add: removeCapacityWaiter_def removeCapacityWaiterWithLock_def remove1_idem)
  qed
  then show "waiter_rep (removeCapacityWaiter m b w) (\<lambda>r. remove1 w (L r))"
    "\<not> wt_registered (waiters (removeCapacityWaiter m b w) w)" by blast+
qed

lemma waiter_reset_rep:
  assumes "waiter_rep m L"
  shows "waiter_rep (waiter_reset m w) (\<lambda>r. remove1 w (L r))" "\<not> wt_registered (waiters (waiter_reset m w) w)"
    "wt_budget (waiters (waiter_reset m w) w) = None" "\<not> wt_token (waiters (waiter_reset m w) w)"
proof -
  have "waiter_rep (waiter_reset m w) (\<lambda>r. remove1 w (L r)) \<and> \<not> wt_registered (waiters (waiter_reset m w) w)"
  proof (cases "wt_budget (waiters m w)")
    case None
    then have nr: "\<not> wt_registered (waiters m w)" using waiter_repD(6) [OF assms, of w] by auto
    then have "w \<notin> set (L q)" for q using waiter_repD(5) [OF assms] by blast
    then have "(\<lambda>r. remove1 w (L r)) = L" by (simp add: fun_eq_iff remove1_idem)
    then show ?thesis using None nr waiter_rep_token [OF assms] by (simp add: waiter_reset_def)
  next
    case (Some b)
    note R = removeCapacityWaiter_rep [OF assms Some]
    have "waiter_rep (upd_waiter w (wt_budget_update (\<lambda>_. None)) (removeCapacityWaiter m b w)) (\<lambda>r. remove1 w (L r))"
      by (rule waiter_rep_unregistered [OF R]) simp
    then show ?thesis using Some R(2) by (simp add: waiter_reset_def waiter_rep_token)
  qed
  then show "waiter_rep (waiter_reset m w) (\<lambda>r. remove1 w (L r))" "\<not> wt_registered (waiters (waiter_reset m w) w)"
    by blast+
  show "wt_budget (waiters (waiter_reset m w) w) = None" "\<not> wt_token (waiters (waiter_reset m w) w)"
    by (simp_all add: waiter_reset_def Let_def split: option.split)
qed

lemma waiter_subscribe_rep:
  assumes rep: "waiter_rep m L" and room: "bg_waiterCount (budgets m (admissionRoot m b)) < maxInt64"
    and sub: "waiter_subscribe m w (Some b) n = (c, m')"
  defines "r \<equiv> admissionRoot m b"
  shows "waiter_rep m' ((\<lambda>q. remove1 w (L q))(r := remove1 w (L r) @ [w]))"
    "c = Some w" "wt_registered (waiters m' w)" "\<not> wt_token (waiters m' w)"
    "waiter_need m' w = max 0 n" "wt_budget (waiters m' w) = Some b"
proof -
  note R = waiter_reset_rep [OF rep, of w]
  define m1 where "m1 = upd_waiter w (\<lambda>x. x\<lparr>wt_budget := Some b, wt_required := max 0 n\<rparr>)
      (upd_waiter w (wt_token_update (\<lambda>_. False)) (waiter_reset m w))"
  have m': "m' = addCapacityWaiter m1 b w" "c = Some w"
    using sub by (auto simp: waiter_subscribe_def m1_def Let_def)
  have rep1: "waiter_rep m1 (\<lambda>q. remove1 w (L q))"
    unfolding m1_def by (rule waiter_rep_unregistered [OF waiter_rep_token [OF R(1)]]) (simp_all add: R(2))
  have "same_core m m1" using same_core_waiter_reset by (simp add: m1_def)
  then have root: "admissionRoot m1 b = r" by (simp add: same_core_root r_def)
  have W: "\<not> wt_registered (waiters m1 w)" "wt_budget (waiters m1 w) = Some b" "wt_required (waiters m1 w) = max 0 n"
    "\<not> wt_token (waiters m1 w)"
    using R(2) by (simp_all add: m1_def)
  have "int (length (remove1 w (L r))) \<le> int (length (L r))" by (simp add: length_remove1)
  then have "in64 (int (length (remove1 w (L r))) + 1)"
    using room waiter_repD(3) [OF rep, of r] by (simp add: r_def maxInt64_def in64_def)
  then show "waiter_rep m' ((\<lambda>q. remove1 w (L q))(r := remove1 w (L r) @ [w]))"
    using addCapacityWaiter_rep [OF rep1 W(1,2) root] by (simp add: m')
  have "bg_waitTail (budgets m1 r) \<noteq> Some w"
  proof
    assume "bg_waitTail (budgets m1 r) = Some w"
    then have "w \<in> set (remove1 w (L r))"
      using waiter_seg_last [OF waiter_repD(1) [OF rep1, of r]] last_in_set by (metis option.distinct(1) option.inject)
    then show False using waiter_repD(5) [OF rep1, of w r] W(1) by simp
  qed
  then show "wt_registered (waiters m' w)" "\<not> wt_token (waiters m' w)"
    "waiter_need m' w = max 0 n" "wt_budget (waiters m' w) = Some b"
    using add_fields(1) [OF W(1) _ root] W by (simp_all add: m' waiter_need_def)
  show "c = Some w" by (rule m'(2))
qed

lemma notifyEligible_pass:
  assumes rep: "waiter_rep m L" and "m' = notifyEligibleCapacityWaiters m b"
  defines "r \<equiv> admissionRoot m b"
  obtains (skipped) "m' = m" "L r = [] \<or> Available m r \<le> 0"
  | (passed) "same_needs m m'" "0 < Available m r"
      "waiter_rep m' (L(r := fst (grant_pass m empty_scratch (L r))))"
      "\<And>w. wt_token (waiters m' w) \<longleftrightarrow> wt_token (waiters m w) \<or> w \<in> set (snd (grant_pass m empty_scratch (L r)))"
proof (cases "L r = [] \<or> Available m r \<le> 0")
  case True
  then show thesis
    using skipped assms(2) waiter_repD(3) [OF rep, of r] by (auto simp: notifyEligibleCapacityWaiters_def r_def Let_def)
next
  case False
  have "bg_waitHead (budgets m r) = first_of (L r)" using waiter_seg_first [OF waiter_repD(1) [OF rep]] .
  moreover obtain m1 where "notify_loop (length (L r)) r (first_of (L r)) empty_scratch m = Some m1" "same_needs m m1"
    "waiter_rep m1 (L(r := fst (grant_pass m empty_scratch (L r))))"
    "\<forall>w. wt_token (waiters m1 w) \<longleftrightarrow> wt_token (waiters m w) \<or> w \<in> set (snd (grant_pass m empty_scratch (L r)))"
    using notify_loop_pass [OF rep, of r "[]" "L r" "length (L r)" empty_scratch] by auto
  ultimately show thesis
    using passed assms(2) False waiter_repD(3) [OF rep, of r]
    by (simp add: notifyEligibleCapacityWaiters_def r_def [symmetric] Let_def)
qed

section \<open>The queue invariant\<close>

definition waiter_inv :: "mem \<Rightarrow> bool" where
  "waiter_inv m \<longleftrightarrow> (\<exists>L. waiter_rep m L)
   \<and> (\<forall>w b. wt_budget (waiters m w) = Some b \<longrightarrow> b < nextBudget m)"

lemma waiter_inv_cong:
  assumes "waiter_inv m" and "waiters m' = waiters m" and "nextBudget m' = nextBudget m"
    and "\<And>b. bg_waitHead (budgets m' b) = bg_waitHead (budgets m b)"
    and "\<And>b. bg_waitTail (budgets m' b) = bg_waitTail (budgets m b)"
    and "\<And>b. bg_waiterCount (budgets m' b) = bg_waiterCount (budgets m b)"
    and "\<And>b. bg_root (budgets m' b) = bg_root (budgets m b)"
  shows "waiter_inv m'"
proof -
  have "waiter_rep m' L" if "waiter_rep m L" for L
    by (rule waiter_rep_cong [OF that]) (simp_all add: assms(2,4-7) admissionRoot_def)
  then show ?thesis using assms(1-3) by (auto simp: waiter_inv_def)
qed

lemma waiter_inv_charges:
  assumes "waiter_inv m"
  shows "waiter_inv (snd (TryReserve m b n))" "waiter_inv (releaseCharge m b n)"
    "waiter_inv (snd (moveCharge m b d n))" "waiter_inv (setTotal m b n)" "waiter_inv (addFloor m b n)"
    "waiter_inv (removeFloor m b n)" "waiter_inv (snd (CapacityNotify m b))"
  by (rule waiter_inv_cong [OF assms];
      simp add: TryReserve_def tryReserveWithLock_def releaseCharge_def upd_chain_eq charge_def releaseByteCount_def
        setTotal_def addFloor_def removeFloor_def CapacityNotify_def moveCharge_def Let_def fold_upd_budget_if chain_distinct
        split: option.split)+

lemma waiter_inv_notifyEligible:
  assumes "waiter_inv m"
  shows "waiter_inv (notifyEligibleCapacityWaiters m b)"
proof -
  obtain L where rep: "waiter_rep m L" using assms by (auto simp: waiter_inv_def)
  show ?thesis
    using rep refl
  proof (cases rule: notifyEligible_pass [where b = b])
    case skipped
    then show ?thesis using assms by simp
  next
    case passed
    then show ?thesis using assms by (auto simp: waiter_inv_def same_needs_def same_core_def)
  qed
qed

lemma waiter_inv_notify:
  assumes "waiter_inv m"
  shows "waiter_inv (notifyCapacityChanged m b)"
proof -
  have "waiter_inv (case bg_notify (budgets m (admissionRoot m b)) of None \<Rightarrow> m
      | Some c \<Rightarrow> (upd_budget (admissionRoot m b) (bg_notify_update (\<lambda>_. None)) m)\<lparr>closed := c # closed m\<rparr>)"
    by (rule waiter_inv_cong [OF assms]; simp split: option.split)
  then show ?thesis
    unfolding notifyCapacityChanged_def Let_def by (rule waiter_inv_notifyEligible)
qed

lemma waiter_reset_budget:
  "wt_budget (waiters (waiter_reset m w) v) \<in> {None, wt_budget (waiters m v)}"
  using remove_needs(1) [of m _ w] by (auto simp: waiter_reset_def removeCapacityWaiter_def same_needs_def Let_def split: option.split)

lemma waiter_inv_reset: "waiter_inv m \<Longrightarrow> waiter_inv (waiter_reset m w)"
  using waiter_reset_rep(1) [of m _ w] same_core_waiter_reset [of m w] waiter_reset_budget [of m w]
  unfolding waiter_inv_def same_core_def by (metis insertE option.distinct(1) singletonD)

lemma waiter_inv_subscribe:
  assumes "waiter_inv m" and "b < nextBudget m" and "bg_waiterCount (budgets m (admissionRoot m b)) < maxInt64"
    and sub: "waiter_subscribe m w (Some b) n = (c, m')"
  shows "waiter_inv m'"
proof -
  obtain L where rep: "waiter_rep m L" using assms(1) by (auto simp: waiter_inv_def)
  have n: "nextBudget m' = nextBudget m"
    using same_core_waiter_subscribe [of m w "Some b" n] sub by (simp add: same_core_def)
  have "wt_budget (waiters m' v) = wt_budget (waiters (waiter_reset m w) v)" if "v \<noteq> w" for v
    using sub that by (auto simp: waiter_subscribe_def Let_def addCapacityWaiter_def split: option.splits)
  then have "wt_budget (waiters m' v) = Some x \<Longrightarrow> x < nextBudget m" for v x
    using assms(1,2) waiter_subscribe_rep(6) [OF rep assms(3) sub] waiter_reset_budget [of m w v]
    by (cases "v = w") (auto simp: waiter_inv_def)
  then show ?thesis
    using waiter_subscribe_rep(1) [OF rep assms(3) sub] n unfolding waiter_inv_def by auto
qed

lemma waiter_inv_new:
  assumes inv: "waiter_inv m" and wf: "wf_budgets m" and p: "\<forall>p. parent = Some p \<longrightarrow> p < nextBudget m"
    and new: "NewTransferMemoryBudgetWithParent m t parent = (b, m')"
  shows "waiter_inv m'"
proof -
  obtain L where rep: "waiter_rep m L" using inv by (auto simp: waiter_inv_def)
  note R = waiter_repD [OF rep]
  have "L (nextBudget m) = []"
  proof (rule ccontr)
    assume "L (nextBudget m) \<noteq> []"
    then obtain w x where "wt_budget (waiters m w) = Some x" "admissionRoot m x = nextBudget m"
      using R(5) [of "hd (L (nextBudget m))" "nextBudget m"] by auto
    moreover from this have "x < nextBudget m" using inv by (auto simp: waiter_inv_def)
    ultimately show False using admissionRoot_in_chain [OF wf, of x] chain_le by fastforce
  qed
  then have E: "bg_waitHead (budgets m (nextBudget m)) = None" "bg_waitTail (budgets m (nextBudget m)) = None"
    "bg_waiterCount (budgets m (nextBudget m)) = 0"
    using R(1,3) [of "nextBudget m"] by simp_all
  have lt: "wt_budget (waiters m w) = Some x \<Longrightarrow> x < nextBudget m" for w x using inv by (auto simp: waiter_inv_def)
  obtain r h where B: "\<And>x. x \<noteq> nextBudget m \<Longrightarrow> budgets m' x = (if x = r then (budgets m x)\<lparr>bg_hasChildren := h\<rparr> else budgets m x)"
    and Bn: "bg_waitHead (budgets m' (nextBudget m)) = None" "bg_waitTail (budgets m' (nextBudget m)) = None"
      "bg_waiterCount (budgets m' (nextBudget m)) = 0"
  proof (cases parent)
    case None
    then show thesis
      using new that [of 0 "bg_hasChildren (budgets m 0)"]
      by (auto simp: NewTransferMemoryBudgetWithParent_def NewTransferMemoryBudget_def empty_budget_def)
  next
    case (Some q)
    then show thesis
      using new that [of "admissionRoot (snd (NewTransferMemoryBudget m t)) q" True]
      by (auto simp: NewTransferMemoryBudgetWithParent_def NewTransferMemoryBudget_def Let_def empty_budget_def)
  qed
  have W: "waiters m' = waiters m"
    using new by (auto simp: NewTransferMemoryBudgetWithParent_def NewTransferMemoryBudget_def Let_def split: option.splits)
  have fields: "bg_waitHead (budgets m' x) = bg_waitHead (budgets m x)" "bg_waitTail (budgets m' x) = bg_waitTail (budgets m x)"
    "bg_waiterCount (budgets m' x) = bg_waiterCount (budgets m x)" for x
    using B [of x] Bn E by (cases "x = nextBudget m"; simp)+
  have "admissionRoot m' x = admissionRoot m x" if "x < nextBudget m" for x
    using B [of x] that by (simp add: admissionRoot_def)
  then have "waiter_rep m' L"
    using lt by (intro waiter_rep_cong [OF rep]) (auto simp: W fields)
  moreover have "waiters m' = waiters m" "nextBudget m' = Suc (nextBudget m)"
    using new by (auto simp: NewTransferMemoryBudgetWithParent_def NewTransferMemoryBudget_def Let_def split: option.splits)
  ultimately show ?thesis using lt unfolding waiter_inv_def by (metis less_Suc_eq)
qed

lemma waiter_inv_step: "budget_step s s' \<Longrightarrow> budget_inv s \<Longrightarrow> waiter_inv (bs_mem s) \<Longrightarrow> waiter_inv (bs_mem s')"
proof (induction rule: budget_step.induct)
  case (step_new t parent s b m')
  then show ?case by (auto intro: waiter_inv_new simp: budget_inv_def)
next
  case (step_reserve b s n ok m')
  then show ?case using waiter_inv_charges(1) [of "bs_mem s" b n] by simp
next
  case (step_move c n s d ok m')
  then show ?case using waiter_inv_charges(3) [of "bs_mem s" c d n] by simp
next
  case (step_notify b s m')
  then show ?case by (auto intro: waiter_inv_notify waiter_inv_charges)
next
  case (step_subscribe b s w n c m')
  then show ?case by (auto intro: waiter_inv_subscribe)
qed (auto intro: waiter_inv_charges waiter_inv_reset)

lemma waiter_reachable_inv: "budget_reachable s \<Longrightarrow> waiter_inv (bs_mem s)"
proof (induction rule: budget_reachable.induct)
  case (reach_init s)
  have "waiter_rep mem0 (\<lambda>_. [])"
    by (simp add: waiter_rep_def mem0_def empty_budget_def newTransferMemoryBudgetWaiter_def in64_def)
  then show ?case using reach_init by (auto simp: waiter_inv_def mem0_def newTransferMemoryBudgetWaiter_def)
next
  case (reach_step s s')
  then show ?case by (blast intro: waiter_inv_step budget_reachable_inv)
qed

section \<open>Lemmas: reachable stores\<close>

lemma reachable_sane: "budget_inv s \<Longrightarrow> b < nextBudget (bs_mem s) \<Longrightarrow> sane_budget (bs_mem s) b"
  using budget_invD(4,5) [of s b] by (auto simp: budget_ok_def sane_budget_def in64_def)

lemma waiter_chain_bound:
  assumes "waiter_inv m" "b \<in> set (waiter_chain m w)"
  shows "b < nextBudget m"
proof -
  obtain x where x: "wt_budget (waiters m w) = Some x" "b \<in> set (chain (budgets m) x)"
    using assms(2) by (cases "wt_budget (waiters m w)") (auto simp: waiter_chain_def)
  then have "x < nextBudget m" using assms(1) by (auto simp: waiter_inv_def)
  then show ?thesis using chain_le [OF x(2)] by simp
qed

lemma admissionRoot_idem:
  "wf_budgets m \<Longrightarrow> b < nextBudget m \<Longrightarrow> admissionRoot m (admissionRoot m b) = admissionRoot m b"
proof (induction b rule: less_induct)
  case (less b)
  show ?case
  proof (cases "bg_parent (budgets m b)")
    case None
    then show ?thesis using less.prems by (auto simp: wf_budgets_def admissionRoot_def)
  next
    case (Some p)
    then have "p < b" "admissionRoot m b = admissionRoot m p"
      using less.prems by (auto simp: wf_budgets_def admissionRoot_def)
    then show ?thesis using less.IH [of p] less.prems by simp
  qed
qed

lemma notify_cleared:
  obtains c where "notifyCapacityChanged m b = notifyEligibleCapacityWaiters c (admissionRoot m b)"
    "waiters c = waiters m" "same_core m c" "\<forall>L. waiter_rep m L \<longrightarrow> waiter_rep c L"
proof -
  let ?r = "admissionRoot m b"
  define c where "c = (case bg_notify (budgets m ?r) of None \<Rightarrow> m
      | Some c \<Rightarrow> (upd_budget ?r (bg_notify_update (\<lambda>_. None)) m)\<lparr>closed := c # closed m\<rparr>)"
  have "same_core m c" "waiters c = waiters m"
    by (simp_all add: c_def split: option.split)
  moreover have "waiter_rep m L \<Longrightarrow> waiter_rep c L" for L
    by (erule waiter_rep_cong) (auto simp: c_def admissionRoot_def split: option.split)
  ultimately show thesis
    by (intro that [of c]) (simp_all add: notifyCapacityChanged_def c_def Let_def)
qed

lemma own_available_room: "sane_budget m b \<Longrightarrow> own_available (budgets m b) = room_at m b"
  using scratch_free_eq [of m b empty_scratch]
  by (simp add: own_available_def scratch_free_def empty_scratch_def room_at_def)

lemma grant_pass_oldest:
  assumes "\<forall>x \<in> set (waiter_chain m w). sane_budget m x \<and> waiter_need m w \<le> room_at m x" and "w \<notin> set ws"
  shows "w \<notin> set (fst (grant_pass m empty_scratch (w # ws)))"
    "wt_token (waiters m w) \<or> w \<in> set (snd (grant_pass m empty_scratch (w # ws)))"
proof -
  have "\<forall>x \<in> set (waiter_chain m w). waiter_need m w \<le> scratch_free m empty_scratch x"
    using assms(1) scratch_free_eq [of m _ empty_scratch] by (auto simp: empty_scratch_def room_at_def)
  moreover have "\<not> sc_blocked (empty_scratch x)" for x by (simp add: empty_scratch_def)
  ultimately show "w \<notin> set (fst (grant_pass m empty_scratch (w # ws)))"
    "wt_token (waiters m w) \<or> w \<in> set (snd (grant_pass m empty_scratch (w # ws)))"
    using grant_pass_sub(1) [of m _ ws] assms(2) by (auto simp: verdict_iff)
qed

section \<open>An example: a full budget with two waiters\<close>

definition full_state :: bstate where
  "full_state = \<lparr>bs_mem = snd (TryReserve (snd (NewTransferMemoryBudgetWithParent mem0 10 None)) 0 10),
     bs_claims = {#(0, 10)#}, bs_peak = (\<lambda>_. 0)(0 := 10)\<rparr>"

definition one_waiter :: bstate where
  "one_waiter = full_state\<lparr>bs_mem := snd (waiter_subscribe (bs_mem full_state) 7 (Some 0) 4)\<rparr>"

definition two_waiters :: bstate where
  "two_waiters = one_waiter\<lparr>bs_mem := snd (waiter_subscribe (bs_mem one_waiter) 8 (Some 0) 3)\<rparr>"

lemma chain_root: "bg_parent (B b) = None \<Longrightarrow> chain B b = [b]"
  by (simp add: chain.simps)

lemma full_state_budget:
  "budgets (bs_mem full_state) 0 = empty_budget\<lparr>bg_total := 10, bg_used := 10, bg_reserved := 10\<rparr>"
  "nextBudget (bs_mem full_state) = 1" "waiter_rep (bs_mem full_state) (\<lambda>_. [])"
  by (simp_all add: full_state_def NewTransferMemoryBudgetWithParent_def NewTransferMemoryBudget_def mem0_def
      TryReserve_def tryReserveWithLock_def chain_root empty_budget_def upd_chain_def charge_def i64_def
      waiter_rep_def newTransferMemoryBudgetWaiter_def in64_def)

lemma full_state_reachable: "budget_reachable full_state"
proof -
  let ?s0 = "\<lparr>bs_mem = mem0, bs_claims = {#}, bs_peak = (\<lambda>_. 0)\<rparr>"
  let ?s1 = "?s0\<lparr>bs_mem := snd (NewTransferMemoryBudgetWithParent mem0 10 None), bs_peak := (\<lambda>_. 0)(0 := 10)\<rparr>"
  have "budget_reachable ?s0" by (rule reach_init) simp_all
  moreover have "budget_step ?s0 ?s1"
    using step_new [of 10 None ?s0 0 "bs_mem ?s1"]
    by (simp add: NewTransferMemoryBudgetWithParent_def NewTransferMemoryBudget_def mem0_def in64_def)
  moreover have "budget_step ?s1 full_state"
    using step_reserve [of 0 ?s1 10 True "bs_mem full_state"]
    by (simp add: full_state_def NewTransferMemoryBudgetWithParent_def NewTransferMemoryBudget_def mem0_def in64_def
        TryReserve_def tryReserveWithLock_def chain_root empty_budget_def i64_def)
  ultimately show ?thesis by (blast intro: reach_step)
qed

lemma subscribe_step:
  assumes "budget_reachable s" "b < nextBudget (bs_mem s)" "waiter_rep (bs_mem s) L"
    "int (length (L (admissionRoot (bs_mem s) b))) < maxInt64"
  shows "budget_reachable (s\<lparr>bs_mem := snd (waiter_subscribe (bs_mem s) w (Some b) n)\<rparr>)"
  using step_subscribe [OF assms(2) _ surjective_pairing] assms(1,4) waiter_repD(3) [OF assms(3)] by (auto intro: reach_step)

lemma example_root:
  "same_core (bs_mem full_state) (bs_mem one_waiter)" "same_core (bs_mem full_state) (bs_mem two_waiters)"
  "admissionRoot (bs_mem full_state) 0 = 0" "admissionRoot (bs_mem one_waiter) 0 = 0" "admissionRoot (bs_mem two_waiters) 0 = 0"
  "nextBudget (bs_mem one_waiter) = 1" "chain (budgets (bs_mem two_waiters)) 0 = [0]"
proof -
  show one: "same_core (bs_mem full_state) (bs_mem one_waiter)"
    using same_core_waiter_subscribe by (simp add: one_waiter_def)
  also have "same_core (bs_mem one_waiter) (bs_mem two_waiters)"
    using same_core_waiter_subscribe by (simp add: two_waiters_def)
  finally show two: "same_core (bs_mem full_state) (bs_mem two_waiters)" .
  show root: "admissionRoot (bs_mem full_state) 0 = 0" by (simp add: admissionRoot_def full_state_budget empty_budget_def)
  show "admissionRoot (bs_mem one_waiter) 0 = 0" "admissionRoot (bs_mem two_waiters) 0 = 0"
    using same_core_root [OF one] same_core_root [OF two] root by simp_all
  show "nextBudget (bs_mem one_waiter) = 1" using one by (simp add: same_core_def full_state_budget)
  have "chain (budgets (bs_mem full_state)) 0 = [0]" by (rule chain_root) (simp add: full_state_budget empty_budget_def)
  then show "chain (budgets (bs_mem two_waiters)) 0 = [0]" by (simp add: same_core_chain [OF two])
qed

lemma one_waiter_rep: "waiter_rep (bs_mem one_waiter) ((\<lambda>_. [])(0 := [7]))"
  using waiter_subscribe_rep(1) [OF full_state_budget(3) _ surjective_pairing, of 0 7 4] example_root
  by (simp add: one_waiter_def fun_upd_def maxInt64_def full_state_budget empty_budget_def)

lemma two_waiters_rep: "waiter_rep (bs_mem two_waiters) ((\<lambda>_. [])(0 := [7, 8]))"
proof -
  let ?L = "(\<lambda>_. [])(0 := [7]) :: nat \<Rightarrow> nat list"
  have "(\<lambda>q. remove1 8 (?L q))(0 := remove1 8 (?L 0) @ [8]) = (\<lambda>_. [])(0 := [7, 8])"
    by (auto simp: fun_eq_iff)
  then show ?thesis
    using waiter_subscribe_rep(1) [OF one_waiter_rep _ surjective_pairing, of 0 8 3] waiter_repD(3) [OF one_waiter_rep, of 0]
      example_root(4)
    by (simp add: two_waiters_def maxInt64_def)
qed

lemma two_waiters_reachable: "budget_reachable two_waiters"
proof -
  have "budget_reachable one_waiter"
    unfolding one_waiter_def
    by (rule subscribe_step [OF full_state_reachable _ full_state_budget(3)]) (simp_all add: full_state_budget maxInt64_def)
  then show ?thesis
    unfolding two_waiters_def
    by (rule subscribe_step [OF _ _ one_waiter_rep]) (simp_all add: example_root maxInt64_def)
qed

lemma waiter_subscribe_other:
  "v \<noteq> w \<Longrightarrow> wt_budget (waiters (snd (waiter_subscribe m w (Some b) n)) v) = wt_budget (waiters m v)
     \<and> wt_required (waiters (snd (waiter_subscribe m w (Some b) n)) v) = wt_required (waiters m v)"
  using remove_needs(1) [of m _ w]
  by (auto simp: waiter_subscribe_def waiter_reset_def removeCapacityWaiter_def addCapacityWaiter_def same_needs_def Let_def
      split: option.split)

lemma oldest_waiter:
  "waiter_need (bs_mem two_waiters) 7 = 4" "waiter_chain (bs_mem two_waiters) 7 = [0]"
  "wt_registered (waiters (bs_mem two_waiters) 7)" "bg_total (budgets (bs_mem two_waiters) 0) = 10"
  "Available (bs_mem two_waiters) 0 = 0"
proof -
  have room: "bg_waiterCount (budgets (bs_mem full_state) (admissionRoot (bs_mem full_state) 0)) < maxInt64"
    by (simp add: example_root full_state_budget empty_budget_def maxInt64_def)
  note S = waiter_subscribe_rep(5,6) [OF full_state_budget(3) room surjective_pairing, of 7 4]
  note O = waiter_subscribe_other [of 7 8 "bs_mem one_waiter" 0 3]
  show "waiter_need (bs_mem two_waiters) 7 = 4"
    using S(1) O by (simp add: two_waiters_def waiter_need_def) (simp add: one_waiter_def)
  have "wt_budget (waiters (bs_mem two_waiters) 7) = Some 0"
    using S(2) O by (simp add: two_waiters_def) (simp add: one_waiter_def)
  then show "waiter_chain (bs_mem two_waiters) 7 = [0]" by (simp add: waiter_chain_def example_root)
  show "wt_registered (waiters (bs_mem two_waiters) 7)" using waiter_repD(5) [OF two_waiters_rep, of 7 0] by simp
  have "core (budgets (bs_mem two_waiters) 0) = core (budgets (bs_mem full_state) 0)"
    using example_root(2) by (simp add: same_core_def)
  note C = core_fields(3,4) [OF this]
  show "bg_total (budgets (bs_mem two_waiters) 0) = 10" using C by (simp add: full_state_budget)
  show "Available (bs_mem two_waiters) 0 = 0"
    using C by (simp add: Available_def example_root own_available_def full_state_budget i64_def)
qed

definition released_waiters :: bstate where
  "released_waiters = two_waiters\<lparr>bs_mem := releaseCharge (bs_mem two_waiters) 0 10, bs_claims := bs_claims two_waiters - {#(0, 10)#}\<rparr>"

lemma released_waiters_facts:
  "(0, 10) \<in># bs_claims two_waiters" "budget_reachable released_waiters"
  "bg_total (budgets (releaseCharge (bs_mem two_waiters) 0 10) 0) = 10"
  "bg_used (budgets (releaseCharge (bs_mem two_waiters) 0 10) 0) = 0"
  "nextBudget (bs_mem released_waiters) = 1"
proof -
  show c: "(0, 10) \<in># bs_claims two_waiters" by (simp add: two_waiters_def one_waiter_def full_state_def)
  show "budget_reachable released_waiters"
    unfolding released_waiters_def by (rule reach_step [OF two_waiters_reachable step_release [OF c]])
  have "core (budgets (bs_mem two_waiters) 0) = core (budgets (bs_mem full_state) 0)"
    using example_root(2) by (simp add: same_core_def)
  note C = core_fields [OF this]
  have L: "\<not> requiresAdmissionLock (bs_mem two_waiters) 0"
    using C by (simp add: requiresAdmissionLock_def full_state_budget empty_budget_def)
  show "bg_total (budgets (releaseCharge (bs_mem two_waiters) 0 10) 0) = 10"
    "bg_used (budgets (releaseCharge (bs_mem two_waiters) 0 10) 0) = 0"
    using L C by (simp_all add: releaseCharge_def releaseByteCount_def i64_def full_state_budget)
  show "nextBudget (bs_mem released_waiters) = 1"
    using L example_root(2) by (simp add: released_waiters_def releaseCharge_def same_core_def full_state_budget)
qed

section \<open>Properties of the waiter queue\<close>

text \<open>
  C13. In every reachable state the intrusive list is a faithful queue: for every root, the
  next pointers from its head visit exactly the waiters registered with budgets of its tree,
  once each, the previous pointers run back, the tail is the last of them, and the atomic
  waiter count is their number.
\<close>

theorem waiter_queue_invariant:
  assumes "budget_reachable s"
  shows "\<exists>L. waiter_rep (bs_mem s) L"
  using waiter_reachable_inv [OF assms] by (simp add: waiter_inv_def)

theorem waiter_queue_invariant_witness:
  "\<exists>L. waiter_rep (bs_mem (last example_run)) L"
  by (rule waiter_queue_invariant [OF example_reachable(1)])

text \<open>
  C14. The notification pass over the linked list ends after as many turns as there are
  waiters, although it unlinks the waiters it wakes, and it refines the first-in first-out
  pass over the queue of waiters: the waiters left registered, in order, and the tokens sent
  are those of the list pass.
\<close>

theorem notify_pass_refines:
  assumes "waiter_rep m L"
  shows "\<exists>m'. notify_loop (nat (bg_waiterCount (budgets m r))) r (bg_waitHead (budgets m r)) empty_scratch m = Some m'
    \<and> waiter_rep m' (L(r := fst (grant_pass m empty_scratch (L r))))
    \<and> (\<forall>w. wt_token (waiters m' w) \<longleftrightarrow>
         wt_token (waiters m w) \<or> w \<in> set (snd (grant_pass m empty_scratch (L r))))"
  using notify_loop_pass [OF assms, of r "[]" "L r" "length (L r)" empty_scratch]
    waiter_seg_first [OF waiter_repD(1) [OF assms, of r]] waiter_repD(3) [OF assms, of r]
  by auto

theorem notify_pass_refines_witness:
  "\<exists>m'. notify_loop (nat (bg_waiterCount (budgets (bs_mem two_waiters) 0))) 0 (bg_waitHead (budgets (bs_mem two_waiters) 0))
     empty_scratch (bs_mem two_waiters) = Some m'"
  using notify_pass_refines [OF two_waiters_rep, of 0] by blast

text \<open>
  C15. A pass hands out no more than there is: at every budget, the requests of the waiters
  that a pass newly wakes add up to at most the bytes free there, so a release does not wake
  waiters that cannot all be admitted.
\<close>

theorem notify_grants_within_capacity:
  assumes "budget_reachable s" and "x < nextBudget (bs_mem s)"
    and "m' = notifyEligibleCapacityWaiters (bs_mem s) b"
  shows "(\<Sum>w | wt_token (waiters m' w) \<and> \<not> wt_token (waiters (bs_mem s) w). need_at (bs_mem s) x w)
    \<le> max 0 (bg_total (budgets (bs_mem s) x) - bg_used (budgets (bs_mem s) x))"
proof -
  let ?m = "bs_mem s"
  have inv: "waiter_inv ?m" by (rule waiter_reachable_inv [OF assms(1)])
  then obtain L where rep: "waiter_rep ?m L" by (auto simp: waiter_inv_def)
  show ?thesis
    using rep assms(3)
  proof (cases rule: notifyEligible_pass)
    case skipped
    then show ?thesis by simp
  next
    case passed
    let ?ws = "L (admissionRoot ?m b)"
    let ?g = "snd (grant_pass ?m empty_scratch ?ws)"
    have "{w. wt_token (waiters m' w) \<and> \<not> wt_token (waiters ?m w)} = set ?g"
      using passed(4) grant_pass_sub(4) by blast
    moreover have "(\<Sum>w \<in> set ?g. need_at ?m x w) = (\<Sum>w \<leftarrow> ?g. need_at ?m x w)"
      by (rule sum_list_distinct_conv_sum_set [symmetric]) (rule grant_pass_sub(3) [OF waiter_repD(2) [OF rep]])
    moreover have "sc_granted (empty_scratch x) + (\<Sum>w \<leftarrow> ?g. need_at ?m x w) \<le> room_at ?m x"
      using waiter_chain_bound [OF inv] reachable_sane [OF budget_reachable_inv [OF assms(1)]] assms(2)
      by (intro grant_pass_bound [where A = "{y. y < nextBudget ?m}"]) (auto simp: empty_scratch_def room_at_def)
    ultimately show ?thesis by (simp add: room_at_def empty_scratch_def)
  qed
qed

theorem notify_grants_within_capacity_witness:
  "(\<Sum>w | wt_token (waiters (notifyEligibleCapacityWaiters (bs_mem released_waiters) 0) w)
       \<and> \<not> wt_token (waiters (bs_mem released_waiters) w). need_at (bs_mem released_waiters) 0 w) \<le> 10"
  using notify_grants_within_capacity [OF released_waiters_facts(2), of 0 _ 0, OF _ refl] released_waiters_facts
  by (simp add: released_waiters_def)

text \<open>
  C16. No overtaking: when a pass leaves a waiter registered whose request could be admitted
  by an empty tree, there is a level that waiter needs at which no later waiter with a
  non-empty request was woken, so a stream of small requests cannot starve a large one.
\<close>

theorem notify_no_overtaking:
  assumes rep: "waiter_rep m L" and L: "L (admissionRoot m b) = us @ w # vs"
    and m': "m' = notifyEligibleCapacityWaiters m b" and kept: "wt_registered (waiters m' w)"
    and possible: "\<forall>x \<in> set (waiter_chain m w). waiter_need m w \<le> bg_total (budgets m x)"
  shows "\<exists>x \<in> set (waiter_chain m w). \<forall>v \<in> set vs.
    wt_token (waiters m' v) \<and> \<not> wt_token (waiters m v) \<and> 0 < waiter_need m v \<longrightarrow> x \<notin> set (waiter_chain m v)"
proof -
  let ?r = "admissionRoot m b"
  obtain y where y: "wt_budget (waiters m w) = Some y" "admissionRoot m y = ?r"
    using waiter_repD(5) [OF rep, of w ?r] L by auto
  show ?thesis
    using rep m'
  proof (cases rule: notifyEligible_pass)
    case skipped
    have "y \<in> set (waiter_chain m w)" using y by (simp add: waiter_chain_def)
    then show ?thesis using skipped by blast
  next
    case passed
    have "wt_budget (waiters m' w) = Some y \<and> admissionRoot m' y = ?r"
      using passed(1) y same_core_root [of m m'] by (simp add: same_needs_def)
    then have "w \<in> set (fst (grant_pass m empty_scratch (us @ w # vs)))"
      using waiter_repD(5) [OF passed(3), of w ?r] kept L by simp
    moreover have "distinct (us @ w # vs)" using waiter_repD(2) [OF rep, of ?r] L by simp
    ultimately show ?thesis
      using grant_pass_no_overtaking [OF _ _ possible, of us vs empty_scratch] passed(4) L by auto
  qed
qed

theorem notify_no_overtaking_witness:
  "\<exists>x \<in> {0}. \<forall>v \<in> {8}.
    wt_token (waiters (notifyEligibleCapacityWaiters (bs_mem two_waiters) 0) v)
      \<and> \<not> wt_token (waiters (bs_mem two_waiters) v) \<and> 0 < waiter_need (bs_mem two_waiters) v
      \<longrightarrow> x \<notin> set (waiter_chain (bs_mem two_waiters) v)"
  using notify_no_overtaking [OF two_waiters_rep, of 0 "[]" 7 "[8]", OF _ refl] oldest_waiter example_root
  by (simp add: notifyEligibleCapacityWaiters_def)

text \<open>
  C17. No lost wake-up for the oldest waiter: when a release makes the request of the waiter
  at the head of the queue fit at every level of its chain, \<open>Release\<close> has put a token in
  that waiter's channel and has taken it off the queue when it returns.
\<close>

theorem release_wakes_oldest:
  assumes reach: "budget_reachable s" and claim: "(b, n) \<in># bs_claims s"
    and rep: "waiter_rep (bs_mem s) L" and L: "L (admissionRoot (bs_mem s) b) = w # ws"
    and pos: "0 < waiter_need (bs_mem s) w"
    and fits: "\<forall>x \<in> set (waiter_chain (bs_mem s) w). waiter_need (bs_mem s) w \<le>
       bg_total (budgets (releaseCharge (bs_mem s) b n) x) - bg_used (budgets (releaseCharge (bs_mem s) b n) x)"
  shows "wt_token (waiters (Release (bs_mem s) b n) w) \<and> \<not> wt_registered (waiters (Release (bs_mem s) b n) w)"
proof -
  define m1 where "m1 = releaseCharge (bs_mem s) b n"
  define s1 where "s1 = s\<lparr>bs_mem := m1, bs_claims := bs_claims s - {#(b, n)#}\<rparr>"
  have reach1: "budget_reachable s1" unfolding s1_def m1_def by (rule reach_step [OF reach step_release [OF claim]])
  note inv = budget_reachable_inv [OF reach] and inv1 = budget_reachable_inv [OF reach1]
  have mem1: "bs_mem s1 = m1" by (simp add: s1_def)
  have keep: "waiters m1 = waiters (bs_mem s)" "bg_parent (budgets m1 x) = bg_parent (budgets (bs_mem s) x)"
    "bg_root (budgets m1 x) = bg_root (budgets (bs_mem s) x)" for x
    by (simp_all add: m1_def releaseCharge_def upd_chain_eq releaseByteCount_def)
  obtain c where c: "Release (bs_mem s) b n = notifyEligibleCapacityWaiters c (admissionRoot m1 b)"
    "waiters c = waiters m1" "same_core m1 c" "\<forall>L. waiter_rep m1 L \<longrightarrow> waiter_rep c L"
    unfolding Release_def m1_def [symmetric] using notify_cleared [of m1 b] by blast
  let ?r = "admissionRoot (bs_mem s) b"
  have core: "bg_parent (budgets c x) = bg_parent (budgets m1 x)" "bg_root (budgets c x) = bg_root (budgets m1 x)"
    "bg_total (budgets c x) = bg_total (budgets m1 x)" "bg_used (budgets c x) = bg_used (budgets m1 x)" for x
    using c(3) core_fields(1-4) [of "budgets c x" "budgets m1 x"] by (simp_all add: same_core_def)
  have chains: "chain (budgets c) = chain (budgets (bs_mem s))"
    by (rule same_parents_chain) (simp add: core keep)
  have roots: "admissionRoot c = admissionRoot (bs_mem s)" "admissionRoot m1 = admissionRoot (bs_mem s)"
    by (simp_all add: fun_eq_iff admissionRoot_def core keep)
  have b: "b < nextBudget (bs_mem s)" using inv claim by (auto simp: budget_inv_def)
  have idem: "admissionRoot c ?r = ?r" using admissionRoot_idem [OF _ b] inv roots by (simp add: budget_inv_def)
  have W: "waiter_need c w = waiter_need (bs_mem s) w" "waiter_chain c w = waiter_chain (bs_mem s) w"
    by (simp_all add: waiter_need_def waiter_chain_def c(2) keep chains split: option.split)
  have "waiter_rep m1 L"
    by (rule waiter_rep_cong [OF rep])
      (simp_all add: keep roots, simp_all add: m1_def releaseCharge_def upd_chain_eq releaseByteCount_def)
  then have repc: "waiter_rep c L" using c(4) by blast
  have winv: "waiter_inv m1" using waiter_reachable_inv [OF reach1] mem1 by simp
  have chain1: "waiter_chain m1 w = waiter_chain c w"
    by (simp add: waiter_chain_def c(2) same_core_chain [OF c(3)] split: option.split)
  have good: "sane_budget c x \<and> waiter_need c w \<le> room_at c x" if "x \<in> set (waiter_chain c w)" for x
  proof -
    have "sane_budget m1 x" using reachable_sane [OF inv1, of x] waiter_chain_bound [OF winv, of x w] that chain1 mem1 by simp
    then show ?thesis using fits that by (auto simp: sane_budget_def room_at_def core W m1_def [symmetric])
  qed
  obtain y where y: "wt_budget (waiters c w) = Some y" "admissionRoot c y = ?r"
    using waiter_repD(5) [OF repc, of w ?r] L by auto
  have "set (chain (budgets c) ?r) \<subseteq> set (waiter_chain c w)"
  proof -
    have "y < nextBudget m1" using winv y c(2) by (auto simp: waiter_inv_def)
    then have "?r \<in> set (chain (budgets m1) y)"
      using admissionRoot_in_chain [of m1 y] inv1 mem1 y(2) roots by (simp add: budget_inv_def)
    then show ?thesis using chain_trans y(1) same_core_chain [OF c(3)] by (simp add: waiter_chain_def)
  qed
  then have "1 \<le> Available c ?r"
    unfolding le_Available using good own_available_room [of c] pos W by fastforce
  then have av: "\<not> Available c ?r \<le> 0" by simp
  have rr: "admissionRoot c (admissionRoot m1 b) = ?r" using idem roots by simp
  have d: "w \<notin> set ws" using waiter_repD(2) [OF rep, of ?r] L by simp
  note old = grant_pass_oldest [of c w ws, OF _ d]
  show ?thesis
    using repc c(1)
  proof (cases rule: notifyEligible_pass)
    case skipped
    then show ?thesis using av L unfolding rr by simp
  next
    case passed
    have P: "waiter_rep (Release (bs_mem s) b n) (L(?r := fst (grant_pass c empty_scratch (w # ws))))"
      using passed(3) unfolding rr L .
    have "wt_budget (waiters (Release (bs_mem s) b n) w) = Some y \<and> admissionRoot (Release (bs_mem s) b n) y = ?r"
      using passed(1) y same_core_root [of c "Release (bs_mem s) b n" y] by (simp add: same_needs_def)
    then have "\<not> wt_registered (waiters (Release (bs_mem s) b n) w)"
      using waiter_repD(5) [OF P, of w ?r] old(1) good by (simp del: grant_pass.simps)
    moreover have "wt_token (waiters (Release (bs_mem s) b n) w)"
      using passed(4) [of w] old(2) good unfolding rr L by blast
    ultimately show ?thesis by simp
  qed
qed

theorem release_wakes_oldest_witness:
  "wt_token (waiters (Release (bs_mem two_waiters) 0 10) 7)"
  using release_wakes_oldest [OF two_waiters_reachable _ two_waiters_rep, of 0 10 7 "[8]"] oldest_waiter(1,2)
    example_root(5) released_waiters_facts
  by simp

end
