(* ===== verification/Transfer_Queue.thy ===== *)
theory Transfer_Queue
  imports Go_Heap Memory_Waiters
begin

text \<open>
  The ordered queue of the transfer sequences (transfer_queue.go): a min heap and a max heap
  over the same items, two indexes, the byte accounting and the borrowing from a shared
  memory budget.

  Items are pointers (addresses into \<open>qs_items\<close>); a nil item is \<open>None\<close>. The comparison
  function of a queue compares two pointers; it reads fields of the items that do not change
  while they are queued, so it is a function of the addresses. The items of the model are the
  base \<open>transferItem\<close>; \<open>qs_mem\<close> is the store of the budgets. A removal that panics is
  \<open>None\<close>.
\<close>

section \<open>Items and queue state\<close>

type_synonym message_id = bytes

record transferItem =
  ti_messageId :: message_id
  ti_messageByteCount :: int
  ti_queueByteCount :: int
  ti_sequenceNumber :: uint64
  ti_heapIndex :: nat
  ti_maxHeapIndex :: nat

definition QueueByteCount :: "transferItem \<Rightarrow> int" where
  "QueueByteCount item =
     (if 0 < ti_queueByteCount item then ti_queueByteCount item else ti_messageByteCount item)"

record transferQueue =
  tq_orderedItems :: "nat list"
  tq_maxItems :: "nat list"
  tq_messageIdItems :: "message_id \<rightharpoonup> nat"
  tq_sequenceNumberItems :: "uint64 \<rightharpoonup> nat"
  tq_byteCount :: int
  tq_queueByteCount :: int
  tq_budget :: "nat option"
  tq_minByteCount :: int
  tq_borrowedByteCount :: int
  tq_floorRegistered :: bool
  tq_lifetimeBudget :: bool
  tq_cmp :: "nat \<Rightarrow> nat \<Rightarrow> int"

record qstate = transferQueue +
  qs_items :: "nat \<Rightarrow> transferItem"
  qs_mem :: mem

definition upd_item :: "nat \<Rightarrow> (transferItem \<Rightarrow> transferItem) \<Rightarrow> qstate \<Rightarrow> qstate" where
  "upd_item a f s = s\<lparr>qs_items := (qs_items s)(a := f (qs_items s a))\<rparr>"

definition newTransferQueue :: "(nat \<Rightarrow> nat \<Rightarrow> int) \<Rightarrow> (nat \<Rightarrow> transferItem) \<Rightarrow> mem \<Rightarrow> qstate" where
  "newTransferQueue cmp items m =
     \<lparr>tq_orderedItems = [], tq_maxItems = [], tq_messageIdItems = Map.empty,
      tq_sequenceNumberItems = Map.empty, tq_byteCount = 0, tq_queueByteCount = 0, tq_budget = None,
      tq_minByteCount = 0, tq_borrowedByteCount = 0, tq_floorRegistered = False,
      tq_lifetimeBudget = False, tq_cmp = cmp, qs_items = items, qs_mem = m\<rparr>"

section \<open>The two heap interfaces\<close>

definition tq_Push :: "qstate \<Rightarrow> nat \<Rightarrow> qstate" where
  "tq_Push s item =
     (let s1 = upd_item item (ti_heapIndex_update (\<lambda>_. length (tq_orderedItems s))) s
      in s1\<lparr>tq_orderedItems := tq_orderedItems s1 @ [item]\<rparr>)"

definition tq_Pop :: "qstate \<Rightarrow> nat \<times> qstate" where
  "tq_Pop s = (last (tq_orderedItems s), s\<lparr>tq_orderedItems := butlast (tq_orderedItems s)\<rparr>)"

definition tq_Len :: "qstate \<Rightarrow> nat" where
  "tq_Len s = length (tq_orderedItems s)"

definition tq_Less :: "qstate \<Rightarrow> nat \<Rightarrow> nat \<Rightarrow> bool" where
  "tq_Less s i j \<longleftrightarrow> tq_cmp s (tq_orderedItems s ! i) (tq_orderedItems s ! j) < 0"

definition tq_Swap :: "qstate \<Rightarrow> nat \<Rightarrow> nat \<Rightarrow> qstate" where
  "tq_Swap s i j =
     (let a = tq_orderedItems s ! i;
          b = tq_orderedItems s ! j;
          s1 = upd_item b (ti_heapIndex_update (\<lambda>_. i)) s;
          s2 = s1\<lparr>tq_orderedItems := (tq_orderedItems s1)[i := b]\<rparr>;
          s3 = upd_item a (ti_heapIndex_update (\<lambda>_. j)) s2
      in s3\<lparr>tq_orderedItems := (tq_orderedItems s3)[j := a]\<rparr>)"

definition max_PeekFirst :: "qstate \<Rightarrow> nat option" where
  "max_PeekFirst s = (if tq_maxItems s = [] then None else Some (tq_maxItems s ! 0))"

definition max_Push :: "qstate \<Rightarrow> nat \<Rightarrow> qstate" where
  "max_Push s item =
     (let s1 = upd_item item (ti_maxHeapIndex_update (\<lambda>_. length (tq_maxItems s))) s
      in s1\<lparr>tq_maxItems := tq_maxItems s1 @ [item]\<rparr>)"

definition max_Pop :: "qstate \<Rightarrow> nat \<times> qstate" where
  "max_Pop s = (last (tq_maxItems s), s\<lparr>tq_maxItems := butlast (tq_maxItems s)\<rparr>)"

definition max_Len :: "qstate \<Rightarrow> nat" where
  "max_Len s = length (tq_maxItems s)"

definition max_Less :: "qstate \<Rightarrow> nat \<Rightarrow> nat \<Rightarrow> bool" where
  "max_Less s i j \<longleftrightarrow> 0 < tq_cmp s (tq_maxItems s ! i) (tq_maxItems s ! j)"

definition max_Swap :: "qstate \<Rightarrow> nat \<Rightarrow> nat \<Rightarrow> qstate" where
  "max_Swap s i j =
     (let a = tq_maxItems s ! i;
          b = tq_maxItems s ! j;
          s1 = upd_item b (ti_maxHeapIndex_update (\<lambda>_. i)) s;
          s2 = s1\<lparr>tq_maxItems := (tq_maxItems s1)[i := b]\<rparr>;
          s3 = upd_item a (ti_maxHeapIndex_update (\<lambda>_. j)) s2
      in s3\<lparr>tq_maxItems := (tq_maxItems s3)[j := a]\<rparr>)"

section \<open>Budget and admission\<close>

definition ObtainableByteCount :: "qstate \<Rightarrow> int" where
  "ObtainableByteCount s =
     (case tq_budget s of
        None \<Rightarrow> 0
      | Some b \<Rightarrow> i64 (tq_minByteCount s + tq_borrowedByteCount s + Available (qs_mem s) b))"

definition Budget :: "qstate \<Rightarrow> nat option" where
  "Budget s = tq_budget s"

definition setBudget :: "qstate \<Rightarrow> nat option \<Rightarrow> int \<Rightarrow> qstate" where
  "setBudget s budget minByteCount =
     (let s1 = (case tq_budget s of
                  Some b \<Rightarrow>
                    if tq_floorRegistered s
                    then s\<lparr>qs_mem := removeFloor (qs_mem s) b (tq_minByteCount s), tq_floorRegistered := False\<rparr>
                    else s
                | None \<Rightarrow> s);
          s2 = s1\<lparr>tq_budget := budget, tq_minByteCount := minByteCount\<rparr>
      in case budget of
           Some b \<Rightarrow> s2\<lparr>qs_mem := addFloor (qs_mem s2) b minByteCount, tq_floorRegistered := True\<rparr>
         | None \<Rightarrow> s2)"

definition setLifetimeBudget :: "qstate \<Rightarrow> qstate" where
  "setLifetimeBudget s = (setBudget s (tq_budget s) 0)\<lparr>tq_lifetimeBudget := True\<rparr>"

definition updateByteCountWithLock :: "qstate \<Rightarrow> int \<Rightarrow> int \<Rightarrow> qstate" where
  "updateByteCountWithLock s deltaByteCount deltaQueueByteCount =
     (let s1 = s\<lparr>tq_byteCount := i64 (tq_byteCount s + deltaByteCount),
                 tq_queueByteCount := i64 (tq_queueByteCount s + deltaQueueByteCount)\<rparr>
      in case tq_budget s1 of
           None \<Rightarrow> s1
         | Some b \<Rightarrow>
             let borrowTarget = max 0 (i64 (tq_queueByteCount s1 - tq_minByteCount s1))
             in if tq_lifetimeBudget s1 then s1\<lparr>tq_borrowedByteCount := borrowTarget\<rparr>
                else if borrowTarget < tq_borrowedByteCount s1
                then s1\<lparr>qs_mem := Release (qs_mem s1) b (i64 (tq_borrowedByteCount s1 - borrowTarget)),
                        tq_borrowedByteCount := borrowTarget\<rparr>
                else if tq_borrowedByteCount s1 < borrowTarget
                then s1\<lparr>qs_mem := Reserve (qs_mem s1) b (i64 (borrowTarget - tq_borrowedByteCount s1)),
                        tq_borrowedByteCount := borrowTarget\<rparr>
                else s1)"

definition CanAddWithQueueByteCount :: "qstate \<Rightarrow> int \<Rightarrow> int \<Rightarrow> int \<Rightarrow> bool" where
  "CanAddWithQueueByteCount s byteCount queueByteCount maxByteCount =
     (if tq_orderedItems s = [] \<and> \<not> tq_lifetimeBudget s then True
      else if maxByteCount \<le> i64 (tq_byteCount s + byteCount) then False
      else
        (case tq_budget s of
           None \<Rightarrow> True
         | Some b \<Rightarrow>
             let probe = max (i64 (tq_queueByteCount s + queueByteCount)) (i64 (tq_queueByteCount s + 1));
                 borrowTarget = max 0 (i64 (probe - tq_minByteCount s))
             in i64 (borrowTarget - tq_borrowedByteCount s) \<le> Available (qs_mem s) b))"

definition CanAdd :: "qstate \<Rightarrow> int \<Rightarrow> int \<Rightarrow> bool" where
  "CanAdd s byteCount maxByteCount = CanAddWithQueueByteCount s byteCount byteCount maxByteCount"

section \<open>Operations\<close>

definition Clear :: "qstate \<Rightarrow> nat list \<times> qstate" where
  "Clear s =
     (let items = tq_orderedItems s;
          s1 = s\<lparr>tq_orderedItems := [], tq_maxItems := [], tq_messageIdItems := Map.empty,
                 tq_sequenceNumberItems := Map.empty\<rparr>;
          s2 = updateByteCountWithLock s1 (i64 (- tq_byteCount s1)) (i64 (- tq_queueByteCount s1))
      in (items,
          case tq_budget s2 of
            Some b \<Rightarrow>
              if tq_floorRegistered s2
              then s2\<lparr>qs_mem := removeFloor (qs_mem s2) b (tq_minByteCount s2), tq_floorRegistered := False\<rparr>
              else s2
          | None \<Rightarrow> s2))"

definition IsEmpty :: "qstate \<Rightarrow> bool" where
  "IsEmpty s \<longleftrightarrow> length (tq_orderedItems s) = 0"

definition Snapshot :: "qstate \<Rightarrow> nat list" where
  "Snapshot s = tq_orderedItems s"

definition QueueSize :: "qstate \<Rightarrow> nat \<times> int" where
  "QueueSize s = (length (tq_orderedItems s), tq_byteCount s)"

definition QueueSizeAndSummary :: "qstate \<Rightarrow> (nat \<Rightarrow> 'a) option \<Rightarrow> nat \<times> int \<times> 'a list" where
  "QueueSizeAndSummary s summaryf =
     (length (tq_orderedItems s), tq_byteCount s,
      case summaryf of None \<Rightarrow> [] | Some f \<Rightarrow> map f (tq_orderedItems s))"

definition Add :: "qstate \<Rightarrow> nat \<Rightarrow> qstate" where
  "Add s item =
     (let i = qs_items s item;
          s1 = s\<lparr>tq_messageIdItems := (tq_messageIdItems s)(ti_messageId i \<mapsto> item)\<rparr>;
          s2 = s1\<lparr>tq_sequenceNumberItems := (tq_sequenceNumberItems s1)(ti_sequenceNumber i \<mapsto> item)\<rparr>;
          s3 = heap_Push tq_Less tq_Swap tq_Push tq_Len s2 item;
          s4 = heap_Push max_Less max_Swap max_Push max_Len s3 item
      in updateByteCountWithLock s4 (ti_messageByteCount (qs_items s4 item)) (QueueByteCount (qs_items s4 item)))"

definition ContainsMessageId :: "qstate \<Rightarrow> message_id \<Rightarrow> uint64 \<times> bool" where
  "ContainsMessageId s messageId =
     (case tq_messageIdItems s messageId of
        None \<Rightarrow> (0, False)
      | Some item \<Rightarrow> (ti_sequenceNumber (qs_items s item), True))"

definition remove_uncount :: "qstate \<Rightarrow> nat \<Rightarrow> qstate" where
  "remove_uncount s item =
     updateByteCountWithLock s (i64 (- ti_messageByteCount (qs_items s item))) (i64 (- QueueByteCount (qs_items s item)))"

definition remove_unindex :: "qstate \<Rightarrow> nat \<Rightarrow> qstate" where
  "remove_unindex s item =
     s\<lparr>tq_messageIdItems := (tq_messageIdItems s)(ti_messageId (qs_items s item) := None),
       tq_sequenceNumberItems := (tq_sequenceNumberItems s)(ti_sequenceNumber (qs_items s item) := None)\<rparr>"

definition tq_remove :: "qstate \<Rightarrow> nat \<Rightarrow> (nat \<times> qstate) option" where
  "tq_remove s item =
     (case heap_Remove tq_Less tq_Swap tq_Pop tq_Len (remove_unindex s item)
             (ti_heapIndex (qs_items (remove_unindex s item) item)) of
        None \<Rightarrow> None
      | Some (item_, s1) \<Rightarrow>
          if item \<noteq> item_ then None
          else
            (case heap_Remove max_Less max_Swap max_Pop max_Len s1 (ti_maxHeapIndex (qs_items s1 item)) of
               None \<Rightarrow> None
             | Some (_, s2) \<Rightarrow> Some (item, remove_uncount s2 item)))"

definition RemoveByMessageId :: "qstate \<Rightarrow> message_id \<Rightarrow> (nat option \<times> qstate) option" where
  "RemoveByMessageId s messageId =
     (case tq_messageIdItems s messageId of
        None \<Rightarrow> Some (None, s)
      | Some item \<Rightarrow> map_option (map_prod Some id) (tq_remove s item))"

definition RemoveBySequenceNumber :: "qstate \<Rightarrow> uint64 \<Rightarrow> (nat option \<times> qstate) option" where
  "RemoveBySequenceNumber s sequenceNumber =
     (case tq_sequenceNumberItems s sequenceNumber of
        None \<Rightarrow> Some (None, s)
      | Some item \<Rightarrow> map_option (map_prod Some id) (tq_remove s item))"

definition GetByMessageId :: "qstate \<Rightarrow> message_id \<Rightarrow> nat option" where
  "GetByMessageId s messageId = tq_messageIdItems s messageId"

definition GetBySequenceNumber :: "qstate \<Rightarrow> uint64 \<Rightarrow> nat option" where
  "GetBySequenceNumber s sequenceNumber = tq_sequenceNumberItems s sequenceNumber"

definition RemoveFirst :: "qstate \<Rightarrow> (nat option \<times> qstate) option" where
  "RemoveFirst s =
     (if tq_orderedItems s = [] then Some (None, s)
      else
        (case heap_Remove tq_Less tq_Swap tq_Pop tq_Len s 0 of
           None \<Rightarrow> None
         | Some (item, s1) \<Rightarrow>
             (case heap_Remove max_Less max_Swap max_Pop max_Len s1 (ti_maxHeapIndex (qs_items s1 item)) of
                None \<Rightarrow> None
              | Some (_, s2) \<Rightarrow>
                  Some (Some item, remove_uncount (remove_unindex s2 item) item))))"

definition UnorderedItems :: "qstate \<Rightarrow> nat list" where
  "UnorderedItems s = tq_orderedItems s"

text \<open>
  \<open>slices.SortFunc\<close> leaves the order of items that compare equal open; the model sorts by
  insertion.
\<close>

fun insert_cmp :: "(nat \<Rightarrow> nat \<Rightarrow> int) \<Rightarrow> nat \<Rightarrow> nat list \<Rightarrow> nat list" where
  "insert_cmp cmp x [] = [x]"
| "insert_cmp cmp x (y # ys) = (if 0 < cmp x y then y # insert_cmp cmp x ys else x # y # ys)"

definition SortFunc :: "(nat \<Rightarrow> nat \<Rightarrow> int) \<Rightarrow> nat list \<Rightarrow> nat list" where
  "SortFunc cmp xs = foldr (insert_cmp cmp) xs []"

definition AscendingItems :: "qstate \<Rightarrow> nat list" where
  "AscendingItems s = SortFunc (tq_cmp s) (tq_orderedItems s)"

definition PeekFirst :: "qstate \<Rightarrow> nat option" where
  "PeekFirst s = (if tq_orderedItems s = [] then None else Some (tq_orderedItems s ! 0))"

definition PeekLast :: "qstate \<Rightarrow> nat option" where
  "PeekLast s = max_PeekFirst s"

text \<open>The order of the receive queue.\<close>

definition receive_cmp :: "(nat \<Rightarrow> transferItem) \<Rightarrow> nat \<Rightarrow> nat \<Rightarrow> int" where
  "receive_cmp items a b =
     (if ti_sequenceNumber (items a) < ti_sequenceNumber (items b) then - 1
      else if ti_sequenceNumber (items b) < ti_sequenceNumber (items a) then 1
      else 0)"

definition newReceiveQueue :: "(nat \<Rightarrow> transferItem) \<Rightarrow> mem \<Rightarrow> nat option \<Rightarrow> int \<Rightarrow> qstate" where
  "newReceiveQueue items m budget minByteCount =
     setBudget (newTransferQueue (receive_cmp items) items m) budget minByteCount"

text \<open>The order of the resend queue, by the resend time of the items.\<close>

definition resend_cmp :: "(nat \<Rightarrow> int) \<Rightarrow> nat \<Rightarrow> nat \<Rightarrow> int" where
  "resend_cmp resendTime a b =
     (if resendTime a < resendTime b then - 1 else if resendTime b < resendTime a then 1 else 0)"

definition newResendQueue :: "(nat \<Rightarrow> int) \<Rightarrow> (nat \<Rightarrow> transferItem) \<Rightarrow> mem \<Rightarrow> nat option \<Rightarrow> int \<Rightarrow> qstate" where
  "newResendQueue resendTime items m budget minByteCount =
     setBudget (newTransferQueue (resend_cmp resendTime) items m) budget minByteCount"

section \<open>Both heaps are lawful\<close>

definition cmp_ok :: "(nat \<Rightarrow> nat \<Rightarrow> int) \<Rightarrow> bool" where
  "cmp_ok cmp \<longleftrightarrow> (\<forall>a b. cmp a b < 0 \<longleftrightarrow> 0 < cmp b a) \<and> (\<forall>a b c. cmp a b \<le> 0 \<longrightarrow> cmp b c \<le> 0 \<longrightarrow> cmp a c \<le> 0)"

lemma receive_cmp_ok: "cmp_ok (receive_cmp items)"
  by (auto simp: cmp_ok_def receive_cmp_def split: if_splits)

lemma resend_cmp_ok: "cmp_ok (resend_cmp t)"
  by (auto simp: cmp_ok_def resend_cmp_def split: if_splits)

definition before :: "(nat \<Rightarrow> nat \<Rightarrow> int) \<Rightarrow> nat \<Rightarrow> nat \<Rightarrow> bool" where
  "before cmp a b \<longleftrightarrow> cmp_ok cmp \<and> cmp a b < 0"

definition after :: "(nat \<Rightarrow> nat \<Rightarrow> int) \<Rightarrow> nat \<Rightarrow> nat \<Rightarrow> bool" where
  "after cmp a b \<longleftrightarrow> cmp_ok cmp \<and> 0 < cmp a b"

text \<open>What a heap method leaves alone: everything but its own slice and index fields.\<close>

definition tq_rest :: "qstate \<Rightarrow> qstate" where
  "tq_rest s = s\<lparr>tq_orderedItems := [], qs_items := (\<lambda>a. (qs_items s a)\<lparr>ti_heapIndex := 0\<rparr>)\<rparr>"

definition max_rest :: "qstate \<Rightarrow> qstate" where
  "max_rest s = s\<lparr>tq_maxItems := [], qs_items := (\<lambda>a. (qs_items s a)\<lparr>ti_maxHeapIndex := 0\<rparr>)\<rparr>"

definition min_inv :: "(nat \<Rightarrow> nat \<Rightarrow> int) \<Rightarrow> qstate \<Rightarrow> qstate \<Rightarrow> bool" where
  "min_inv cmp r s \<longleftrightarrow> cmp_ok cmp \<and> tq_cmp s = cmp \<and> distinct (tq_orderedItems s)
   \<and> (\<forall>i < length (tq_orderedItems s). ti_heapIndex (qs_items s (tq_orderedItems s ! i)) = i) \<and> tq_rest s = r"

definition max_inv :: "(nat \<Rightarrow> nat \<Rightarrow> int) \<Rightarrow> qstate \<Rightarrow> qstate \<Rightarrow> bool" where
  "max_inv cmp r s \<longleftrightarrow> cmp_ok cmp \<and> tq_cmp s = cmp \<and> distinct (tq_maxItems s)
   \<and> (\<forall>i < length (tq_maxItems s). ti_maxHeapIndex (qs_items s (tq_maxItems s ! i)) = i) \<and> max_rest s = r"

lemma order_laws:
  "before cmp a b \<Longrightarrow> \<not> before cmp b a" "\<not> before cmp a b \<Longrightarrow> \<not> before cmp b c \<Longrightarrow> \<not> before cmp a c"
  "after cmp a b \<Longrightarrow> \<not> after cmp b a" "\<not> after cmp a b \<Longrightarrow> \<not> after cmp b c \<Longrightarrow> \<not> after cmp a c"
  unfolding before_def after_def cmp_ok_def by (metis linorder_not_less order_less_asym)+

lemma tq_Swap_fields:
  "tq_orderedItems (tq_Swap s i j) = swapped (tq_orderedItems s) i j" "tq_cmp (tq_Swap s i j) = tq_cmp s"
  "tq_rest (tq_Swap s i j) = tq_rest s"
  "ti_heapIndex (qs_items (tq_Swap s i j) a) =
     (if a = tq_orderedItems s ! i then j else if a = tq_orderedItems s ! j then i else ti_heapIndex (qs_items s a))"
  by (auto simp: tq_Swap_def Let_def swapped_def upd_item_def tq_rest_def fun_eq_iff)

lemma max_Swap_fields:
  "tq_maxItems (max_Swap s i j) = swapped (tq_maxItems s) i j" "tq_cmp (max_Swap s i j) = tq_cmp s"
  "max_rest (max_Swap s i j) = max_rest s"
  "ti_maxHeapIndex (qs_items (max_Swap s i j) a) =
     (if a = tq_maxItems s ! i then j else if a = tq_maxItems s ! j then i else ti_maxHeapIndex (qs_items s a))"
  by (auto simp: max_Swap_def Let_def swapped_def upd_item_def max_rest_def fun_eq_iff)

lemma min_Swap_inv:
  assumes "min_inv cmp r s" "i < length (tq_orderedItems s)" "j < length (tq_orderedItems s)"
  shows "min_inv cmp r (tq_Swap s i j)"
  using assms distinct_swapped [OF assms(2,3)]
    swapped_index [of "tq_orderedItems s" "\<lambda>a. ti_heapIndex (qs_items s a)" i j _ "\<lambda>a. ti_heapIndex (qs_items (tq_Swap s i j) a)"]
  by (simp add: min_inv_def tq_Swap_fields)

lemma max_Swap_inv:
  assumes "max_inv cmp r s" "i < length (tq_maxItems s)" "j < length (tq_maxItems s)"
  shows "max_inv cmp r (max_Swap s i j)"
  using assms distinct_swapped [OF assms(2,3)]
    swapped_index [of "tq_maxItems s" "\<lambda>a. ti_maxHeapIndex (qs_items s a)" i j _ "\<lambda>a. ti_maxHeapIndex (qs_items (max_Swap s i j) a)"]
  by (simp add: max_inv_def max_Swap_fields)

interpretation min_heap: heap_interface tq_orderedItems "before cmp" "min_inv cmp r" tq_Less tq_Swap tq_Push tq_Pop tq_Len
  for cmp r
proof (unfold_locales, goal_cases)
  case (5 s x)
  then show ?case
    by (auto simp: min_inv_def tq_Push_def upd_item_def Let_def tq_rest_def fun_eq_iff nth_append dest: nth_mem)
next
  case (6 s)
  then show ?case
    by (auto simp: min_inv_def tq_Pop_def tq_rest_def nth_butlast distinct_butlast)
qed (auto dest: order_laws min_Swap_inv simp: tq_Swap_fields tq_Len_def, auto simp: tq_Less_def before_def min_inv_def)

interpretation max_heap: heap_interface tq_maxItems "after cmp" "max_inv cmp r" max_Less max_Swap max_Push max_Pop max_Len
  for cmp r
proof (unfold_locales, goal_cases)
  case (5 s x)
  then show ?case
    by (auto simp: max_inv_def max_Push_def upd_item_def Let_def max_rest_def fun_eq_iff nth_append dest: nth_mem)
next
  case (6 s)
  then show ?case
    by (auto simp: max_inv_def max_Pop_def max_rest_def nth_butlast distinct_butlast)
qed (auto dest: order_laws max_Swap_inv simp: max_Swap_fields max_Len_def, auto simp: max_Less_def after_def max_inv_def)

section \<open>The queue invariant\<close>

definition min_ok :: "qstate \<Rightarrow> bool" where
  "min_ok s \<longleftrightarrow> min_inv (tq_cmp s) (tq_rest s) s
   \<and> is_heap (before (tq_cmp s)) (tq_orderedItems s) (length (tq_orderedItems s))"

definition max_ok :: "qstate \<Rightarrow> bool" where
  "max_ok s \<longleftrightarrow> max_inv (tq_cmp s) (max_rest s) s
   \<and> is_heap (after (tq_cmp s)) (tq_maxItems s) (length (tq_maxItems s))"

definition indexed :: "qstate \<Rightarrow> nat set \<Rightarrow> bool" where
  "indexed s A \<longleftrightarrow>
     (\<forall>i a. tq_messageIdItems s i = Some a \<longleftrightarrow> a \<in> A \<and> ti_messageId (qs_items s a) = i)
   \<and> (\<forall>n a. tq_sequenceNumberItems s n = Some a \<longleftrightarrow> a \<in> A \<and> ti_sequenceNumber (qs_items s a) = n)"

definition counted :: "qstate \<Rightarrow> nat multiset \<Rightarrow> bool" where
  "counted s A \<longleftrightarrow>
     tq_byteCount s = i64 (\<Sum>a \<in># A. ti_messageByteCount (qs_items s a))
   \<and> tq_queueByteCount s = i64 (\<Sum>a \<in># A. QueueByteCount (qs_items s a))"

definition borrow_ok :: "qstate \<Rightarrow> bool" where
  "borrow_ok s \<longleftrightarrow> tq_borrowedByteCount s =
     (case tq_budget s of None \<Rightarrow> 0 | Some b \<Rightarrow> max 0 (i64 (tq_queueByteCount s - tq_minByteCount s)))"

definition queue_wf :: "qstate \<Rightarrow> bool" where
  "queue_wf s \<longleftrightarrow> min_ok s \<and> max_ok s \<and> mset (tq_maxItems s) = mset (tq_orderedItems s)
   \<and> indexed s (set (tq_orderedItems s)) \<and> counted s (mset (tq_orderedItems s)) \<and> borrow_ok s"

text \<open>The part of the state that a queue operation decides, apart from the pool and the counters.\<close>

definition same_items :: "qstate \<Rightarrow> qstate \<Rightarrow> bool" where
  "same_items s s' \<longleftrightarrow> tq_cmp s' = tq_cmp s \<and> tq_budget s' = tq_budget s \<and> tq_minByteCount s' = tq_minByteCount s
   \<and> tq_lifetimeBudget s' = tq_lifetimeBudget s \<and> tq_floorRegistered s' = tq_floorRegistered s
   \<and> (\<forall>a. ti_messageId (qs_items s' a) = ti_messageId (qs_items s a)
        \<and> ti_sequenceNumber (qs_items s' a) = ti_sequenceNumber (qs_items s a)
        \<and> ti_messageByteCount (qs_items s' a) = ti_messageByteCount (qs_items s a)
        \<and> QueueByteCount (qs_items s' a) = QueueByteCount (qs_items s a))"

lemma same_items_refl [simp]: "same_items s s"
  by (simp add: same_items_def)

lemma same_items_trans: "same_items a b \<Longrightarrow> same_items b c \<Longrightarrow> same_items a c"
  by (simp add: same_items_def)

lemma tq_rest_fields:
  assumes "tq_rest s' = tq_rest s"
  shows "tq_maxItems s' = tq_maxItems s" "tq_messageIdItems s' = tq_messageIdItems s"
    "tq_sequenceNumberItems s' = tq_sequenceNumberItems s" "tq_byteCount s' = tq_byteCount s"
    "tq_queueByteCount s' = tq_queueByteCount s" "tq_borrowedByteCount s' = tq_borrowedByteCount s"
    "qs_mem s' = qs_mem s" "same_items s s'" "ti_maxHeapIndex (qs_items s' a) = ti_maxHeapIndex (qs_items s a)"
proof -
  have i: "(qs_items s' a)\<lparr>ti_heapIndex := 0\<rparr> = (qs_items s a)\<lparr>ti_heapIndex := 0\<rparr>" for a
    using arg_cong [OF assms, of qs_items] by (simp add: tq_rest_def fun_eq_iff)
  have f: "ti_messageId (qs_items s' a) = ti_messageId (qs_items s a)"
    "ti_sequenceNumber (qs_items s' a) = ti_sequenceNumber (qs_items s a)"
    "ti_messageByteCount (qs_items s' a) = ti_messageByteCount (qs_items s a)"
    "ti_queueByteCount (qs_items s' a) = ti_queueByteCount (qs_items s a)"
    "ti_maxHeapIndex (qs_items s' a) = ti_maxHeapIndex (qs_items s a)" for a
    using arg_cong [OF i [of a], of ti_messageId] arg_cong [OF i [of a], of ti_sequenceNumber]
      arg_cong [OF i [of a], of ti_messageByteCount] arg_cong [OF i [of a], of ti_queueByteCount]
      arg_cong [OF i [of a], of ti_maxHeapIndex] by simp_all
  then show "ti_maxHeapIndex (qs_items s' a) = ti_maxHeapIndex (qs_items s a)" by simp
  show "tq_maxItems s' = tq_maxItems s" "tq_messageIdItems s' = tq_messageIdItems s"
    "tq_sequenceNumberItems s' = tq_sequenceNumberItems s" "tq_byteCount s' = tq_byteCount s"
    "tq_queueByteCount s' = tq_queueByteCount s" "tq_borrowedByteCount s' = tq_borrowedByteCount s"
    "qs_mem s' = qs_mem s"
    using arg_cong [OF assms, of tq_maxItems] arg_cong [OF assms, of tq_messageIdItems]
      arg_cong [OF assms, of tq_sequenceNumberItems] arg_cong [OF assms, of tq_byteCount]
      arg_cong [OF assms, of tq_queueByteCount] arg_cong [OF assms, of tq_borrowedByteCount]
      arg_cong [OF assms, of qs_mem] by (simp_all add: tq_rest_def)
  show "same_items s s'"
    using arg_cong [OF assms, of tq_cmp] arg_cong [OF assms, of tq_budget] arg_cong [OF assms, of tq_minByteCount]
      arg_cong [OF assms, of tq_lifetimeBudget] arg_cong [OF assms, of tq_floorRegistered] f
    by (simp add: tq_rest_def same_items_def QueueByteCount_def)
qed

lemma max_rest_fields:
  assumes "max_rest s' = max_rest s"
  shows "tq_orderedItems s' = tq_orderedItems s" "tq_messageIdItems s' = tq_messageIdItems s"
    "tq_sequenceNumberItems s' = tq_sequenceNumberItems s" "tq_byteCount s' = tq_byteCount s"
    "tq_queueByteCount s' = tq_queueByteCount s" "tq_borrowedByteCount s' = tq_borrowedByteCount s"
    "qs_mem s' = qs_mem s" "same_items s s'" "ti_heapIndex (qs_items s' a) = ti_heapIndex (qs_items s a)"
proof -
  have i: "(qs_items s' a)\<lparr>ti_maxHeapIndex := 0\<rparr> = (qs_items s a)\<lparr>ti_maxHeapIndex := 0\<rparr>" for a
    using arg_cong [OF assms, of qs_items] by (simp add: max_rest_def fun_eq_iff)
  have f: "ti_messageId (qs_items s' a) = ti_messageId (qs_items s a)"
    "ti_sequenceNumber (qs_items s' a) = ti_sequenceNumber (qs_items s a)"
    "ti_messageByteCount (qs_items s' a) = ti_messageByteCount (qs_items s a)"
    "ti_queueByteCount (qs_items s' a) = ti_queueByteCount (qs_items s a)"
    "ti_heapIndex (qs_items s' a) = ti_heapIndex (qs_items s a)" for a
    using arg_cong [OF i [of a], of ti_messageId] arg_cong [OF i [of a], of ti_sequenceNumber]
      arg_cong [OF i [of a], of ti_messageByteCount] arg_cong [OF i [of a], of ti_queueByteCount]
      arg_cong [OF i [of a], of ti_heapIndex] by simp_all
  then show "ti_heapIndex (qs_items s' a) = ti_heapIndex (qs_items s a)" by simp
  show "tq_orderedItems s' = tq_orderedItems s" "tq_messageIdItems s' = tq_messageIdItems s"
    "tq_sequenceNumberItems s' = tq_sequenceNumberItems s" "tq_byteCount s' = tq_byteCount s"
    "tq_queueByteCount s' = tq_queueByteCount s" "tq_borrowedByteCount s' = tq_borrowedByteCount s"
    "qs_mem s' = qs_mem s"
    using arg_cong [OF assms, of tq_orderedItems] arg_cong [OF assms, of tq_messageIdItems]
      arg_cong [OF assms, of tq_sequenceNumberItems] arg_cong [OF assms, of tq_byteCount]
      arg_cong [OF assms, of tq_queueByteCount] arg_cong [OF assms, of tq_borrowedByteCount]
      arg_cong [OF assms, of qs_mem] by (simp_all add: max_rest_def)
  show "same_items s s'"
    using arg_cong [OF assms, of tq_cmp] arg_cong [OF assms, of tq_budget] arg_cong [OF assms, of tq_minByteCount]
      arg_cong [OF assms, of tq_lifetimeBudget] arg_cong [OF assms, of tq_floorRegistered] f
    by (simp add: max_rest_def same_items_def QueueByteCount_def)
qed

lemma min_ok_cong:
  "tq_orderedItems s' = tq_orderedItems s \<Longrightarrow> tq_cmp s' = tq_cmp s \<Longrightarrow>
   (\<And>a. ti_heapIndex (qs_items s' a) = ti_heapIndex (qs_items s a)) \<Longrightarrow> min_ok s' = min_ok s"
  by (simp add: min_ok_def min_inv_def)

lemma max_ok_cong:
  "tq_maxItems s' = tq_maxItems s \<Longrightarrow> tq_cmp s' = tq_cmp s \<Longrightarrow>
   (\<And>a. ti_maxHeapIndex (qs_items s' a) = ti_maxHeapIndex (qs_items s a)) \<Longrightarrow> max_ok s' = max_ok s"
  by (simp add: max_ok_def max_inv_def)

lemma min_inv_ok:
  assumes "min_ok s" "min_inv (tq_cmp s) (tq_rest s) s'"
    "is_heap (before (tq_cmp s)) (tq_orderedItems s') (length (tq_orderedItems s'))"
  shows "min_ok s' \<and> tq_rest s' = tq_rest s \<and> (max_ok s \<longrightarrow> max_ok s')"
proof -
  have r: "tq_rest s' = tq_rest s" using assms(2) by (simp add: min_inv_def)
  have "tq_cmp s' = tq_cmp s" using tq_rest_fields(8) [OF r] by (simp add: same_items_def)
  then show ?thesis
    using assms r max_ok_cong [of s' s] tq_rest_fields(1,9) [OF r] by (simp add: min_ok_def)
qed

lemma max_inv_ok:
  assumes "max_ok s" "max_inv (tq_cmp s) (max_rest s) s'"
    "is_heap (after (tq_cmp s)) (tq_maxItems s') (length (tq_maxItems s'))"
  shows "max_ok s' \<and> max_rest s' = max_rest s \<and> (min_ok s \<longrightarrow> min_ok s')"
proof -
  have r: "max_rest s' = max_rest s" using assms(2) by (simp add: max_inv_def)
  have "tq_cmp s' = tq_cmp s" using max_rest_fields(8) [OF r] by (simp add: same_items_def)
  then show ?thesis
    using assms r min_ok_cong [of s' s] max_rest_fields(1,9) [OF r] by (simp add: max_ok_def)
qed

text \<open>One push or removal on each heap, and what it means for the pair.\<close>

lemma push_both:
  assumes "min_ok s" "max_ok s" "item \<notin> set (tq_orderedItems s)" "mset (tq_maxItems s) = mset (tq_orderedItems s)"
  defines "s1 \<equiv> heap_Push tq_Less tq_Swap tq_Push tq_Len s item"
  defines "s2 \<equiv> heap_Push max_Less max_Swap max_Push max_Len s1 item"
  shows "min_ok s2 \<and> max_ok s2 \<and> mset (tq_orderedItems s2) = add_mset item (mset (tq_orderedItems s))
    \<and> mset (tq_maxItems s2) = add_mset item (mset (tq_orderedItems s)) \<and> same_items s s2
    \<and> tq_messageIdItems s2 = tq_messageIdItems s \<and> tq_sequenceNumberItems s2 = tq_sequenceNumberItems s
    \<and> tq_byteCount s2 = tq_byteCount s \<and> tq_queueByteCount s2 = tq_queueByteCount s
    \<and> tq_borrowedByteCount s2 = tq_borrowedByteCount s \<and> qs_mem s2 = qs_mem s"
proof -
  note A = min_heap.heap_Push_correct [of "tq_cmp s" "tq_rest s" s item, folded s1_def]
  have m1: "min_ok s1" "tq_rest s1 = tq_rest s" "max_ok s1"
    using min_inv_ok [OF assms(1) A(1,2)] assms(1-3) by (auto simp: min_ok_def)
  note R1 = tq_rest_fields [OF m1(2)]
  have ms1: "mset (tq_orderedItems s1) = add_mset item (mset (tq_orderedItems s))" using A(3) assms(1,3) by (simp add: min_ok_def)
  have "item \<notin> set (tq_maxItems s1)" using assms(3,4) R1(1) by (metis set_mset_mset)
  note B = max_heap.heap_Push_correct [of "tq_cmp s1" "max_rest s1" s1 item, folded s2_def, OF _ _ this]
  have m2: "max_ok s2" "max_rest s2 = max_rest s1" "min_ok s2"
    using max_inv_ok [OF m1(3) B(1,2)] m1 by (auto simp: max_ok_def)
  note R2 = max_rest_fields [OF m2(2)]
  have "mset (tq_maxItems s2) = add_mset item (mset (tq_maxItems s1))" using B(3) m1(3) by (simp add: max_ok_def)
  then show ?thesis
    using m2 R1 R2 ms1 assms(4) same_items_trans [OF R1(8) R2(8)] by simp
qed

lemma remove_both:
  assumes "min_ok s" "max_ok s" "item \<in> set (tq_orderedItems s)" "mset (tq_maxItems s) = mset (tq_orderedItems s)"
  obtains s1 s2 y where
    "heap_Remove tq_Less tq_Swap tq_Pop tq_Len s (ti_heapIndex (qs_items s item)) = Some (item, s1)"
    "heap_Remove max_Less max_Swap max_Pop max_Len s1 (ti_maxHeapIndex (qs_items s1 item)) = Some (y, s2)"
    "min_ok s2" "max_ok s2" "mset (tq_orderedItems s2) = mset (tq_orderedItems s) - {#item#}"
    "mset (tq_maxItems s2) = mset (tq_orderedItems s) - {#item#}" "same_items s s1" "same_items s s2"
    "tq_messageIdItems s2 = tq_messageIdItems s" "tq_sequenceNumberItems s2 = tq_sequenceNumberItems s"
    "tq_byteCount s2 = tq_byteCount s" "tq_queueByteCount s2 = tq_queueByteCount s"
    "tq_borrowedByteCount s2 = tq_borrowedByteCount s" "qs_mem s2 = qs_mem s"
proof -
  let ?i = "ti_heapIndex (qs_items s item)"
  obtain k where k: "k < length (tq_orderedItems s)" "tq_orderedItems s ! k = item" using assms(3) by (meson in_set_conv_nth)
  then have i: "?i < length (tq_orderedItems s)" "tq_orderedItems s ! ?i = item"
    using assms(1) by (auto simp: min_ok_def min_inv_def)
  obtain s1 where A: "heap_Remove tq_Less tq_Swap tq_Pop tq_Len s ?i = Some (item, s1)" "min_inv (tq_cmp s) (tq_rest s) s1"
    "is_heap (before (tq_cmp s)) (tq_orderedItems s1) (length (tq_orderedItems s1))"
    "mset (tq_orderedItems s1) = mset (tq_orderedItems s) - {#item#}"
    using min_heap.heap_Remove_correct [of "tq_cmp s" "tq_rest s" s ?i] i assms(1) unfolding min_ok_def by metis
  have m1: "min_ok s1" "tq_rest s1 = tq_rest s" "max_ok s1" using min_inv_ok [OF assms(1) A(2,3)] assms(2) by auto
  note R1 = tq_rest_fields [OF m1(2)]
  let ?j = "ti_maxHeapIndex (qs_items s1 item)"
  have "item \<in> set (tq_maxItems s1)" using assms(3,4) R1(1) by (metis set_mset_mset)
  then obtain l where "l < length (tq_maxItems s1)" "tq_maxItems s1 ! l = item" by (meson in_set_conv_nth)
  then have j: "?j < length (tq_maxItems s1)" "tq_maxItems s1 ! ?j = item"
    using m1(3) by (auto simp: max_ok_def max_inv_def)
  obtain s2 where B: "heap_Remove max_Less max_Swap max_Pop max_Len s1 ?j = Some (item, s2)" "max_inv (tq_cmp s1) (max_rest s1) s2"
    "is_heap (after (tq_cmp s1)) (tq_maxItems s2) (length (tq_maxItems s2))"
    "mset (tq_maxItems s2) = mset (tq_maxItems s1) - {#item#}"
    using max_heap.heap_Remove_correct [of "tq_cmp s1" "max_rest s1" s1 ?j] j m1(3) unfolding max_ok_def by metis
  have m2: "max_ok s2" "max_rest s2 = max_rest s1" "min_ok s2" using max_inv_ok [OF m1(3) B(2,3)] m1(1) by auto
  note R2 = max_rest_fields [OF m2(2)]
  show thesis
    by (rule that [OF A(1) B(1) m2(3,1) _ _ R1(8) same_items_trans [OF R1(8) R2(8)]])
      (simp_all add: A(4) B(4) R1 R2 assms(4))
qed

section \<open>The operations keep the invariant\<close>

lemma update_fields:
  defines "s' \<equiv> \<lambda>s d e. updateByteCountWithLock s d e"
  shows "tq_orderedItems (s' s d e) = tq_orderedItems s" "tq_maxItems (s' s d e) = tq_maxItems s"
    "tq_messageIdItems (s' s d e) = tq_messageIdItems s" "tq_sequenceNumberItems (s' s d e) = tq_sequenceNumberItems s"
    "qs_items (s' s d e) = qs_items s" "same_items s (s' s d e)" "tq_cmp (s' s d e) = tq_cmp s"
    "tq_byteCount (s' s d e) = i64 (tq_byteCount s + d)" "tq_queueByteCount (s' s d e) = i64 (tq_queueByteCount s + e)"
    "tq_borrowedByteCount (s' s d e) =
       (case tq_budget s of None \<Rightarrow> tq_borrowedByteCount s
        | Some b \<Rightarrow> max 0 (i64 (i64 (tq_queueByteCount s + e) - tq_minByteCount s)))"
  unfolding s'_def
  by (auto simp: updateByteCountWithLock_def Let_def same_items_def split: option.splits)

lemma queue_wf_update:
  assumes "min_ok s" "max_ok s" "mset (tq_maxItems s) = mset (tq_orderedItems s)"
    "indexed s (set (tq_orderedItems s))"
    "tq_byteCount s = i64 (X - d)" "tq_queueByteCount s = i64 (Y - e)"
    "X = (\<Sum>a \<in># mset (tq_orderedItems s). ti_messageByteCount (qs_items s a))"
    "Y = (\<Sum>a \<in># mset (tq_orderedItems s). QueueByteCount (qs_items s a))"
    "tq_budget s = None \<Longrightarrow> tq_borrowedByteCount s = 0"
  shows "queue_wf (updateByteCountWithLock s d e)"
proof -
  let ?s = "updateByteCountWithLock s d e"
  note U = update_fields [of s d e]
  have b: "tq_budget ?s = tq_budget s" "tq_minByteCount ?s = tq_minByteCount s" using U(6) by (simp_all add: same_items_def)
  have "min_ok ?s" "max_ok ?s"
    using assms(1,2) min_ok_cong [of ?s s] max_ok_cong [of ?s s] U by simp_all
  moreover have "counted ?s (mset (tq_orderedItems ?s))" using assms(5-8) by (simp add: counted_def U)
  moreover have "borrow_ok ?s" using assms(9) by (simp add: borrow_ok_def U b split: option.split)
  ultimately show ?thesis using assms(3,4) by (simp add: queue_wf_def U indexed_def)
qed

lemma index_insert:
  assumes "\<forall>k a. M k = Some a \<longleftrightarrow> a \<in> A \<and> f a = k" "M (f x) = None"
  shows "\<forall>k a. (M(f x \<mapsto> x)) k = Some a \<longleftrightarrow> a \<in> insert x A \<and> f a = k"
proof (intro allI)
  fix k a
  show "(M(f x \<mapsto> x)) k = Some a \<longleftrightarrow> a \<in> insert x A \<and> f a = k"
    using assms(1) [rule_format, of "f x" a] assms(1) [rule_format, of k a] assms(2) by (cases "k = f x") auto
qed

lemma index_delete:
  assumes "\<forall>k a. M k = Some a \<longleftrightarrow> a \<in> A \<and> f a = k" "x \<in> A"
  shows "\<forall>k a. (M(f x := None)) k = Some a \<longleftrightarrow> a \<in> A - {x} \<and> f a = k"
proof (intro allI)
  fix k a
  show "(M(f x := None)) k = Some a \<longleftrightarrow> a \<in> A - {x} \<and> f a = k"
    using assms(1) [rule_format, of "f x" a] assms(1) [rule_format, of "f x" x] assms(1) [rule_format, of k a] assms(2)
    by (cases "k = f x") auto
qed

lemma indexedD:
  assumes "indexed s A"
  shows "\<forall>i a. tq_messageIdItems s i = Some a \<longleftrightarrow> a \<in> A \<and> ti_messageId (qs_items s a) = i"
    "\<forall>n a. tq_sequenceNumberItems s n = Some a \<longleftrightarrow> a \<in> A \<and> ti_sequenceNumber (qs_items s a) = n"
  using assms by (simp_all add: indexed_def)

lemma Add_wf:
  assumes wf: "queue_wf s" and fresh: "item \<notin> set (tq_orderedItems s)"
    "tq_messageIdItems s (ti_messageId (qs_items s item)) = None"
    "tq_sequenceNumberItems s (ti_sequenceNumber (qs_items s item)) = None"
  shows "queue_wf (Add s item)" "mset (tq_orderedItems (Add s item)) = add_mset item (mset (tq_orderedItems s))"
    "same_items s (Add s item)"
    "tq_messageIdItems (Add s item) = (tq_messageIdItems s)(ti_messageId (qs_items s item) \<mapsto> item)"
    "tq_sequenceNumberItems (Add s item) = (tq_sequenceNumberItems s)(ti_sequenceNumber (qs_items s item) \<mapsto> item)"
    "\<exists>s2. Add s item = updateByteCountWithLock s2 (ti_messageByteCount (qs_items s item)) (QueueByteCount (qs_items s item))
       \<and> tq_byteCount s2 = tq_byteCount s \<and> tq_queueByteCount s2 = tq_queueByteCount s
       \<and> tq_borrowedByteCount s2 = tq_borrowedByteCount s \<and> qs_mem s2 = qs_mem s \<and> same_items s s2"
proof -
  let ?i = "qs_items s item"
  define s0 where "s0 = s\<lparr>tq_messageIdItems := (tq_messageIdItems s)(ti_messageId ?i \<mapsto> item),
      tq_sequenceNumberItems := (tq_sequenceNumberItems s)(ti_sequenceNumber ?i \<mapsto> item)\<rparr>"
  define s2 where "s2 = heap_Push max_Less max_Swap max_Push max_Len (heap_Push tq_Less tq_Swap tq_Push tq_Len s0 item) item"
  note W = wf [unfolded queue_wf_def]
  have s0: "min_ok s0" "max_ok s0" "tq_orderedItems s0 = tq_orderedItems s" "tq_maxItems s0 = tq_maxItems s" "same_items s s0"
    "tq_byteCount s0 = tq_byteCount s" "tq_queueByteCount s0 = tq_queueByteCount s"
    "tq_borrowedByteCount s0 = tq_borrowedByteCount s" "qs_mem s0 = qs_mem s"
    using W min_ok_cong [of s0 s] max_ok_cong [of s0 s] by (simp_all add: s0_def same_items_def)
  have P: "min_ok s2" "max_ok s2" "mset (tq_orderedItems s2) = add_mset item (mset (tq_orderedItems s))"
    "mset (tq_maxItems s2) = add_mset item (mset (tq_orderedItems s))" "same_items s s2"
    "tq_messageIdItems s2 = (tq_messageIdItems s)(ti_messageId ?i \<mapsto> item)"
    "tq_sequenceNumberItems s2 = (tq_sequenceNumberItems s)(ti_sequenceNumber ?i \<mapsto> item)"
    "tq_byteCount s2 = tq_byteCount s" "tq_queueByteCount s2 = tq_queueByteCount s"
    "tq_borrowedByteCount s2 = tq_borrowedByteCount s" "qs_mem s2 = qs_mem s"
    using push_both [of s0 item] s0 fresh(1) W same_items_trans [OF s0(5)]
    unfolding s2_def [symmetric] by (simp_all add: s0_def)
  have add: "Add s item = updateByteCountWithLock s2 (ti_messageByteCount (qs_items s2 item)) (QueueByteCount (qs_items s2 item))"
    by (simp add: Add_def Let_def s2_def s0_def)
  have set2: "set (tq_orderedItems s2) = insert item (set (tq_orderedItems s))"
    using arg_cong [OF P(3), of set_mset] by simp
  have I: "ti_messageId (qs_items s2 a) = ti_messageId (qs_items s a)"
    "ti_sequenceNumber (qs_items s2 a) = ti_sequenceNumber (qs_items s a)"
    "ti_messageByteCount (qs_items s2 a) = ti_messageByteCount (qs_items s a)"
    "QueueByteCount (qs_items s2 a) = QueueByteCount (qs_items s a)" for a
    using P(5) by (simp_all add: same_items_def)
  have ix: "indexed s (set (tq_orderedItems s))" using W by simp
  have "indexed s2 (set (tq_orderedItems s2))"
    unfolding indexed_def set2 P(6,7) I
    using index_insert [OF indexedD(1) [OF ix] fresh(2)] index_insert [OF indexedD(2) [OF ix] fresh(3)] by (rule conjI)
  then show "queue_wf (Add s item)"
    unfolding add using W P
    by (intro queue_wf_update [OF _ _ _ _ _ _ refl refl]) (auto simp: counted_def borrow_ok_def I same_items_def)
  show "mset (tq_orderedItems (Add s item)) = add_mset item (mset (tq_orderedItems s))" "same_items s (Add s item)"
    "tq_messageIdItems (Add s item) = (tq_messageIdItems s)(ti_messageId (qs_items s item) \<mapsto> item)"
    "tq_sequenceNumberItems (Add s item) = (tq_sequenceNumberItems s)(ti_sequenceNumber (qs_items s item) \<mapsto> item)"
    using P(3,6,7) same_items_trans [OF P(5) update_fields(6)] by (simp_all add: add update_fields)
  show "\<exists>s2. Add s item = updateByteCountWithLock s2 (ti_messageByteCount (qs_items s item)) (QueueByteCount (qs_items s item))
       \<and> tq_byteCount s2 = tq_byteCount s \<and> tq_queueByteCount s2 = tq_queueByteCount s
       \<and> tq_borrowedByteCount s2 = tq_borrowedByteCount s \<and> qs_mem s2 = qs_mem s \<and> same_items s s2"
    using add P unfolding I by blast
qed

lemma set_mset_remove: "distinct xs \<Longrightarrow> mset ys = mset xs - {#a#} \<Longrightarrow> set ys = set xs - {a}"
  by (metis mset_remove1 set_mset_mset set_remove1_eq)

lemma queue_wf_removed:
  assumes wf: "queue_wf s" and item: "item \<in> set (tq_orderedItems s)"
    and s2: "min_ok s2" "max_ok s2" "mset (tq_orderedItems s2) = mset (tq_orderedItems s) - {#item#}"
      "mset (tq_maxItems s2) = mset (tq_orderedItems s) - {#item#}" "same_items s s2"
      "tq_messageIdItems s2 = (tq_messageIdItems s)(ti_messageId (qs_items s item) := None)"
      "tq_sequenceNumberItems s2 = (tq_sequenceNumberItems s)(ti_sequenceNumber (qs_items s item) := None)"
      "tq_byteCount s2 = tq_byteCount s" "tq_queueByteCount s2 = tq_queueByteCount s"
      "tq_borrowedByteCount s2 = tq_borrowedByteCount s"
  shows "queue_wf (remove_uncount s2 item)"
proof -
  note W = wf [unfolded queue_wf_def]
  have I: "ti_messageId (qs_items s2 a) = ti_messageId (qs_items s a)"
    "ti_sequenceNumber (qs_items s2 a) = ti_sequenceNumber (qs_items s a)"
    "ti_messageByteCount (qs_items s2 a) = ti_messageByteCount (qs_items s a)"
    "QueueByteCount (qs_items s2 a) = QueueByteCount (qs_items s a)" for a
    using s2(5) by (simp_all add: same_items_def)
  have d: "distinct (tq_orderedItems s)" using W by (simp add: min_ok_def min_inv_def)
  note set2 = set_mset_remove [OF d s2(3)]
  have ix: "indexed s (set (tq_orderedItems s))" using W by simp
  have "indexed s2 (set (tq_orderedItems s2))"
    unfolding indexed_def set2 s2(6,7) I
    using index_delete [OF indexedD(1) [OF ix] item] index_delete [OF indexedD(2) [OF ix] item] by (rule conjI)
  moreover have "mset (tq_orderedItems s) = add_mset item (mset (tq_orderedItems s2))"
    using item s2(3) by simp
  then have "tq_byteCount s = i64 ((\<Sum>a \<in># mset (tq_orderedItems s2). ti_messageByteCount (qs_items s2 a)) + ti_messageByteCount (qs_items s item))"
    "tq_queueByteCount s = i64 ((\<Sum>a \<in># mset (tq_orderedItems s2). QueueByteCount (qs_items s2 a)) + QueueByteCount (qs_items s item))"
    using W by (simp_all add: counted_def I add.commute)
  ultimately show ?thesis
    unfolding remove_uncount_def using W s2
    by (intro queue_wf_update [OF _ _ _ _ _ _ refl refl]) (auto simp: borrow_ok_def I same_items_def)
qed

lemma tq_remove_wf:
  assumes wf: "queue_wf s" and item: "item \<in> set (tq_orderedItems s)"
  obtains s' where "tq_remove s item = Some (item, s')" "queue_wf s'" "same_items s s'"
    "mset (tq_orderedItems s') = mset (tq_orderedItems s) - {#item#}"
    "\<exists>d e s2. s' = updateByteCountWithLock s2 d e \<and> tq_byteCount s2 = tq_byteCount s \<and> tq_queueByteCount s2 = tq_queueByteCount s
       \<and> tq_borrowedByteCount s2 = tq_borrowedByteCount s \<and> qs_mem s2 = qs_mem s \<and> same_items s s2"
proof -
  define s0 where "s0 = remove_unindex s item"
  note W = wf [unfolded queue_wf_def]
  have s0: "min_ok s0" "max_ok s0" "tq_orderedItems s0 = tq_orderedItems s" "tq_maxItems s0 = tq_maxItems s" "same_items s s0"
    "tq_byteCount s0 = tq_byteCount s" "tq_queueByteCount s0 = tq_queueByteCount s"
    "tq_borrowedByteCount s0 = tq_borrowedByteCount s" "qs_mem s0 = qs_mem s"
    using W min_ok_cong [of s0 s] max_ok_cong [of s0 s] by (simp_all add: s0_def remove_unindex_def same_items_def)
  have "item \<in> set (tq_orderedItems s0)" "mset (tq_maxItems s0) = mset (tq_orderedItems s0)" using W item s0 by simp_all
  from remove_both [OF s0(1,2) this] obtain s1 s2 y where R:
    "heap_Remove tq_Less tq_Swap tq_Pop tq_Len s0 (ti_heapIndex (qs_items s0 item)) = Some (item, s1)"
    "heap_Remove max_Less max_Swap max_Pop max_Len s1 (ti_maxHeapIndex (qs_items s1 item)) = Some (y, s2)"
    "min_ok s2" "max_ok s2" "mset (tq_orderedItems s2) = mset (tq_orderedItems s0) - {#item#}"
    "mset (tq_maxItems s2) = mset (tq_orderedItems s0) - {#item#}" "same_items s0 s1" "same_items s0 s2"
    "tq_messageIdItems s2 = tq_messageIdItems s0" "tq_sequenceNumberItems s2 = tq_sequenceNumberItems s0"
    "tq_byteCount s2 = tq_byteCount s0" "tq_queueByteCount s2 = tq_queueByteCount s0"
    "tq_borrowedByteCount s2 = tq_borrowedByteCount s0" "qs_mem s2 = qs_mem s0"
    by metis
  have eq: "tq_remove s item = Some (item, remove_uncount s2 item)"
    using R(1,2) by (simp add: tq_remove_def s0_def)
  have same: "same_items s s2" using same_items_trans [OF s0(5) R(8)] .
  have "queue_wf (remove_uncount s2 item)"
    by (rule queue_wf_removed [OF wf item R(3,4) _ _ same]) (simp_all add: R s0, simp_all add: s0_def remove_unindex_def)
  moreover have "same_items s (remove_uncount s2 item)"
    unfolding remove_uncount_def by (rule same_items_trans [OF same update_fields(6)])
  moreover have "mset (tq_orderedItems (remove_uncount s2 item)) = mset (tq_orderedItems s) - {#item#}"
    by (simp add: remove_uncount_def update_fields R(5) s0)
  ultimately show thesis
    using that [OF eq] R s0 same unfolding remove_uncount_def by metis
qed

lemma RemoveFirst_wf:
  assumes wf: "queue_wf s" and ne: "tq_orderedItems s \<noteq> []"
  defines "item \<equiv> tq_orderedItems s ! 0"
  obtains s' where "RemoveFirst s = Some (Some item, s')" "queue_wf s'" "same_items s s'"
    "mset (tq_orderedItems s') = mset (tq_orderedItems s) - {#item#}"
    "\<exists>d e s2. s' = updateByteCountWithLock s2 d e \<and> tq_byteCount s2 = tq_byteCount s \<and> tq_queueByteCount s2 = tq_queueByteCount s
       \<and> tq_borrowedByteCount s2 = tq_borrowedByteCount s \<and> qs_mem s2 = qs_mem s \<and> same_items s s2"
proof -
  note W = wf [unfolded queue_wf_def]
  have item: "item \<in> set (tq_orderedItems s)" using ne by (simp add: item_def)
  have i0: "ti_heapIndex (qs_items s item) = 0" using W ne by (auto simp: min_ok_def min_inv_def item_def)
  from remove_both [OF _ _ item] W obtain s1 s2 y where R:
    "heap_Remove tq_Less tq_Swap tq_Pop tq_Len s (ti_heapIndex (qs_items s item)) = Some (item, s1)"
    "heap_Remove max_Less max_Swap max_Pop max_Len s1 (ti_maxHeapIndex (qs_items s1 item)) = Some (y, s2)"
    "min_ok s2" "max_ok s2" "mset (tq_orderedItems s2) = mset (tq_orderedItems s) - {#item#}"
    "mset (tq_maxItems s2) = mset (tq_orderedItems s) - {#item#}" "same_items s s1" "same_items s s2"
    "tq_messageIdItems s2 = tq_messageIdItems s" "tq_sequenceNumberItems s2 = tq_sequenceNumberItems s"
    "tq_byteCount s2 = tq_byteCount s" "tq_queueByteCount s2 = tq_queueByteCount s"
    "tq_borrowedByteCount s2 = tq_borrowedByteCount s" "qs_mem s2 = qs_mem s"
    by metis
  define s3 where "s3 = remove_unindex s2 item"
  have I: "ti_messageId (qs_items s2 item) = ti_messageId (qs_items s item)"
    "ti_sequenceNumber (qs_items s2 item) = ti_sequenceNumber (qs_items s item)"
    using R(8) by (simp_all add: same_items_def)
  have s3: "min_ok s3" "max_ok s3" "tq_orderedItems s3 = tq_orderedItems s2" "tq_maxItems s3 = tq_maxItems s2" "same_items s2 s3"
    "tq_byteCount s3 = tq_byteCount s2" "tq_queueByteCount s3 = tq_queueByteCount s2"
    "tq_borrowedByteCount s3 = tq_borrowedByteCount s2" "qs_mem s3 = qs_mem s2"
    "tq_messageIdItems s3 = (tq_messageIdItems s)(ti_messageId (qs_items s item) := None)"
    "tq_sequenceNumberItems s3 = (tq_sequenceNumberItems s)(ti_sequenceNumber (qs_items s item) := None)"
    using R(3,4,9,10) I min_ok_cong [of s3 s2] max_ok_cong [of s3 s2] by (simp_all add: s3_def remove_unindex_def same_items_def)
  have same: "same_items s s3" using same_items_trans [OF R(8) s3(5)] .
  have eq: "RemoveFirst s = Some (Some item, remove_uncount s3 item)"
    using R(1,2) ne i0 by (simp add: RemoveFirst_def s3_def)
  have "queue_wf (remove_uncount s3 item)"
    by (rule queue_wf_removed [OF wf item s3(1,2) _ _ same s3(10,11)]) (simp_all add: R s3)
  moreover have "same_items s (remove_uncount s3 item)"
    unfolding remove_uncount_def by (rule same_items_trans [OF same update_fields(6)])
  moreover have "mset (tq_orderedItems (remove_uncount s3 item)) = mset (tq_orderedItems s) - {#item#}"
    by (simp add: remove_uncount_def update_fields R(5) s3)
  ultimately show thesis
    using that [OF eq] R s3 same unfolding remove_uncount_def by metis
qed

lemma queue_wf_pool [simp]:
  "queue_wf (s\<lparr>qs_mem := m\<rparr>) = queue_wf s" "queue_wf (s\<lparr>tq_floorRegistered := f\<rparr>) = queue_wf s"
  "queue_wf (s\<lparr>tq_floorRegistered := f, qs_mem := m\<rparr>) = queue_wf s"
  by (simp_all add: queue_wf_def min_ok_def max_ok_def min_inv_def max_inv_def indexed_def counted_def borrow_ok_def
      cong: option.case_cong)

lemma Clear_wf:
  assumes "queue_wf s"
  shows "queue_wf (snd (Clear s))" "fst (Clear s) = tq_orderedItems s" "tq_orderedItems (snd (Clear s)) = []"
proof -
  define s1 where "s1 = s\<lparr>tq_orderedItems := [], tq_maxItems := [], tq_messageIdItems := Map.empty,
      tq_sequenceNumberItems := Map.empty\<rparr>"
  define s2 where "s2 = updateByteCountWithLock s1 (i64 (- tq_byteCount s1)) (i64 (- tq_queueByteCount s1))"
  have s1: "min_ok s1" "max_ok s1"
    using assms by (simp_all add: queue_wf_def min_ok_def max_ok_def min_inv_def max_inv_def s1_def is_heap_def)
  have "queue_wf s2"
    unfolding s2_def using s1 assms
    by (intro queue_wf_update [where X = 0 and Y = 0])
      (auto simp: s1_def indexed_def queue_wf_def borrow_ok_def counted_def)
  moreover have "tq_orderedItems s2 = []" by (simp add: s2_def update_fields s1_def)
  ultimately show "queue_wf (snd (Clear s))" "fst (Clear s) = tq_orderedItems s" "tq_orderedItems (snd (Clear s)) = []"
    by (simp_all add: Clear_def Let_def s1_def [symmetric] s2_def [symmetric] split: option.split)
qed

lemma new_wf:
  assumes "cmp_ok cmp" "0 \<le> minByteCount" "in64 minByteCount"
  shows "queue_wf (setBudget (newTransferQueue cmp items m) budget minByteCount)"
    "queue_wf (setLifetimeBudget (setBudget (newTransferQueue cmp items m) budget minByteCount))"
proof -
  have z: "max 0 (i64 (- minByteCount)) = 0" using assms(2,3) i64_id [of "- minByteCount"] by (auto simp: in64_def)
  show "queue_wf (setBudget (newTransferQueue cmp items m) budget minByteCount)"
    "queue_wf (setLifetimeBudget (setBudget (newTransferQueue cmp items m) budget minByteCount))"
    using assms(1) z
    by (auto simp: queue_wf_def min_ok_def max_ok_def min_inv_def max_inv_def is_heap_def indexed_def counted_def borrow_ok_def
        setLifetimeBudget_def setBudget_def newTransferQueue_def Let_def i64_def split: option.split)
qed

section \<open>The pool\<close>

lemma Reserve_used:
  "bg_used (budgets (Reserve m b n) x) = (if x \<in> set (chain (budgets m) b) then i64 (bg_used (budgets m x) + n) else bg_used (budgets m x))"
proof (cases "requiresAdmissionLock m b")
  case True
  then show ?thesis
    by (auto simp: Reserve_def tryReserveWithLock_def upd_chain_eq charge_def)
next
  case False
  then have "chain (budgets m) b = [b]" by (intro chain_root) (simp add: requiresAdmissionLock_def)
  then show ?thesis using False by (simp add: Reserve_def charge_def)
qed

lemma Release_used:
  "bg_used (budgets (Release m b n) x) = (if x \<in> set (chain (budgets m) b) then i64 (bg_used (budgets m x) - n) else bg_used (budgets m x))"
proof -
  have "bg_used (budgets (Release m b n) x) = bg_used (budgets (releaseCharge m b n) x)"
    using same_core_notifyCapacityChanged [of "releaseCharge m b n" b] core_fields(4)
    unfolding Release_def same_core_def by blast
  also have "\<dots> = (if x \<in> set (chain (budgets m) b) then i64 (bg_used (budgets m x) - n) else bg_used (budgets m x))"
  proof (cases "requiresAdmissionLock m b")
    case True
    then show ?thesis by (simp add: releaseCharge_def upd_chain_eq releaseByteCount_def)
  next
    case False
    then have "chain (budgets m) b = [b]" by (intro chain_root) (simp add: requiresAdmissionLock_def)
    then show ?thesis using False by (simp add: releaseCharge_def releaseByteCount_def)
  qed
  finally show ?thesis .
qed

text \<open>What an operation takes from the pool is what the queue's borrowed counter grew by.\<close>

definition pool_follows :: "qstate \<Rightarrow> qstate \<Rightarrow> bool" where
  "pool_follows s s' \<longleftrightarrow>
     (case tq_budget s of
        None \<Rightarrow> qs_mem s' = qs_mem s
      | Some b \<Rightarrow>
          if tq_lifetimeBudget s then qs_mem s' = qs_mem s
          else \<forall>x. bg_total (budgets (qs_mem s') x) = bg_total (budgets (qs_mem s) x)
            \<and> bg_used (budgets (qs_mem s') x) =
              (if x \<in> set (chain (budgets (qs_mem s)) b) \<and> tq_borrowedByteCount s' \<noteq> tq_borrowedByteCount s
               then i64 (bg_used (budgets (qs_mem s) x) + (tq_borrowedByteCount s' - tq_borrowedByteCount s))
               else bg_used (budgets (qs_mem s) x)))"

lemma Reserve_total: "bg_total (budgets (Reserve m b n) x) = bg_total (budgets m x)"
  by (auto simp: Reserve_def tryReserveWithLock_def upd_chain_eq charge_def)

lemma Release_total: "bg_total (budgets (Release m b n) x) = bg_total (budgets m x)"
proof -
  have "bg_total (budgets (Release m b n) x) = bg_total (budgets (releaseCharge m b n) x)"
    using same_core_notifyCapacityChanged [of "releaseCharge m b n" b] core_fields(3)
    unfolding Release_def same_core_def by blast
  then show ?thesis by (simp add: releaseCharge_def upd_chain_eq releaseByteCount_def)
qed

lemma pool_follows_update: "pool_follows s (updateByteCountWithLock s d e)"
proof (cases "tq_budget s")
  case None
  then show ?thesis by (simp add: pool_follows_def updateByteCountWithLock_def Let_def)
next
  case (Some b)
  let ?t = "max 0 (i64 (i64 (tq_queueByteCount s + e) - tq_minByteCount s))"
  have "i64 (u - i64 (tq_borrowedByteCount s - ?t)) = i64 (u + (?t - tq_borrowedByteCount s))" for u
    by (simp add: algebra_simps)
  then show ?thesis
    using Some
    by (auto simp: pool_follows_def updateByteCountWithLock_def Let_def Release_used Reserve_used Release_total Reserve_total)
qed

lemma pool_follows_cong:
  "pool_follows s2 s' \<Longrightarrow> same_items s s2 \<Longrightarrow> qs_mem s2 = qs_mem s \<Longrightarrow> tq_borrowedByteCount s2 = tq_borrowedByteCount s \<Longrightarrow>
   pool_follows s s'"
  by (auto simp: pool_follows_def same_items_def split: option.splits)

section \<open>Reachable queues\<close>

definition fresh_item :: "qstate \<Rightarrow> nat \<Rightarrow> bool" where
  "fresh_item s item \<longleftrightarrow> item \<notin> set (tq_orderedItems s)
   \<and> tq_messageIdItems s (ti_messageId (qs_items s item)) = None
   \<and> tq_sequenceNumberItems s (ti_sequenceNumber (qs_items s item)) = None"

text \<open>
  The steps of a queue, one per method that holds its lock. Other owners change the pool and
  the items that are not queued at any time (\<open>qs_others\<close>).
\<close>

inductive queue_step :: "qstate \<Rightarrow> qstate \<Rightarrow> bool" where
  qs_add: "fresh_item s item \<Longrightarrow> queue_step s (Add s item)"
| qs_first: "RemoveFirst s = Some (r, s') \<Longrightarrow> queue_step s s'"
| qs_byId: "RemoveByMessageId s i = Some (r, s') \<Longrightarrow> queue_step s s'"
| qs_bySequence: "RemoveBySequenceNumber s n = Some (r, s') \<Longrightarrow> queue_step s s'"
| qs_clear: "queue_step s (snd (Clear s))"
| qs_others: "\<forall>a \<in> set (tq_orderedItems s). items a = qs_items s a \<Longrightarrow> queue_step s (s\<lparr>qs_mem := m, qs_items := items\<rparr>)"

inductive queue_reachable :: "qstate \<Rightarrow> bool" where
  qr_new: "cmp_ok cmp \<Longrightarrow> 0 \<le> n \<Longrightarrow> in64 n \<Longrightarrow> s = setBudget (newTransferQueue cmp items m) budget n \<Longrightarrow>
     s' = s \<or> s' = setLifetimeBudget s \<Longrightarrow> queue_reachable s'"
| qr_step: "queue_reachable s \<Longrightarrow> queue_step s s' \<Longrightarrow> queue_reachable s'"

inductive_cases queue_stepE: "queue_step s s'"

lemma queue_wf_others:
  assumes "queue_wf s" "\<forall>a \<in> set (tq_orderedItems s). items a = qs_items s a"
  shows "queue_wf (s\<lparr>qs_mem := m, qs_items := items\<rparr>)"
proof -
  let ?s = "s\<lparr>qs_mem := m, qs_items := items\<rparr>"
  note W = assms(1) [unfolded queue_wf_def]
  have "set (tq_maxItems s) = set (tq_orderedItems s)" using W by (metis set_mset_mset)
  then have max: "items (tq_maxItems s ! i) = qs_items s (tq_maxItems s ! i)" if "i < length (tq_maxItems s)" for i
    using assms(2) that by auto
  have "indexed ?s (set (tq_orderedItems s))"
    using W assms(2) unfolding indexed_def by auto
  moreover have "counted ?s (mset (tq_orderedItems s))"
  proof -
    have "(\<Sum>a \<in># mset (tq_orderedItems s). ti_messageByteCount (items a)) = (\<Sum>a \<in># mset (tq_orderedItems s). ti_messageByteCount (qs_items s a))"
      "(\<Sum>a \<in># mset (tq_orderedItems s). QueueByteCount (items a)) = (\<Sum>a \<in># mset (tq_orderedItems s). QueueByteCount (qs_items s a))"
      using assms(2) by (auto intro!: arg_cong [where f = sum_mset] image_mset_cong)
    then show ?thesis using W by (simp add: counted_def)
  qed
  moreover have "min_ok ?s" using W assms(2) by (simp add: min_ok_def min_inv_def)
  moreover have "max_ok ?s" using W max by (simp add: max_ok_def max_inv_def)
  moreover have "borrow_ok ?s" using W by (simp add: borrow_ok_def cong: option.case_cong)
  ultimately show ?thesis using W by (simp add: queue_wf_def)
qed

lemma in_queue:
  assumes "queue_wf s"
  shows "tq_messageIdItems s i = Some a \<longleftrightarrow> a \<in> set (tq_orderedItems s) \<and> ti_messageId (qs_items s a) = i"
    "tq_sequenceNumberItems s n = Some a \<longleftrightarrow> a \<in> set (tq_orderedItems s) \<and> ti_sequenceNumber (qs_items s a) = n"
  using assms indexedD unfolding queue_wf_def by blast+

text \<open>A removal finds what it looks for, and nothing else changes.\<close>

definition removal :: "qstate \<Rightarrow> nat option \<Rightarrow> qstate \<Rightarrow> bool" where
  "removal s r s' \<longleftrightarrow> queue_wf s' \<and> same_items s s' \<and> pool_follows s s'
   \<and> mset (tq_orderedItems s') = mset (tq_orderedItems s) - (case r of None \<Rightarrow> {#} | Some a \<Rightarrow> {#a#})"

lemma removal_set:
  assumes "queue_wf s" "removal s r s'"
  shows "set (tq_orderedItems s') = set (tq_orderedItems s) - set_option r"
proof -
  have "distinct (tq_orderedItems s)" using assms(1) by (simp add: queue_wf_def min_ok_def min_inv_def)
  then show ?thesis
    using assms(2) set_mset_remove [of "tq_orderedItems s" "tq_orderedItems s'"]
    by (cases r) (auto simp: removal_def dest: mset_eq_setD)
qed

lemma removal_gone:
  assumes "queue_wf s"
  shows "removal s (tq_messageIdItems s i) s' \<Longrightarrow> tq_messageIdItems s' i = None"
    "removal s (tq_sequenceNumberItems s n) s' \<Longrightarrow> tq_sequenceNumberItems s' n = None"
proof -
  have R: "queue_wf s'" "ti_messageId (qs_items s' a) = ti_messageId (qs_items s a)"
    "ti_sequenceNumber (qs_items s' a) = ti_sequenceNumber (qs_items s a)" if "removal s r s'" for r a
    using that by (simp_all add: removal_def same_items_def)
  show "tq_messageIdItems s' i = None" if r: "removal s (tq_messageIdItems s i) s'"
    using removal_set [OF assms r] R [OF r] in_queue(1) [OF R(1) [OF r], of i] in_queue(1) [OF assms, of i]
    by (cases "tq_messageIdItems s' i") auto
  show "tq_sequenceNumberItems s' n = None" if r: "removal s (tq_sequenceNumberItems s n) s'"
    using removal_set [OF assms r] R [OF r] in_queue(2) [OF R(1) [OF r], of n] in_queue(2) [OF assms, of n]
    by (cases "tq_sequenceNumberItems s' n") auto
qed

lemma pool_follows_refl: "pool_follows s s"
  by (simp add: pool_follows_def split: option.split)

lemma tq_remove_removal:
  assumes "queue_wf s" "item \<in> set (tq_orderedItems s)"
  shows "\<exists>s'. tq_remove s item = Some (item, s') \<and> removal s (Some item) s'"
  using tq_remove_wf [OF assms] pool_follows_cong [OF pool_follows_update, of s]
  unfolding removal_def by (metis option.case(2))

lemma RemoveFirst_removal:
  assumes "queue_wf s"
  shows "\<exists>s'. RemoveFirst s = Some (PeekFirst s, s') \<and> removal s (PeekFirst s) s'"
proof (cases "tq_orderedItems s = []")
  case True
  then show ?thesis using assms by (simp add: RemoveFirst_def PeekFirst_def removal_def pool_follows_refl)
next
  case False
  then have p: "PeekFirst s = Some (tq_orderedItems s ! 0)" by (simp add: PeekFirst_def)
  obtain s' where s': "RemoveFirst s = Some (PeekFirst s, s')" "queue_wf s'" "same_items s s'"
    "mset (tq_orderedItems s') = mset (tq_orderedItems s) - {#tq_orderedItems s ! 0#}" "pool_follows s s'"
    using RemoveFirst_wf [OF assms False] pool_follows_cong [OF pool_follows_update, of s] p by metis
  then show ?thesis by (auto simp: removal_def p)
qed

lemma RemoveBy_removal:
  assumes "queue_wf s"
  shows "\<exists>s'. RemoveByMessageId s i = Some (GetByMessageId s i, s') \<and> removal s (GetByMessageId s i) s'"
    "\<exists>s'. RemoveBySequenceNumber s n = Some (GetBySequenceNumber s n, s') \<and> removal s (GetBySequenceNumber s n) s'"
proof -
  show "\<exists>s'. RemoveByMessageId s i = Some (GetByMessageId s i, s') \<and> removal s (GetByMessageId s i) s'"
  proof (cases "tq_messageIdItems s i")
    case None
    then show ?thesis using assms by (simp add: RemoveByMessageId_def GetByMessageId_def removal_def pool_follows_refl)
  next
    case (Some a)
    then show ?thesis
      using tq_remove_removal [OF assms, of a] in_queue(1) [OF assms, of i a] by (auto simp: RemoveByMessageId_def GetByMessageId_def)
  qed
  show "\<exists>s'. RemoveBySequenceNumber s n = Some (GetBySequenceNumber s n, s') \<and> removal s (GetBySequenceNumber s n) s'"
  proof (cases "tq_sequenceNumberItems s n")
    case None
    then show ?thesis using assms by (simp add: RemoveBySequenceNumber_def GetBySequenceNumber_def removal_def pool_follows_refl)
  next
    case (Some a)
    then show ?thesis
      using tq_remove_removal [OF assms, of a] in_queue(2) [OF assms, of n a] by (auto simp: RemoveBySequenceNumber_def GetBySequenceNumber_def)
  qed
qed

lemma queue_step_wf: "queue_step s s' \<Longrightarrow> queue_wf s \<Longrightarrow> queue_wf s'"
proof (induction rule: queue_step.induct)
  case (qs_add s item)
  then show ?case by (auto simp: fresh_item_def intro: Add_wf)
next
  case (qs_first s r s')
  then show ?case using RemoveFirst_removal [of s] by (auto simp: removal_def)
next
  case (qs_byId s i r s')
  then show ?case using RemoveBy_removal(1) [of s i] by (auto simp: removal_def)
next
  case (qs_bySequence s n r s')
  then show ?case using RemoveBy_removal(2) [of s n] by (auto simp: removal_def)
qed (auto intro: Clear_wf queue_wf_others)

lemma queue_reachable_wf: "queue_reachable s \<Longrightarrow> queue_wf s"
proof (induction rule: queue_reachable.induct)
  case (qr_new cmp n s items m budget s')
  then show ?case using new_wf by blast
next
  case (qr_step s s')
  then show ?case by (blast intro: queue_step_wf)
qed

lemma queue_order:
  assumes "queue_wf s" "a \<in> set (tq_orderedItems s)"
  shows "tq_cmp s (tq_orderedItems s ! 0) a \<le> 0" "tq_cmp s a (tq_maxItems s ! 0) \<le> 0"
proof -
  note W = assms(1) [unfolded queue_wf_def]
  have c: "cmp_ok (tq_cmp s)" using W by (simp add: min_ok_def min_inv_def)
  obtain k where k: "k < length (tq_orderedItems s)" "tq_orderedItems s ! k = a" using assms(2) by (meson in_set_conv_nth)
  have "a \<in> set (tq_maxItems s)" using W assms(2) by (metis set_mset_mset)
  then obtain l where l: "l < length (tq_maxItems s)" "tq_maxItems s ! l = a" by (meson in_set_conv_nth)
  have "\<not> before (tq_cmp s) a (tq_orderedItems s ! 0)"
    using min_heap.heap_first_least [of "tq_cmp s" "tq_orderedItems s"] W k by (auto simp: min_ok_def)
  then show "tq_cmp s (tq_orderedItems s ! 0) a \<le> 0"
    using c unfolding before_def cmp_ok_def by (metis linorder_not_less)
  have "\<not> after (tq_cmp s) a (tq_maxItems s ! 0)"
    using max_heap.heap_first_least [of "tq_cmp s" "tq_maxItems s"] W l by (auto simp: max_ok_def)
  then show "tq_cmp s a (tq_maxItems s ! 0) \<le> 0" using c unfolding after_def by auto
qed

text \<open>Draining the queue from its head.\<close>

fun drain :: "nat \<Rightarrow> qstate \<Rightarrow> nat list option" where
  "drain 0 s = Some []"
| "drain (Suc n) s =
     (case RemoveFirst s of
        None \<Rightarrow> None
      | Some (None, s') \<Rightarrow> Some []
      | Some (Some a, s') \<Rightarrow> map_option ((#) a) (drain n s'))"

lemma drain_sorted:
  assumes "queue_wf s" "length (tq_orderedItems s) = n"
  shows "\<exists>xs. drain n s = Some xs \<and> mset xs = mset (tq_orderedItems s) \<and> sorted_wrt (\<lambda>a b. tq_cmp s a b \<le> 0) xs"
  using assms
proof (induction n arbitrary: s)
  case (Suc n)
  then have ne: "tq_orderedItems s \<noteq> []" by auto
  let ?a = "tq_orderedItems s ! 0"
  obtain s' where s': "RemoveFirst s = Some (Some ?a, s')" "queue_wf s'" "same_items s s'"
    "mset (tq_orderedItems s') = mset (tq_orderedItems s) - {#?a#}"
    using RemoveFirst_wf [OF Suc.prems(1) ne] by metis
  have a: "?a \<in># mset (tq_orderedItems s)" using ne by simp
  have "length (tq_orderedItems s') = n" using Suc.prems(2) s'(4) a by (metis diff_Suc_1 size_Diff_singleton size_mset)
  with Suc.IH [OF s'(2)] obtain xs where xs: "drain n s' = Some xs" "mset xs = mset (tq_orderedItems s')"
    "sorted_wrt (\<lambda>a b. tq_cmp s' a b \<le> 0) xs" by blast
  have "set xs \<subseteq> set (tq_orderedItems s)" using xs(2) s'(4) by (metis in_diffD set_mset_mset subsetI)
  then have "\<forall>b \<in> set xs. tq_cmp s ?a b \<le> 0" using queue_order(1) [OF Suc.prems(1)] by blast
  moreover have "mset (?a # xs) = mset (tq_orderedItems s)" using xs(2) s'(4) a by simp
  moreover have "tq_cmp s' = tq_cmp s" using s'(3) by (simp add: same_items_def)
  ultimately show ?case using s'(1) xs by simp
qed simp

lemma SortFunc_sorted:
  assumes "cmp_ok cmp"
  shows "mset (SortFunc cmp xs) = mset xs" "sorted_wrt (\<lambda>a b. cmp a b \<le> 0) (SortFunc cmp xs)"
proof -
  have m: "mset (insert_cmp cmp x ys) = add_mset x (mset ys)" for x ys by (induction ys) simp_all
  have st: "set (insert_cmp cmp x ys) = insert x (set ys)" for x ys using arg_cong [OF m, of set_mset] by simp
  have s: "sorted_wrt (\<lambda>a b. cmp a b \<le> 0) ys \<Longrightarrow> sorted_wrt (\<lambda>a b. cmp a b \<le> 0) (insert_cmp cmp x ys)" for x ys
  proof (induction ys)
    case (Cons y ys)
    have yx: "0 < cmp x y \<Longrightarrow> cmp y x \<le> 0" using assms unfolding cmp_ok_def by (meson less_imp_le)
    have "\<not> 0 < cmp x y \<Longrightarrow> z \<in> set ys \<Longrightarrow> cmp x z \<le> 0" for z
      using assms Cons.prems unfolding cmp_ok_def by (metis linorder_not_less list.set_intros(1) sorted_wrt.simps(2))
    then show ?case using Cons yx by (auto simp: st)
  qed simp
  show "mset (SortFunc cmp xs) = mset xs" by (induction xs) (simp_all add: SortFunc_def m)
  show "sorted_wrt (\<lambda>a b. cmp a b \<le> 0) (SortFunc cmp xs)" by (induction xs) (simp_all add: SortFunc_def s)
qed

section \<open>An example: a receive queue with two items\<close>

definition ex_items :: "nat \<Rightarrow> transferItem" where
  "ex_items a = \<lparr>ti_messageId = [of_nat a], ti_messageByteCount = 10, ti_queueByteCount = 0,
     ti_sequenceNumber = of_nat a, ti_heapIndex = 0, ti_maxHeapIndex = 0\<rparr>"

definition ex_queue0 :: qstate where
  "ex_queue0 = newReceiveQueue ex_items (snd (NewTransferMemoryBudget mem0 100)) (Some 0) 5"

definition ex_queue1 :: qstate where
  "ex_queue1 = Add ex_queue0 3"

definition ex_queue2 :: qstate where
  "ex_queue2 = Add ex_queue1 1"

lemma ex_queue0_facts:
  "queue_reachable ex_queue0" "tq_orderedItems ex_queue0 = []" "tq_messageIdItems ex_queue0 = Map.empty"
  "tq_sequenceNumberItems ex_queue0 = Map.empty" "qs_items ex_queue0 = ex_items" "tq_budget ex_queue0 = Some 0"
  "tq_minByteCount ex_queue0 = 5" "\<not> tq_lifetimeBudget ex_queue0"
proof -
  show "queue_reachable ex_queue0"
    unfolding ex_queue0_def newReceiveQueue_def
    by (rule qr_new [OF receive_cmp_ok, where n = 5]) (auto simp: in64_def)
  show "tq_orderedItems ex_queue0 = []" "tq_messageIdItems ex_queue0 = Map.empty"
    "tq_sequenceNumberItems ex_queue0 = Map.empty" "qs_items ex_queue0 = ex_items" "tq_budget ex_queue0 = Some 0"
    "tq_minByteCount ex_queue0 = 5" "\<not> tq_lifetimeBudget ex_queue0"
    by (simp_all add: ex_queue0_def newReceiveQueue_def setBudget_def newTransferQueue_def Let_def)
qed

lemma ex_queue1_facts:
  "fresh_item ex_queue0 3" "queue_reachable ex_queue1" "mset (tq_orderedItems ex_queue1) = {#3#}"
  "tq_messageIdItems ex_queue1 = [[3] \<mapsto> 3]" "tq_sequenceNumberItems ex_queue1 = [3 \<mapsto> 3]" "same_items ex_queue0 ex_queue1"
proof -
  note F = ex_queue0_facts
  show fresh: "fresh_item ex_queue0 3" by (simp add: fresh_item_def F)
  show "queue_reachable ex_queue1" unfolding ex_queue1_def by (rule qr_step [OF F(1) qs_add [OF fresh]])
  note A = Add_wf [OF queue_reachable_wf [OF F(1)], of 3]
  show "mset (tq_orderedItems ex_queue1) = {#3#}" "tq_messageIdItems ex_queue1 = [[3] \<mapsto> 3]"
    "tq_sequenceNumberItems ex_queue1 = [3 \<mapsto> 3]" "same_items ex_queue0 ex_queue1"
    using A F by (simp_all add: ex_queue1_def ex_items_def)
qed

lemma ex_queue1_items:
  "ti_messageId (qs_items ex_queue1 a) = [of_nat a]" "ti_sequenceNumber (qs_items ex_queue1 a) = of_nat a"
  "ti_messageByteCount (qs_items ex_queue1 a) = 10" "QueueByteCount (qs_items ex_queue1 a) = 10"
  using ex_queue1_facts(6) ex_queue0_facts(5) by (simp_all add: same_items_def ex_items_def QueueByteCount_def)

lemma ex_queue2_facts:
  "fresh_item ex_queue1 1" "queue_reachable ex_queue2" "mset (tq_orderedItems ex_queue2) = {#1, 3#}"
  "tq_messageIdItems ex_queue2 = [[3] \<mapsto> 3, [1] \<mapsto> 1]" "tq_sequenceNumberItems ex_queue2 = [3 \<mapsto> 3, 1 \<mapsto> 1]"
  "tq_orderedItems ex_queue2 \<noteq> []"
proof -
  note F = ex_queue1_facts
  have o: "set (tq_orderedItems ex_queue1) = {3}" using F(3) by (metis set_mset_add_mset_insert set_mset_empty set_mset_mset)
  show fresh: "fresh_item ex_queue1 1" by (simp add: fresh_item_def F ex_queue1_items o)
  show "queue_reachable ex_queue2" unfolding ex_queue2_def by (rule qr_step [OF F(2) qs_add [OF fresh]])
  note A = Add_wf [OF queue_reachable_wf [OF F(2)], of 1] and f = fresh [unfolded fresh_item_def]
  show m: "mset (tq_orderedItems ex_queue2) = {#1, 3#}" using A(2) f F(3) by (simp add: ex_queue2_def)
  show "tq_messageIdItems ex_queue2 = [[3] \<mapsto> 3, [1] \<mapsto> 1]" "tq_sequenceNumberItems ex_queue2 = [3 \<mapsto> 3, 1 \<mapsto> 1]"
    using A(4,5) f F(4,5) by (simp_all add: ex_queue2_def ex_queue1_items)
  show "tq_orderedItems ex_queue2 \<noteq> []" using m by auto
qed

section \<open>Properties of the transfer queue\<close>

text \<open>
  C18. In every state a queue can reach, whatever the interleaving of its methods and of other
  users of the pool: both slices are heaps for the queue's order and its reverse and hold the
  same items without repetition, every item knows its position in both, the two indexes map
  exactly the queued items, the byte counters are the sums over the queued items, and the
  borrowed counter is what the queue holds above its floor.
\<close>

theorem queue_invariant:
  assumes "queue_reachable s"
  shows "queue_wf s"
  by (rule queue_reachable_wf [OF assms])

theorem queue_invariant_witness: "queue_wf ex_queue2"
  by (rule queue_invariant [OF ex_queue2_facts(2)])

text \<open>
  C19. Removing never panics: in a reachable state \<open>RemoveByMessageId\<close>, \<open>RemoveBySequenceNumber\<close> and
  \<open>RemoveFirst\<close> return exactly the item that the lookup of that key, or \<open>PeekFirst\<close>,
  shows (nil if there is none), take this one item out of the queue and leave a well-formed
  queue of the others; afterwards the key is not found.
\<close>

theorem queue_remove_exact:
  assumes "queue_reachable s"
  shows "(\<exists>s'. RemoveByMessageId s i = Some (GetByMessageId s i, s') \<and> removal s (GetByMessageId s i) s' \<and> GetByMessageId s' i = None)
    \<and> (\<exists>s'. RemoveBySequenceNumber s n = Some (GetBySequenceNumber s n, s') \<and> removal s (GetBySequenceNumber s n) s'
         \<and> GetBySequenceNumber s' n = None)
    \<and> (\<exists>s'. RemoveFirst s = Some (PeekFirst s, s') \<and> removal s (PeekFirst s) s')"
proof -
  note wf = queue_reachable_wf [OF assms]
  show ?thesis
    using RemoveBy_removal(1) [OF wf, of i] RemoveBy_removal(2) [OF wf, of n] RemoveFirst_removal [OF wf] removal_gone [OF wf]
    unfolding GetByMessageId_def GetBySequenceNumber_def by blast
qed

theorem queue_remove_exact_witness: "\<exists>s'. RemoveByMessageId ex_queue2 [3] = Some (Some 3, s')"
  using queue_remove_exact [OF ex_queue2_facts(2), of "[3]" 0] by (auto simp: GetByMessageId_def ex_queue2_facts)

text \<open>
  In a reachable state \<open>PeekFirst\<close> and \<open>PeekLast\<close> are nil exactly for the empty queue, and
  otherwise are queued items that no queued item precedes, or follows, in the queue's order.
\<close>

theorem queue_peek:
  assumes "queue_reachable s"
  shows "(PeekFirst s = None \<longleftrightarrow> IsEmpty s) \<and> (PeekLast s = None \<longleftrightarrow> IsEmpty s)
    \<and> (\<forall>a b c. PeekFirst s = Some a \<longrightarrow> PeekLast s = Some b \<longrightarrow> c \<in> set (Snapshot s) \<longrightarrow>
         a \<in> set (Snapshot s) \<and> b \<in> set (Snapshot s) \<and> tq_cmp s a c \<le> 0 \<and> tq_cmp s c b \<le> 0)"
proof -
  note wf = queue_reachable_wf [OF assms]
  have m: "mset (tq_maxItems s) = mset (tq_orderedItems s)" using wf by (simp add: queue_wf_def)
  then have e: "tq_maxItems s = [] \<longleftrightarrow> tq_orderedItems s = []" by auto
  have "tq_orderedItems s \<noteq> [] \<Longrightarrow> tq_maxItems s ! 0 \<in> set (tq_orderedItems s)"
    using m e by (metis length_greater_0_conv nth_mem set_mset_mset)
  then show ?thesis
    using queue_order [OF wf] e
    by (auto simp: PeekFirst_def PeekLast_def max_PeekFirst_def IsEmpty_def Snapshot_def)
qed

theorem queue_peek_witness: "PeekFirst ex_queue2 \<noteq> None"
  using queue_peek [OF ex_queue2_facts(2)] ex_queue2_facts(6) by (simp add: IsEmpty_def)

text \<open>
  C20. Taking the items off the head one by one never fails, ends after as many removals as
  there are items, and yields all of them in ascending order; \<open>AscendingItems\<close> is such an
  ascending listing too, without changing the queue.
\<close>

theorem queue_drains_in_order:
  assumes "queue_reachable s"
  shows "(\<exists>xs. drain (fst (QueueSize s)) s = Some xs \<and> mset xs = mset (Snapshot s)
      \<and> sorted_wrt (\<lambda>a b. tq_cmp s a b \<le> 0) xs)
    \<and> mset (AscendingItems s) = mset (Snapshot s) \<and> sorted_wrt (\<lambda>a b. tq_cmp s a b \<le> 0) (AscendingItems s)"
proof -
  note wf = queue_reachable_wf [OF assms]
  have "cmp_ok (tq_cmp s)" using wf by (simp add: queue_wf_def min_ok_def min_inv_def)
  then show ?thesis
    using drain_sorted [OF wf refl] SortFunc_sorted [of "tq_cmp s"]
    by (simp add: QueueSize_def Snapshot_def AscendingItems_def)
qed

theorem queue_drains_in_order_witness:
  "\<exists>xs. drain (fst (QueueSize ex_queue2)) ex_queue2 = Some xs \<and> mset xs = {#1, 3#}"
  using queue_drains_in_order [OF ex_queue2_facts(2)] by (auto simp: Snapshot_def ex_queue2_facts)

text \<open>
  C21. Adding a new item and looking it up: afterwards both lookups and \<open>ContainsMessageId\<close> find
  it, and removing it by its id gives it back and restores the items, both byte counters
  and the borrowed counter of the queue.
\<close>

theorem queue_add_remove:
  assumes "queue_reachable s" and "fresh_item s item"
  defines "i \<equiv> ti_messageId (qs_items s item)" and "n \<equiv> ti_sequenceNumber (qs_items s item)"
  shows "GetByMessageId (Add s item) i = Some item \<and> GetBySequenceNumber (Add s item) n = Some item
    \<and> ContainsMessageId (Add s item) i = (n, True)
    \<and> (\<exists>s'. RemoveByMessageId (Add s item) i = Some (Some item, s') \<and> mset (Snapshot s') = mset (Snapshot s)
         \<and> tq_byteCount s' = tq_byteCount s \<and> tq_queueByteCount s' = tq_queueByteCount s
         \<and> tq_borrowedByteCount s' = tq_borrowedByteCount s)"
proof -
  note wf = queue_reachable_wf [OF assms(1)]
  note A = Add_wf [OF wf] assms(2) [unfolded fresh_item_def]
  have g: "GetByMessageId (Add s item) i = Some item" "GetBySequenceNumber (Add s item) n = Some item"
    using A by (auto simp: GetByMessageId_def GetBySequenceNumber_def i_def n_def)
  moreover have "ContainsMessageId (Add s item) i = (n, True)"
    using A g(1) by (auto simp: ContainsMessageId_def GetByMessageId_def n_def same_items_def)
  moreover obtain s' where s': "RemoveByMessageId (Add s item) i = Some (Some item, s')" "removal (Add s item) (Some item) s'"
    using RemoveBy_removal(1) [of "Add s item" i] A g(1) by auto
  have same: "same_items s s'" using A s'(2) by (auto simp: removal_def intro: same_items_trans)
  have m: "mset (tq_orderedItems s') = mset (tq_orderedItems s)" using A s'(2) by (auto simp: removal_def)
  have wf': "queue_wf s'" using s'(2) by (simp add: removal_def)
  have b: "tq_byteCount s' = tq_byteCount s" "tq_queueByteCount s' = tq_queueByteCount s"
    using wf wf' m same by (simp_all add: queue_wf_def counted_def same_items_def)
  then have "tq_borrowedByteCount s' = tq_borrowedByteCount s"
    using wf wf' same by (simp add: queue_wf_def borrow_ok_def same_items_def cong: option.case_cong)
  with g s'(1) m b show ?thesis
    using calculation by (auto simp: Snapshot_def)
qed

theorem queue_add_remove_witness: "GetByMessageId (Add ex_queue0 3) [3] = Some 3"
  using queue_add_remove [OF ex_queue0_facts(1) ex_queue1_facts(1)] by (simp add: ex_queue0_facts ex_items_def)

lemma Clear_same:
  "tq_minByteCount (snd (Clear s)) = tq_minByteCount s" "tq_budget (snd (Clear s)) = tq_budget s"
  "tq_lifetimeBudget (snd (Clear s)) = tq_lifetimeBudget s"
proof -
  let ?s = "s\<lparr>tq_orderedItems := [], tq_maxItems := [], tq_messageIdItems := Map.empty, tq_sequenceNumberItems := Map.empty\<rparr>"
  note u = update_fields(6) [of ?s "i64 (- tq_byteCount ?s)" "i64 (- tq_queueByteCount ?s)"]
  show "tq_minByteCount (snd (Clear s)) = tq_minByteCount s" "tq_budget (snd (Clear s)) = tq_budget s"
    "tq_lifetimeBudget (snd (Clear s)) = tq_lifetimeBudget s"
    using u by (auto simp: Clear_def Let_def same_items_def split: option.split)
qed

lemma queue_step_min: "queue_step s s' \<Longrightarrow> queue_wf s \<Longrightarrow> tq_minByteCount s' = tq_minByteCount s"
proof (induction rule: queue_step.induct)
  case (qs_add s item)
  then show ?case using Add_wf [of s item] by (auto simp: fresh_item_def same_items_def)
next
  case (qs_first s r s')
  then show ?case using RemoveFirst_removal [of s] by (auto simp: removal_def same_items_def)
next
  case (qs_byId s i r s')
  then show ?case using RemoveBy_removal(1) [of s i] by (auto simp: removal_def same_items_def)
next
  case (qs_bySequence s n r s')
  then show ?case using RemoveBy_removal(2) [of s n] by (auto simp: removal_def same_items_def)
qed (simp_all add: Clear_same)

lemma queue_reachable_min: "queue_reachable s \<Longrightarrow> 0 \<le> tq_minByteCount s \<and> in64 (tq_minByteCount s)"
proof (induction rule: queue_reachable.induct)
  case (qr_new cmp n s items m budget s')
  then show ?case by (auto simp: setLifetimeBudget_def setBudget_def newTransferQueue_def Let_def in64_def split: option.split)
next
  case (qr_step s s')
  then show ?case using queue_step_min [OF _ queue_reachable_wf] by simp
qed

text \<open>
  C22. Borrowing is conserved, in each of the three modes of a queue. A queue with a pool that
  borrows changes, when an item is added, the use of every level of the pool by exactly what its
  borrowed counter grows by, and \<open>Clear\<close> gives back exactly what is borrowed. A queue in lifetime
  mode (its items are paid for by their owners for as long as they live) and a queue without a
  pool move the use of no pool: \<open>Add\<close> leaves the pools as they are, and \<open>Clear\<close> changes the use
  of none. In every mode \<open>Clear\<close> hands back the items and leaves an empty queue that has borrowed
  nothing.
\<close>

theorem queue_pool_conserved:
  assumes "queue_reachable s" and "fresh_item s item"
  shows "(if tq_budget s = None \<or> tq_lifetimeBudget s then qs_mem (Add s item) = qs_mem s
      else \<forall>x. bg_total (budgets (qs_mem (Add s item)) x) = bg_total (budgets (qs_mem s) x)
        \<and> bg_used (budgets (qs_mem (Add s item)) x) =
          (if x \<in> set (chain (budgets (qs_mem s)) (the (tq_budget s))) \<and> tq_borrowedByteCount (Add s item) \<noteq> tq_borrowedByteCount s
           then i64 (bg_used (budgets (qs_mem s) x) + (tq_borrowedByteCount (Add s item) - tq_borrowedByteCount s))
           else bg_used (budgets (qs_mem s) x)))
    \<and> fst (Clear s) = Snapshot s \<and> IsEmpty (snd (Clear s)) \<and> tq_borrowedByteCount (snd (Clear s)) = 0
    \<and> (\<forall>x. bg_used (budgets (qs_mem (snd (Clear s))) x) =
         (if tq_budget s \<noteq> None \<and> \<not> tq_lifetimeBudget s \<and> x \<in> set (chain (budgets (qs_mem s)) (the (tq_budget s)))
             \<and> tq_borrowedByteCount s \<noteq> 0
          then i64 (bg_used (budgets (qs_mem s) x) - tq_borrowedByteCount s) else bg_used (budgets (qs_mem s) x)))"
proof -
  note wf = queue_reachable_wf [OF assms(1)] and mn = queue_reachable_min [OF assms(1)]
  have add: "pool_follows s (Add s item)"
    using Add_wf(6) [OF wf] assms(2) pool_follows_cong [OF pool_follows_update, of s] unfolding fresh_item_def by metis
  define s1 where "s1 = s\<lparr>tq_orderedItems := [], tq_maxItems := [], tq_messageIdItems := Map.empty,
      tq_sequenceNumberItems := Map.empty\<rparr>"
  define s2 where "s2 = updateByteCountWithLock s1 (i64 (- tq_byteCount s1)) (i64 (- tq_queueByteCount s1))"
  have c: "snd (Clear s) = (case tq_budget s2 of Some b \<Rightarrow> if tq_floorRegistered s2
      then s2\<lparr>qs_mem := removeFloor (qs_mem s2) b (tq_minByteCount s2), tq_floorRegistered := False\<rparr> else s2 | None \<Rightarrow> s2)"
    unfolding Clear_def Let_def s1_def [symmetric] s2_def [symmetric] by (simp cong: option.case_cong)
  have fl: "bg_used (budgets (removeFloor m b n) x) = bg_used (budgets m x)" for m b n x by (simp add: removeFloor_def)
  have u: "bg_used (budgets (qs_mem (snd (Clear s))) x) = bg_used (budgets (qs_mem s2) x)"
    "tq_borrowedByteCount (snd (Clear s)) = tq_borrowedByteCount s2" for x
    unfolding c by (simp_all add: fl split: option.split)
  have z: "max 0 (i64 (- tq_minByteCount s)) = 0" using mn i64_id [of "- tq_minByteCount s"] by (auto simp: in64_def)
  have none: "tq_budget s = None \<Longrightarrow> tq_borrowedByteCount s = 0" using wf by (simp add: queue_wf_def borrow_ok_def)
  have bor: "tq_borrowedByteCount s2 = 0"
    using z none by (cases "tq_budget s") (simp_all add: s2_def update_fields s1_def)
  have "pool_follows s s2"
    unfolding s2_def by (rule pool_follows_cong [OF pool_follows_update]) (simp_all add: s1_def same_items_def)
  then have "bg_used (budgets (qs_mem s2) x) =
      (if tq_budget s \<noteq> None \<and> \<not> tq_lifetimeBudget s \<and> x \<in> set (chain (budgets (qs_mem s)) (the (tq_budget s))) \<and> tq_borrowedByteCount s \<noteq> 0
       then i64 (bg_used (budgets (qs_mem s) x) - tq_borrowedByteCount s) else bg_used (budgets (qs_mem s) x))" for x
    using bor by (cases "tq_budget s"; cases "tq_lifetimeBudget s") (auto simp: pool_follows_def)
  moreover have "if tq_budget s = None \<or> tq_lifetimeBudget s then qs_mem (Add s item) = qs_mem s
      else \<forall>x. bg_total (budgets (qs_mem (Add s item)) x) = bg_total (budgets (qs_mem s) x)
        \<and> bg_used (budgets (qs_mem (Add s item)) x) =
          (if x \<in> set (chain (budgets (qs_mem s)) (the (tq_budget s))) \<and> tq_borrowedByteCount (Add s item) \<noteq> tq_borrowedByteCount s
           then i64 (bg_used (budgets (qs_mem s) x) + (tq_borrowedByteCount (Add s item) - tq_borrowedByteCount s))
           else bg_used (budgets (qs_mem s) x))"
    using add by (cases "tq_budget s") (simp_all add: pool_follows_def)
  ultimately show ?thesis
    using u bor Clear_wf(2,3) [OF wf] by (simp add: Snapshot_def IsEmpty_def)
qed

text \<open>
  \<open>CanAddWithQueueByteCount\<close> is sound: when it admits an item of the announced sizes to a
  non-empty queue, adding the item keeps the queue under its own maximum and overdraws no pool
  above it.
\<close>

theorem canAdd_sound:
  assumes "queue_reachable s" and "fresh_item s item" and "tq_orderedItems s \<noteq> []"
    and bc: "bc = ti_messageByteCount (qs_items s item)" and qc: "qc = QueueByteCount (qs_items s item)"
    and "CanAddWithQueueByteCount s bc qc maxByteCount" and "tq_budget s = Some b" and "\<not> tq_lifetimeBudget s"
    and "0 \<le> tq_minByteCount s" and "in64 (tq_minByteCount s)" and "0 \<le> tq_queueByteCount s" and "0 < qc"
    and "in64 (tq_queueByteCount s + qc)"
    and "\<forall>x \<in> set (chain (budgets (qs_mem s)) b). sane_budget (qs_mem s) x
      \<and> bg_used (budgets (qs_mem s) x) \<le> bg_total (budgets (qs_mem s) x)"
  shows "tq_byteCount (Add s item) < maxByteCount
    \<and> (\<forall>x \<in> set (chain (budgets (qs_mem s)) b).
         bg_used (budgets (qs_mem (Add s item)) x) \<le> bg_total (budgets (qs_mem (Add s item)) x))"
proof -
  note wf = queue_reachable_wf [OF assms(1)]
  obtain s2 where s2: "Add s item = updateByteCountWithLock s2 bc qc" "tq_byteCount s2 = tq_byteCount s"
    "tq_queueByteCount s2 = tq_queueByteCount s" "tq_borrowedByteCount s2 = tq_borrowedByteCount s" "qs_mem s2 = qs_mem s" "same_items s s2"
    using Add_wf(6) [OF wf] assms(2) bc qc unfolding fresh_item_def by blast
  let ?q = "tq_queueByteCount s" and ?n = "tq_minByteCount s"
  have w: "i64 (?q + qc) = ?q + qc" "i64 (?q + 1) = ?q + 1" "i64 (?q + qc - ?n) = ?q + qc - ?n" "i64 (?q - ?n) = ?q - ?n"
    using assms(9-13) by (auto intro!: i64_id simp: in64_def)
  have bor: "tq_borrowedByteCount s = max 0 (?q - ?n)" using wf assms(7) w by (simp add: queue_wf_def borrow_ok_def)
  have bor': "tq_borrowedByteCount (Add s item) = max 0 (?q + qc - ?n)"
    using s2 assms(7) w by (simp add: update_fields same_items_def)
  let ?d = "max 0 (?q + qc - ?n) - max 0 (?q - ?n)"
  have d: "i64 ?d = ?d" "0 \<le> ?d" using assms(9-13) by (auto intro!: i64_id simp: in64_def max_def)
  have "max (?q + qc) (?q + 1) = ?q + qc" using assms(12) by simp
  then have can: "\<not> maxByteCount \<le> i64 (tq_byteCount s + bc)" "?d \<le> Available (qs_mem s) b"
    using assms(3,6,7) w d bor by (auto simp: CanAddWithQueueByteCount_def Let_def split: if_splits)
  have pf: "pool_follows s (Add s item)"
    unfolding s2(1) by (rule pool_follows_cong [OF pool_follows_update s2(6,5,4)])
  have "bg_used (budgets (qs_mem (Add s item)) x) \<le> bg_total (budgets (qs_mem (Add s item)) x)"
    if x: "x \<in> set (chain (budgets (qs_mem s)) b)" for x
  proof -
    have "?d \<le> own_available (budgets (qs_mem s) x)" using can(2) x by (simp add: le_Available)
    then have "bg_used (budgets (qs_mem s) x) + ?d \<le> bg_total (budgets (qs_mem s) x)"
      using assms(14) x own_available_room [of "qs_mem s" x] by (auto simp: room_at_def)
    moreover from this have "i64 (bg_used (budgets (qs_mem s) x) + ?d) = bg_used (budgets (qs_mem s) x) + ?d"
      using assms(14) x d(2) by (intro i64_id) (auto simp: sane_budget_def in64_def)
    ultimately show ?thesis
      using pf assms(7,8,14) x bor bor' by (simp add: pool_follows_def)
  qed
  moreover have "tq_byteCount (Add s item) < maxByteCount" using can(1) s2 by (simp add: update_fields)
  ultimately show ?thesis by blast
qed

lemma ex_queue1_pool:
  "qs_mem ex_queue1 = Reserve (qs_mem ex_queue0) 0 5" "tq_byteCount ex_queue1 = 10" "tq_queueByteCount ex_queue1 = 10"
  "tq_borrowedByteCount ex_queue1 = 5"
proof -
  obtain s2 where s2: "ex_queue1 = updateByteCountWithLock s2 10 10" "tq_byteCount s2 = 0"
    "tq_queueByteCount s2 = 0" "tq_borrowedByteCount s2 = 0" "qs_mem s2 = qs_mem ex_queue0" "same_items ex_queue0 s2"
    using Add_wf(6) [OF queue_reachable_wf [OF ex_queue0_facts(1)], of 3] ex_queue1_facts(1)
    unfolding fresh_item_def ex_queue1_def
    by (auto simp: ex_queue0_facts ex_items_def QueueByteCount_def)
      (auto simp: ex_queue0_def newReceiveQueue_def setBudget_def newTransferQueue_def Let_def)
  have "tq_budget s2 = Some 0" "tq_minByteCount s2 = 5" "\<not> tq_lifetimeBudget s2"
    using s2(6) ex_queue0_facts by (simp_all add: same_items_def)
  then show "qs_mem ex_queue1 = Reserve (qs_mem ex_queue0) 0 5" "tq_byteCount ex_queue1 = 10" "tq_queueByteCount ex_queue1 = 10"
    "tq_borrowedByteCount ex_queue1 = 5"
    using s2(2-5) unfolding s2(1) by (simp_all add: updateByteCountWithLock_def Let_def i64_def)
qed

lemma ex_queue1_budget:
  "budgets (qs_mem ex_queue1) 0 = empty_budget\<lparr>bg_total := 100, bg_used := 5, bg_reserved := 5, bg_floor := 5\<rparr>"
  by (simp add: ex_queue1_pool ex_queue0_def newReceiveQueue_def setBudget_def newTransferQueue_def Let_def addFloor_def
      NewTransferMemoryBudget_def Reserve_def requiresAdmissionLock_def charge_def empty_budget_def mem0_def i64_def)

lemma ex_queue1_chain: "chain (budgets (qs_mem ex_queue1)) 0 = [0]"
  by (rule chain_root) (simp add: ex_queue1_budget empty_budget_def)

definition ex_lifetime_queue :: qstate where
  "ex_lifetime_queue = Add (setLifetimeBudget ex_queue0) 3"

lemma ex_lifetime_queue_facts:
  "queue_reachable ex_lifetime_queue" "fresh_item ex_lifetime_queue 1" "tq_budget ex_lifetime_queue = Some 0"
  "tq_lifetimeBudget ex_lifetime_queue" "tq_borrowedByteCount ex_lifetime_queue = 10"
proof -
  let ?s = "setLifetimeBudget ex_queue0"
  have r: "queue_reachable ?s"
    by (rule qr_new [OF receive_cmp_ok _ _ refl disjI2]) (simp_all add: ex_queue0_def newReceiveQueue_def in64_def)
  have f: "tq_orderedItems ?s = []" "tq_messageIdItems ?s = Map.empty" "tq_sequenceNumberItems ?s = Map.empty" "qs_items ?s = ex_items"
    "tq_budget ?s = Some 0" "tq_minByteCount ?s = 0" "tq_lifetimeBudget ?s" "tq_queueByteCount ?s = 0"
    by (simp_all add: ex_queue0_def newReceiveQueue_def setLifetimeBudget_def setBudget_def newTransferQueue_def Let_def)
  have fresh: "fresh_item ?s 3" by (simp add: fresh_item_def f)
  show reach: "queue_reachable ex_lifetime_queue" unfolding ex_lifetime_queue_def by (rule qr_step [OF r qs_add [OF fresh]])
  note A = Add_wf [OF queue_reachable_wf [OF r], of 3, unfolded f, simplified]
  have same: "same_items ?s ex_lifetime_queue" "mset (tq_orderedItems ex_lifetime_queue) = {#3#}"
    "tq_messageIdItems ex_lifetime_queue = [[3] \<mapsto> 3]" "tq_sequenceNumberItems ex_lifetime_queue = [3 \<mapsto> 3]"
    using A by (simp_all add: ex_lifetime_queue_def ex_items_def)
  then show b: "tq_budget ex_lifetime_queue = Some 0" "tq_lifetimeBudget ex_lifetime_queue" by (simp_all add: same_items_def f)
  have i: "QueueByteCount (qs_items ex_lifetime_queue a) = 10" "ti_messageId (qs_items ex_lifetime_queue a) = [of_nat a]"
    "ti_sequenceNumber (qs_items ex_lifetime_queue a) = of_nat a" for a
    using same(1) by (simp_all add: same_items_def f ex_items_def QueueByteCount_def)
  have "set (tq_orderedItems ex_lifetime_queue) = {3}" using same(2) by (metis set_mset_add_mset_insert set_mset_empty set_mset_mset)
  then show "fresh_item ex_lifetime_queue 1" by (simp add: fresh_item_def same i)
  have "tq_queueByteCount ex_lifetime_queue = 10" "tq_minByteCount ex_lifetime_queue = 0"
    using queue_reachable_wf [OF reach] same by (simp_all add: queue_wf_def counted_def i i64_def same_items_def f)
  then show "tq_borrowedByteCount ex_lifetime_queue = 10"
    using queue_reachable_wf [OF reach] b by (simp add: queue_wf_def borrow_ok_def i64_def)
qed

theorem queue_pool_conserved_witness:
  "bg_used (budgets (qs_mem ex_queue1) 0) = 5 \<and> bg_used (budgets (qs_mem (Add ex_queue1 1)) 0) = 15
   \<and> bg_used (budgets (qs_mem (snd (Clear ex_queue1))) 0) = 0 \<and> tq_borrowedByteCount (snd (Clear ex_queue1)) = 0
   \<and> tq_borrowedByteCount ex_lifetime_queue = 10 \<and> qs_mem (Add ex_lifetime_queue 1) = qs_mem ex_lifetime_queue
   \<and> bg_used (budgets (qs_mem (snd (Clear ex_lifetime_queue))) 0) = bg_used (budgets (qs_mem ex_lifetime_queue) 0)"
proof -
  note C = queue_pool_conserved [OF ex_queue1_facts(2) ex_queue2_facts(1)]
  have m: "tq_budget ex_queue1 = Some 0" "\<not> tq_lifetimeBudget ex_queue1" "tq_minByteCount ex_queue1 = 5"
    using ex_queue1_facts(6) ex_queue0_facts by (simp_all add: same_items_def)
  have "tq_borrowedByteCount (Add ex_queue1 1) = 15"
  proof -
    have s: "same_items ex_queue1 ex_queue2" "mset (tq_orderedItems ex_queue2) = {#1, 3#}"
      using Add_wf [OF queue_reachable_wf [OF ex_queue1_facts(2)], of 1] ex_queue2_facts(1,3) by (simp_all add: fresh_item_def ex_queue2_def)
    then have "tq_queueByteCount ex_queue2 = 20"
      using queue_reachable_wf [OF ex_queue2_facts(2)] ex_queue1_items(4) by (simp add: queue_wf_def counted_def same_items_def i64_def)
    then show ?thesis
      using queue_reachable_wf [OF ex_queue2_facts(2)] s(1) m by (simp add: queue_wf_def borrow_ok_def same_items_def i64_def ex_queue2_def)
  qed
  then have "bg_used (budgets (qs_mem (Add ex_queue1 1)) 0) = 15" "bg_used (budgets (qs_mem (snd (Clear ex_queue1))) 0) = 0"
    "tq_borrowedByteCount (snd (Clear ex_queue1)) = 0"
    using C m ex_queue1_pool(4) ex_queue1_chain ex_queue1_budget by (simp_all add: i64_def)
  moreover have "qs_mem (Add ex_lifetime_queue 1) = qs_mem ex_lifetime_queue"
    "bg_used (budgets (qs_mem (snd (Clear ex_lifetime_queue))) 0) = bg_used (budgets (qs_mem ex_lifetime_queue) 0)"
    using queue_pool_conserved [OF ex_lifetime_queue_facts(1,2)] ex_lifetime_queue_facts(3,4) by simp_all
  ultimately show ?thesis using ex_queue1_budget ex_lifetime_queue_facts(5) by simp
qed

theorem canAdd_sound_witness: "tq_byteCount (Add ex_queue1 1) < 50"
proof -
  have "tq_budget ex_queue1 = Some 0" "tq_minByteCount ex_queue1 = 5" "\<not> tq_lifetimeBudget ex_queue1"
    using ex_queue1_facts(6) ex_queue0_facts by (simp_all add: same_items_def)
  moreover have "tq_orderedItems ex_queue1 \<noteq> []" using ex_queue1_facts(3) by auto
  moreover have "Available (qs_mem ex_queue1) 0 = 95"
    by (simp add: Available_def ex_queue1_chain own_available_def ex_queue1_budget i64_def)
  moreover have "\<forall>x \<in> set (chain (budgets (qs_mem ex_queue1)) 0). sane_budget (qs_mem ex_queue1) x
      \<and> bg_used (budgets (qs_mem ex_queue1) x) \<le> bg_total (budgets (qs_mem ex_queue1) x)"
    by (simp add: ex_queue1_chain sane_budget_def ex_queue1_budget in64_def)
  ultimately show ?thesis
    using canAdd_sound [OF ex_queue1_facts(2) ex_queue2_facts(1) _ refl refl, of 50 0]
    by (simp add: CanAddWithQueueByteCount_def ex_queue1_pool ex_queue1_items i64_def in64_def)
qed

end
