(* ===== verification/Ip_Wire.thy ===== *)
theory Ip_Wire
  imports Go_Prelude
begin

text \<open>
  The wire format of the packets the provider carries: the IPv6 extension header walker
  (ip_ipv6_ext.go), the IPv4, IPv6, UDP, TCP and ICMP echo parsers, the Internet checksum and
  the header writers (ip.go, ip_icmp.go).

  \<^item> A packet is a byte list. Every read is behind the length check that the code makes before
    it, so no read of the model is out of range.
  \<^item> A parser that reports failure is \<open>None\<close>, or \<open>Inl\<close> with the error it returns.
  \<^item> A \<open>net.IP\<close> is its bytes; nil is the empty list.
\<close>

unbundle bit_operations_syntax

section \<open>Reading fields\<close>

definition u16_at :: "bytes \<Rightarrow> nat \<Rightarrow> uint16" where
  "u16_at p i = getUint16 (p ! i) (p ! (i + 1))"

definition u32_at :: "bytes \<Rightarrow> nat \<Rightarrow> uint32" where
  "u32_at p i = getUint32 (p ! i) (p ! (i + 1)) (p ! (i + 2)) (p ! (i + 3))"

definition ip_version :: "bytes \<Rightarrow> byte" where
  "ip_version p = drop_bit 4 (p ! 0)"

definition Ipv4HeaderSizeWithoutExtensions :: nat where
  "Ipv4HeaderSizeWithoutExtensions = 20"

definition Ipv6HeaderSize :: nat where
  "Ipv6HeaderSize = 40"

definition UdpHeaderSize :: nat where
  "UdpHeaderSize = 8"

definition TcpHeaderSizeWithoutExtensions :: nat where
  "TcpHeaderSizeWithoutExtensions = 20"

definition IcmpHeaderSize :: nat where
  "IcmpHeaderSize = 8"

lemmas header_sizes = Ipv4HeaderSizeWithoutExtensions_def Ipv6HeaderSize_def UdpHeaderSize_def
  TcpHeaderSizeWithoutExtensions_def IcmpHeaderSize_def

definition protocolIcmp4 :: byte where "protocolIcmp4 = 1"

definition protocolTcp :: byte where "protocolTcp = 6"

definition protocolUdp :: byte where "protocolUdp = 17"

definition protocolIcmp6 :: byte where "protocolIcmp6 = 58"

lemmas protocol_numbers = protocolIcmp4_def protocolTcp_def protocolUdp_def protocolIcmp6_def

section \<open>IPv6 extension headers\<close>

definition ipv6FragmentHeaderSize :: nat where
  "ipv6FragmentHeaderSize = 8"

definition ipv6MaxExtensionHeaderCount :: nat where
  "ipv6MaxExtensionHeaderCount = 16"

record ipv6FragmentInfo =
  fi_headerOffset :: nat
  fi_precedingNextHeaderFieldOffset :: nat
  fi_nextHeader :: byte
  fi_offset :: nat
  fi_moreFragments :: bool
  fi_identification :: uint32

record ipv6HeaderWalk =
  wk_nextHeader :: byte
  wk_transportOffset :: nat
  wk_payloadEnd :: nat
  wk_fragment :: ipv6FragmentInfo
  wk_fragmentPresent :: bool
  wk_fragmented :: bool

text \<open>The headers with a length in units of eight bytes, all but authentication and fragment.\<close>

definition ipv6_plain_extension :: "byte \<Rightarrow> bool" where
  "ipv6_plain_extension nextHeader \<longleftrightarrow> nextHeader \<in> {0, 43, 60, 135, 139, 140}"

definition isIpv6ExtensionHeader :: "byte \<Rightarrow> bool" where
  "isIpv6ExtensionHeader nextHeader \<longleftrightarrow> nextHeader \<in> {0, 43, 44, 51, 60, 135, 139, 140}"

definition empty_walk :: ipv6HeaderWalk where
  "empty_walk = \<lparr>wk_nextHeader = 0, wk_transportOffset = 0, wk_payloadEnd = 0,
     wk_fragment = \<lparr>fi_headerOffset = 0, fi_precedingNextHeaderFieldOffset = 0, fi_nextHeader = 0,
       fi_offset = 0, fi_moreFragments = False, fi_identification = 0\<rparr>,
     wk_fragmentPresent = False, wk_fragmented = False\<rparr>"

definition read_fragment_header :: "bytes \<Rightarrow> nat \<Rightarrow> nat \<Rightarrow> ipv6FragmentInfo" where
  "read_fragment_header packet offset nextHeaderFieldOffset =
     (let offsetAndFlags = u16_at packet (offset + 2)
      in \<lparr>fi_headerOffset = offset, fi_precedingNextHeaderFieldOffset = nextHeaderFieldOffset,
          fi_nextHeader = packet ! offset, fi_offset = unat (offsetAndFlags AND NOT 7),
          fi_moreFragments = (offsetAndFlags AND 1 \<noteq> 0), fi_identification = u32_at packet (offset + 4)\<rparr>)"

fun walk_loop ::
  "nat \<Rightarrow> bytes \<Rightarrow> nat \<Rightarrow> byte \<Rightarrow> nat \<Rightarrow> nat \<Rightarrow> ipv6HeaderWalk \<Rightarrow> ipv6HeaderWalk option" where
  "walk_loop 0 packet payloadEnd nextHeader offset nextHeaderFieldOffset walk = None"
| "walk_loop (Suc i) packet payloadEnd nextHeader offset nextHeaderFieldOffset walk =
     (if ipv6_plain_extension nextHeader
      then
        if payloadEnd < offset + 8 then None
        else
          let headerByteCount = (unat (packet ! (offset + 1)) + 1) * 8
          in if payloadEnd < offset + headerByteCount then None
             else walk_loop i packet payloadEnd (packet ! offset) (offset + headerByteCount) offset walk
      else if nextHeader = 51
      then
        if payloadEnd < offset + 8 then None
        else
          let headerByteCount = (unat (packet ! (offset + 1)) + 2) * 4
          in if payloadEnd < offset + headerByteCount then None
             else walk_loop i packet payloadEnd (packet ! offset) (offset + headerByteCount) offset walk
      else if nextHeader = 44
      then
        if payloadEnd < offset + ipv6FragmentHeaderSize then None
        else if wk_fragmentPresent walk then None
        else
          let fragment = read_fragment_header packet offset nextHeaderFieldOffset;
              walk' = walk\<lparr>wk_fragment := fragment, wk_fragmentPresent := True\<rparr>
          in if fi_offset fragment \<noteq> 0 \<or> fi_moreFragments fragment
             then Some (walk'\<lparr>wk_nextHeader := packet ! offset,
                    wk_transportOffset := offset + ipv6FragmentHeaderSize, wk_payloadEnd := payloadEnd,
                    wk_fragmented := True\<rparr>)
             else walk_loop i packet payloadEnd (packet ! offset) (offset + ipv6FragmentHeaderSize) offset walk'
      else Some (walk\<lparr>wk_nextHeader := nextHeader, wk_transportOffset := offset, wk_payloadEnd := payloadEnd\<rparr>))"

definition walkIpv6ExtensionHeaders :: "bytes \<Rightarrow> ipv6HeaderWalk option" where
  "walkIpv6ExtensionHeaders packet =
     (if length packet < Ipv6HeaderSize \<or> ip_version packet \<noteq> 6 then None
      else
        let payloadEnd = Ipv6HeaderSize + unat (u16_at packet 4)
        in if length packet < payloadEnd then None
           else walk_loop ipv6MaxExtensionHeaderCount packet payloadEnd (packet ! 6) Ipv6HeaderSize 6 empty_walk)"

text \<open>The transport protocol, where it starts and where the payload ends.\<close>

definition ipv6TransportOffset :: "bytes \<Rightarrow> (byte \<times> nat \<times> nat) option" where
  "ipv6TransportOffset packet =
     (if length packet < Ipv6HeaderSize \<or> ip_version packet \<noteq> 6 then None
      else if \<not> isIpv6ExtensionHeader (packet ! 6)
      then
        let payloadEnd = Ipv6HeaderSize + unat (u16_at packet 4)
        in if length packet < payloadEnd then None else Some (packet ! 6, Ipv6HeaderSize, payloadEnd)
      else
        (case walkIpv6ExtensionHeaders packet of
           None \<Rightarrow> None
         | Some walk \<Rightarrow>
             if wk_fragmented walk then None
             else Some (wk_nextHeader walk, wk_transportOffset walk, wk_payloadEnd walk)))"

definition isIpv6FragmentPacket :: "bytes \<Rightarrow> bool" where
  "isIpv6FragmentPacket packet =
     (if length packet < Ipv6HeaderSize \<or> ip_version packet \<noteq> 6 then False
      else if \<not> isIpv6ExtensionHeader (packet ! 6) then False
      else (case walkIpv6ExtensionHeaders packet of None \<Rightarrow> False | Some walk \<Rightarrow> wk_fragmented walk))"

section \<open>IPv4 and IPv6\<close>

record parsedIp =
  pi_protocol :: byte
  pi_sourceIp :: bytes
  pi_destinationIp :: bytes
  pi_transport :: bytes

definition parseIpv4 :: "bytes \<Rightarrow> parsedIp option" where
  "parseIpv4 ipPacket =
     (if length ipPacket < Ipv4HeaderSizeWithoutExtensions then None
      else
        let headerByteCount = unat (ipPacket ! 0 AND 15) * 4;
            totalByteCount = unat (u16_at ipPacket 2)
        in if headerByteCount < Ipv4HeaderSizeWithoutExtensions \<or> totalByteCount < headerByteCount
             \<or> length ipPacket < totalByteCount
           then None
           else if u16_at ipPacket 6 AND 0x3fff \<noteq> 0 then None
           else Some \<lparr>pi_protocol = ipPacket ! 9, pi_sourceIp = subslice 12 16 ipPacket,
                  pi_destinationIp = subslice 16 20 ipPacket,
                  pi_transport = subslice headerByteCount totalByteCount ipPacket\<rparr>)"

definition parseIpv6 :: "bytes \<Rightarrow> parsedIp option" where
  "parseIpv6 ipPacket =
     (if length ipPacket < Ipv6HeaderSize then None
      else
        (case
           (if \<not> isIpv6ExtensionHeader (ipPacket ! 6)
            then
              let payloadEnd = Ipv6HeaderSize + unat (u16_at ipPacket 4)
              in if length ipPacket < payloadEnd then None else Some (ipPacket ! 6, Ipv6HeaderSize, payloadEnd)
            else
              (case walkIpv6ExtensionHeaders ipPacket of
                 None \<Rightarrow> None
               | Some walk \<Rightarrow>
                   if wk_fragmented walk then None
                   else Some (wk_nextHeader walk, wk_transportOffset walk, wk_payloadEnd walk)))
         of None \<Rightarrow> None
          | Some (ipProtocol, transportOffset, payloadEnd) \<Rightarrow>
              Some \<lparr>pi_protocol = ipProtocol, pi_sourceIp = subslice 8 24 ipPacket,
                pi_destinationIp = subslice 24 40 ipPacket,
                pi_transport = subslice transportOffset payloadEnd ipPacket\<rparr>))"

section \<open>UDP, TCP and ICMP echo\<close>

text \<open>The \<open>ttl\<close> of the parsed structs is left out: the parsers do not touch it, their caller fills it in.\<close>

record parsedUdp =
  pu_sourceIp :: bytes
  pu_destinationIp :: bytes
  pu_sourcePort :: uint16
  pu_destinationPort :: uint16
  pu_payload :: bytes

definition parseUdpPacket :: "bytes \<Rightarrow> bytes \<Rightarrow> bytes \<Rightarrow> parsedUdp option" where
  "parseUdpPacket sourceIp destinationIp transport =
     (if length transport < UdpHeaderSize then None
      else
        let udpByteCount = unat (u16_at transport 4)
        in if udpByteCount < UdpHeaderSize \<or> length transport < udpByteCount then None
           else Some \<lparr>pu_sourceIp = sourceIp, pu_destinationIp = destinationIp,
                  pu_sourcePort = u16_at transport 0, pu_destinationPort = u16_at transport 2,
                  pu_payload = subslice UdpHeaderSize udpByteCount transport\<rparr>)"

record tcpOptions =
  to_enableMss :: bool
  to_mss :: uint32
  to_enableWindowScale :: bool
  to_windowScale :: uint32
  to_enableTimestamp :: bool
  to_timestampValue :: uint32
  to_timestampEcho :: uint32

record parsedTcp =
  pt_sourceIp :: bytes
  pt_destinationIp :: bytes
  pt_sourcePort :: uint16
  pt_destinationPort :: uint16
  pt_fin :: bool
  pt_syn :: bool
  pt_rst :: bool
  pt_psh :: bool
  pt_ack :: bool
  pt_seq :: uint32
  pt_ackNumber :: uint32
  pt_windowSize :: uint16
  pt_options :: bytes
  pt_parsedOptions :: tcpOptions
  pt_payload :: bytes

definition tcp_option :: "byte \<Rightarrow> bytes \<Rightarrow> tcpOptions \<Rightarrow> tcpOptions" where
  "tcp_option kind body t =
     (if kind = 2 \<and> length body = 2
      then t\<lparr>to_enableMss := True, to_mss := ucast (max (u16_at body 0) 536)\<rparr>
      else if kind = 3 \<and> length body = 1
      then t\<lparr>to_enableWindowScale := True, to_windowScale := min (ucast (body ! 0)) 14\<rparr>
      else if kind = 8 \<and> length body = 8
      then t\<lparr>to_enableTimestamp := True, to_timestampValue := u32_at body 0,
             to_timestampEcho := u32_at body 4\<rparr>
      else t)"

function parseTcpOptions_loop :: "bytes \<Rightarrow> tcpOptions \<Rightarrow> tcpOptions" where
  "parseTcpOptions_loop options t =
     (case options of
        [] \<Rightarrow> t
      | kind # rest \<Rightarrow>
          if kind = 0 then t
          else if kind = 1 then parseTcpOptions_loop rest t
          else
            (case rest of
               [] \<Rightarrow> t
             | byteCount # body \<Rightarrow>
                 let optionByteCount = unat byteCount
                 in if optionByteCount < 2 \<or> length options < optionByteCount then t
                    else parseTcpOptions_loop (drop (optionByteCount - 2) body)
                           (tcp_option kind (take (optionByteCount - 2) body) t)))"
  by pat_completeness auto
termination
  by (relation "measure (\<lambda>(options, t). length options)") auto

declare parseTcpOptions_loop.simps [simp del]

definition parseTcpOptions :: "bytes \<Rightarrow> tcpOptions" where
  "parseTcpOptions options =
     parseTcpOptions_loop options
       \<lparr>to_enableMss = False, to_mss = 0, to_enableWindowScale = False, to_windowScale = 0,
        to_enableTimestamp = False, to_timestampValue = 0, to_timestampEcho = 0\<rparr>"

definition parseTcpPacket :: "bytes \<Rightarrow> bytes \<Rightarrow> bytes \<Rightarrow> parsedTcp option" where
  "parseTcpPacket sourceIp destinationIp transport =
     (if length transport < TcpHeaderSizeWithoutExtensions then None
      else
        let headerByteCount = unat (drop_bit 4 (transport ! 12)) * 4
        in if headerByteCount < TcpHeaderSizeWithoutExtensions \<or> length transport < headerByteCount then None
           else
             let flags = transport ! 13; options = subslice TcpHeaderSizeWithoutExtensions headerByteCount transport
             in Some \<lparr>pt_sourceIp = sourceIp, pt_destinationIp = destinationIp,
                  pt_sourcePort = u16_at transport 0, pt_destinationPort = u16_at transport 2,
                  pt_fin = (flags AND 1 \<noteq> 0), pt_syn = (flags AND 2 \<noteq> 0), pt_rst = (flags AND 4 \<noteq> 0),
                  pt_psh = (flags AND 8 \<noteq> 0), pt_ack = (flags AND 16 \<noteq> 0), pt_seq = u32_at transport 4,
                  pt_ackNumber = u32_at transport 8, pt_windowSize = u16_at transport 14,
                  pt_options = options, pt_parsedOptions = parseTcpOptions options,
                  pt_payload = drop headerByteCount transport\<rparr>)"

record parsedIcmp =
  pc_sourceIp :: bytes
  pc_destinationIp :: bytes
  pc_echoRequest :: bool
  pc_identifier :: uint16
  pc_sequenceNumber :: uint16
  pc_payload :: bytes

definition parseIcmpPacket :: "int \<Rightarrow> bytes \<Rightarrow> bytes \<Rightarrow> bytes \<Rightarrow> parsedIcmp option" where
  "parseIcmpPacket ipVersion sourceIp destinationIp transport =
     (if length transport < IcmpHeaderSize then None
      else if transport ! 1 \<noteq> 0 then None
      else
        let request = (ipVersion = 4 \<and> transport ! 0 = 8 \<or> ipVersion = 6 \<and> transport ! 0 = 128);
            reply = (ipVersion = 4 \<and> transport ! 0 = 0 \<or> ipVersion = 6 \<and> transport ! 0 = 129)
        in if \<not> request \<and> \<not> reply then None
           else Some \<lparr>pc_sourceIp = sourceIp, pc_destinationIp = destinationIp, pc_echoRequest = request,
                  pc_identifier = u16_at transport 4, pc_sequenceNumber = u16_at transport 6,
                  pc_payload = drop IcmpHeaderSize transport\<rparr>)"

section \<open>Flow paths\<close>

datatype IpProtocol = IpProtocolUnknown | IpProtocolTcp | IpProtocolUdp | IpProtocolIcmp

record IpPath =
  ip_Version :: int
  ip_Protocol :: IpProtocol
  ip_SourceIp :: bytes
  ip_SourcePort :: int
  ip_DestinationIp :: bytes
  ip_DestinationPort :: int
  ip_SequenceNumber :: uint32
  ip_Syn :: bool
  ip_Rst :: bool
  ip_Ack :: bool

definition new_path :: "int \<Rightarrow> IpProtocol \<Rightarrow> bytes \<Rightarrow> int \<Rightarrow> bytes \<Rightarrow> int \<Rightarrow> IpPath" where
  "new_path version protocol sourceIp sourcePort destinationIp destinationPort =
     \<lparr>ip_Version = version, ip_Protocol = protocol, ip_SourceIp = sourceIp, ip_SourcePort = sourcePort,
      ip_DestinationIp = destinationIp, ip_DestinationPort = destinationPort, ip_SequenceNumber = 0,
      ip_Syn = False, ip_Rst = False, ip_Ack = False\<rparr>"

definition path_Reverse :: "IpPath \<Rightarrow> IpPath" where
  "path_Reverse p = new_path (ip_Version p) (ip_Protocol p) (ip_DestinationIp p) (ip_DestinationPort p)
     (ip_SourceIp p) (ip_SourcePort p)"

definition path_Source :: "IpPath \<Rightarrow> IpPath" where
  "path_Source p = new_path (ip_Version p) (ip_Protocol p) (ip_SourceIp p) (ip_SourcePort p) [] 0"

definition path_Destination :: "IpPath \<Rightarrow> IpPath" where
  "path_Destination p = new_path (ip_Version p) (ip_Protocol p) [] 0 (ip_DestinationIp p) (ip_DestinationPort p)"

datatype path_error = EmptyPacket | NoSupport | NoSupportProtocol byte | BadIcmp | NoSupportVersion byte

text \<open>\<open>echoEnabled\<close> is \<open>icmpEchoParsingEnabled\<close>, a process-wide switch per address family.\<close>

definition parseIcmpIpPath ::
  "(int \<Rightarrow> bool) \<Rightarrow> int \<Rightarrow> byte \<Rightarrow> bytes \<Rightarrow> bytes \<Rightarrow> bytes \<Rightarrow> path_error + IpPath \<times> bytes" where
  "parseIcmpIpPath echoEnabled ipVersion ipProtocol sourceIp destinationIp transport =
     (if ipProtocol \<noteq> protocolIcmp4 \<and> ipProtocol \<noteq> protocolIcmp6 then Inl (NoSupportProtocol ipProtocol)
      else if (ipProtocol = protocolIcmp4) \<noteq> (ipVersion = 4) then Inl (NoSupportProtocol ipProtocol)
      else if \<not> echoEnabled ipVersion then Inl (NoSupportProtocol ipProtocol)
      else
        (case parseIcmpPacket ipVersion sourceIp destinationIp transport of
           None \<Rightarrow> Inl BadIcmp
         | Some icmp \<Rightarrow>
             let i = int (unat (pc_identifier icmp))
             in Inr (if pc_echoRequest icmp then new_path ipVersion IpProtocolIcmp sourceIp i destinationIp 0
                     else new_path ipVersion IpProtocolIcmp sourceIp 0 destinationIp i,
                     pc_payload icmp)))"

definition path_of_transport ::
  "(int \<Rightarrow> bool) \<Rightarrow> int \<Rightarrow> parsedIp \<Rightarrow> path_error + IpPath \<times> bytes" where
  "path_of_transport echoEnabled ipVersion ip =
     (if pi_protocol ip = protocolUdp
      then
        (case parseUdpPacket (pi_sourceIp ip) (pi_destinationIp ip) (pi_transport ip) of
           None \<Rightarrow> Inl NoSupport
         | Some udp \<Rightarrow>
             Inr (new_path ipVersion IpProtocolUdp (pi_sourceIp ip) (int (unat (pu_sourcePort udp)))
                    (pi_destinationIp ip) (int (unat (pu_destinationPort udp))), pu_payload udp))
      else if pi_protocol ip = protocolTcp
      then
        (case parseTcpPacket (pi_sourceIp ip) (pi_destinationIp ip) (pi_transport ip) of
           None \<Rightarrow> Inl NoSupport
         | Some tcp \<Rightarrow>
             Inr ((new_path ipVersion IpProtocolTcp (pi_sourceIp ip) (int (unat (pt_sourcePort tcp)))
                    (pi_destinationIp ip) (int (unat (pt_destinationPort tcp))))
                    \<lparr>ip_SequenceNumber := pt_seq tcp, ip_Syn := pt_syn tcp, ip_Rst := pt_rst tcp, ip_Ack := pt_ack tcp\<rparr>,
                  pt_payload tcp))
      else parseIcmpIpPath echoEnabled ipVersion (pi_protocol ip) (pi_sourceIp ip) (pi_destinationIp ip) (pi_transport ip))"

definition ParseIpPathWithPayload :: "(int \<Rightarrow> bool) \<Rightarrow> bytes \<Rightarrow> path_error + IpPath \<times> bytes" where
  "ParseIpPathWithPayload echoEnabled ipPacket =
     (if ipPacket = [] then Inl EmptyPacket
      else if ip_version ipPacket = 4
      then (case parseIpv4 ipPacket of None \<Rightarrow> Inl NoSupport | Some ip \<Rightarrow> path_of_transport echoEnabled 4 ip)
      else if ip_version ipPacket = 6
      then (case parseIpv6 ipPacket of None \<Rightarrow> Inl NoSupport | Some ip \<Rightarrow> path_of_transport echoEnabled 6 ip)
      else Inl (NoSupportVersion (ip_version ipPacket)))"

definition ParseIpPath :: "(int \<Rightarrow> bool) \<Rightarrow> bytes \<Rightarrow> path_error + IpPath" where
  "ParseIpPath echoEnabled ipPacket = map_sum id fst (ParseIpPathWithPayload echoEnabled ipPacket)"

section \<open>Checksums and header writers\<close>

fun checksumAdd :: "uint32 \<Rightarrow> bytes \<Rightarrow> uint32" where
  "checksumAdd acc [] = acc"
| "checksumAdd acc [b] = acc + push_bit 8 (ucast b)"
| "checksumAdd acc (a # b # bs) = checksumAdd (acc + ucast (getUint16 a b)) bs"

lemma unat_low16: "unat ((s :: uint32) AND 0xffff) = unat s mod 65536"
proof -
  have "s AND 0xffff = take_bit 16 s" by (simp add: take_bit_eq_mask mask_eq_exp_minus_1)
  then show ?thesis by (simp add: take_bit_eq_mod unat_mod)
qed

lemma unat_high16: "unat (drop_bit 16 (s :: uint32)) = unat s div 65536"
  by (simp add: drop_bit_eq_div unat_div)

lemma unat_fold_step: "unat (((s :: uint32) AND 0xffff) + drop_bit 16 s) = unat s mod 65536 + unat s div 65536"
proof -
  have "unat s < 2 ^ 32" using unsigned_less [of s, where 'a = nat] by simp
  then have "unat s div 65536 < 65536" by (simp add: less_mult_imp_div_less)
  moreover have "unat s mod 65536 < 65536" by simp
  ultimately have "unat s mod 65536 + unat s div 65536 < 4294967296" by linarith
  then show ?thesis
    by (simp add: unat_plus_if' unat_low16 unat_high16)
qed

lemma checksum_fold_less: "0xffff < (s :: uint32) \<Longrightarrow> unat ((s AND 0xffff) + drop_bit 16 s) < unat s"
proof -
  assume "0xffff < s"
  then have "65535 < unat s" by (simp add: word_less_nat_alt)
  moreover have "unat s = unat s div 65536 * 65536 + unat s mod 65536" by simp
  ultimately show ?thesis unfolding unat_fold_step by linarith
qed

function checksum_fold :: "uint32 \<Rightarrow> uint32" where
  "checksum_fold s = (if 0xffff < s then checksum_fold ((s AND 0xffff) + drop_bit 16 s) else s)"
  by pat_completeness auto
termination
  by (relation "measure unat") (auto dest: checksum_fold_less)

declare checksum_fold.simps [simp del]

definition checksumFinish :: "uint32 \<Rightarrow> uint16" where
  "checksumFinish s = NOT (ucast (checksum_fold s))"

definition transportChecksum :: "byte \<Rightarrow> bytes \<Rightarrow> bytes \<Rightarrow> bytes \<Rightarrow> uint16" where
  "transportChecksum protocol sourceIp destinationIp transport =
     (let s = checksumAdd (checksumAdd 0 sourceIp) destinationIp + ucast protocol + of_nat (length transport)
      in checksumFinish (checksumAdd s transport))"

definition writeIpv4Header :: "bytes \<Rightarrow> byte \<Rightarrow> bytes \<Rightarrow> bytes \<Rightarrow> bytes" where
  "writeIpv4Header packet ipProtocol sourceIp destinationIp =
     (let p = put_at 0 ([0x45, 0] @ putUint16 (of_nat (length packet)) @ [0, 0, 0, 0, 64, ipProtocol, 0, 0]) packet;
          p = put_at 12 (take 4 sourceIp) p;
          p = put_at 16 (take 4 destinationIp) p
      in put_at 10 (putUint16 (checksumFinish (checksumAdd 0 (subslice 0 Ipv4HeaderSizeWithoutExtensions p)))) p)"

definition writeIpv6Header :: "bytes \<Rightarrow> byte \<Rightarrow> bytes \<Rightarrow> bytes \<Rightarrow> bytes" where
  "writeIpv6Header packet ipProtocol sourceIp destinationIp =
     (let p = put_at 0 ([0x60, 0, 0, 0] @ putUint16 (of_nat (length packet - Ipv6HeaderSize)) @ [ipProtocol, 64]) packet;
          p = put_at 8 (take 16 sourceIp) p
      in put_at 24 (take 16 destinationIp) p)"

definition IP_To4 :: "bytes \<Rightarrow> bytes" where
  "IP_To4 ip =
     (if length ip = 4 then ip
      else if length ip = 16 \<and> take 12 ip = replicate 10 0 @ [255, 255] then drop 12 ip
      else [])"

definition IP_To16 :: "bytes \<Rightarrow> bytes" where
  "IP_To16 ip =
     (if length ip = 4 then replicate 10 0 @ [255, 255] @ ip else if length ip = 16 then ip else [])"

section \<open>The extension walk\<close>

definition walk_sound :: "bytes \<Rightarrow> nat \<Rightarrow> ipv6HeaderWalk \<Rightarrow> bool" where
  "walk_sound packet offset walk \<longleftrightarrow>
     offset \<le> wk_transportOffset walk \<and> wk_transportOffset walk \<le> wk_payloadEnd walk
   \<and> (\<not> wk_fragmented walk \<longrightarrow> \<not> isIpv6ExtensionHeader (wk_nextHeader walk))
   \<and> (wk_fragmented walk \<longrightarrow>
        (let f = wk_fragment walk
         in fi_headerOffset f + ipv6FragmentHeaderSize = wk_transportOffset walk
          \<and> fi_precedingNextHeaderFieldOffset f < fi_headerOffset f
          \<and> packet ! fi_precedingNextHeaderFieldOffset f = 44
          \<and> fi_nextHeader f = packet ! fi_headerOffset f \<and> wk_nextHeader walk = fi_nextHeader f
          \<and> (fi_offset f \<noteq> 0 \<or> fi_moreFragments f)
          \<and> offset \<le> fi_headerOffset f))"

lemma walk_sound_mono: "walk_sound packet b walk \<Longrightarrow> a \<le> b \<Longrightarrow> walk_sound packet a walk"
  by (auto simp: walk_sound_def Let_def)

lemma walk_loop_sound:
  assumes "walk_loop i packet payloadEnd nextHeader offset field walk = Some walk'" "offset \<le> payloadEnd"
    "field < offset" "packet ! field = nextHeader" "\<not> wk_fragmented walk"
  shows "walk_sound packet offset walk' \<and> wk_payloadEnd walk' = payloadEnd"
  using assms
proof (induction i arbitrary: nextHeader offset field walk)
  case (Suc i)
  let ?R = "\<lambda>h w. walk_loop i packet payloadEnd (packet ! offset) (offset + h) offset w = Some walk'"
  have rec: ?case if "?R h w" "offset + h \<le> payloadEnd" "0 < h" "\<not> wk_fragmented w" for h w
    using Suc.IH [OF that(1,2) _ refl that(4)] that(3) walk_sound_mono by fastforce
  consider (plain) "ipv6_plain_extension nextHeader" | (auth) "nextHeader = 51" | (frag) "nextHeader = 44"
    | (other) "\<not> isIpv6ExtensionHeader nextHeader"
    by (auto simp: ipv6_plain_extension_def isIpv6ExtensionHeader_def)
  then show ?case
  proof cases
    case plain
    then show ?thesis
      using Suc.prems(1,5) by (intro rec [of "(unat (packet ! (offset + 1)) + 1) * 8" walk]) (auto simp: Let_def split: if_splits)
  next
    case auth
    then have "\<not> ipv6_plain_extension nextHeader" by (simp add: ipv6_plain_extension_def)
    then show ?thesis
      using Suc.prems(1,5) auth by (intro rec [of "(unat (packet ! (offset + 1)) + 2) * 4" walk]) (auto simp: Let_def split: if_splits)
  next
    case frag
    let ?f = "read_fragment_header packet offset field"
    have n: "\<not> ipv6_plain_extension nextHeader" using frag by (simp add: ipv6_plain_extension_def)
    show ?thesis
    proof (cases "fi_offset ?f \<noteq> 0 \<or> fi_moreFragments ?f")
      case True
      then have "walk' = walk\<lparr>wk_fragment := ?f, wk_fragmentPresent := True, wk_nextHeader := packet ! offset,
          wk_transportOffset := offset + ipv6FragmentHeaderSize, wk_payloadEnd := payloadEnd, wk_fragmented := True\<rparr>"
        "offset + ipv6FragmentHeaderSize \<le> payloadEnd"
        using Suc.prems(1) frag n by (auto simp: Let_def split: if_splits)
      moreover have "fi_headerOffset ?f = offset" "fi_precedingNextHeaderFieldOffset ?f = field" "fi_nextHeader ?f = packet ! offset"
        by (simp_all add: read_fragment_header_def Let_def)
      ultimately show ?thesis using True Suc.prems(3,4) frag by (simp add: walk_sound_def)
    next
      case False
      then show ?thesis
        using Suc.prems(1,5) frag n
        by (intro rec [of ipv6FragmentHeaderSize "walk\<lparr>wk_fragment := ?f, wk_fragmentPresent := True\<rparr>"])
          (auto simp: Let_def ipv6FragmentHeaderSize_def split: if_splits)
    qed
  next
    case other
    then have "\<not> ipv6_plain_extension nextHeader" "nextHeader \<noteq> 51" "nextHeader \<noteq> 44"
      by (auto simp: ipv6_plain_extension_def isIpv6ExtensionHeader_def)
    then show ?thesis using Suc.prems(1,2,5) other by (auto simp: walk_sound_def)
  qed
qed simp

lemma walk_headers_sound:
  assumes "walkIpv6ExtensionHeaders packet = Some walk"
  shows "walk_sound packet Ipv6HeaderSize walk" "wk_payloadEnd walk \<le> length packet" "Ipv6HeaderSize \<le> length packet"
    "wk_payloadEnd walk = Ipv6HeaderSize + unat (u16_at packet 4)"
proof -
  let ?e = "Ipv6HeaderSize + unat (u16_at packet 4)"
  have l: "walk_loop ipv6MaxExtensionHeaderCount packet ?e (packet ! 6) Ipv6HeaderSize 6 empty_walk = Some walk"
    "?e \<le> length packet"
    using assms by (auto simp: walkIpv6ExtensionHeaders_def Let_def split: if_splits)
  have "walk_sound packet Ipv6HeaderSize walk \<and> wk_payloadEnd walk = ?e"
    by (rule walk_loop_sound [OF l(1)]) (simp_all add: header_sizes empty_walk_def)
  then show "walk_sound packet Ipv6HeaderSize walk" "wk_payloadEnd walk \<le> length packet" "Ipv6HeaderSize \<le> length packet"
    "wk_payloadEnd walk = ?e"
    using l(2) by simp_all
qed

lemma walk_no_extension:
  assumes "Ipv6HeaderSize \<le> length packet" "ip_version packet = 6" "\<not> isIpv6ExtensionHeader (packet ! 6)"
  shows "walkIpv6ExtensionHeaders packet =
    (if length packet < Ipv6HeaderSize + unat (u16_at packet 4) then None
     else Some (empty_walk\<lparr>wk_nextHeader := packet ! 6, wk_transportOffset := Ipv6HeaderSize,
       wk_payloadEnd := Ipv6HeaderSize + unat (u16_at packet 4)\<rparr>))"
proof -
  have "\<not> ipv6_plain_extension (packet ! 6)" "packet ! 6 \<noteq> 51" "packet ! 6 \<noteq> 44"
    using assms(3) by (auto simp: ipv6_plain_extension_def isIpv6ExtensionHeader_def)
  then have "walk_loop (Suc i) packet e (packet ! 6) Ipv6HeaderSize 6 empty_walk =
      Some (empty_walk\<lparr>wk_nextHeader := packet ! 6, wk_transportOffset := Ipv6HeaderSize, wk_payloadEnd := e\<rparr>)" for i e
    by simp
  from this [of 15] have "walk_loop ipv6MaxExtensionHeaderCount packet e (packet ! 6) Ipv6HeaderSize 6 empty_walk =
      Some (empty_walk\<lparr>wk_nextHeader := packet ! 6, wk_transportOffset := Ipv6HeaderSize, wk_payloadEnd := e\<rparr>)" for e
    by (simp add: ipv6MaxExtensionHeaderCount_def del: walk_loop.simps)
  then show ?thesis using assms(1,2) by (simp add: walkIpv6ExtensionHeaders_def Let_def)
qed

section \<open>The Internet checksum\<close>

fun csum :: "bytes \<Rightarrow> nat" where
  "csum [] = 0"
| "csum [b] = unat b * 256"
| "csum (a # b # bs) = unat (getUint16 a b) + csum bs"

lemma csum_append: "even (length xs) \<Longrightarrow> csum (xs @ ys) = csum xs + csum ys"
  by (induction xs rule: csum.induct) auto

lemma unat_byte_less: "unat (b :: byte) < 256"
  using unsigned_less [of b, where 'a = nat] by simp

lemma unat_u16_less: "unat (x :: uint16) < 65536"
  using unsigned_less [of x, where 'a = nat] by simp

lemma csum_bound: "csum bs \<le> 32768 * (length bs + 1)"
proof (induction bs rule: csum.induct)
  case (2 b)
  then show ?case using unat_byte_less [of b] by simp
next
  case (3 a b bs)
  then show ?case using unat_u16_less [of "getUint16 a b"] by simp
qed simp

lemma unat_ucast32:
  "unat (ucast (b :: byte) :: uint32) = unat b" "unat (ucast (x :: uint16) :: uint32) = unat x"
  using unat_byte_less [of b] unat_u16_less [of x] by (simp_all add: unsigned_ucast_eq take_bit_nat_eq_self)

lemma unat_checksumAdd:
  "unat acc + csum bs < 2 ^ 32 \<Longrightarrow> unat (checksumAdd acc bs) = unat acc + csum bs"
proof (induction acc bs rule: checksumAdd.induct)
  case (2 acc b)
  have "unat (push_bit 8 (ucast b :: uint32)) = unat b * 256"
    using unat_byte_less [of b] by (simp add: push_bit_eq_mult unat_word_ariths unat_ucast32)
  then show ?case using 2 by (simp add: unat_plus_if')
next
  case (3 acc a b bs)
  have "unat (acc + ucast (getUint16 a b)) = unat acc + unat (getUint16 a b)"
    using 3(2) by (simp add: unat_plus_if' unat_ucast32)
  then show ?case using 3 by simp
qed simp

lemma checksum_fold_props:
  "unat (checksum_fold s) mod 65535 = unat s mod 65535 \<and> unat (checksum_fold s) \<le> 65535 \<and> (checksum_fold s = 0 \<longrightarrow> s = 0)"
proof (induction s rule: checksum_fold.induct)
  case (1 s)
  show ?case
  proof (cases "0xffff < s")
    case True
    let ?t = "(s AND 0xffff) + drop_bit 16 s"
    have "unat s = unat s div 65536 * 65536 + unat s mod 65536" by simp
    then have "unat s = (unat s mod 65536 + unat s div 65536) + 65535 * (unat s div 65536)" by linarith
    then have "unat ?t mod 65535 = unat s mod 65535"
      unfolding unat_fold_step using mod_mult_self2 [of "unat s mod 65536 + unat s div 65536" 65535 "unat s div 65536"] by simp
    moreover have "?t = 0 \<Longrightarrow> s = 0"
    proof -
      assume "?t = 0"
      then have "unat s mod 65536 + unat s div 65536 = 0" using unat_fold_step [of s] by simp
      then show "s = 0" by (metis add_is_0 div_mult_mod_eq mult_0 unat_eq_zero)
    qed
    ultimately show ?thesis using 1 True by (subst (1 2 3) checksum_fold.simps) auto
  next
    case False
    then have "unat s \<le> 65535" by (simp add: word_le_nat_alt linorder_not_less)
    then show ?thesis using False by (subst (1 2 3) checksum_fold.simps) simp
  qed
qed

lemma unat_checksumFinish: "unat (checksumFinish s) = 65535 - unat (checksum_fold s)"
proof -
  have f: "unat (ucast (checksum_fold s) :: uint16) = unat (checksum_fold s)"
    using checksum_fold_props [of s] by (simp add: unsigned_ucast_eq take_bit_nat_eq_self)
  have "NOT x = - 1 - x" for x :: uint16 by (simp add: not_eq_complement)
  moreover have "unat (- 1 :: uint16) = 65535" by (simp add: unsigned_minus_1_eq_mask mask_eq_exp_minus_1)
  ultimately have "unat (NOT x) = 65535 - unat x" for x :: uint16 by (simp add: unat_sub)
  then show ?thesis by (simp add: checksumFinish_def f)
qed

lemma checksumFinish_zero:
  assumes "unat t mod 65535 = 0" "t \<noteq> 0"
  shows "checksumFinish t = 0"
proof -
  let ?f = "unat (checksum_fold t)"
  have f: "?f mod 65535 = 0" "?f \<le> 65535" "?f \<noteq> 0"
    using checksum_fold_props [of t] assms by (auto simp: unat_eq_zero)
  then obtain k where "?f = 65535 * k" by (auto simp: mod_eq_0_iff_dvd dvd_def)
  then have "k = 1" using f(2,3) by (cases k) auto
  then have "unat (checksumFinish t) = 0" using \<open>?f = 65535 * k\<close> by (simp add: unat_checksumFinish)
  then show ?thesis by (simp add: unat_eq_zero)
qed

lemma csum_put: "even (length xs) \<Longrightarrow> csum (xs @ putUint16 c @ ys) = csum xs + unat c + csum ys"
  by (simp add: csum_append putUint16_def getUint16_put [unfolded putUint16_def, simplified])

text \<open>Writing the complement of the sum makes a block sum to zero, the test that a receiver makes.\<close>

lemma checksum_valid:
  assumes "even (length xs)" and "unat acc + 32768 * (length xs + length ys + 4) < 2 ^ 32"
    and "s = checksumAdd acc (xs @ [0, 0] @ ys)"
    and "c = checksumFinish s \<or> checksumFinish s = 0 \<and> c = 0xffff" and "s \<noteq> 0"
  shows "checksumFinish (checksumAdd acc (xs @ putUint16 c @ ys)) = 0"
proof -
  let ?S = "unat acc + csum xs + csum ys" and ?f = "unat (checksum_fold s)"
  have b: "csum xs + csum ys \<le> 32768 * (length xs + length ys + 2)"
    using csum_bound [of xs] csum_bound [of ys] by simp
  have z: "csum (xs @ 0 # 0 # ys) = csum xs + csum ys"
    using csum_put [OF assms(1), of 0 ys] by (simp add: putUint16_def)
  have S: "unat s = ?S" unfolding assms(3) using b assms(2) by (subst unat_checksumAdd) (simp_all add: z)
  have c: "unat c < 65536" by (rule unat_u16_less)
  let ?t = "checksumAdd acc (xs @ putUint16 c @ ys)"
  have T: "unat ?t = ?S + unat c"
    using b c assms(2) by (subst unat_checksumAdd) (simp_all add: csum_put [OF assms(1)])
  have f: "?f mod 65535 = ?S mod 65535" "?f \<le> 65535" using checksum_fold_props [of s] S by simp_all
  have "(?S + unat c) mod 65535 = 0"
  proof (cases "c = checksumFinish s")
    case True
    then have "?S + unat c = ?S + (65535 - ?f)" by (simp add: unat_checksumFinish)
    also have "(?S + (65535 - ?f)) mod 65535 = (?f + (65535 - ?f)) mod 65535" using f(1) by (metis mod_add_left_eq)
    also have "\<dots> = 0" using f(2) by simp
    finally show ?thesis .
  next
    case False
    then have "checksumFinish s = 0" "unat c = 65535" using assms(4) by auto
    then have "?f = 65535" using f(2) unat_checksumFinish [of s] by simp
    then show ?thesis using f(1) \<open>unat c = 65535\<close> by simp
  qed
  moreover have "?S + unat c \<noteq> 0" using S assms(5) by (metis add_is_0 unat_eq_zero)
  ultimately show ?thesis using T by (intro checksumFinish_zero) (auto simp: unat_eq_zero [symmetric])
qed

section \<open>Properties of the wire parsers\<close>

text \<open>
  C23. What the extension walker reports lies inside the packet: the transport starts at or
  after the base header and not behind the declared payload end, which is within the packet; a
  completed walk stops at a header that is not an extension; and for a fragment, the reported
  fragment header sits right before the payload slice, and the byte named as the preceding
  next-header field precedes it and does announce a fragment header.
\<close>

theorem ipv6_walk_bounds:
  assumes "walkIpv6ExtensionHeaders packet = Some walk"
  shows "Ipv6HeaderSize \<le> wk_transportOffset walk \<and> wk_transportOffset walk \<le> wk_payloadEnd walk
    \<and> wk_payloadEnd walk \<le> length packet
    \<and> (wk_fragmented walk \<or> \<not> isIpv6ExtensionHeader (wk_nextHeader walk))
    \<and> (wk_fragmented walk \<longrightarrow>
         fi_headerOffset (wk_fragment walk) + ipv6FragmentHeaderSize = wk_transportOffset walk
       \<and> fi_precedingNextHeaderFieldOffset (wk_fragment walk) < fi_headerOffset (wk_fragment walk)
       \<and> packet ! fi_precedingNextHeaderFieldOffset (wk_fragment walk) = 44)"
  using walk_headers_sound [OF assms] by (auto simp: walk_sound_def Let_def)

definition example_fragment6 :: bytes where
  "example_fragment6 = [0x60, 0, 0, 0, 0, 16, 44, 64] @ replicate 32 0 @ [17, 0, 0, 9, 0, 0, 0, 7] @ replicate 8 1"

theorem ipv6_walk_bounds_witness: "wk_payloadEnd (the (walkIpv6ExtensionHeaders example_fragment6)) \<le> 56"
proof -
  have "walkIpv6ExtensionHeaders example_fragment6 \<noteq> None" by code_simp
  moreover have "length example_fragment6 = 56" by (simp add: example_fragment6_def)
  ultimately show ?thesis using ipv6_walk_bounds [of example_fragment6] by auto
qed

text \<open>
  C24. The shortcut of the peek is sound: \<open>ipv6TransportOffset\<close>, which answers packets without
  extension headers from the base header alone, always gives what the full walk gives, and
  \<open>isIpv6FragmentPacket\<close> holds exactly when the full walk ends at a fragment header.
\<close>

theorem ipv6_peek_is_walk:
  "ipv6TransportOffset packet =
     (case walkIpv6ExtensionHeaders packet of
        None \<Rightarrow> None
      | Some walk \<Rightarrow>
          if wk_fragmented walk then None
          else Some (wk_nextHeader walk, wk_transportOffset walk, wk_payloadEnd walk))
   \<and> (isIpv6FragmentPacket packet \<longleftrightarrow> (\<exists>walk. walkIpv6ExtensionHeaders packet = Some walk \<and> wk_fragmented walk))"
proof (cases "Ipv6HeaderSize \<le> length packet \<and> ip_version packet = 6 \<and> \<not> isIpv6ExtensionHeader (packet ! 6)")
  case True
  then show ?thesis
    using walk_no_extension [of packet]
    by (auto simp: ipv6TransportOffset_def isIpv6FragmentPacket_def Let_def empty_walk_def)
next
  case False
  then show ?thesis
    by (auto simp: ipv6TransportOffset_def isIpv6FragmentPacket_def walkIpv6ExtensionHeaders_def Let_def split: option.split)
qed
end
