(* ===== verification/Ip_Packet.thy ===== *)
theory Ip_Packet
  imports Ip_Wire "HOL-Library.Monad_Syntax"
begin

text \<open>
  The out-of-sequence packet builders and the ICMP parsers of ip_packet.go: UDP and TCP packets,
  resets, the destination-unreachable signal of a failed flow and the path-mtu signal, with the
  parsers that recover the flow from them.

  \<^item> A builder that can panic returns an option, \<open>None\<close> being the panic. A nil packet is the
    empty list, and \<open>(nil, false)\<close> is an inner \<open>None\<close>.
  \<^item> The transport slice of a packet under construction is a view of the packet's tail, so a
    packet is held as its header and its transport, and is their concatenation.
\<close>

unbundle bit_operations_syntax

section \<open>Building blocks\<close>

text \<open>\<open>copy(buf[off:], src)\<close>: what does not fit is not copied.\<close>

definition copy_at :: "nat \<Rightarrow> bytes \<Rightarrow> bytes \<Rightarrow> bytes" where
  "copy_at off src buf = put_at off (take (length buf - off) src) buf"

definition tcpFlagSyn :: byte where "tcpFlagSyn = 0x02"

definition tcpFlagRst :: byte where "tcpFlagRst = 0x04"

definition tcpFlagAck :: byte where "tcpFlagAck = 0x10"

definition icmpUnreachableHeaderSize :: nat where "icmpUnreachableHeaderSize = 8"

definition icmpv4TypeDestinationUnreachable :: byte where "icmpv4TypeDestinationUnreachable = 3"

definition icmpv4CodePortUnreachable :: byte where "icmpv4CodePortUnreachable = 3"

definition icmpv6TypeDestinationUnreachable :: byte where "icmpv6TypeDestinationUnreachable = 1"

definition icmpv6CodePortUnreachable :: byte where "icmpv6CodePortUnreachable = 4"

definition icmpv4CodeHostUnreachable :: byte where "icmpv4CodeHostUnreachable = 1"

definition icmpv6CodeNoRoute :: byte where "icmpv6CodeNoRoute = 0"

definition icmpv4CodeFragmentationNeeded :: byte where "icmpv4CodeFragmentationNeeded = 4"

definition icmpv6TypePacketTooBig :: byte where "icmpv6TypePacketTooBig = 2"

lemmas icmp_constants = icmpUnreachableHeaderSize_def icmpv4TypeDestinationUnreachable_def
  icmpv4CodePortUnreachable_def icmpv6TypeDestinationUnreachable_def icmpv6CodePortUnreachable_def
  icmpv4CodeHostUnreachable_def icmpv6CodeNoRoute_def icmpv4CodeFragmentationNeeded_def
  icmpv6TypePacketTooBig_def

definition ipTransportPacket :: "IpPath \<Rightarrow> byte \<Rightarrow> nat \<Rightarrow> (bytes \<times> bytes) option" where
  "ipTransportPacket ipPath ipProtocol transportByteCount =
     (if ip_Version ipPath = 4
      then
        let packet = writeIpv4Header (replicate (Ipv4HeaderSizeWithoutExtensions + transportByteCount) 0)
              ipProtocol (IP_To4 (ip_SourceIp ipPath)) (IP_To4 (ip_DestinationIp ipPath))
        in Some (take Ipv4HeaderSizeWithoutExtensions packet, drop Ipv4HeaderSizeWithoutExtensions packet)
      else if ip_Version ipPath = 6
      then
        let packet = writeIpv6Header (replicate (Ipv6HeaderSize + transportByteCount) 0)
              ipProtocol (IP_To16 (ip_SourceIp ipPath)) (IP_To16 (ip_DestinationIp ipPath))
        in Some (take Ipv6HeaderSize packet, drop Ipv6HeaderSize packet)
      else None)"

definition ipPathTransportChecksum :: "IpPath \<Rightarrow> byte \<Rightarrow> bytes \<Rightarrow> uint16" where
  "ipPathTransportChecksum ipPath ipProtocol transport =
     (if ip_Version ipPath = 4
      then transportChecksum ipProtocol (IP_To4 (ip_SourceIp ipPath)) (IP_To4 (ip_DestinationIp ipPath)) transport
      else transportChecksum ipProtocol (IP_To16 (ip_SourceIp ipPath)) (IP_To16 (ip_DestinationIp ipPath)) transport)"

section \<open>UDP and TCP packets\<close>

definition ipOosUdpPacket :: "IpPath \<Rightarrow> bytes \<Rightarrow> bytes option" where
  "ipOosUdpPacket ipPath payload = do {
     (header, udp) \<leftarrow> ipTransportPacket ipPath protocolUdp (UdpHeaderSize + length payload);
     let udp = put_at 0 (putUint16 (of_int (ip_SourcePort ipPath))) udp;
     let udp = put_at 2 (putUint16 (of_int (ip_DestinationPort ipPath))) udp;
     let udp = put_at 4 (putUint16 (of_nat (UdpHeaderSize + length payload))) udp;
     let udp = put_at 6 [0, 0] udp;
     let udp = copy_at UdpHeaderSize payload udp;
     let checksum = ipPathTransportChecksum ipPath protocolUdp udp;
     let checksum = (if checksum = 0 then 0xffff else checksum);
     Some (header @ put_at 6 (putUint16 checksum) udp)
   }"

definition ipOosTcpPacketSequence :: "IpPath \<Rightarrow> byte \<Rightarrow> uint32 \<Rightarrow> bytes \<Rightarrow> bytes option" where
  "ipOosTcpPacketSequence ipPath flags sequenceNumber payload = do {
     (header, tcp) \<leftarrow> ipTransportPacket ipPath protocolTcp (TcpHeaderSizeWithoutExtensions + length payload);
     let tcp = put_at 0 (putUint16 (of_int (ip_SourcePort ipPath))) tcp;
     let tcp = put_at 2 (putUint16 (of_int (ip_DestinationPort ipPath))) tcp;
     let tcp = put_at 4 (putUint32 sequenceNumber) tcp;
     let tcp = put_at 8 (putUint32 0) tcp;
     let tcp = put_at 12 [push_bit 4 (of_nat (TcpHeaderSizeWithoutExtensions div 4)), flags] tcp;
     let tcp = put_at 14 (putUint16 4096) tcp;
     let tcp = put_at 16 [0, 0, 0, 0] tcp;
     let tcp = copy_at TcpHeaderSizeWithoutExtensions payload tcp;
     Some (header @ put_at 16 (putUint16 (ipPathTransportChecksum ipPath protocolTcp tcp)) tcp)
   }"

definition ipOosTcpPacket :: "IpPath \<Rightarrow> byte \<Rightarrow> bytes \<Rightarrow> bytes option" where
  "ipOosTcpPacket ipPath flags payload = ipOosTcpPacketSequence ipPath flags 0 payload"

definition ipOosPacket :: "IpPath \<Rightarrow> bytes \<Rightarrow> bytes option" where
  "ipOosPacket ipPath payload =
     (case ip_Protocol ipPath of
        IpProtocolUdp \<Rightarrow> ipOosUdpPacket ipPath payload
      | IpProtocolTcp \<Rightarrow> ipOosTcpPacket ipPath 0 payload
      | _ \<Rightarrow> Some [])"

definition ipOosRstSequence :: "IpPath \<Rightarrow> uint32 \<Rightarrow> bytes option option" where
  "ipOosRstSequence ipPath sequenceNumber =
     (case ip_Protocol ipPath of
        IpProtocolTcp \<Rightarrow>
          if ip_Version ipPath = 4 \<or> ip_Version ipPath = 6
          then map_option Some (ipOosTcpPacketSequence ipPath tcpFlagRst sequenceNumber [])
          else Some None
      | _ \<Rightarrow> Some None)"

definition ipOosRst :: "IpPath \<Rightarrow> bytes option option" where
  "ipOosRst ipPath = ipOosRstSequence ipPath 0"

section \<open>The unreachable signal\<close>

text \<open>The closure \<open>writeHeader\<close> of the builder.\<close>

definition unreachable_writeHeader :: "bytes \<Rightarrow> bytes \<Rightarrow> byte \<Rightarrow> byte \<Rightarrow> bytes" where
  "unreachable_writeHeader embedded icmp icmpType code =
     copy_at icmpUnreachableHeaderSize embedded (put_at 4 (putUint32 0) (put_at 0 [icmpType, code, 0, 0] icmp))"

definition unreachable_embedded :: "IpPath \<Rightarrow> (bytes \<times> byte \<times> byte) option option" where
  "unreachable_embedded ipPath =
     (case ip_Protocol ipPath of
        IpProtocolUdp \<Rightarrow>
          map_option (\<lambda>embedded. Some (embedded, icmpv4CodePortUnreachable, icmpv6CodePortUnreachable))
            (ipOosUdpPacket ipPath [])
      | IpProtocolTcp \<Rightarrow>
          map_option (\<lambda>embedded. Some (embedded, icmpv4CodeHostUnreachable, icmpv6CodeNoRoute))
            (ipOosTcpPacketSequence ipPath tcpFlagSyn (ip_SequenceNumber ipPath) [])
      | _ \<Rightarrow> Some None)"

definition ipOosUnreachable :: "IpPath \<Rightarrow> bytes option option" where
  "ipOosUnreachable ipPath =
     (if ip_Version ipPath \<noteq> 4 \<and> ip_Version ipPath \<noteq> 6 then Some None
      else do {
        e \<leftarrow> unreachable_embedded ipPath;
        case e of
          None \<Rightarrow> Some None
        | Some (embedded, v4Code, v6Code) \<Rightarrow>
            let rev = path_Reverse ipPath
            in if ip_Version ipPath = 4
               then do {
                 (header, icmp) \<leftarrow> ipTransportPacket rev protocolIcmp4 (icmpUnreachableHeaderSize + length embedded);
                 let icmp = unreachable_writeHeader embedded icmp icmpv4TypeDestinationUnreachable v4Code;
                 Some (Some (header @ put_at 2 (putUint16 (checksumFinish (checksumAdd 0 icmp))) icmp))
               }
               else do {
                 (header, icmp) \<leftarrow> ipTransportPacket rev protocolIcmp6 (icmpUnreachableHeaderSize + length embedded);
                 let icmp = unreachable_writeHeader embedded icmp icmpv6TypeDestinationUnreachable v6Code;
                 Some (Some (header @ put_at 2 (putUint16 (transportChecksum protocolIcmp6
                   (IP_To16 (ip_SourceIp rev)) (IP_To16 (ip_DestinationIp rev)) icmp)) icmp))
               }
      })"

section \<open>Reading ICMP errors\<close>

definition ipIcmpBody :: "bytes \<Rightarrow> bytes option" where
  "ipIcmpBody packet =
     (if packet = [] then None
      else if ip_version packet = 4
      then
        if length packet < Ipv4HeaderSizeWithoutExtensions then None
        else
          let ihl = unat (packet ! 0 AND 0x0f) * 4
          in if ihl < Ipv4HeaderSizeWithoutExtensions \<or> length packet < ihl then None
             else if packet ! 9 \<noteq> protocolIcmp4 then None
             else Some (drop ihl packet)
      else if ip_version packet = 6
      then
        (case ipv6TransportOffset packet of
           None \<Rightarrow> None
         | Some (nextHeader, transportOffset, payloadEnd) \<Rightarrow>
             if nextHeader \<noteq> protocolIcmp6 then None else Some (subslice transportOffset payloadEnd packet))
      else None)"

definition ipv6EmbedForWalk :: "bytes \<Rightarrow> bytes" where
  "ipv6EmbedForWalk embedded =
     (if length embedded < Ipv6HeaderSize + unat (u16_at embedded 4)
      then put_at 4 (putUint16 (of_nat (length embedded - Ipv6HeaderSize))) embedded
      else embedded)"

text \<open>The embedded header: protocol, addresses and transport bytes.\<close>

definition embedded_header :: "bytes \<Rightarrow> (byte \<times> bytes \<times> bytes \<times> bytes) option" where
  "embedded_header embedded =
     (if ip_version embedded = 4
      then
        if length embedded < Ipv4HeaderSizeWithoutExtensions then None
        else
          let ihl = unat (embedded ! 0 AND 0x0f) * 4
          in if ihl < Ipv4HeaderSizeWithoutExtensions \<or> length embedded < ihl + 8 then None
             else Some (embedded ! 9, subslice 12 16 embedded, subslice 16 20 embedded, drop ihl embedded)
      else if ip_version embedded = 6
      then
        if length embedded < Ipv6HeaderSize + 8 then None
        else do {
          (embeddedProtocol, transportOffset) \<leftarrow>
            (if isIpv6ExtensionHeader (embedded ! 6)
             then do {
               walk \<leftarrow> walkIpv6ExtensionHeaders (ipv6EmbedForWalk embedded);
               if wk_fragmented walk then None else Some (wk_nextHeader walk, wk_transportOffset walk)
             }
             else Some (embedded ! 6, Ipv6HeaderSize));
          if length embedded < transportOffset + 8 then None
          else Some (embeddedProtocol, subslice 8 24 embedded, subslice 24 40 embedded, drop transportOffset embedded)
        }
      else None)"

definition ipParseIcmpEmbeddedPath :: "bytes \<Rightarrow> IpPath option" where
  "ipParseIcmpEmbeddedPath embedded =
     (if embedded = [] then None
      else do {
        (embeddedProtocol, sourceIp, destinationIp, transport) \<leftarrow> embedded_header embedded;
        protocol \<leftarrow>
          (if embeddedProtocol = protocolTcp then Some IpProtocolTcp
           else if embeddedProtocol = protocolUdp then Some IpProtocolUdp
           else None);
        let ipPath = new_path (int (unat (ip_version embedded))) protocol sourceIp
              (int (unat (u16_at transport 0))) destinationIp (int (unat (u16_at transport 2)));
        Some (if protocol = IpProtocolTcp then ipPath\<lparr>ip_SequenceNumber := u32_at transport 4\<rparr> else ipPath)
      })"

definition ipParseIcmpUnreachable :: "bytes \<Rightarrow> IpPath option" where
  "ipParseIcmpUnreachable packet =
     (if packet = [] then None
      else do {
        icmp \<leftarrow> ipIcmpBody packet;
        if length icmp < icmpUnreachableHeaderSize then None
        else if ip_version packet = 4 \<and> icmp ! 0 \<noteq> icmpv4TypeDestinationUnreachable then None
        else if ip_version packet = 6 \<and> icmp ! 0 \<noteq> icmpv6TypeDestinationUnreachable then None
        else ipParseIcmpEmbeddedPath (drop icmpUnreachableHeaderSize icmp)
      })"

definition providerDialFailureReturnPath :: "IpPath option \<Rightarrow> bytes \<Rightarrow> IpPath option option" where
  "providerDialFailureReturnPath flowPath packet =
     (case flowPath of
        None \<Rightarrow> Some None
      | Some flowPath \<Rightarrow> do {
          signal \<leftarrow> ipOosUnreachable flowPath;
          Some (if signal = Some packet then Some (path_Reverse flowPath) else None)
        })"

definition providerDialFailureEgressPath :: "bytes \<Rightarrow> IpPath option option" where
  "providerDialFailureEgressPath packet =
     (case ipParseIcmpUnreachable packet of
        None \<Rightarrow> Some None
      | Some egressIpPath \<Rightarrow> do {
          signal \<leftarrow> ipOosUnreachable egressIpPath;
          Some (if signal = Some packet then Some egressIpPath else None)
        })"

section \<open>The path-mtu signal\<close>

definition ipParseIcmpv4FragmentationNeeded :: "bytes \<Rightarrow> (int \<times> IpPath) option" where
  "ipParseIcmpv4FragmentationNeeded icmp =
     (if length icmp < icmpUnreachableHeaderSize \<or> icmp ! 0 \<noteq> icmpv4TypeDestinationUnreachable
         \<or> icmp ! 1 \<noteq> icmpv4CodeFragmentationNeeded
      then None
      else
        let mtu = int (unat (u16_at icmp 6))
        in if mtu = 0 then None
           else map_option (\<lambda>path. (mtu, path)) (ipParseIcmpEmbeddedPath (drop icmpUnreachableHeaderSize icmp)))"

definition ipParseIcmpv6PacketTooBig :: "bytes \<Rightarrow> (int \<times> IpPath) option" where
  "ipParseIcmpv6PacketTooBig icmp =
     (if length icmp < icmpUnreachableHeaderSize \<or> icmp ! 0 \<noteq> icmpv6TypePacketTooBig then None
      else
        let mtu = int (unat (u32_at icmp 4))
        in if mtu \<le> 0 \<or> 0xffff < mtu then None
           else map_option (\<lambda>path. (mtu, path)) (ipParseIcmpEmbeddedPath (drop icmpUnreachableHeaderSize icmp)))"

definition ipOosPacketTooBig :: "IpPath \<Rightarrow> int \<Rightarrow> bytes option option" where
  "ipOosPacketTooBig original mtu =
     (if ip_Version original \<noteq> 4 \<and> ip_Version original \<noteq> 6 then Some None
      else
        (case ip_Protocol original of
           IpProtocolUdp \<Rightarrow> map_option Some (ipOosUdpPacket original [])
         | IpProtocolTcp \<Rightarrow> map_option Some (ipOosTcpPacketSequence original tcpFlagAck (ip_SequenceNumber original) [])
         | _ \<Rightarrow> Some None) \<bind>
        (\<lambda>e. case e of
           None \<Rightarrow> Some None
         | Some embedded \<Rightarrow>
             let rev = path_Reverse original
             in if ip_Version original = 4
                then do {
                  (header, icmp) \<leftarrow> ipTransportPacket rev protocolIcmp4 (icmpUnreachableHeaderSize + length embedded);
                  let icmp = put_at 0 [icmpv4TypeDestinationUnreachable, icmpv4CodeFragmentationNeeded, 0, 0] icmp;
                  let icmp = put_at 6 (putUint16 (of_int mtu)) (put_at 4 (putUint16 0) icmp);
                  let icmp = copy_at icmpUnreachableHeaderSize embedded icmp;
                  Some (Some (header @ put_at 2 (putUint16 (checksumFinish (checksumAdd 0 icmp))) icmp))
                }
                else do {
                  (header, icmp) \<leftarrow> ipTransportPacket rev protocolIcmp6 (icmpUnreachableHeaderSize + length embedded);
                  let icmp = put_at 4 (putUint32 (of_int mtu)) (put_at 0 [icmpv6TypePacketTooBig, 0, 0, 0] icmp);
                  let icmp = copy_at icmpUnreachableHeaderSize embedded icmp;
                  Some (Some (header @ put_at 2 (putUint16 (transportChecksum protocolIcmp6
                    (IP_To16 (ip_SourceIp rev)) (IP_To16 (ip_DestinationIp rev)) icmp)) icmp))
                }))"

section \<open>The layout of a built packet\<close>

text \<open>
  The reference layout that the builders are compared with: the addresses in wire form, the
  fixed headers written out as byte lists.
\<close>

definition wire_ip :: "int \<Rightarrow> bytes \<Rightarrow> bytes" where
  "wire_ip v ip = (if v = 4 then IP_To4 ip else IP_To16 ip)"

definition address_size :: "int \<Rightarrow> nat" where
  "address_size v = (if v = 4 then 4 else 16)"

definition wire_path :: "IpPath \<Rightarrow> IpPath" where
  "wire_path p = new_path (ip_Version p) (ip_Protocol p) (wire_ip (ip_Version p) (ip_SourceIp p)) (ip_SourcePort p)
     (wire_ip (ip_Version p) (ip_DestinationIp p)) (ip_DestinationPort p)"

text \<open>A path that can be put on the wire: a known version, addresses of its family, 16-bit ports.\<close>

definition path_ok :: "IpPath \<Rightarrow> bool" where
  "path_ok p \<longleftrightarrow> ip_Version p \<in> {4, 6}
     \<and> length (wire_ip (ip_Version p) (ip_SourceIp p)) = address_size (ip_Version p)
     \<and> length (wire_ip (ip_Version p) (ip_DestinationIp p)) = address_size (ip_Version p)
     \<and> ip_SourcePort p \<in> {0..65535} \<and> ip_DestinationPort p \<in> {0..65535}"

definition fits :: "int \<Rightarrow> nat \<Rightarrow> bool" where
  "fits v n \<longleftrightarrow> (if v = 4 then 20 + n \<le> 65535 else n \<le> 65535)"

definition ipv4_header_with :: "uint16 \<Rightarrow> byte \<Rightarrow> nat \<Rightarrow> bytes \<Rightarrow> bytes \<Rightarrow> bytes" where
  "ipv4_header_with c proto n src dst =
     ([0x45, 0] @ putUint16 (of_nat (20 + n)) @ [0, 0, 0, 0, 64, proto]) @ putUint16 c @ src @ dst"

definition ip_header :: "int \<Rightarrow> byte \<Rightarrow> nat \<Rightarrow> bytes \<Rightarrow> bytes \<Rightarrow> bytes" where
  "ip_header v proto n src dst =
     (if v = 4
      then ipv4_header_with (checksumFinish (checksumAdd 0 (ipv4_header_with 0 proto n src dst))) proto n src dst
      else [0x60, 0, 0, 0] @ putUint16 (of_nat n) @ [proto, 64] @ src @ dst)"

definition udp_bytes :: "uint16 \<Rightarrow> uint16 \<Rightarrow> uint16 \<Rightarrow> bytes \<Rightarrow> bytes" where
  "udp_bytes c sp dp payload =
     (putUint16 sp @ putUint16 dp @ putUint16 (of_nat (8 + length payload))) @ putUint16 c @ payload"

definition tcp_bytes :: "uint16 \<Rightarrow> uint16 \<Rightarrow> uint16 \<Rightarrow> byte \<Rightarrow> uint32 \<Rightarrow> bytes \<Rightarrow> bytes" where
  "tcp_bytes c sp dp flags seq payload =
     (putUint16 sp @ putUint16 dp @ putUint32 seq @ [0, 0, 0, 0, 0x50, flags] @ putUint16 4096)
     @ putUint16 c @ [0, 0] @ payload"

definition icmp_bytes :: "uint16 \<Rightarrow> byte \<Rightarrow> byte \<Rightarrow> uint32 \<Rightarrow> bytes \<Rightarrow> bytes" where
  "icmp_bytes c type code word embedded = [type, code] @ putUint16 c @ putUint32 word @ embedded"

lemma length_layout [simp]:
  "length (udp_bytes c sp dp payload) = 8 + length payload"
  "length (tcp_bytes c sp dp flags seq payload) = 20 + length payload"
  "length (icmp_bytes c type code w embedded) = 8 + length embedded"
  "length (ipv4_header_with c proto n src dst) = 12 + length src + length dst"
  by (simp_all add: udp_bytes_def tcp_bytes_def icmp_bytes_def ipv4_header_with_def)

lemma zeros_numeral: "replicate (numeral k + n) (0 :: byte) = replicate (numeral k) 0 @ replicate n 0"
  by (simp add: replicate_add)

lemma put_at_layout:
  "length pre = off \<Longrightarrow> length old = length xs \<Longrightarrow> put_at off xs (pre @ old @ post) = pre @ xs @ post"
  by (simp add: put_at_def)

lemma list4E: assumes "length (xs :: byte list) = 4" obtains a b c d where "xs = [a, b, c, d]"
  using assms by (auto simp: numeral_eq_Suc length_Suc_conv)

lemma writeIpv4Header_eq:
  assumes "length src = 4" "length dst = 4"
  shows "writeIpv4Header (replicate (20 + n) 0) proto src dst = ip_header 4 proto n src dst @ replicate n 0"
proof -
  obtain a b c d where s: "src = [a, b, c, d]" using assms(1) by (rule list4E)
  obtain a' b' c' d' where t: "dst = [a', b', c', d']" using assms(2) by (rule list4E)
  have z: "putUint16 0 = [0, 0]" by (simp add: putUint16_def)
  show ?thesis
    unfolding s t
    by (simp add: writeIpv4Header_def Let_def zeros_numeral put_at_def subslice_def header_sizes ip_header_def
        ipv4_header_with_def putUint16_def [of "of_nat _"] putUint16_def [of "word_of_nat n + _"] z numeral_eq_Suc)
qed

lemma writeIpv6Header_eq:
  assumes "length src = 16" "length dst = 16"
  shows "writeIpv6Header (replicate (40 + n) 0) proto src dst = ip_header 6 proto n src dst @ replicate n 0"
proof -
  let ?h = "[0x60, 0, 0, 0] @ putUint16 (of_nat n) @ [proto, 64]"
  have r: "replicate (40 + n) (0 :: byte) = replicate 8 0 @ replicate 16 0 @ replicate 16 0 @ replicate n 0"
    by (simp flip: replicate_add)
  have "put_at 0 ?h (replicate (40 + n) 0) = ?h @ replicate 16 0 @ replicate 16 0 @ replicate n 0"
    unfolding r by (rule put_at_layout [where pre = "[]", simplified]) simp_all
  moreover have "put_at 8 src (?h @ replicate 16 0 @ replicate 16 0 @ replicate n 0) = ?h @ src @ replicate 16 0 @ replicate n 0"
    by (rule put_at_layout) (simp_all add: assms)
  moreover have "put_at 24 dst ((?h @ src) @ replicate 16 0 @ replicate n 0) = (?h @ src) @ dst @ replicate n 0"
    by (rule put_at_layout) (simp_all add: assms)
  ultimately show ?thesis
    by (simp add: writeIpv6Header_def header_sizes Let_def assms ip_header_def)
qed

lemma path_ok_version: "path_ok p \<Longrightarrow> ip_Version p = 4 \<or> ip_Version p = 6"
  by (simp add: path_ok_def)

lemma length_ip_header:
  "length src = address_size v \<Longrightarrow> length dst = address_size v \<Longrightarrow>
   length (ip_header v proto n src dst) = (if v = 4 then 20 else 40)"
  by (simp add: ip_header_def address_size_def)

lemma ipTransportPacket_eq:
  assumes "path_ok p"
  shows "ipTransportPacket p proto n = Some
    (ip_header (ip_Version p) proto n (wire_ip (ip_Version p) (ip_SourceIp p)) (wire_ip (ip_Version p) (ip_DestinationIp p)),
     replicate n 0)"
  using assms
  by (auto simp: ipTransportPacket_def path_ok_def wire_ip_def address_size_def header_sizes
      writeIpv4Header_eq writeIpv6Header_eq length_ip_header)

lemma ip_version_header:
  "v = 4 \<or> v = 6 \<Longrightarrow> ip_version (ip_header v proto n src dst @ t) = of_int v"
  "v = 4 \<or> v = 6 \<Longrightarrow> int (unat (ip_version (ip_header v proto n src dst @ t))) = v"
  "ip_header v proto n src dst @ t \<noteq> []"
  by (auto simp: ip_header_def ip_version_def ipv4_header_with_def drop_bit_eq_div)

lemma unat_of_nat16: "n < 65536 \<Longrightarrow> unat (of_nat n :: uint16) = n"
  by (simp add: unsigned_of_nat take_bit_nat_eq_self)

lemma u16_at_put [simp]: "u16_at (putUint16 v @ rest) 0 = v" "u16_at (ucast (drop_bit 8 v) # ucast v # rest) 0 = v"
  by (simp_all add: u16_at_def putUint16_def)

lemma parseIpv4_header:
  assumes "length src = 4" "length dst = 4" "fits 4 n" "length t = n"
  shows "parseIpv4 (ip_header 4 proto n src dst @ t) =
    Some \<lparr>pi_protocol = proto, pi_sourceIp = src, pi_destinationIp = dst, pi_transport = t\<rparr>"
proof -
  have "unat (of_nat (20 + n) :: uint16) = 20 + n" using assms(3) by (intro unat_of_nat16) (simp add: fits_def)
  moreover have "unat ((69 :: byte) AND 15) = 5" by simp
  moreover have "getUint16 0 0 = 0" by (simp add: getUint16_def)
  moreover have "u16_at (ip_header 4 proto n src dst @ t) 2 = of_nat (20 + n)"
    by (simp add: u16_at_def ip_header_def ipv4_header_with_def putUint16_def)
  ultimately show ?thesis
    using assms
    by (simp add: parseIpv4_def header_sizes ip_header_def ipv4_header_with_def subslice_def Let_def)
      (simp add: u16_at_def putUint16_def)
qed

definition plain_protocol :: "byte \<Rightarrow> bool" where
  "plain_protocol proto \<longleftrightarrow> proto \<in> {protocolTcp, protocolUdp, protocolIcmp6}"

lemma plain_protocol_not_extension: "plain_protocol proto \<Longrightarrow> \<not> isIpv6ExtensionHeader proto"
  by (auto simp: plain_protocol_def protocol_numbers isIpv6ExtensionHeader_def)

lemma ipv6_header_fields:
  assumes "length src = 16" "length dst = 16" "fits 6 n"
  shows "unat (u16_at (ip_header 6 proto n src dst @ t) 4) = n" "(ip_header 6 proto n src dst @ t) ! 6 = proto"
    "subslice 8 24 (ip_header 6 proto n src dst @ t) = src" "subslice 24 40 (ip_header 6 proto n src dst @ t) = dst"
    "drop 40 (ip_header 6 proto n src dst @ t) = t"
proof -
  have "unat (of_nat n :: uint16) = n" using assms(3) by (intro unat_of_nat16) (simp add: fits_def)
  then show "unat (u16_at (ip_header 6 proto n src dst @ t) 4) = n"
    by (simp add: u16_at_def ip_header_def putUint16_def)
  show "(ip_header 6 proto n src dst @ t) ! 6 = proto" by (simp add: ip_header_def putUint16_def)
  show "subslice 8 24 (ip_header 6 proto n src dst @ t) = src" "subslice 24 40 (ip_header 6 proto n src dst @ t) = dst"
    "drop 40 (ip_header 6 proto n src dst @ t) = t"
    using assms by (simp_all add: ip_header_def putUint16_def subslice_def)
qed

lemma parseIpv6_header:
  assumes "length src = 16" "length dst = 16" "fits 6 n" "length t = n" "plain_protocol proto"
  shows "parseIpv6 (ip_header 6 proto n src dst @ t) =
    Some \<lparr>pi_protocol = proto, pi_sourceIp = src, pi_destinationIp = dst, pi_transport = t\<rparr>"
proof -
  note f = ipv6_header_fields [OF assms(1-3), of proto t]
  have l: "length (ip_header 6 proto n src dst @ t) = 40 + n" using assms by (simp add: length_ip_header address_size_def)
  have "subslice 40 (40 + n) (ip_header 6 proto n src dst @ t) = t" using f(5) assms(4) by (simp add: subslice_def)
  then show ?thesis
    using f l plain_protocol_not_extension [OF assms(5)]
    by (simp add: parseIpv6_def header_sizes Let_def del: length_append)
qed

lemma ParseIpPathWithPayload_header:
  assumes "v = 4 \<or> v = 6" "length src = address_size v" "length dst = address_size v" "fits v (length t)" "plain_protocol proto"
  shows "ParseIpPathWithPayload e (ip_header v proto (length t) src dst @ t) =
    path_of_transport e v \<lparr>pi_protocol = proto, pi_sourceIp = src, pi_destinationIp = dst, pi_transport = t\<rparr>"
  using assms
  by (auto simp: ParseIpPathWithPayload_def ip_version_header parseIpv4_header parseIpv6_header address_size_def
      simp del: append_is_Nil_conv)

lemma ipIcmpBody_header:
  assumes "v = 4 \<or> v = 6" "length src = address_size v" "length dst = address_size v" "fits v (length t)"
    "proto = (if v = 4 then protocolIcmp4 else protocolIcmp6)"
  shows "ipIcmpBody (ip_header v proto (length t) src dst @ t) = Some t"
  using assms(1)
proof
  assume v: "v = 4"
  have "unat ((69 :: byte) AND 15) = 5" by simp
  then show ?thesis
    using assms v
    by (simp add: ipIcmpBody_def ip_version_header(1) header_sizes Let_def address_size_def length_ip_header)
      (simp add: ip_header_def ipv4_header_with_def putUint16_def)
next
  assume v: "v = 6"
  have a: "length src = 16" "length dst = 16" "fits 6 (length t)" using assms v by (simp_all add: address_size_def)
  note f = ipv6_header_fields [OF a, of proto t]
  have "\<not> isIpv6ExtensionHeader proto" using assms(5) v by (simp add: protocol_numbers isIpv6ExtensionHeader_def)
  then show ?thesis
    using f assms(5) a v ip_version_header(1,3) [of 6 proto "length t" src dst t]
    by (simp add: ipIcmpBody_def ipv6TransportOffset_def header_sizes Let_def length_ip_header address_size_def
        subslice_def del: append_is_Nil_conv)
qed

lemma embedded_header_layout:
  assumes "v = 4 \<or> v = 6" "length src = address_size v" "length dst = address_size v" "fits v (length t)"
    "8 \<le> length t" "plain_protocol proto"
  shows "embedded_header (ip_header v proto (length t) src dst @ t) = Some (proto, src, dst, t)"
  using assms(1)
proof
  assume v: "v = 4"
  have "unat ((69 :: byte) AND 15) = 5" by simp
  then show ?thesis
    using assms v
    by (simp add: embedded_header_def ip_version_header(1) header_sizes Let_def address_size_def length_ip_header)
      (simp add: ip_header_def ipv4_header_with_def putUint16_def subslice_def)
next
  assume v: "v = 6"
  have a: "length src = 16" "length dst = 16" "fits 6 (length t)" using assms v by (simp_all add: address_size_def)
  note f = ipv6_header_fields [OF a, of proto t]
  show ?thesis
    using f assms(5) a v ip_version_header(1) [of 6 proto "length t" src dst t] plain_protocol_not_extension [OF assms(6)]
    by (simp add: embedded_header_def header_sizes Let_def length_ip_header address_size_def)
qed

section \<open>Builders against the layout\<close>

lemma checksum_sum_nonzero:
  assumes "proto \<noteq> 0" "unat acc + unat proto + n + csum t < 2 ^ 32"
  shows "checksumAdd (acc + ucast (proto :: byte) + of_nat n) t \<noteq> 0"
proof -
  have a: "unat (acc + ucast proto + of_nat n) = unat acc + unat proto + n"
    using assms(2) by (simp add: unat_word_ariths unat_ucast32 unsigned_of_nat take_bit_eq_mod)
  have "unat (checksumAdd (acc + ucast proto + of_nat n) t) = unat acc + unat proto + n + csum t"
    using assms(2) unfolding a [symmetric] by (rule unat_checksumAdd)
  moreover have "unat proto \<noteq> 0" using assms(1) by (simp add: unat_eq_zero)
  ultimately show ?thesis by (metis add_is_0 unat_0)
qed

lemma address_sum_bound:
  assumes "length src \<le> 16" "length dst \<le> 16"
  shows "unat (checksumAdd (checksumAdd 0 src) dst) \<le> 1114112"
proof -
  have b: "csum src \<le> 557056" "csum dst \<le> 557056" using csum_bound [of src] csum_bound [of dst] assms by simp_all
  have "unat (checksumAdd 0 src) = csum src" using b(1) by (subst unat_checksumAdd) simp_all
  then show ?thesis using b by (subst unat_checksumAdd) simp_all
qed

lemma transport_checksum_valid:
  assumes "even (length xs)" "length (xs @ [0, 0] @ ys) \<le> 65535" "length src \<le> 16" "length dst \<le> 16" "proto \<noteq> 0"
    "c = transportChecksum proto src dst (xs @ [0, 0] @ ys)
     \<or> transportChecksum proto src dst (xs @ [0, 0] @ ys) = 0 \<and> c = 0xffff"
  shows "transportChecksum proto src dst (xs @ putUint16 c @ ys) = 0"
proof -
  let ?a = "checksumAdd (checksumAdd 0 src) dst" and ?n = "length xs + (2 + length ys)"
  let ?s = "?a + ucast proto + of_nat ?n"
  have a: "unat ?a \<le> 1114112" using assms(3,4) by (rule address_sum_bound)
  have n: "?n \<le> 65535" using assms(2) by simp
  have s: "unat ?s \<le> 1114112 + 255 + 65535"
    using a n unat_byte_less [of proto] by (simp add: unat_word_ariths unat_ucast32 unsigned_of_nat take_bit_eq_mod)
  have "csum (xs @ [0, 0] @ ys) \<le> 2147516416" using csum_bound [of "xs @ [0, 0] @ ys"] n by simp
  then have nz: "checksumAdd ?s (xs @ [0, 0] @ ys) \<noteq> 0"
    using a n unat_byte_less [of proto] by (intro checksum_sum_nonzero [OF assms(5)]) simp
  show ?thesis
    using assms(1) s n assms(6) nz unfolding transportChecksum_def Let_def
    by (simp del: append_Cons append_Nil)
      (rule checksum_valid [where s = "checksumAdd ?s (xs @ [0, 0] @ ys)"], simp_all)
qed

lemma put_zero16: "[0, 0] = putUint16 0"
  by (simp add: putUint16_def)

lemma wire_lengths:
  assumes "path_ok p"
  shows "length (wire_ip (ip_Version p) (ip_SourceIp p)) \<le> 16" "length (wire_ip (ip_Version p) (ip_DestinationIp p)) \<le> 16"
  using assms by (auto simp: path_ok_def address_size_def)

lemma ipPathTransportChecksum_wire:
  "ipPathTransportChecksum p proto t =
   transportChecksum proto (wire_ip (ip_Version p) (ip_SourceIp p)) (wire_ip (ip_Version p) (ip_DestinationIp p)) t"
  by (simp add: ipPathTransportChecksum_def wire_ip_def)

lemma path_checksum_valid:
  assumes "path_ok p" "even (length xs)" "length xs + 2 + length ys \<le> 65535" "proto \<noteq> 0"
    "c = ipPathTransportChecksum p proto (xs @ putUint16 0 @ ys)
     \<or> ipPathTransportChecksum p proto (xs @ putUint16 0 @ ys) = 0 \<and> c = 0xffff"
  shows "ipPathTransportChecksum p proto (xs @ putUint16 c @ ys) = 0"
  unfolding ipPathTransportChecksum_wire
  by (rule transport_checksum_valid)
    (use assms wire_lengths [OF assms(1)] in \<open>simp_all add: ipPathTransportChecksum_wire put_zero16 [symmetric]\<close>)

definition path_header :: "IpPath \<Rightarrow> byte \<Rightarrow> nat \<Rightarrow> bytes" where
  "path_header p proto n =
     ip_header (ip_Version p) proto n (wire_ip (ip_Version p) (ip_SourceIp p)) (wire_ip (ip_Version p) (ip_DestinationIp p))"

lemma put_at_skip: "length a \<le> off \<Longrightarrow> put_at off xs (a @ b) = a @ put_at (off - length a) xs b"
  by (simp add: put_at_def)

lemma put_at_here: "length xs = length old \<Longrightarrow> put_at 0 xs (old @ post) = xs @ post"
  by (simp add: put_at_def)

lemma put_at_all: "length xs = length old \<Longrightarrow> put_at 0 xs old = xs"
  by (simp add: put_at_def)

lemma put_at_cons: "0 < off \<Longrightarrow> put_at off xs (x # b) = x # put_at (off - 1) xs b"
  by (cases off) (simp_all add: put_at_def)

lemma put_at_pair: "length xs + length ys = length old \<Longrightarrow> put_at 0 (xs @ ys) (old @ post) = xs @ ys @ post"
  by (simp add: put_at_def)

lemmas put_at_blocks = put_at_skip put_at_here put_at_all put_at_cons put_at_pair

lemma zero_blocks:
  "replicate (8 + n) (0 :: byte) = putUint16 0 @ putUint16 0 @ putUint16 0 @ putUint16 0 @ replicate n 0"
  "replicate (8 + n) (0 :: byte) = putUint32 0 @ putUint32 0 @ replicate n 0"
  "replicate (20 + n) (0 :: byte) =
     putUint16 0 @ putUint16 0 @ putUint32 0 @ putUint32 0 @ putUint16 0 @ putUint16 0 @ putUint32 0 @ replicate n 0"
  by (simp_all add: putUint16_def putUint32_def numeral_eq_Suc)

lemma ipOosUdpPacket_layout:
  assumes "path_ok p" "8 + length payload \<le> 65535"
  obtains c where
    "ipOosUdpPacket p payload = Some (path_header p protocolUdp (8 + length payload)
       @ udp_bytes c (of_int (ip_SourcePort p)) (of_int (ip_DestinationPort p)) payload)"
    "ipPathTransportChecksum p protocolUdp (udp_bytes c (of_int (ip_SourcePort p)) (of_int (ip_DestinationPort p)) payload) = 0"
proof -
  let ?u = "\<lambda>c. udp_bytes c (of_int (ip_SourcePort p)) (of_int (ip_DestinationPort p)) payload"
  let ?k = "ipPathTransportChecksum p protocolUdp (?u 0)"
  let ?c = "if ?k = 0 then 0xffff else ?k"
  have "ipOosUdpPacket p payload = Some (path_header p protocolUdp (8 + length payload) @ ?u ?c)"
    by (simp add: ipOosUdpPacket_def ipTransportPacket_eq [OF assms(1)] path_header_def UdpHeaderSize_def zero_blocks(1) Let_def
        put_at_blocks copy_at_def udp_bytes_def put_zero16)
  moreover have "ipPathTransportChecksum p protocolUdp (?u ?c) = 0"
    unfolding udp_bytes_def
    by (rule path_checksum_valid [OF assms(1)]) (use assms(2) in \<open>simp_all add: protocol_numbers\<close>)
  ultimately show thesis by (rule that)
qed

lemma ipOosTcpPacket_layout:
  assumes "path_ok p" "20 + length payload \<le> 65535"
  obtains c where
    "ipOosTcpPacketSequence p flags seq payload = Some (path_header p protocolTcp (20 + length payload)
       @ tcp_bytes c (of_int (ip_SourcePort p)) (of_int (ip_DestinationPort p)) flags seq payload)"
    "ipPathTransportChecksum p protocolTcp
       (tcp_bytes c (of_int (ip_SourcePort p)) (of_int (ip_DestinationPort p)) flags seq payload) = 0"
proof -
  let ?u = "\<lambda>c. tcp_bytes c (of_int (ip_SourcePort p)) (of_int (ip_DestinationPort p)) flags seq payload"
  let ?c = "ipPathTransportChecksum p protocolTcp (?u 0)"
  have z: "[0, 0, 0, 0] = putUint16 0 @ putUint16 0" "putUint32 0 = putUint16 0 @ putUint16 0"
    by (simp_all add: putUint16_def putUint32_def)
  have t: "?u c = putUint16 (of_int (ip_SourcePort p)) @ putUint16 (of_int (ip_DestinationPort p)) @ putUint32 seq
      @ putUint32 0 @ [0x50, flags] @ putUint16 4096 @ putUint16 c @ putUint16 0 @ payload" for c
    by (simp add: tcp_bytes_def putUint32_def [of 0] putUint16_def [of 0])
  have "ipOosTcpPacketSequence p flags seq payload = Some (path_header p protocolTcp (20 + length payload) @ ?u ?c)"
    unfolding ipOosTcpPacketSequence_def z(1) t
    by (simp add: ipTransportPacket_eq [OF assms(1)] path_header_def header_sizes zero_blocks(3) Let_def
        put_at_blocks copy_at_def)
  moreover have "ipPathTransportChecksum p protocolTcp (?u ?c) = 0"
    unfolding tcp_bytes_def
    by (rule path_checksum_valid [OF assms(1)]) (use assms(2) in \<open>simp_all add: protocol_numbers\<close>)
  ultimately show thesis by (rule that)
qed

lemma path_Reverse_ok: "path_ok p \<Longrightarrow> path_ok (path_Reverse p)"
  by (simp add: path_ok_def path_Reverse_def new_path_def)

lemma path_Reverse_fields [simp]:
  "ip_Version (path_Reverse p) = ip_Version p" "ip_SourceIp (path_Reverse p) = ip_DestinationIp p"
  "ip_DestinationIp (path_Reverse p) = ip_SourceIp p"
  by (simp_all add: path_Reverse_def new_path_def)

lemma put_zero32: "putUint32 0 = putUint16 0 @ putUint16 0"
  by (simp add: putUint16_def putUint32_def)

lemma unreachable_writeHeader_layout:
  "n = length embedded \<Longrightarrow>
   unreachable_writeHeader embedded (replicate (icmpUnreachableHeaderSize + n) 0) type code = icmp_bytes 0 type code 0 embedded"
  by (simp add: unreachable_writeHeader_def icmpUnreachableHeaderSize_def zero_blocks(2) put_at_blocks copy_at_def icmp_bytes_def)
    (simp add: putUint16_def)

lemma put_icmp_checksum: "put_at 2 (putUint16 c) (icmp_bytes 0 type code w embedded) = icmp_bytes c type code w embedded"
  by (simp add: icmp_bytes_def put_at_blocks)

text \<open>The embedded packet is a header with at least eight transport bytes that start with the ports.\<close>

definition embed_seq :: "IpPath \<Rightarrow> uint32" where
  "embed_seq p = (if ip_Protocol p = IpProtocolTcp then ip_SequenceNumber p else 0)"

definition embeds :: "IpPath \<Rightarrow> bytes \<Rightarrow> bool" where
  "embeds p embedded \<longleftrightarrow> length embedded \<le> 60
     \<and> ipParseIcmpEmbeddedPath embedded = Some ((wire_path p)\<lparr>ip_SequenceNumber := embed_seq p\<rparr>)"

lemma port_back: "0 \<le> x \<Longrightarrow> x \<le> 65535 \<Longrightarrow> uint (of_int x :: uint16) = x"
  by (simp add: take_bit_int_eq_self unsigned_of_int)

lemma embeds_header:
  assumes "path_ok p" "proto = protocolTcp \<and> ip_Protocol p = IpProtocolTcp \<or> proto = protocolUdp \<and> ip_Protocol p = IpProtocolUdp"
    "t = putUint16 (of_int (ip_SourcePort p)) @ putUint16 (of_int (ip_DestinationPort p)) @ rest"
    "4 \<le> length rest" "length rest \<le> 16"
    "ip_Protocol p = IpProtocolTcp \<Longrightarrow> u32_at t 4 = ip_SequenceNumber p"
  shows "embeds p (path_header p proto (length t) @ t)"
proof -
  note ok = assms(1) [unfolded path_ok_def]
  have v: "ip_Version p = 4 \<or> ip_Version p = 6" using ok by simp
  have l: "8 \<le> length t" "fits (ip_Version p) (length t)" using assms(3-5) by (simp_all add: fits_def)
  have "plain_protocol proto" using assms(2) by (auto simp: plain_protocol_def)
  then have h: "embedded_header (path_header p proto (length t) @ t) =
      Some (proto, wire_ip (ip_Version p) (ip_SourceIp p), wire_ip (ip_Version p) (ip_DestinationIp p), t)"
    unfolding path_header_def using ok l by (intro embedded_header_layout) simp_all
  have u: "u16_at t 0 = of_int (ip_SourcePort p)" "u16_at t 2 = of_int (ip_DestinationPort p)"
    unfolding assms(3) by (simp_all add: u16_at_def putUint16_def)
  have "ipParseIcmpEmbeddedPath (path_header p proto (length t) @ t) = Some ((wire_path p)\<lparr>ip_SequenceNumber := embed_seq p\<rparr>)"
    using assms(2,6) h u ok ip_version_header(2) [OF v] ip_version_header(3)
    by (auto simp: ipParseIcmpEmbeddedPath_def path_header_def wire_path_def embed_seq_def new_path_def port_back protocol_numbers
        simp del: append_is_Nil_conv)
  moreover have "length (path_header p proto (length t) @ t) \<le> 60"
    using ok assms(3,5) unfolding path_header_def by (simp add: length_ip_header)
  ultimately show ?thesis by (simp add: embeds_def)
qed

lemma embeds_udp:
  assumes "path_ok p" "ip_Protocol p = IpProtocolUdp"
  obtains embedded where "ipOosUdpPacket p [] = Some embedded" "embeds p embedded"
proof -
  obtain c where "ipOosUdpPacket p [] = Some (path_header p protocolUdp 8
      @ udp_bytes c (of_int (ip_SourcePort p)) (of_int (ip_DestinationPort p)) [])"
    using ipOosUdpPacket_layout [OF assms(1), of "[]"] by auto
  moreover have "embeds p (path_header p protocolUdp (length (udp_bytes c (of_int (ip_SourcePort p)) (of_int (ip_DestinationPort p)) []))
      @ udp_bytes c (of_int (ip_SourcePort p)) (of_int (ip_DestinationPort p)) [])"
    by (rule embeds_header [OF assms(1), where rest = "putUint16 8 @ putUint16 c"]) (simp_all add: assms(2) udp_bytes_def)
  ultimately show thesis using that by simp
qed

lemma embeds_tcp:
  assumes "path_ok p" "ip_Protocol p = IpProtocolTcp"
  obtains embedded where "ipOosTcpPacketSequence p flags (ip_SequenceNumber p) [] = Some embedded" "embeds p embedded"
proof -
  let ?t = "\<lambda>c. tcp_bytes c (of_int (ip_SourcePort p)) (of_int (ip_DestinationPort p)) flags (ip_SequenceNumber p) []"
  obtain c where "ipOosTcpPacketSequence p flags (ip_SequenceNumber p) [] = Some (path_header p protocolTcp 20 @ ?t c)"
    using ipOosTcpPacket_layout [OF assms(1), of "[]" flags "ip_SequenceNumber p"] by auto
  moreover have "embeds p (path_header p protocolTcp (length (?t c)) @ ?t c)"
  proof (rule embeds_header [OF assms(1), where rest = "drop 4 (?t c)"])
    show "u32_at (?t c) 4 = ip_SequenceNumber p" by (simp add: tcp_bytes_def u32_at_def putUint16_def putUint32_def)
  qed (simp_all add: assms(2), simp add: tcp_bytes_def)
  ultimately show thesis using that by simp
qed

definition carried :: "IpPath \<Rightarrow> bool" where
  "carried p \<longleftrightarrow> path_ok p \<and> (ip_Protocol p = IpProtocolTcp \<or> ip_Protocol p = IpProtocolUdp)"

definition icmp_protocol :: "int \<Rightarrow> byte" where
  "icmp_protocol v = (if v = 4 then protocolIcmp4 else protocolIcmp6)"

definition icmp_packet :: "IpPath \<Rightarrow> bytes \<Rightarrow> bytes" where
  "icmp_packet p icmp = path_header (path_Reverse p) (icmp_protocol (ip_Version p)) (length icmp) @ icmp"

lemma icmp_packet_body:
  assumes "path_ok p" "length icmp \<le> 1000"
  shows "ipIcmpBody (icmp_packet p icmp) = Some icmp"
    "ip_version (icmp_packet p icmp) = of_int (ip_Version p)" "icmp_packet p icmp \<noteq> []"
proof -
  have v: "ip_Version p = 4 \<or> ip_Version p = 6" using assms(1) by (simp add: path_ok_def)
  show "ipIcmpBody (icmp_packet p icmp) = Some icmp"
    unfolding icmp_packet_def path_header_def
    using assms v path_Reverse_ok [OF assms(1)]
    by (intro ipIcmpBody_header) (simp_all add: path_ok_def fits_def icmp_protocol_def)
  show "ip_version (icmp_packet p icmp) = of_int (ip_Version p)" "icmp_packet p icmp \<noteq> []"
    unfolding icmp_packet_def path_header_def using v
    by (simp_all add: ip_version_header(1)) (simp add: ip_header_def ipv4_header_with_def)
qed

lemma unreachable_embeds:
  assumes "carried p"
  obtains embedded a b where "unreachable_embedded p = Some (Some (embedded, a, b))" "embeds p embedded"
proof (cases "ip_Protocol p = IpProtocolTcp")
  case True
  then show thesis
    using embeds_tcp [of p tcpFlagSyn] assms that by (auto simp: carried_def unreachable_embedded_def)
next
  case False
  then have "ip_Protocol p = IpProtocolUdp" using assms by (simp add: carried_def)
  then show thesis using embeds_udp [of p] assms that by (auto simp: carried_def unreachable_embedded_def)
qed

lemma ipOosUnreachable_layout:
  assumes "carried p"
  obtains c code embedded where
    "ipOosUnreachable p = Some (Some (icmp_packet p (icmp_bytes c
       (if ip_Version p = 4 then icmpv4TypeDestinationUnreachable else icmpv6TypeDestinationUnreachable) code 0 embedded)))"
    "embeds p embedded"
proof -
  have ok: "path_ok p" using assms by (simp add: carried_def)
  obtain embedded a b where e: "unreachable_embedded p = Some (Some (embedded, a, b))" "embeds p embedded"
    using unreachable_embeds [OF assms] .
  have "ipOosUnreachable p = Some (Some (icmp_packet p (icmp_bytes
      (if ip_Version p = 4 then checksumFinish (checksumAdd 0 (icmp_bytes 0 icmpv4TypeDestinationUnreachable a 0 embedded))
       else transportChecksum protocolIcmp6 (IP_To16 (ip_DestinationIp p)) (IP_To16 (ip_SourceIp p))
         (icmp_bytes 0 icmpv6TypeDestinationUnreachable b 0 embedded))
      (if ip_Version p = 4 then icmpv4TypeDestinationUnreachable else icmpv6TypeDestinationUnreachable)
      (if ip_Version p = 4 then a else b) 0 embedded)))"
    using path_ok_version [OF ok]
    by (auto simp: ipOosUnreachable_def e(1) ipTransportPacket_eq [OF path_Reverse_ok [OF ok]] Let_def
        unreachable_writeHeader_layout put_icmp_checksum icmp_packet_def path_header_def icmp_protocol_def icmpUnreachableHeaderSize_def
        unreachable_writeHeader_layout [unfolded icmpUnreachableHeaderSize_def])
  then show thesis using that e(2) by blast
qed

lemma wire_path_fields [simp]:
  "ip_Version (wire_path p) = ip_Version p" "ip_Protocol (wire_path p) = ip_Protocol p"
  "ip_SourcePort (wire_path p) = ip_SourcePort p" "ip_DestinationPort (wire_path p) = ip_DestinationPort p"
  by (simp_all add: wire_path_def new_path_def)

lemma wire_ip_wire: "length (wire_ip v ip) = address_size v \<Longrightarrow> v = 4 \<or> v = 6 \<Longrightarrow> wire_ip v (wire_ip v ip) = wire_ip v ip"
  by (auto simp: wire_ip_def address_size_def IP_To4_def IP_To16_def)

lemma transport_wire:
  assumes "path_ok p"
  shows "ipTransportPacket ((wire_path p)\<lparr>ip_SequenceNumber := s\<rparr>) proto n = ipTransportPacket p proto n"
    "ipPathTransportChecksum ((wire_path p)\<lparr>ip_SequenceNumber := s\<rparr>) proto t = ipPathTransportChecksum p proto t"
    "ipTransportPacket (path_Reverse ((wire_path p)\<lparr>ip_SequenceNumber := s\<rparr>)) proto n = ipTransportPacket (path_Reverse p) proto n"
proof -
  have w: "path_ok ((wire_path p)\<lparr>ip_SequenceNumber := s\<rparr>)"
    using assms by (simp add: path_ok_def wire_path_def new_path_def wire_ip_wire)
  show "ipTransportPacket ((wire_path p)\<lparr>ip_SequenceNumber := s\<rparr>) proto n = ipTransportPacket p proto n"
    using assms by (simp add: ipTransportPacket_eq [OF w] ipTransportPacket_eq [OF assms])
      (simp add: path_ok_def wire_path_def new_path_def wire_ip_wire)
  show "ipPathTransportChecksum ((wire_path p)\<lparr>ip_SequenceNumber := s\<rparr>) proto t = ipPathTransportChecksum p proto t"
    using assms by (simp add: ipPathTransportChecksum_wire path_ok_def wire_path_def new_path_def wire_ip_wire)
  show "ipTransportPacket (path_Reverse ((wire_path p)\<lparr>ip_SequenceNumber := s\<rparr>)) proto n = ipTransportPacket (path_Reverse p) proto n"
    using assms by (simp add: ipTransportPacket_eq [OF path_Reverse_ok [OF w]] ipTransportPacket_eq [OF path_Reverse_ok [OF assms]])
      (simp add: path_ok_def wire_path_def new_path_def wire_ip_wire)
qed

lemma unreachable_wire:
  assumes "carried p"
  shows "ipOosUnreachable ((wire_path p)\<lparr>ip_SequenceNumber := embed_seq p\<rparr>) = ipOosUnreachable p"
proof -
  let ?q = "(wire_path p)\<lparr>ip_SequenceNumber := embed_seq p\<rparr>"
  have ok: "path_ok p" using assms by (simp add: carried_def)
  note t = transport_wire [OF ok, of "embed_seq p"]
  have f: "ip_Version ?q = ip_Version p" "ip_Protocol ?q = ip_Protocol p" "ip_SourcePort ?q = ip_SourcePort p"
    "ip_DestinationPort ?q = ip_DestinationPort p" "ip_SequenceNumber ?q = embed_seq p"
    "ip_Version p = 6 \<Longrightarrow> IP_To16 (ip_SourceIp ?q) = IP_To16 (ip_SourceIp p)"
    "ip_Version p = 6 \<Longrightarrow> IP_To16 (ip_DestinationIp ?q) = IP_To16 (ip_DestinationIp p)"
    using ok wire_ip_wire [of 6] by (auto simp: wire_path_def new_path_def path_ok_def wire_ip_def)
  have "ipOosUdpPacket ?q [] = ipOosUdpPacket p []"
    by (simp add: ipOosUdpPacket_def t f)
  moreover have "ipOosTcpPacketSequence ?q tcpFlagSyn s [] = ipOosTcpPacketSequence p tcpFlagSyn s []" for s
    by (simp add: ipOosTcpPacketSequence_def t f)
  ultimately have "unreachable_embedded ?q = unreachable_embedded p"
    using assms by (auto simp: unreachable_embedded_def f embed_seq_def carried_def)
  then show ?thesis
    using path_ok_version [OF ok] f(6,7)
    by (auto simp: ipOosUnreachable_def Let_def t f(1) split: option.split)
qed

lemma unreachable_parses:
  assumes "carried p" "ipOosUnreachable p = Some (Some packet)"
  shows "ipParseIcmpUnreachable packet = Some ((wire_path p)\<lparr>ip_SequenceNumber := embed_seq p\<rparr>)"
proof -
  let ?ty = "if ip_Version p = 4 then icmpv4TypeDestinationUnreachable else icmpv6TypeDestinationUnreachable"
  obtain c code embedded where u: "packet = icmp_packet p (icmp_bytes c ?ty code 0 embedded)" "embeds p embedded"
    using ipOosUnreachable_layout [OF assms(1)] assms(2) by (metis option.inject)
  have ok: "path_ok p" using assms(1) by (simp add: carried_def)
  have "length (icmp_bytes c ?ty code 0 embedded) \<le> 1000" using u(2) by (simp add: embeds_def)
  note b = icmp_packet_body [OF ok this]
  have "icmp_bytes c ty code 0 embedded ! 0 = ty" "drop icmpUnreachableHeaderSize (icmp_bytes c ty code 0 embedded) = embedded" for ty
    by (simp_all add: icmp_bytes_def icmpUnreachableHeaderSize_def putUint16_def putUint32_def)
  then show ?thesis
    using b u(2) path_ok_version [OF ok] unfolding u(1)
    by (auto simp: ipParseIcmpUnreachable_def embeds_def icmpUnreachableHeaderSize_def)
qed

lemma packetTooBig_layout:
  assumes "carried p"
  obtains c embedded where
    "ipOosPacketTooBig p mtu = Some (Some (icmp_packet p
       (if ip_Version p = 4
        then icmp_bytes c icmpv4TypeDestinationUnreachable icmpv4CodeFragmentationNeeded (ucast (of_int mtu :: uint16)) embedded
        else icmp_bytes c icmpv6TypePacketTooBig 0 (of_int mtu) embedded)))"
    "embeds p embedded"
proof -
  have ok: "path_ok p" using assms by (simp add: carried_def)
  obtain embedded where e: "(case ip_Protocol p of
           IpProtocolUdp \<Rightarrow> map_option Some (ipOosUdpPacket p [])
         | IpProtocolTcp \<Rightarrow> map_option Some (ipOosTcpPacketSequence p tcpFlagAck (ip_SequenceNumber p) [])
         | _ \<Rightarrow> Some None) = Some (Some embedded)" "embeds p embedded"
  proof (cases "ip_Protocol p = IpProtocolTcp")
    case True
    then show thesis using embeds_tcp [OF ok True, of tcpFlagAck] that by auto
  next
    case False
    then have u: "ip_Protocol p = IpProtocolUdp" using assms by (simp add: carried_def)
    then show thesis using embeds_udp [OF ok u] that by auto
  qed
  have b: "putUint32 (ucast (w :: uint16)) = putUint16 0 @ putUint16 w" for w
  proof -
    have z: "drop_bit 24 (ucast w :: uint32) = 0" "drop_bit 16 (ucast w :: uint32) = 0"
      using unat_u16_less [of w]
      by (simp_all add: unsigned_eq_0_iff [symmetric, where 'a = nat] drop_bit_eq_div unat_div unat_ucast32 del: unsigned_eq_0_iff)
    have "(ucast (drop_bit 8 (ucast w :: uint32)) :: byte) = ucast (drop_bit 8 w)" "(ucast (ucast w :: uint32) :: byte) = ucast w"
      by (rule bit_word_eqI; auto simp: bit_simps)+
    then show ?thesis by (simp add: putUint32_def putUint16_def z)
  qed
  let ?n = "icmpUnreachableHeaderSize + length embedded"
  have six: "copy_at icmpUnreachableHeaderSize embedded (put_at 4 (putUint32 (of_int mtu)) (put_at 0 [t, k, 0, 0] (replicate ?n 0))) =
      icmp_bytes 0 t k (of_int mtu) embedded" for t k
    by (simp add: icmpUnreachableHeaderSize_def zero_blocks(2) put_at_blocks copy_at_def icmp_bytes_def) (simp add: putUint16_def)
  have "put_at 6 (putUint16 (of_int mtu)) (put_at 4 (putUint16 0) (put_at 0 [t, k, 0, 0] (replicate ?n 0))) =
      [t, k, 0, 0] @ putUint16 0 @ putUint16 (of_int mtu) @ replicate (length embedded) 0" for t k
    unfolding icmpUnreachableHeaderSize_def zero_blocks(1)
    by (simp add: put_at_def putUint16_def [of 0])
  then have four: "copy_at icmpUnreachableHeaderSize embedded
      (put_at 6 (putUint16 (of_int mtu)) (put_at 4 (putUint16 0) (put_at 0 [t, k, 0, 0] (replicate ?n 0)))) =
      icmp_bytes 0 t k (ucast (of_int mtu :: uint16)) embedded" for t k
    by (simp only:) (simp add: icmpUnreachableHeaderSize_def put_at_blocks copy_at_def icmp_bytes_def b put_zero16)
  have "\<exists>c. ipOosPacketTooBig p mtu = Some (Some (icmp_packet p
       (if ip_Version p = 4
        then icmp_bytes c icmpv4TypeDestinationUnreachable icmpv4CodeFragmentationNeeded (ucast (of_int mtu :: uint16)) embedded
        else icmp_bytes c icmpv6TypePacketTooBig 0 (of_int mtu) embedded)))"
    using path_ok_version [OF ok]
    by (auto simp: ipOosPacketTooBig_def e(1) ipTransportPacket_eq [OF path_Reverse_ok [OF ok]] Let_def four six
        put_icmp_checksum icmp_packet_def path_header_def icmp_protocol_def)
      (auto simp: icmpUnreachableHeaderSize_def)
  then show thesis using that e(2) by blast
qed

lemma ipv4_header_checksum:
  assumes "length src = 4" "length dst = 4"
  shows "checksumFinish (checksumAdd 0 (ip_header 4 proto n src dst)) = 0"
proof -
  let ?xs = "[0x45, 0] @ putUint16 (of_nat (20 + n)) @ [0, 0, 0, 0, 64, proto]"
  let ?s = "checksumAdd 0 (?xs @ [0, 0] @ src @ dst)"
  have "csum (?xs @ [0, 0] @ src @ dst) \<le> 32768 * 21"
    using csum_bound [of "?xs @ [0, 0] @ src @ dst"] assms by simp
  then have "unat ?s = csum (?xs @ [0, 0] @ src @ dst)" by (subst unat_checksumAdd) simp_all
  moreover have "unat (getUint16 0x45 0) = 17664" by (simp add: getUint16_def)
  ultimately have "?s \<noteq> 0" by (metis csum.simps(3) append_Cons add_is_0 unat_0 zero_neq_numeral)
  then show ?thesis
    unfolding ip_header_def ipv4_header_with_def if_P [OF refl] put_zero16 [symmetric]
    by (intro checksum_valid [OF _ _ refl]) (use assms in simp_all)
qed

lemma oos_transport_layout:
  assumes "carried p" "length payload \<le> 65495"
  obtains t proto where
    "ipOosPacket p payload = Some (path_header p proto (length t) @ t)" "ipPathTransportChecksum p proto t = 0"
    "fits (ip_Version p) (length t)" "plain_protocol proto"
    "path_of_transport e (ip_Version p) \<lparr>pi_protocol = proto, pi_sourceIp = wire_ip (ip_Version p) (ip_SourceIp p),
       pi_destinationIp = wire_ip (ip_Version p) (ip_DestinationIp p), pi_transport = t\<rparr> = Inr (wire_path p, payload)"
    "proto = (if ip_Protocol p = IpProtocolTcp then protocolTcp else protocolUdp)"
proof -
  have ok: "path_ok p" using assms(1) by (simp add: carried_def)
  have ports: "uint (of_int (ip_SourcePort p) :: uint16) = ip_SourcePort p"
    "uint (of_int (ip_DestinationPort p) :: uint16) = ip_DestinationPort p"
    using ok by (auto simp: path_ok_def intro: port_back)
  show thesis
  proof (cases "ip_Protocol p = IpProtocolTcp")
    case True
    let ?t = "\<lambda>c. tcp_bytes c (of_int (ip_SourcePort p)) (of_int (ip_DestinationPort p)) 0 0 payload"
    obtain c where c: "ipOosTcpPacketSequence p 0 0 payload = Some (path_header p protocolTcp (20 + length payload) @ ?t c)"
      "ipPathTransportChecksum p protocolTcp (?t c) = 0"
      using ipOosTcpPacket_layout [OF ok, of payload 0 0] assms(2) by auto
    have "unat (drop_bit 4 (0x50 :: byte)) = 5" "getUint32 0 0 0 0 = 0" by (simp_all add: drop_bit_eq_div getUint32_def)
    then show thesis
      using True assms c ports
      by (intro that [of protocolTcp "?t c"])
        (simp_all add: ipOosPacket_def ipOosTcpPacket_def plain_protocol_def fits_def path_of_transport_def protocol_numbers
          parseTcpPacket_def header_sizes Let_def wire_path_def new_path_def,
         simp_all add: tcp_bytes_def putUint16_def putUint32_def u16_at_def u32_at_def)
  next
    case False
    then have u: "ip_Protocol p = IpProtocolUdp" using assms by (simp add: carried_def)
    let ?t = "\<lambda>c. udp_bytes c (of_int (ip_SourcePort p)) (of_int (ip_DestinationPort p)) payload"
    obtain c where c: "ipOosUdpPacket p payload = Some (path_header p protocolUdp (8 + length payload) @ ?t c)"
      "ipPathTransportChecksum p protocolUdp (?t c) = 0"
      using ipOosUdpPacket_layout [OF ok, of payload] assms(2) by auto
    have "unat (of_nat (8 + length payload) :: uint16) = 8 + length payload" using assms(2) by (intro unat_of_nat16) simp
    moreover have "u16_at (?t c) 4 = of_nat (8 + length payload)" by (simp add: udp_bytes_def u16_at_def putUint16_def)
    moreover have "subslice 8 (8 + length payload) (?t c) = payload" by (simp add: udp_bytes_def subslice_def)
    ultimately show thesis
      using u assms c ports
      by (intro that [of protocolUdp "?t c"])
        (simp_all add: ipOosPacket_def plain_protocol_def fits_def path_of_transport_def protocol_numbers
          parseUdpPacket_def header_sizes Let_def wire_path_def new_path_def,
         simp_all add: udp_bytes_def putUint16_def u16_at_def)
  qed
qed

section \<open>Properties of the packet builders\<close>

definition example_path :: IpPath where
  "example_path = \<lparr>ip_Version = 4, ip_Protocol = IpProtocolTcp, ip_SourceIp = [10, 0, 0, 2], ip_SourcePort = 40000,
     ip_DestinationIp = replicate 10 0 @ [255, 255, 1, 2, 3, 4], ip_DestinationPort = 443, ip_SequenceNumber = 7,
     ip_Syn = True, ip_Rst = False, ip_Ack = False\<rparr>"

lemma example_path_carried: "carried example_path"
  by (simp add: carried_def path_ok_def example_path_def wire_ip_def IP_To4_def address_size_def numeral_eq_Suc)

text \<open>
  C26. What the out-of-sequence builder writes, the parser reads back: for a TCP or UDP path with
  addresses of its family and ports in range, and a payload that fits a packet, the built packet
  parses to the same flow, with the addresses in wire form and no TCP flags or sequence number,
  and to the same payload.
\<close>

theorem oos_packet_roundtrip:
  assumes "carried p" "length payload \<le> 65495"
  shows "\<exists>packet. ipOosPacket p payload = Some packet
    \<and> ParseIpPathWithPayload echoEnabled packet = Inr (wire_path p, payload)"
proof -
  have ok: "path_ok p" using assms(1) by (simp add: carried_def)
  obtain t proto where t: "ipOosPacket p payload = Some (path_header p proto (length t) @ t)"
    "fits (ip_Version p) (length t)" "plain_protocol proto"
    "path_of_transport echoEnabled (ip_Version p) \<lparr>pi_protocol = proto, pi_sourceIp = wire_ip (ip_Version p) (ip_SourceIp p),
       pi_destinationIp = wire_ip (ip_Version p) (ip_DestinationIp p), pi_transport = t\<rparr> = Inr (wire_path p, payload)"
    using oos_transport_layout [OF assms, where e = echoEnabled] by metis
  have "ParseIpPathWithPayload echoEnabled (path_header p proto (length t) @ t) = Inr (wire_path p, payload)"
    unfolding path_header_def t(4) [symmetric]
    using ok t(2,3) by (intro ParseIpPathWithPayload_header) (simp_all add: path_ok_def)
  then show ?thesis using t(1) by blast
qed

theorem oos_packet_roundtrip_witness:
  "\<exists>packet. ipOosPacket example_path [1, 2, 3] = Some packet
    \<and> ParseIpPathWithPayload (\<lambda>_. False) packet = Inr (wire_path example_path, [1, 2, 3])"
  using oos_packet_roundtrip [OF example_path_carried, of "[1, 2, 3]" "\<lambda>_. False"] by simp

text \<open>
  C27. The built packets carry checksums that a receiver accepts: the IPv4 header sums to zero,
  and the transport sums to zero together with its pseudo header, also when the computed UDP
  checksum is zero and goes out as all ones.
\<close>

theorem oos_packet_checksums:
  assumes "carried p" "length payload \<le> 65495"
  shows "\<exists>header transport. ipOosPacket p payload = Some (header @ transport)
    \<and> length header = (if ip_Version p = 4 then Ipv4HeaderSizeWithoutExtensions else Ipv6HeaderSize)
    \<and> (ip_Version p = 4 \<longrightarrow> checksumFinish (checksumAdd 0 header) = 0)
    \<and> ipPathTransportChecksum p (if ip_Protocol p = IpProtocolTcp then protocolTcp else protocolUdp) transport = 0"
proof -
  have ok: "path_ok p" using assms(1) by (simp add: carried_def)
  obtain t proto where t: "ipOosPacket p payload = Some (path_header p proto (length t) @ t)"
    "ipPathTransportChecksum p proto t = 0" "proto = (if ip_Protocol p = IpProtocolTcp then protocolTcp else protocolUdp)"
    using oos_transport_layout [OF assms, where e = "\<lambda>_. False"] by metis
  have "ip_Version p = 4 \<longrightarrow> checksumFinish (checksumAdd 0 (path_header p proto (length t))) = 0"
    unfolding path_header_def using ok by (auto simp: path_ok_def address_size_def intro: ipv4_header_checksum)
  moreover have "length (path_header p proto (length t)) = (if ip_Version p = 4 then Ipv4HeaderSizeWithoutExtensions else Ipv6HeaderSize)"
    unfolding path_header_def header_sizes using ok by (intro length_ip_header) (simp_all add: path_ok_def)
  ultimately show ?thesis using t by blast
qed

theorem oos_packet_checksums_witness:
  "\<exists>header transport. ipOosPacket example_path [1] = Some (header @ transport) \<and> checksumFinish (checksumAdd 0 header) = 0"
proof -
  have "ip_Version example_path = 4" by (simp add: example_path_def)
  then show ?thesis using oos_packet_checksums [OF example_path_carried, of "[1]"] by auto
qed

text \<open>
  C25. The unreachable signal of a failed flow names that flow. For a TCP or UDP flow with valid
  addresses and ports the builder makes a packet; both parsers recover the flow in its own
  direction from it, with the embedded TCP sequence number; the provider accepts it as the
  return of that flow; and a flow for which the provider accepts the packet has the same wire
  addresses, protocol and ports.
\<close>

theorem unreachable_names_flow:
  assumes "carried p"
  shows "\<exists>packet. ipOosUnreachable p = Some (Some packet)
    \<and> ipParseIcmpUnreachable packet = Some ((wire_path p)\<lparr>ip_SequenceNumber := embed_seq p\<rparr>)
    \<and> providerDialFailureEgressPath packet = Some (Some ((wire_path p)\<lparr>ip_SequenceNumber := embed_seq p\<rparr>))
    \<and> providerDialFailureReturnPath (Some p) packet = Some (Some (path_Reverse p))
    \<and> (\<forall>f r. carried f \<longrightarrow> providerDialFailureReturnPath (Some f) packet = Some (Some r) \<longrightarrow> wire_path f = wire_path p)"
proof -
  obtain packet where u: "ipOosUnreachable p = Some (Some packet)" using ipOosUnreachable_layout [OF assms] by metis
  note parse = unreachable_parses [OF assms u]
  have "wire_path f = wire_path p" if "carried f" "providerDialFailureReturnPath (Some f) packet = Some (Some r)" for f r
  proof -
    have "ipOosUnreachable f = Some (Some packet)"
      using that(2) by (cases "ipOosUnreachable f") (auto simp: providerDialFailureReturnPath_def split: if_splits)
    then have "(wire_path f)\<lparr>ip_SequenceNumber := embed_seq f\<rparr> = (wire_path p)\<lparr>ip_SequenceNumber := embed_seq p\<rparr>"
      using parse unreachable_parses [OF that(1)] by simp
    then show ?thesis by (auto simp: wire_path_def new_path_def)
  qed
  moreover have "providerDialFailureEgressPath packet = Some (Some ((wire_path p)\<lparr>ip_SequenceNumber := embed_seq p\<rparr>))"
    using u by (simp add: providerDialFailureEgressPath_def parse unreachable_wire [OF assms])
  ultimately show ?thesis using u parse by (auto simp: providerDialFailureReturnPath_def)
qed

theorem unreachable_names_flow_witness:
  "\<exists>packet. ipOosUnreachable example_path = Some (Some packet)
    \<and> providerDialFailureReturnPath (Some example_path) packet = Some (Some (path_Reverse example_path))"
  using unreachable_names_flow [OF example_path_carried] by blast

text \<open>
  C28. The path-mtu signal carries the mtu and the flow: for a TCP or UDP flow and an mtu from 1
  to 65535, the built packet has an ICMP body from which the parser of the flow's address family
  recovers exactly that mtu and that flow.
\<close>

theorem packet_too_big_roundtrip:
  assumes "carried p" "1 \<le> mtu" "mtu \<le> 65535"
  shows "\<exists>packet icmp. ipOosPacketTooBig p mtu = Some (Some packet) \<and> ipIcmpBody packet = Some icmp
    \<and> (if ip_Version p = 4 then ipParseIcmpv4FragmentationNeeded icmp else ipParseIcmpv6PacketTooBig icmp)
      = Some (mtu, (wire_path p)\<lparr>ip_SequenceNumber := embed_seq p\<rparr>)"
proof -
  have ok: "path_ok p" using assms(1) by (simp add: carried_def)
  let ?icmp = "\<lambda>c embedded. if ip_Version p = 4
        then icmp_bytes c icmpv4TypeDestinationUnreachable icmpv4CodeFragmentationNeeded (ucast (of_int mtu :: uint16)) embedded
        else icmp_bytes c icmpv6TypePacketTooBig 0 (of_int mtu) embedded"
  obtain c embedded where u: "ipOosPacketTooBig p mtu = Some (Some (icmp_packet p (?icmp c embedded)))" "embeds p embedded"
    using packetTooBig_layout [OF assms(1), of mtu] by metis
  have "length (?icmp c embedded) \<le> 1000" using u(2) by (simp add: embeds_def)
  note body = icmp_packet_body(1) [OF ok this]
  have b: "icmp_bytes c t k w embedded ! 0 = t" "icmp_bytes c t k w embedded ! 1 = k"
    "drop 8 (icmp_bytes c t k w embedded) = embedded" "u32_at (icmp_bytes c t k w embedded) 4 = w"
    "u16_at (icmp_bytes c t k w embedded) 6 = ucast w" for t k w
    by (simp_all add: icmp_bytes_def putUint16_def putUint32_def u32_at_def u16_at_def)
      (rule bit_word_eqI, auto simp: getUint16_def bit_simps)
  have m: "uint (of_int mtu :: uint16) = mtu" "uint (of_int mtu :: uint32) = mtu"
    using assms(2,3) by (simp_all add: unsigned_of_int take_bit_int_eq_self)
  have "(ucast (ucast (of_int mtu :: uint16) :: uint32) :: uint16) = of_int mtu" by (rule bit_word_eqI) (auto simp: bit_simps)
  then show ?thesis
    using u body b m assms(2,3) path_ok_version [OF ok]
    by (auto simp: ipParseIcmpv4FragmentationNeeded_def ipParseIcmpv6PacketTooBig_def Let_def embeds_def icmpUnreachableHeaderSize_def)
qed

theorem packet_too_big_roundtrip_witness:
  "\<exists>packet icmp. ipOosPacketTooBig example_path 1280 = Some (Some packet) \<and> ipIcmpBody packet = Some icmp
    \<and> map_option fst (ipParseIcmpv4FragmentationNeeded icmp) = Some 1280"
proof -
  have "ip_Version example_path = 4" by (simp add: example_path_def)
  then show ?thesis using packet_too_big_roundtrip [OF example_path_carried, of 1280] by auto
qed

text \<open>
  C29. No input makes the signal builders panic: on a version or protocol they do not support,
  the reset, the unreachable and the path-mtu builder report that there is no packet, whatever
  the addresses and ports are; and a reset is built exactly for TCP flows of version 4 or 6.
\<close>

theorem signals_never_panic:
  "ipOosUnreachable p \<noteq> None \<and> ipOosPacketTooBig p mtu \<noteq> None \<and> ipOosRstSequence p s \<noteq> None
   \<and> (ipOosRstSequence p s \<noteq> Some None \<longleftrightarrow> ip_Protocol p = IpProtocolTcp \<and> ip_Version p \<in> {4, 6})"
proof -
  have t: "ipTransportPacket q proto n = None \<longleftrightarrow> \<not> (ip_Version q = 4 \<or> ip_Version q = 6)" for q proto n
    by (simp add: ipTransportPacket_def Let_def)
  have u: "ipOosUdpPacket q b = None \<longleftrightarrow> \<not> (ip_Version q = 4 \<or> ip_Version q = 6)"
    "ipOosTcpPacketSequence q flags k b = None \<longleftrightarrow> \<not> (ip_Version q = 4 \<or> ip_Version q = 6)" for q b flags k
    using t [of q] by (auto simp: ipOosUdpPacket_def ipOosTcpPacketSequence_def Let_def bind_eq_None_conv split: prod.splits)
  have "ipOosUnreachable p \<noteq> None"
    using t [of "path_Reverse p"] u [of p]
    by (auto simp: ipOosUnreachable_def unreachable_embedded_def Let_def simp del: not_None_eq
        split: IpProtocol.splits option.splits Option.bind_splits)
  moreover have "ipOosPacketTooBig p mtu \<noteq> None"
    using t [of "path_Reverse p"] u [of p]
    by (auto simp: ipOosPacketTooBig_def Let_def simp del: not_None_eq
        split: IpProtocol.splits option.splits Option.bind_splits)
  moreover have "ipOosRstSequence p s \<noteq> None"
    "ipOosRstSequence p s \<noteq> Some None \<longleftrightarrow> ip_Protocol p = IpProtocolTcp \<and> ip_Version p \<in> {4, 6}"
    using u [of p] by (auto simp: ipOosRstSequence_def split: IpProtocol.splits)
  ultimately show ?thesis by blast
qed

text \<open>
  C30. A reset for a TCP flow parses as a reset of that flow that carries exactly the sequence
  number it was asked for, with no payload and no other flag.
\<close>

theorem rst_roundtrip:
  assumes ok: "path_ok p" and tcp: "ip_Protocol p = IpProtocolTcp"
  shows "\<exists>packet. ipOosRstSequence p s = Some (Some packet)
    \<and> ParseIpPathWithPayload echoEnabled packet = Inr ((wire_path p)\<lparr>ip_SequenceNumber := s, ip_Rst := True\<rparr>, [])"
proof -
  let ?t = "\<lambda>c. tcp_bytes c (of_int (ip_SourcePort p)) (of_int (ip_DestinationPort p)) tcpFlagRst s []"
  obtain c where c: "ipOosTcpPacketSequence p tcpFlagRst s [] = Some (path_header p protocolTcp (length (?t c)) @ ?t c)"
    using ipOosTcpPacket_layout [OF ok, of "[]" tcpFlagRst s] by auto
  have "ParseIpPathWithPayload echoEnabled (path_header p protocolTcp (length (?t c)) @ ?t c) =
      path_of_transport echoEnabled (ip_Version p) \<lparr>pi_protocol = protocolTcp, pi_sourceIp = wire_ip (ip_Version p) (ip_SourceIp p),
       pi_destinationIp = wire_ip (ip_Version p) (ip_DestinationIp p), pi_transport = ?t c\<rparr>"
    unfolding path_header_def
    using ok by (intro ParseIpPathWithPayload_header) (simp_all add: path_ok_def fits_def plain_protocol_def)
  also have "\<dots> = Inr ((wire_path p)\<lparr>ip_SequenceNumber := s, ip_Rst := True\<rparr>, [])"
  proof -
    have "uint (of_int (ip_SourcePort p) :: uint16) = ip_SourcePort p"
      "uint (of_int (ip_DestinationPort p) :: uint16) = ip_DestinationPort p"
      "?t c ! 12 = 0x50" "?t c ! 13 = 4" "u32_at (?t c) 4 = s"
      "u16_at (?t c) 0 = of_int (ip_SourcePort p)" "u16_at (?t c) 2 = of_int (ip_DestinationPort p)"
      using ok by (auto simp: path_ok_def tcp_bytes_def putUint16_def putUint32_def u16_at_def u32_at_def
          tcpFlagRst_def intro: port_back)
    moreover have "unat (drop_bit 4 (0x50 :: byte)) = 5" by (simp add: drop_bit_eq_div)
    ultimately show ?thesis
      using tcp by (simp add: Let_def path_of_transport_def protocol_numbers parseTcpPacket_def header_sizes wire_path_def new_path_def)
  qed
  finally show ?thesis using c ok tcp path_ok_version [OF ok] by (auto simp: ipOosRstSequence_def)
qed

theorem rst_roundtrip_witness:
  "\<exists>packet. ipOosRstSequence example_path 99 = Some (Some packet)
    \<and> ParseIpPathWithPayload (\<lambda>_. False) packet = Inr ((wire_path example_path)\<lparr>ip_SequenceNumber := 99, ip_Rst := True\<rparr>, [])"
  using rst_roundtrip [of example_path 99 "\<lambda>_. False"] example_path_carried
  by (simp add: carried_def) (simp add: example_path_def)
end
