(* ===== verification/Fragment_Store.thy ===== *)
theory Fragment_Store
  imports Ip_Packet
begin

text \<open>
  The bounded cache of incomplete datagrams that the IPv4 and the IPv6 reassembler are both built
  on (ip_fragment.go; ip_ipv6_fragment.go repeats it for its own key and datagram types).

  \<^item> The store is polymorphic in the key, with \<open>src\<close> the projection to the key's source, and in
    the fields a datagram has beyond the common ones. \<open>hx\<close> is the number of bytes between a
    fragment's header and its payload: none for IPv4, the fragment header for IPv6.
  \<^item> The map of datagrams is an association list. A Go map is iterated in an unspecified order:
    \<open>order\<close> gives the order in which a loop over the datagrams visits them.
  \<^item> Times are nanoseconds. Returning a buffer to the message pool has no effect on the state
    described here, so these calls are left out.
  \<^item> The eviction loops run on fuel, one step more than there are datagrams; each step but the
    last removes one, so that the fuel is never the reason why a loop stops.
\<close>

section \<open>The cache\<close>

definition ipv4FragmentReassemblyTimeout :: int where
  "ipv4FragmentReassemblyTimeout = 15 * 10 ^ 9"

definition ipv4FragmentReassemblyMaxDatagrams :: nat where
  "ipv4FragmentReassemblyMaxDatagrams = 16"

definition ipv4FragmentReassemblyMaxFragments :: nat where
  "ipv4FragmentReassemblyMaxFragments = 64"

definition ipv4FragmentReassemblyMaxRetainedBytes :: int where
  "ipv4FragmentReassemblyMaxRetainedBytes = 64 * 1024"

record retainedFragment =
  rf_packet :: bytes
  rf_headerByteCount :: nat
  rf_offset :: nat
  rf_payloadByteCount :: nat

definition rf_payload :: "nat \<Rightarrow> retainedFragment \<Rightarrow> bytes" where
  "rf_payload hx f =
     subslice (rf_headerByteCount f + hx) (rf_headerByteCount f + hx + rf_payloadByteCount f) (rf_packet f)"

definition rf_end :: "retainedFragment \<Rightarrow> nat" where
  "rf_end f = rf_offset f + rf_payloadByteCount f"

record fragmentDatagram =
  dg_createdAt :: int
  dg_updatedAt :: int
  dg_fragments :: "retainedFragment list"
  dg_firstHeaderByteCount :: nat
  dg_finalPayloadByteCount :: int

record ('k, 's, 'd) fragmentReassembler =
  fr_maxRetainedBytes :: int
  fr_maxRetainedBytesPerSource :: int
  fr_datagrams :: "('k \<times> 'd) list"
  fr_retainedByteCount :: int
  fr_retainedBytesBySource :: "'s \<rightharpoonup> int"

type_synonym ('k, 's, 'x) reassembler = "('k, 's, 'x fragmentDatagram_scheme) fragmentReassembler"
type_synonym ('k, 'x) visit_order = "('k \<times> 'x fragmentDatagram_scheme) list \<Rightarrow> ('k \<times> 'x fragmentDatagram_scheme) list"

definition newFragmentReassembler :: "('k, 's, 'd) fragmentReassembler" where
  "newFragmentReassembler =
     \<lparr>fr_maxRetainedBytes = ipv4FragmentReassemblyMaxRetainedBytes, fr_maxRetainedBytesPerSource = 0,
      fr_datagrams = [], fr_retainedByteCount = 0, fr_retainedBytesBySource = Map.empty\<rparr>"

section \<open>Releasing datagrams\<close>

definition retainedBytesForSource :: "('k, 's, 'd) fragmentReassembler \<Rightarrow> 's \<Rightarrow> int" where
  "retainedBytesForSource r source = (case fr_retainedBytesBySource r source of None \<Rightarrow> 0 | Some n \<Rightarrow> n)"

definition uncharge :: "'s \<Rightarrow> retainedFragment \<Rightarrow> ('k, 's, 'd) fragmentReassembler \<Rightarrow> ('k, 's, 'd) fragmentReassembler" where
  "uncharge source f r =
     (let n = int (length (rf_packet f)); retained = retainedBytesForSource r source - n
      in r\<lparr>fr_retainedByteCount := fr_retainedByteCount r - n,
           fr_retainedBytesBySource :=
             (if 0 < retained then (fr_retainedBytesBySource r)(source \<mapsto> retained)
              else (fr_retainedBytesBySource r)(source := None))\<rparr>)"

definition detachDatagram ::
  "('k \<Rightarrow> 's) \<Rightarrow> 'k \<Rightarrow> ('k, 's, 'x) reassembler \<Rightarrow> retainedFragment list \<times> ('k, 's, 'x) reassembler" where
  "detachDatagram src key r =
     (case map_of (fr_datagrams r) key of
        None \<Rightarrow> ([], r)
      | Some d \<Rightarrow>
          (dg_fragments d,
           fold (uncharge (src key)) (dg_fragments d)
             (r\<lparr>fr_datagrams := filter (\<lambda>(k, _). k \<noteq> key) (fr_datagrams r)\<rparr>)))"

definition releaseDatagram :: "('k \<Rightarrow> 's) \<Rightarrow> 'k \<Rightarrow> ('k, 's, 'x) reassembler \<Rightarrow> ('k, 's, 'x) reassembler" where
  "releaseDatagram src key r = snd (detachDatagram src key r)"

fun oldest_scan ::
  "('k \<Rightarrow> bool) \<Rightarrow> ('k \<times> 'x fragmentDatagram_scheme) list \<Rightarrow> ('k \<times> int) option \<Rightarrow> 'k option" where
  "oldest_scan skip [] found = map_option fst found"
| "oldest_scan skip ((key, d) # ds) found =
     (if skip key then oldest_scan skip ds found
      else
        (case found of
           None \<Rightarrow> oldest_scan skip ds (Some (key, dg_updatedAt d))
         | Some (_, oldestTime) \<Rightarrow>
             if dg_updatedAt d < oldestTime then oldest_scan skip ds (Some (key, dg_updatedAt d))
             else oldest_scan skip ds found))"

text \<open>The excluded key is optional; \<open>None\<close> stands for the zero key, which excludes nothing.\<close>

definition releaseOldestDatagram ::
  "('k \<Rightarrow> 's) \<Rightarrow> ('k, 'x) visit_order \<Rightarrow> 'k option \<Rightarrow> ('k, 's, 'x) reassembler \<Rightarrow> bool \<times> ('k, 's, 'x) reassembler" where
  "releaseOldestDatagram src order exclude r =
     (case oldest_scan (\<lambda>key. exclude = Some key) (order (fr_datagrams r)) None of
        None \<Rightarrow> (False, r)
      | Some key \<Rightarrow> (True, releaseDatagram src key r))"

definition releaseOldestDatagramForSource ::
  "('k \<Rightarrow> 's) \<Rightarrow> ('k, 'x) visit_order \<Rightarrow> 's \<Rightarrow> ('k, 's, 'x) reassembler \<Rightarrow> bool \<times> ('k, 's, 'x) reassembler" where
  "releaseOldestDatagramForSource src order source r =
     (case oldest_scan (\<lambda>key. src key \<noteq> source) (order (fr_datagrams r)) None of
        None \<Rightarrow> (False, r)
      | Some key \<Rightarrow> (True, releaseDatagram src key r))"

definition expire :: "('k \<Rightarrow> 's) \<Rightarrow> int \<Rightarrow> ('k, 's, 'x) reassembler \<Rightarrow> ('k, 's, 'x) reassembler" where
  "expire src now r =
     fold (\<lambda>(key, d) r. if ipv4FragmentReassemblyTimeout \<le> now - dg_createdAt d then releaseDatagram src key r else r)
       (fr_datagrams r) r"

definition closeReassembler :: "('k \<Rightarrow> 's) \<Rightarrow> ('k, 's, 'x) reassembler \<Rightarrow> ('k, 's, 'x) reassembler" where
  "closeReassembler src r = fold (\<lambda>(key, _). releaseDatagram src key) (fr_datagrams r) r"

fun evict_loop :: "nat \<Rightarrow> ('r \<Rightarrow> bool) \<Rightarrow> ('r \<Rightarrow> bool \<times> 'r) \<Rightarrow> 'r \<Rightarrow> bool \<times> 'r" where
  "evict_loop 0 over release r = (\<not> over r, r)"
| "evict_loop (Suc n) over release r =
     (if \<not> over r then (True, r)
      else
        let (found, r') = release r
        in if found then evict_loop n over release r' else (False, r'))"

definition evict ::
  "(('k, 's, 'x) reassembler \<Rightarrow> bool) \<Rightarrow> (('k, 's, 'x) reassembler \<Rightarrow> bool \<times> ('k, 's, 'x) reassembler)
   \<Rightarrow> ('k, 's, 'x) reassembler \<Rightarrow> bool \<times> ('k, 's, 'x) reassembler" where
  "evict over release r = evict_loop (length (fr_datagrams r) + 1) over release r"

definition makeDatagramRoom ::
  "('k \<Rightarrow> 's) \<Rightarrow> ('k, 'x) visit_order \<Rightarrow> int \<Rightarrow> ('k, 's, 'x) reassembler \<Rightarrow> ('k, 's, 'x) reassembler" where
  "makeDatagramRoom src order now r =
     snd (evict (\<lambda>r. ipv4FragmentReassemblyMaxDatagrams \<le> length (fr_datagrams r))
            (releaseOldestDatagram src order None) (expire src now r))"

section \<open>One fragment\<close>

datatype ('d, 'r) admission = Refused 'r | Overflowed 'r | Admitted 'd 'r

text \<open>
  The datagram of the fragment's key: the retained one, or a new one once there is room for it.
  A refused fragment leaves no datagram behind; an overflow drops the datagram it belongs to.
\<close>

definition admit_fragment ::
  "('k \<Rightarrow> 's) \<Rightarrow> ('k, 'x) visit_order \<Rightarrow> 'x \<Rightarrow> int \<Rightarrow> 'k \<Rightarrow> int \<Rightarrow> ('k, 's, 'x) reassembler
   \<Rightarrow> ('x fragmentDatagram_scheme, ('k, 's, 'x) reassembler) admission" where
  "admit_fragment src order fresh now key packetCost r =
     (case map_of (fr_datagrams r) key of
        None \<Rightarrow>
          let r = makeDatagramRoom src order now r
          in if fr_maxRetainedBytes r < packetCost then Refused r
             else
               let (room, r) = evict (\<lambda>r. fr_maxRetainedBytes r < fr_retainedByteCount r + packetCost)
                                 (releaseOldestDatagram src order None) r
               in if \<not> room then Refused r
                  else
                    let (room, r) =
                      (if 0 < fr_maxRetainedBytesPerSource r
                       then evict (\<lambda>r. fr_maxRetainedBytesPerSource r < retainedBytesForSource r (src key) + packetCost)
                              (releaseOldestDatagramForSource src order (src key)) r
                       else (True, r))
                    in if \<not> room then Refused r
                       else
                         let d = \<lparr>dg_createdAt = now, dg_updatedAt = now, dg_fragments = [], dg_firstHeaderByteCount = 0,
                                  dg_finalPayloadByteCount = - 1, \<dots> = fresh\<rparr>
                         in Admitted d (r\<lparr>fr_datagrams := (key, d) # fr_datagrams r\<rparr>)
      | Some d \<Rightarrow>
          if fr_maxRetainedBytes r < fr_retainedByteCount r + packetCost
             \<or> 0 < fr_maxRetainedBytesPerSource r
               \<and> fr_maxRetainedBytesPerSource r < retainedBytesForSource r (src key) + packetCost
          then Overflowed r
          else Admitted d r)"

datatype overlap = Duplicate | Conflict | Disjoint

fun fragment_overlap :: "nat \<Rightarrow> nat \<Rightarrow> bytes \<Rightarrow> retainedFragment list \<Rightarrow> overlap" where
  "fragment_overlap hx offset payload [] = Disjoint"
| "fragment_overlap hx offset payload (f # fs) =
     (let fragmentEnd = offset + length payload
      in if offset = rf_offset f \<and> fragmentEnd = rf_end f
         then if payload = rf_payload hx f then Duplicate else Conflict
         else if offset < rf_end f \<and> rf_offset f < fragmentEnd then Conflict
         else fragment_overlap hx offset payload fs)"

definition note_final ::
  "nat \<Rightarrow> bool \<Rightarrow> 'x fragmentDatagram_scheme \<Rightarrow> 'x fragmentDatagram_scheme option" where
  "note_final fragmentEnd moreFragments d =
     (if ipv4FragmentReassemblyMaxFragments \<le> length (dg_fragments d) then None
      else if \<not> moreFragments
      then
        if 0 \<le> dg_finalPayloadByteCount d \<and> dg_finalPayloadByteCount d \<noteq> int fragmentEnd then None
        else if list_ex (\<lambda>f. fragmentEnd < rf_end f) (dg_fragments d) then None
        else Some (d\<lparr>dg_finalPayloadByteCount := int fragmentEnd\<rparr>)
      else if 0 \<le> dg_finalPayloadByteCount d \<and> dg_finalPayloadByteCount d \<le> int fragmentEnd then None
      else Some d)"

text \<open>\<open>setFirst\<close> notes what else a family keeps of the first fragment.\<close>

definition note_first ::
  "('x fragmentDatagram_scheme \<Rightarrow> 'x fragmentDatagram_scheme) \<Rightarrow> nat \<Rightarrow> nat
   \<Rightarrow> 'x fragmentDatagram_scheme \<Rightarrow> 'x fragmentDatagram_scheme option" where
  "note_first setFirst offset headerByteCount d =
     (if offset = 0
      then
        if dg_firstHeaderByteCount d \<noteq> 0 \<and> dg_firstHeaderByteCount d \<noteq> headerByteCount then None
        else Some (setFirst (d\<lparr>dg_firstHeaderByteCount := headerByteCount\<rparr>))
      else Some d)"

fun put_datagram :: "'k \<Rightarrow> 'd \<Rightarrow> ('k \<times> 'd) list \<Rightarrow> ('k \<times> 'd) list" where
  "put_datagram key d [] = []"
| "put_datagram key d ((k, e) # ds) = (if k = key then (k, d) # ds else (k, e) # put_datagram key d ds)"

definition retain_fragment ::
  "('k \<Rightarrow> 's) \<Rightarrow> 'k \<Rightarrow> int \<Rightarrow> retainedFragment \<Rightarrow> 'x fragmentDatagram_scheme
   \<Rightarrow> ('k, 's, 'x) reassembler \<Rightarrow> 'x fragmentDatagram_scheme \<times> ('k, 's, 'x) reassembler" where
  "retain_fragment src key now f d r =
     (let d = d\<lparr>dg_fragments := dg_fragments d @ [f], dg_updatedAt := now\<rparr>; n = int (length (rf_packet f))
      in (d, r\<lparr>fr_datagrams := put_datagram key d (fr_datagrams r),
               fr_retainedByteCount := fr_retainedByteCount r + n,
               fr_retainedBytesBySource :=
                 (fr_retainedBytesBySource r)(src key \<mapsto> retainedBytesForSource r (src key) + n)\<rparr>))"

text \<open>The end of the fragments when they tile the datagram from the given position on.\<close>

fun tiles :: "nat \<Rightarrow> retainedFragment list \<Rightarrow> nat option" where
  "tiles position [] = Some position"
| "tiles position (f # fs) = (if rf_offset f \<noteq> position then None else tiles (position + rf_payloadByteCount f) fs)"

datatype 'd core_result = CoreDropped | CoreKept | CoreComplete 'd

definition check_complete ::
  "'k \<Rightarrow> 'x fragmentDatagram_scheme \<Rightarrow> ('k, 's, 'x) reassembler
   \<Rightarrow> 'x fragmentDatagram_scheme core_result \<times> ('k, 's, 'x) reassembler" where
  "check_complete key d r =
     (if dg_firstHeaderByteCount d = 0 \<or> dg_finalPayloadByteCount d < 0 then (CoreKept, r)
      else
        let d = d\<lparr>dg_fragments := sort_key rf_offset (dg_fragments d)\<rparr>;
            r = r\<lparr>fr_datagrams := put_datagram key d (fr_datagrams r)\<rparr>
        in if map_option int (tiles 0 (dg_fragments d)) = Some (dg_finalPayloadByteCount d)
           then (CoreComplete d, r)
           else (CoreKept, r))"

text \<open>
  What a family does with a fragment after it has parsed and checked its header. The fragment
  comes as it would be retained, and \<open>packetCost\<close> is the size of the packet it came in.
\<close>

definition process_fragment ::
  "nat \<Rightarrow> ('x fragmentDatagram_scheme \<Rightarrow> 'x fragmentDatagram_scheme) \<Rightarrow> (nat \<Rightarrow> int \<Rightarrow> bool) \<Rightarrow> 'x
   \<Rightarrow> ('k \<Rightarrow> 's) \<Rightarrow> ('k, 'x) visit_order \<Rightarrow> int \<Rightarrow> 'k \<Rightarrow> int \<Rightarrow> retainedFragment \<Rightarrow> bool
   \<Rightarrow> ('k, 's, 'x) reassembler \<Rightarrow> 'x fragmentDatagram_scheme core_result \<times> bool \<times> ('k, 's, 'x) reassembler" where
  "process_fragment hx setFirst tooLong fresh src order now key packetCost f moreFragments r =
     (case admit_fragment src order fresh now key packetCost r of
        Refused r \<Rightarrow> (CoreDropped, False, r)
      | Overflowed r \<Rightarrow> (CoreDropped, False, releaseDatagram src key r)
      | Admitted d r \<Rightarrow>
          (case fragment_overlap hx (rf_offset f) (rf_payload hx f) (dg_fragments d) of
             Duplicate \<Rightarrow>
               (CoreKept, True, r\<lparr>fr_datagrams := put_datagram key (d\<lparr>dg_updatedAt := now\<rparr>) (fr_datagrams r)\<rparr>)
           | Conflict \<Rightarrow> (CoreDropped, False, releaseDatagram src key r)
           | Disjoint \<Rightarrow>
               (case note_final (rf_end f) moreFragments d \<bind> note_first setFirst (rf_offset f) (rf_headerByteCount f) of
                  None \<Rightarrow> (CoreDropped, False, releaseDatagram src key r)
                | Some d \<Rightarrow>
                    if dg_firstHeaderByteCount d \<noteq> 0 \<and> tooLong (dg_firstHeaderByteCount d) (dg_finalPayloadByteCount d)
                    then (CoreDropped, False, releaseDatagram src key r)
                    else
                      let (d, r) = retain_fragment src key now f d r; (c, r) = check_complete key d r
                      in (c, True, r))))"

section \<open>Putting a datagram together\<close>

text \<open>
  The buffer comes from the message pool with arbitrary content. The header is that of the
  fragment with offset 0, then every payload is copied to its place.
\<close>

definition assemble :: "nat \<Rightarrow> (nat \<Rightarrow> bytes) \<Rightarrow> 'x fragmentDatagram_scheme \<Rightarrow> bytes" where
  "assemble hx dirt d =
     (let h = dg_firstHeaderByteCount d;
          buf = pool_buffer dirt (h + nat (dg_finalPayloadByteCount d));
          buf = (case find (\<lambda>f. rf_offset f = 0) (dg_fragments d) of
                   None \<Rightarrow> buf
                 | Some f \<Rightarrow> put_at 0 (take h (rf_packet f)) buf)
      in fold (\<lambda>f. copy_at (h + rf_offset f) (rf_payload hx f)) (dg_fragments d) buf)"

section \<open>Bookkeeping\<close>

definition charge :: "retainedFragment list \<Rightarrow> int" where
  "charge fs = (\<Sum>f\<leftarrow>fs. int (length (rf_packet f)))"

definition store_bytes :: "('k \<times> 'x fragmentDatagram_scheme) list \<Rightarrow> int" where
  "store_bytes ds = (\<Sum>(k, d)\<leftarrow>ds. charge (dg_fragments d))"

definition source_bytes :: "('k \<Rightarrow> 's) \<Rightarrow> ('k \<times> 'x fragmentDatagram_scheme) list \<Rightarrow> 's \<Rightarrow> int" where
  "source_bytes src ds s = store_bytes (filter (\<lambda>(k, _). src k = s) ds)"

definition books :: "('k \<Rightarrow> 's) \<Rightarrow> ('k, 's, 'x) reassembler \<Rightarrow> bool" where
  "books src r \<longleftrightarrow> distinct (map fst (fr_datagrams r)) \<and> fr_retainedByteCount r = store_bytes (fr_datagrams r)
     \<and> (\<forall>s. retainedBytesForSource r s = source_bytes src (fr_datagrams r) s)"

definition shrinks :: "('k \<Rightarrow> 's) \<Rightarrow> ('k, 's, 'x) reassembler \<Rightarrow> ('k, 's, 'x) reassembler \<Rightarrow> bool" where
  "shrinks src r r' \<longleftrightarrow> books src r' \<and> fr_maxRetainedBytes r' = fr_maxRetainedBytes r
     \<and> fr_maxRetainedBytesPerSource r' = fr_maxRetainedBytesPerSource r
     \<and> (\<exists>P. fr_datagrams r' = filter P (fr_datagrams r))"

lemma charge_nonneg [simp]: "0 \<le> charge fs"
  by (induction fs) (simp_all add: charge_def)

lemma charge_simps [simp]: "charge [] = 0" "charge (f # fs) = int (length (rf_packet f)) + charge fs"
  "charge (fs @ gs) = charge fs + charge gs"
  by (simp_all add: charge_def)

lemma charge_mset: "mset fs = mset gs \<Longrightarrow> charge fs = charge gs"
  unfolding charge_def by (metis mset_map sum_mset_sum_list)

lemma store_bytes_simps [simp]: "store_bytes [] = 0" "store_bytes ((k, d) # ds) = charge (dg_fragments d) + store_bytes ds"
  by (simp_all add: store_bytes_def)

lemma store_bytes_nonneg [simp]: "0 \<le> store_bytes ds"
  by (induction ds) auto

lemma store_bytes_filter: "store_bytes (filter P ds) \<le> store_bytes ds"
  by (induction ds) (auto simp: add_increasing)

lemma store_bytes_delete:
  "distinct (map fst ds) \<Longrightarrow> map_of ds key = Some d \<Longrightarrow>
   store_bytes (filter (\<lambda>(k, _). k \<noteq> key) ds) = store_bytes ds - charge (dg_fragments d)"
proof (induction ds)
  case (Cons a ds)
  obtain k e where a: "a = (k, e)" by (cases a)
  show ?case
  proof (cases "k = key")
    case True
    then have "filter (\<lambda>(k, _). k \<noteq> key) ds = ds" using Cons.prems(1) a by (force simp: filter_id_conv)
    then show ?thesis using Cons.prems(2) True by (simp add: a)
  next
    case False
    then show ?thesis using Cons by (simp add: a)
  qed
qed simp

lemma source_bytes_delete:
  assumes "distinct (map fst ds)" "map_of ds key = Some d"
  shows "source_bytes src (filter (\<lambda>(k, _). k \<noteq> key) ds) s =
    source_bytes src ds s - (if s = src key then charge (dg_fragments d) else 0)"
proof -
  let ?fs = "filter (\<lambda>(k, _). src k = s) ds"
  have sw: "filter (\<lambda>(k, _). src k = s) (filter (\<lambda>(k, _). k \<noteq> key) ds) = filter (\<lambda>(k, _). k \<noteq> key) ?fs"
    unfolding filter_filter by (rule filter_cong) auto
  show ?thesis
  proof (cases "s = src key")
    case True
    have "distinct (map fst ?fs)" using assms(1) by (simp add: distinct_map_filter)
    moreover have "(key, d) \<in> set ds" using assms(2) by (rule map_of_SomeD)
    then have "map_of ?fs key = Some d" using calculation True by (intro map_of_is_SomeI) auto
    ultimately show ?thesis unfolding source_bytes_def sw using True by (subst store_bytes_delete) simp_all
  next
    case False
    then have "filter (\<lambda>(k, _). k \<noteq> key) ?fs = ?fs" by (auto intro: filter_cong)
    then show ?thesis unfolding source_bytes_def sw by (simp only:) (use False in simp)
  qed
qed

lemma uncharge_fields [simp]:
  "fr_datagrams (uncharge s f r) = fr_datagrams r" "fr_maxRetainedBytes (uncharge s f r) = fr_maxRetainedBytes r"
  "fr_maxRetainedBytesPerSource (uncharge s f r) = fr_maxRetainedBytesPerSource r"
  "fr_retainedByteCount (uncharge s f r) = fr_retainedByteCount r - int (length (rf_packet f))"
  by (simp_all add: uncharge_def Let_def)

lemma uncharge_source:
  "int (length (rf_packet f)) \<le> retainedBytesForSource r s \<Longrightarrow>
   retainedBytesForSource (uncharge s f r) s' =
     retainedBytesForSource r s' - (if s' = s then int (length (rf_packet f)) else 0)"
  by (simp add: uncharge_def Let_def retainedBytesForSource_def)

lemma fold_uncharge:
  "charge fs \<le> retainedBytesForSource r s \<Longrightarrow>
   fr_datagrams (fold (uncharge s) fs r) = fr_datagrams r
   \<and> fr_maxRetainedBytes (fold (uncharge s) fs r) = fr_maxRetainedBytes r
   \<and> fr_maxRetainedBytesPerSource (fold (uncharge s) fs r) = fr_maxRetainedBytesPerSource r
   \<and> fr_retainedByteCount (fold (uncharge s) fs r) = fr_retainedByteCount r - charge fs
   \<and> (\<forall>s'. retainedBytesForSource (fold (uncharge s) fs r) s' =
         retainedBytesForSource r s' - (if s' = s then charge fs else 0))"
proof (induction fs arbitrary: r)
  case (Cons f fs)
  have n: "int (length (rf_packet f)) \<le> retainedBytesForSource r s"
    using Cons.prems charge_nonneg [of fs] unfolding charge_simps by linarith
  then have "charge fs \<le> retainedBytesForSource (uncharge s f r) s" using Cons.prems by (simp add: uncharge_source)
  from Cons.IH [OF this] show ?case using n by (simp add: uncharge_source)
qed simp

lemma source_bytes_le: "map_of ds key = Some d \<Longrightarrow> charge (dg_fragments d) \<le> source_bytes src ds (src key)"
proof (induction ds)
  case (Cons a ds)
  then show ?case
    by (cases a) (auto simp: source_bytes_def split: if_splits intro: add_increasing add_increasing2)
qed simp

lemma release_shrinks:
  assumes "books src r"
  shows "fr_datagrams (releaseDatagram src key r) = filter (\<lambda>(k, _). k \<noteq> key) (fr_datagrams r)"
    "shrinks src r (releaseDatagram src key r)"
proof -
  let ?F = "filter (\<lambda>(k, _). k \<noteq> key) (fr_datagrams r)" and ?r = "releaseDatagram src key r"
  have "fr_datagrams ?r = ?F \<and> books src ?r \<and> fr_maxRetainedBytes ?r = fr_maxRetainedBytes r
     \<and> fr_maxRetainedBytesPerSource ?r = fr_maxRetainedBytesPerSource r"
  proof (cases "map_of (fr_datagrams r) key")
    case None
    then have "?F = fr_datagrams r" by (auto simp: filter_id_conv map_of_eq_None_iff rev_image_eqI)
    then show ?thesis using None assms by (simp add: releaseDatagram_def detachDatagram_def)
  next
    case (Some d)
    let ?q = "r\<lparr>fr_datagrams := ?F\<rparr>"
    have "charge (dg_fragments d) \<le> retainedBytesForSource ?q (src key)"
      using source_bytes_le [OF Some, of src] assms by (simp add: books_def retainedBytesForSource_def)
    note f = fold_uncharge [OF this]
    have q: "retainedBytesForSource ?q s = retainedBytesForSource r s" for s by (simp add: retainedBytesForSource_def)
    have "distinct (map fst ?F)" using assms by (simp add: books_def distinct_map_filter)
    then show ?thesis
      using f assms Some q
      by (simp add: releaseDatagram_def detachDatagram_def books_def store_bytes_delete source_bytes_delete)
  qed
  then show "fr_datagrams ?r = ?F" "shrinks src r ?r" by (auto simp: shrinks_def)
qed

lemma shrinks_refl: "books src r \<Longrightarrow> shrinks src r r"
  by (auto simp: shrinks_def intro!: exI [of _ "\<lambda>_. True"])

lemma shrinks_trans: "shrinks src a b \<Longrightarrow> shrinks src b c \<Longrightarrow> shrinks src a c"
  unfolding shrinks_def by (metis filter_filter)

lemma shrinks_books: "shrinks src a b \<Longrightarrow> books src b"
  by (simp add: shrinks_def)

lemma fold_release_shrinks:
  "books src r \<Longrightarrow> shrinks src r (fold (\<lambda>(key, d) r. if Q key d then releaseDatagram src key r else r) ds r)"
proof (induction ds arbitrary: r)
  case (Cons a ds)
  obtain k d where a: "a = (k, d)" by (cases a)
  show ?case
    using Cons.IH [of "releaseDatagram src k r"] Cons.IH [OF Cons.prems] release_shrinks(2) [OF Cons.prems, of k] Cons.prems
    by (auto simp: a intro: shrinks_trans shrinks_books)
qed (simp add: shrinks_refl)

section \<open>Eviction\<close>

definition is_order :: "('k, 'x) visit_order \<Rightarrow> bool" where
  "is_order order \<longleftrightarrow> (\<forall>ds. mset (order ds) = mset ds)"

lemma is_order_set: "is_order order \<Longrightarrow> set (order ds) = set ds"
  unfolding is_order_def by (metis set_mset_mset)

definition candidates :: "('k \<Rightarrow> bool) \<Rightarrow> ('k \<times> 'x fragmentDatagram_scheme) list \<Rightarrow> ('k \<times> int) set" where
  "candidates skip ds = (\<lambda>(k, d). (k, dg_updatedAt d)) ` set (filter (\<lambda>(k, _). \<not> skip k) ds)"

lemma candidates_simps [simp]: "candidates skip [] = {}"
  "candidates skip ((k, d) # ds) = (if skip k then candidates skip ds else insert (k, dg_updatedAt d) (candidates skip ds))"
  by (simp_all add: candidates_def)

lemma oldest_scan_Some:
  "\<exists>key t. oldest_scan skip ds (Some (k0, t0)) = Some key \<and> (key, t) \<in> insert (k0, t0) (candidates skip ds)
    \<and> (\<forall>p \<in> insert (k0, t0) (candidates skip ds). t \<le> snd p)"
proof (induction ds arbitrary: k0 t0)
  case (Cons a ds)
  obtain k d where a: "a = (k, d)" by (cases a)
  let ?u = "dg_updatedAt d"
  consider (skip) "skip k" | (newer) "\<not> skip k" "?u < t0" | (older) "\<not> skip k" "t0 \<le> ?u" by linarith
  then show ?case
  proof cases
    case newer
    obtain key t where "oldest_scan skip ds (Some (k, ?u)) = Some key" "(key, t) \<in> insert (k, ?u) (candidates skip ds)"
      "\<forall>p \<in> insert (k, ?u) (candidates skip ds). t \<le> snd p"
      using Cons.IH [of k ?u] by blast
    then show ?thesis using newer by (intro exI [of _ key] exI [of _ t]) (auto simp: a)
  next
    case older
    obtain key t where "oldest_scan skip ds (Some (k0, t0)) = Some key" "(key, t) \<in> insert (k0, t0) (candidates skip ds)"
      "\<forall>p \<in> insert (k0, t0) (candidates skip ds). t \<le> snd p"
      using Cons.IH [of k0 t0] by blast
    then show ?thesis using older by (intro exI [of _ key] exI [of _ t]) (auto simp: a)
  qed (use Cons.IH [of k0 t0] in \<open>auto simp: a\<close>)
qed simp

lemma oldest_scan_None:
  "case oldest_scan skip ds None of
     None \<Rightarrow> candidates skip ds = {}
   | Some key \<Rightarrow> \<exists>t. (key, t) \<in> candidates skip ds \<and> (\<forall>p \<in> candidates skip ds. t \<le> snd p)"
proof (induction ds)
  case (Cons a ds)
  obtain k d where a: "a = (k, d)" by (cases a)
  show ?case
    using Cons.IH oldest_scan_Some [of skip ds k "dg_updatedAt d"]
    by (cases "skip k") (auto simp: a split: option.split)
qed simp

lemma candidates_order: "is_order order \<Longrightarrow> candidates skip (order ds) = candidates skip ds"
  by (auto simp: candidates_def is_order_set)

text \<open>What an eviction step guarantees, for all sources or for one.\<close>

definition evicts :: "('k \<Rightarrow> 's) \<Rightarrow> ('k \<Rightarrow> bool) \<Rightarrow> (('k, 's, 'x) reassembler \<Rightarrow> bool \<times> ('k, 's, 'x) reassembler) \<Rightarrow> bool" where
  "evicts src skip release \<longleftrightarrow>
     (\<forall>r found r'. books src r \<longrightarrow> release r = (found, r') \<longrightarrow>
        shrinks src r r' \<and> (found \<longrightarrow> length (fr_datagrams r') < length (fr_datagrams r))
        \<and> (\<not> found \<longrightarrow> r' = r \<and> (\<forall>(k, d) \<in> set (fr_datagrams r). skip k)))"

lemma release_member_shorter:
  assumes "books src r" "(key, d) \<in> set (fr_datagrams r)"
  shows "length (fr_datagrams (releaseDatagram src key r)) < length (fr_datagrams r)"
  unfolding release_shrinks(1) [OF assms(1)] using assms(2) by (intro length_filter_less) auto

lemma scan_evicts:
  assumes "is_order order"
  shows "evicts src skip (\<lambda>r. case oldest_scan skip (order (fr_datagrams r)) None of
      None \<Rightarrow> (False, r) | Some key \<Rightarrow> (True, releaseDatagram src key r))"
  unfolding evicts_def
proof (intro allI impI)
  fix r found r'
  assume b: "books src r" and rel: "(case oldest_scan skip (order (fr_datagrams r)) None of
      None \<Rightarrow> (False, r) | Some key \<Rightarrow> (True, releaseDatagram src key r)) = (found, r')"
  note scan = oldest_scan_None [of skip "order (fr_datagrams r)", unfolded candidates_order [OF assms]]
  show "shrinks src r r' \<and> (found \<longrightarrow> length (fr_datagrams r') < length (fr_datagrams r))
        \<and> (\<not> found \<longrightarrow> r' = r \<and> (\<forall>(k, d) \<in> set (fr_datagrams r). skip k))"
  proof (cases "oldest_scan skip (order (fr_datagrams r)) None")
    case None
    then have "candidates skip (fr_datagrams r) = {}" using scan by simp
    then have "\<forall>(k, d) \<in> set (fr_datagrams r). skip k" by (auto simp: candidates_def filter_empty_conv)
    then show ?thesis using None rel b by (auto simp: shrinks_refl)
  next
    case (Some key)
    then obtain d where "(key, d) \<in> set (fr_datagrams r)" using scan by (auto simp: candidates_def)
    then show ?thesis using rel Some b release_shrinks(2) release_member_shorter by auto
  qed
qed

lemma oldest_evicts: "is_order order \<Longrightarrow> evicts src (\<lambda>_. False) (releaseOldestDatagram src order None)"
  using scan_evicts [of order src "\<lambda>_. False"] by (simp add: releaseOldestDatagram_def [abs_def])

lemma oldest_for_source_evicts:
  "is_order order \<Longrightarrow> evicts src (\<lambda>key. src key \<noteq> source) (releaseOldestDatagramForSource src order source)"
  using scan_evicts [of order src "\<lambda>key. src key \<noteq> source"] by (simp add: releaseOldestDatagramForSource_def [abs_def])

lemma evict_loop_result:
  assumes "evicts src skip release" "books src r" "length (fr_datagrams r) < n" "evict_loop n over release r = (room, r')"
  shows "shrinks src r r' \<and> (room \<longrightarrow> \<not> over r') \<and> (\<not> room \<longrightarrow> (\<forall>(k, d) \<in> set (fr_datagrams r'). skip k))"
  using assms(2-4)
proof (induction n arbitrary: r)
  case (Suc n)
  obtain found q where q: "release r = (found, q)" by (cases "release r")
  note e = assms(1) [unfolded evicts_def, rule_format, OF Suc.prems(1) q]
  show ?case
  proof (cases "over r \<and> found")
    case True
    have "shrinks src q r' \<and> (room \<longrightarrow> \<not> over r') \<and> (\<not> room \<longrightarrow> (\<forall>(k, d) \<in> set (fr_datagrams r'). skip k))"
      using Suc.IH [of q] e True Suc.prems q by (auto simp: shrinks_books)
    then show ?thesis using e by (auto intro: shrinks_trans)
  next
    case False
    then show ?thesis using e Suc.prems q by (auto simp: shrinks_refl split: if_splits)
  qed
qed simp

lemma evict_result:
  assumes "evicts src skip release" "books src r" "evict over release r = (room, r')"
  shows "shrinks src r r'" "room \<Longrightarrow> \<not> over r'" "\<not> room \<Longrightarrow> \<forall>(k, d) \<in> set (fr_datagrams r'). skip k"
  using evict_loop_result [OF assms(1,2) _ assms(3) [unfolded evict_def]] by auto

text \<open>The fuel of an eviction loop does not matter once it exceeds the number of datagrams.\<close>

lemma evict_fuel:
  assumes "evicts src skip release" "books src r" "length (fr_datagrams r) < n" "n \<le> m"
  shows "evict_loop m over release r = evict_loop n over release r"
  using assms(2-4)
proof (induction n arbitrary: r m)
  case (Suc n)
  obtain m' where m: "m = Suc m'" "n \<le> m'" using Suc.prems(3) by (cases m) auto
  obtain found q where q: "release r = (found, q)" by (cases "release r")
  note e = assms(1) [unfolded evicts_def, rule_format, OF Suc.prems(1) q]
  show ?case
  proof (cases "over r \<and> found")
    case True
    then have "evict_loop m' over release q = evict_loop n over release q"
      using Suc.IH [of q m'] e Suc.prems(2) m(2) by (auto simp: shrinks_books)
    then show ?thesis by (simp add: m(1) q)
  qed (auto simp: m(1) q)
qed simp

lemma expire_shrinks: "books src r \<Longrightarrow> shrinks src r (expire src now r)"
  unfolding expire_def
  using fold_release_shrinks [of src r "\<lambda>key d. ipv4FragmentReassemblyTimeout \<le> now - dg_createdAt d"] by simp

lemma close_shrinks: "books src r \<Longrightarrow> shrinks src r (closeReassembler src r)"
  unfolding closeReassembler_def using fold_release_shrinks [of src r "\<lambda>key d. True"] by simp

lemma makeDatagramRoom_shrinks:
  assumes "is_order order" "books src r"
  shows "shrinks src r (makeDatagramRoom src order now r)"
    "length (fr_datagrams (makeDatagramRoom src order now r)) < ipv4FragmentReassemblyMaxDatagrams"
proof -
  let ?over = "\<lambda>r. ipv4FragmentReassemblyMaxDatagrams \<le> length (fr_datagrams r)"
  obtain room r' where e: "evict ?over (releaseOldestDatagram src order None) (expire src now r) = (room, r')"
    by fastforce
  have s: "shrinks src r (expire src now r)" using assms(2) by (rule expire_shrinks)
  note result = evict_result [OF oldest_evicts [OF assms(1)] shrinks_books [OF s] e]
  show "shrinks src r (makeDatagramRoom src order now r)"
    using s result(1) e by (auto simp: makeDatagramRoom_def intro: shrinks_trans)
  have "fr_datagrams r' = []" if "\<not> room" using result(3) [OF that] by (cases "fr_datagrams r'") auto
  then show "length (fr_datagrams (makeDatagramRoom src order now r)) < ipv4FragmentReassemblyMaxDatagrams"
    using result(2) e by (cases room) (auto simp: makeDatagramRoom_def ipv4FragmentReassemblyMaxDatagrams_def)
qed

section \<open>The cache invariant\<close>

definition frag_ok :: "nat \<Rightarrow> retainedFragment \<Rightarrow> bool" where
  "frag_ok hx f \<longleftrightarrow> 0 < rf_payloadByteCount f \<and> 0 < rf_headerByteCount f
     \<and> rf_headerByteCount f + hx + rf_payloadByteCount f = length (rf_packet f)"

definition apart :: "retainedFragment \<Rightarrow> retainedFragment \<Rightarrow> bool" where
  "apart f g \<longleftrightarrow> rf_end f \<le> rf_offset g \<or> rf_end g \<le> rf_offset f"

definition datagram_ok :: "nat \<Rightarrow> 'x fragmentDatagram_scheme \<Rightarrow> bool" where
  "datagram_ok hx d \<longleftrightarrow> length (dg_fragments d) \<le> ipv4FragmentReassemblyMaxFragments
     \<and> (\<forall>f \<in> set (dg_fragments d). frag_ok hx f \<and> (0 \<le> dg_finalPayloadByteCount d \<longrightarrow> int (rf_end f) \<le> dg_finalPayloadByteCount d))
     \<and> sorted_wrt apart (dg_fragments d)
     \<and> (dg_firstHeaderByteCount d \<noteq> 0 \<longrightarrow>
          (\<exists>f \<in> set (dg_fragments d). rf_offset f = 0 \<and> rf_headerByteCount f = dg_firstHeaderByteCount d))"

definition store_bounds :: "('k, 's, 'x) reassembler \<Rightarrow> bool" where
  "store_bounds r \<longleftrightarrow> length (fr_datagrams r) \<le> ipv4FragmentReassemblyMaxDatagrams
     \<and> fr_retainedByteCount r \<le> (if fr_maxRetainedBytes r \<le> 0 then ipv4FragmentReassemblyMaxRetainedBytes else fr_maxRetainedBytes r)
     \<and> (0 < fr_maxRetainedBytesPerSource r \<longrightarrow> (\<forall>s. retainedBytesForSource r s \<le> fr_maxRetainedBytesPerSource r))"

definition store_ok :: "nat \<Rightarrow> ('k \<Rightarrow> 's) \<Rightarrow> ('k, 's, 'x) reassembler \<Rightarrow> bool" where
  "store_ok hx src r \<longleftrightarrow> books src r \<and> store_bounds r \<and> (\<forall>d \<in> snd ` set (fr_datagrams r). datagram_ok hx d)"

lemma apart_sym: "apart f g \<longleftrightarrow> apart g f"
  by (auto simp: apart_def)

lemma sorted_wrt_apart_mset: "mset xs = mset ys \<Longrightarrow> sorted_wrt apart xs \<Longrightarrow> sorted_wrt apart ys"
proof (induction xs arbitrary: ys)
  case (Cons x xs)
  then have "x \<in> set ys" by (metis list.set_intros(1) set_mset_mset)
  then obtain a b where y: "ys = a @ x # b" by (meson split_list)
  then have m: "mset xs = mset (a @ b)" using Cons.prems(1) by simp
  then have "sorted_wrt apart (a @ b)" using Cons by simp
  moreover have "set xs = set a \<union> set b" using m by (metis set_append set_mset_mset)
  ultimately show ?case
    using Cons.prems(2) by (auto simp: y sorted_wrt_append apart_sym)
qed simp

lemma apart_distinct: "sorted_wrt apart fs \<Longrightarrow> f \<in> set fs \<Longrightarrow> g \<in> set fs \<Longrightarrow> f \<noteq> g \<Longrightarrow> apart f g"
  by (induction fs) (auto simp: apart_sym)

lemma store_ok_shrinks:
  assumes "store_ok hx src r" "shrinks src r r'"
  shows "store_ok hx src r'"
proof -
  obtain P where p: "fr_datagrams r' = filter P (fr_datagrams r)" using assms(2) by (auto simp: shrinks_def)
  have b: "books src r" "books src r'" using assms by (simp_all add: store_ok_def shrinks_def)
  have "fr_retainedByteCount r' \<le> fr_retainedByteCount r"
    using b store_bytes_filter [of P "fr_datagrams r"] by (simp add: books_def p)
  moreover have "retainedBytesForSource r' s \<le> retainedBytesForSource r s" for s
  proof -
    have "filter (\<lambda>(k, _). src k = s) (filter P (fr_datagrams r)) = filter P (filter (\<lambda>(k, _). src k = s) (fr_datagrams r))"
      unfolding filter_filter by (rule filter_cong) auto
    then have "source_bytes src (fr_datagrams r') s \<le> source_bytes src (fr_datagrams r) s"
      unfolding source_bytes_def p by (metis store_bytes_filter)
    then show ?thesis using b by (simp add: books_def)
  qed
  moreover have "length (fr_datagrams r') \<le> length (fr_datagrams r)" by (simp add: p)
  ultimately have "store_bounds r'"
    using assms by (auto simp: store_ok_def store_bounds_def shrinks_def intro: order_trans)
  then show ?thesis using assms b(2) by (auto simp: store_ok_def p)
qed

lemma put_datagram_split:
  assumes "map_of ds key = Some e"
  obtains xs ys where "ds = xs @ (key, e) # ys" "put_datagram key d ds = xs @ (key, d) # ys" "key \<notin> fst ` set xs"
proof -
  have "\<exists>xs ys. ds = xs @ (key, e) # ys \<and> put_datagram key d ds = xs @ (key, d) # ys \<and> key \<notin> fst ` set xs"
    using assms
  proof (induction ds)
    case (Cons a ds)
    obtain k c where a: "a = (k, c)" by (cases a)
    show ?case
    proof (cases "k = key")
      case True
      then show ?thesis using Cons.prems by (intro exI [of _ "[]"] exI [of _ ds]) (simp add: a)
    next
      case False
      then obtain xs ys where "ds = xs @ (key, e) # ys" "put_datagram key d ds = xs @ (key, d) # ys" "key \<notin> fst ` set xs"
        using Cons a by auto
      then show ?thesis using False by (intro exI [of _ "a # xs"] exI [of _ ys]) (simp add: a)
    qed
  qed simp
  then show thesis using that by blast
qed

lemma store_bytes_append [simp]: "store_bytes (xs @ ys) = store_bytes xs + store_bytes ys"
  by (simp add: store_bytes_def)

lemma source_bytes_simps [simp]: "source_bytes src (xs @ ys) s = source_bytes src xs s + source_bytes src ys s"
  "source_bytes src ((k, d) # ds) s = (if src k = s then charge (dg_fragments d) else 0) + source_bytes src ds s"
  by (simp_all add: source_bytes_def)

text \<open>Replacing the datagram of a key: the books follow when the totals are moved by the difference.\<close>

lemma put_datagram_books:
  assumes "books src r" "map_of (fr_datagrams r) key = Some e"
    "fr_datagrams r' = put_datagram key d (fr_datagrams r)"
    "fr_retainedByteCount r' = fr_retainedByteCount r + (charge (dg_fragments d) - charge (dg_fragments e))"
    "\<And>s. retainedBytesForSource r' s =
        retainedBytesForSource r s + (if s = src key then charge (dg_fragments d) - charge (dg_fragments e) else 0)"
  shows "books src r'" "length (fr_datagrams r') = length (fr_datagrams r)"
    "snd ` set (fr_datagrams r') \<subseteq> insert d (snd ` set (fr_datagrams r))" "map_of (fr_datagrams r') key = Some d"
proof -
  obtain xs ys where s: "fr_datagrams r = xs @ (key, e) # ys" "fr_datagrams r' = xs @ (key, d) # ys" "key \<notin> fst ` set xs"
    using put_datagram_split [OF assms(2), of d] assms(3) by metis
  show "books src r'" using assms(1,4,5) by (auto simp: books_def s)
  show "length (fr_datagrams r') = length (fr_datagrams r)" "snd ` set (fr_datagrams r') \<subseteq> insert d (snd ` set (fr_datagrams r))"
    "map_of (fr_datagrams r') key = Some d"
    using map_of_eq_None_iff [of xs key] s(3) by (auto simp: s map_add_def)
qed

lemma admit_fragment_result:
  assumes "is_order order" "store_ok hx src r" "0 < fr_maxRetainedBytes r"
  shows "case admit_fragment src order fresh now key cost r of
      Refused r' \<Rightarrow> store_ok hx src r'
    | Overflowed r' \<Rightarrow> r' = r
    | Admitted d r' \<Rightarrow> store_ok hx src r' \<and> map_of (fr_datagrams r') key = Some d \<and> datagram_ok hx d
        \<and> fr_maxRetainedBytes r' = fr_maxRetainedBytes r \<and> fr_maxRetainedBytesPerSource r' = fr_maxRetainedBytesPerSource r
        \<and> fr_retainedByteCount r' + cost \<le> fr_maxRetainedBytes r'
        \<and> (0 < fr_maxRetainedBytesPerSource r' \<longrightarrow>
              retainedBytesForSource r' (src key) + cost \<le> fr_maxRetainedBytesPerSource r')"
proof (cases "map_of (fr_datagrams r) key")
  case (Some d)
  then have "datagram_ok hx d" using assms(2) map_of_SomeD [OF Some] by (force simp: store_ok_def)
  then show ?thesis using Some assms(2) by (auto simp: admit_fragment_def)
next
  case None
  have b: "books src r" using assms(2) by (simp add: store_ok_def)
  let ?r1 = "makeDatagramRoom src order now r"
  let ?big = "\<lambda>r. fr_maxRetainedBytes r < fr_retainedByteCount r + cost"
  let ?quota = "\<lambda>r. fr_maxRetainedBytesPerSource r < retainedBytesForSource r (src key) + cost"
  note room = makeDatagramRoom_shrinks [OF assms(1) b, of now]
  obtain ok2 r2 where e2: "evict ?big (releaseOldestDatagram src order None) ?r1 = (ok2, r2)" by fastforce
  note s2 = evict_result [OF oldest_evicts [OF assms(1)] shrinks_books [OF room(1)] e2]
  obtain ok3 r3 where e3: "(if 0 < fr_maxRetainedBytesPerSource r2
       then evict ?quota (releaseOldestDatagramForSource src order (src key)) r2 else (True, r2)) = (ok3, r3)" by fastforce
  have s3: "shrinks src r2 r3" "ok3 \<Longrightarrow> 0 < fr_maxRetainedBytesPerSource r2 \<Longrightarrow> \<not> ?quota r3"
    using evict_result [OF oldest_for_source_evicts [OF assms(1), where source = "src key"] shrinks_books [OF s2(1)],
        where over = ?quota and room = ok3 and r' = r3] e3
      shrinks_refl [OF shrinks_books [OF s2(1)]]
    by (auto split: if_splits)
  have sh: "shrinks src r ?r1" "shrinks src r r2" "shrinks src r r3" "shrinks src ?r1 r3"
    using room(1) s2(1) s3(1) by (auto intro: shrinks_trans)
  have ok: "store_ok hx src ?r1" "store_ok hx src r2" "store_ok hx src r3"
    using store_ok_shrinks [OF assms(2)] sh by auto
  have le: "fr_retainedByteCount r3 \<le> fr_retainedByteCount r2"
    using s3(1) shrinks_books [OF s2(1)] store_bytes_filter by (auto simp: shrinks_def books_def)
  let ?d = "\<lparr>dg_createdAt = now, dg_updatedAt = now, dg_fragments = [], dg_firstHeaderByteCount = 0,
     dg_finalPayloadByteCount = - 1, \<dots> = fresh\<rparr>"
  let ?r4 = "r3\<lparr>fr_datagrams := (key, ?d) # fr_datagrams r3\<rparr>"
  have result: "admit_fragment src order fresh now key cost r =
    (if fr_maxRetainedBytes ?r1 < cost then Refused ?r1 else if \<not> ok2 then Refused r2
     else if \<not> ok3 then Refused r3 else Admitted ?d ?r4)"
    using None e2 e3 by (simp add: admit_fragment_def Let_def)
  obtain P where p: "fr_datagrams r3 = filter P (fr_datagrams r)" using sh(3) by (auto simp: shrinks_def)
  have "length (fr_datagrams r3) < ipv4FragmentReassemblyMaxDatagrams"
    using room(2) sh(4) by (auto simp: shrinks_def intro: le_less_trans [OF length_filter_le])
  moreover have "key \<notin> fst ` set (fr_datagrams r3)" using None by (auto simp: p map_of_eq_None_iff)
  moreover have "retainedBytesForSource ?r4 s = retainedBytesForSource r3 s" for s by (simp add: retainedBytesForSource_def)
  ultimately have "store_ok hx src ?r4"
    using ok(3) by (auto simp: store_ok_def store_bounds_def books_def datagram_ok_def)
  moreover have "fr_retainedByteCount r3 + cost \<le> fr_maxRetainedBytes r3" if ok2
    using s2(2) [OF that] le s3(1) by (simp add: shrinks_def)
  moreover have "0 < fr_maxRetainedBytesPerSource r3 \<longrightarrow> retainedBytesForSource ?r4 (src key) + cost \<le> fr_maxRetainedBytesPerSource r3" if ok3
    using s3(2) [OF that] s3(1) by (auto simp: shrinks_def retainedBytesForSource_def)
  ultimately show ?thesis
    using ok sh(3) by (auto simp: result shrinks_def datagram_ok_def)
qed

lemma length_rf_payload [simp]: "frag_ok hx f \<Longrightarrow> length (rf_payload hx f) = rf_payloadByteCount f"
  by (auto simp: frag_ok_def rf_payload_def subslice_def)

lemma overlap_disjoint:
  "fragment_overlap hx offset payload fs = Disjoint \<Longrightarrow> g \<in> set fs \<Longrightarrow>
   offset + length payload \<le> rf_offset g \<or> rf_end g \<le> offset"
  by (induction fs) (auto simp: Let_def split: if_splits)

definition keeps_common :: "('x fragmentDatagram_scheme \<Rightarrow> 'x fragmentDatagram_scheme) \<Rightarrow> bool" where
  "keeps_common setFirst \<longleftrightarrow> (\<forall>d. fragmentDatagram.truncate (setFirst d) = fragmentDatagram.truncate d)"

lemma keeps_commonD:
  assumes "keeps_common setFirst"
  shows "dg_fragments (setFirst d) = dg_fragments d" "dg_firstHeaderByteCount (setFirst d) = dg_firstHeaderByteCount d"
    "dg_finalPayloadByteCount (setFirst d) = dg_finalPayloadByteCount d" "dg_createdAt (setFirst d) = dg_createdAt d"
    "dg_updatedAt (setFirst d) = dg_updatedAt d"
  using assms [unfolded keeps_common_def, rule_format, of d] by (simp_all add: fragmentDatagram.defs)

lemma note_final_Some:
  assumes "note_final e mf d = Some d'"
  shows "length (dg_fragments d) < ipv4FragmentReassemblyMaxFragments" "d' = d\<lparr>dg_finalPayloadByteCount := dg_finalPayloadByteCount d'\<rparr>"
    "dg_finalPayloadByteCount d' = (if mf then dg_finalPayloadByteCount d else int e)"
    "0 \<le> dg_finalPayloadByteCount d' \<Longrightarrow> int e \<le> dg_finalPayloadByteCount d'"
    "\<not> mf \<Longrightarrow> f \<in> set (dg_fragments d) \<Longrightarrow> rf_end f \<le> e"
  using assms by (auto simp: note_final_def list_ex_iff split: if_splits)

lemma note_first_Some:
  assumes "note_first setFirst offset h d = Some d'" "keeps_common setFirst"
  shows "dg_fragments d' = dg_fragments d" "dg_finalPayloadByteCount d' = dg_finalPayloadByteCount d"
    "dg_firstHeaderByteCount d' = (if offset = 0 then h else dg_firstHeaderByteCount d)"
  using assms(1) keeps_commonD [OF assms(2)] by (auto simp: note_first_def split: if_splits)

lemma accept_fragment_ok:
  assumes "datagram_ok hx d" "fragment_overlap hx (rf_offset f) (rf_payload hx f) (dg_fragments d) = Disjoint" "frag_ok hx f"
    "note_final (rf_end f) mf d = Some d1" "note_first setFirst (rf_offset f) (rf_headerByteCount f) d1 = Some d2"
    "keeps_common setFirst"
  shows "datagram_ok hx (d2\<lparr>dg_fragments := dg_fragments d2 @ [f], dg_updatedAt := now\<rparr>)" "dg_fragments d2 = dg_fragments d"
proof -
  note n1 = note_final_Some [OF assms(4)] and n2 = note_first_Some [OF assms(5,6)]
  have fs: "dg_fragments d1 = dg_fragments d" "dg_firstHeaderByteCount d1 = dg_firstHeaderByteCount d"
    by (subst n1(2), simp)+
  then show "dg_fragments d2 = dg_fragments d" using n2(1) by simp
  have ap: "apart g f" if "g \<in> set (dg_fragments d)" for g
    using overlap_disjoint [OF assms(2) that] assms(3) by (auto simp: apart_def rf_end_def)
  have fin: "int (rf_end g) \<le> dg_finalPayloadByteCount d1" if "g \<in> set (dg_fragments d)" "0 \<le> dg_finalPayloadByteCount d1" for g
    using that n1(3,5) assms(1) by (cases mf) (auto simp: datagram_ok_def)
  show "datagram_ok hx (d2\<lparr>dg_fragments := dg_fragments d2 @ [f], dg_updatedAt := now\<rparr>)"
    unfolding datagram_ok_def
    using assms(1,3) n1(1,4) n2 fs ap fin by (auto simp: datagram_ok_def sorted_wrt_append)
qed

lemma store_ok_put:
  assumes "store_ok hx src r" "books src r'" "store_bounds r'" "datagram_ok hx d"
    "snd ` set (fr_datagrams r') \<subseteq> insert d (snd ` set (fr_datagrams r))"
  shows "store_ok hx src r'"
  using assms unfolding store_ok_def by blast

lemma check_complete_ok:
  assumes "store_ok hx src r" "map_of (fr_datagrams r) key = Some d" "check_complete key d r = (c, r')"
  shows "store_ok hx src r'"
    "c = CoreComplete d' \<Longrightarrow> datagram_ok hx d' \<and> map_of (fr_datagrams r') key = Some d'
      \<and> d' = d\<lparr>dg_fragments := sort_key rf_offset (dg_fragments d)\<rparr>
      \<and> dg_firstHeaderByteCount d' \<noteq> 0 \<and> 0 \<le> dg_finalPayloadByteCount d'
      \<and> tiles 0 (dg_fragments d') = Some (nat (dg_finalPayloadByteCount d'))"
    "c \<noteq> CoreDropped"
proof -
  let ?d = "d\<lparr>dg_fragments := sort_key rf_offset (dg_fragments d)\<rparr>"
  let ?r = "r\<lparr>fr_datagrams := put_datagram key ?d (fr_datagrams r)\<rparr>"
  have "datagram_ok hx d" using assms(1) map_of_SomeD [OF assms(2)] by (force simp: store_ok_def)
  then have d: "datagram_ok hx ?d"
    by (auto simp: datagram_ok_def intro: sorted_wrt_apart_mset [of "dg_fragments d"])
  have eq: "charge (dg_fragments ?d) = charge (dg_fragments d)" by (rule charge_mset) simp
  have b: "books src r" using assms(1) by (simp add: store_ok_def)
  have src: "retainedBytesForSource ?r s = retainedBytesForSource r s" for s by (simp add: retainedBytesForSource_def)
  note p = put_datagram_books [OF b assms(2), of ?r ?d]
  have q: "books src ?r" "length (fr_datagrams ?r) = length (fr_datagrams r)"
    "snd ` set (fr_datagrams ?r) \<subseteq> insert ?d (snd ` set (fr_datagrams r))" "map_of (fr_datagrams ?r) key = Some ?d"
    using p eq src by auto
  have "store_bounds ?r" using assms(1) q(2) src by (auto simp: store_ok_def store_bounds_def)
  then have r: "store_ok hx src ?r" "map_of (fr_datagrams ?r) key = Some ?d"
    using store_ok_put [OF assms(1) q(1) _ d q(3)] q(4) by blast+
  show "store_ok hx src r'" "c \<noteq> CoreDropped"
    using assms(1,3) r(1) by (auto simp: check_complete_def Let_def split: if_splits)
  show "datagram_ok hx d' \<and> map_of (fr_datagrams r') key = Some d'
      \<and> d' = d\<lparr>dg_fragments := sort_key rf_offset (dg_fragments d)\<rparr>
      \<and> dg_firstHeaderByteCount d' \<noteq> 0 \<and> 0 \<le> dg_finalPayloadByteCount d'
      \<and> tiles 0 (dg_fragments d') = Some (nat (dg_finalPayloadByteCount d'))" if "c = CoreComplete d'"
    using that assms(3) d r(2) by (auto simp: check_complete_def Let_def split: if_splits)
qed

lemma retain_fragment_ok:
  assumes "store_ok hx src q" "map_of (fr_datagrams q) key = Some d" "retain_fragment src key now f d2 q = (d3, q3)"
    "datagram_ok hx d3" "dg_fragments d2 = dg_fragments d"
    "0 < fr_maxRetainedBytes q" "fr_retainedByteCount q + int (length (rf_packet f)) \<le> fr_maxRetainedBytes q"
    "0 < fr_maxRetainedBytesPerSource q \<Longrightarrow>
       retainedBytesForSource q (src key) + int (length (rf_packet f)) \<le> fr_maxRetainedBytesPerSource q"
  shows "store_ok hx src q3" "map_of (fr_datagrams q3) key = Some d3"
proof -
  have r: "d3 = d2\<lparr>dg_fragments := dg_fragments d2 @ [f], dg_updatedAt := now\<rparr>"
    "fr_datagrams q3 = put_datagram key d3 (fr_datagrams q)" "fr_maxRetainedBytes q3 = fr_maxRetainedBytes q"
    "fr_maxRetainedBytesPerSource q3 = fr_maxRetainedBytesPerSource q"
    "fr_retainedByteCount q3 = fr_retainedByteCount q + int (length (rf_packet f))"
    using assms(3) by (auto simp: retain_fragment_def Let_def)
  have s: "retainedBytesForSource q3 s = retainedBytesForSource q s + (if s = src key then int (length (rf_packet f)) else 0)" for s
    using assms(3) by (auto simp: retain_fragment_def Let_def retainedBytesForSource_def)
  have b: "books src q" using assms(1) by (simp add: store_ok_def)
  have p: "books src q3" "length (fr_datagrams q3) = length (fr_datagrams q)"
    "snd ` set (fr_datagrams q3) \<subseteq> insert d3 (snd ` set (fr_datagrams q))" "map_of (fr_datagrams q3) key = Some d3"
    using put_datagram_books [OF b assms(2), of q3 d3] r s assms(5) by auto
  have "store_bounds q3"
    using assms(1,6-8) p(2) r(3-5) s by (auto simp: store_ok_def store_bounds_def)
  then show "store_ok hx src q3" "map_of (fr_datagrams q3) key = Some d3"
    using store_ok_put [OF assms(1) p(1) _ assms(4) p(3)] p(4) by auto
qed

lemma process_fragment_ok:
  assumes "is_order order" "store_ok hx src r" "0 < fr_maxRetainedBytes r" "frag_ok hx f" "int (length (rf_packet f)) \<le> cost"
    "keeps_common setFirst"
    "process_fragment hx setFirst tooLong fresh src order now key cost f mf r = (c, accepted, r')"
  shows "store_ok hx src r'"
    "c = CoreComplete d \<Longrightarrow> datagram_ok hx d \<and> map_of (fr_datagrams r') key = Some d
      \<and> dg_firstHeaderByteCount d \<noteq> 0 \<and> 0 \<le> dg_finalPayloadByteCount d
      \<and> \<not> tooLong (dg_firstHeaderByteCount d) (dg_finalPayloadByteCount d)
      \<and> tiles 0 (dg_fragments d) = Some (nat (dg_finalPayloadByteCount d))"
proof -
  note adm = admit_fragment_result [OF assms(1-3), where fresh = fresh and now = now and key = key and cost = cost]
  have rel: "store_ok hx src (releaseDatagram src key q)" if "store_ok hx src q" for q
    using that release_shrinks(2) [of src q key] by (intro store_ok_shrinks [OF that]) (simp add: store_ok_def)
  have "store_ok hx src r' \<and> (\<forall>d. c = CoreComplete d \<longrightarrow> datagram_ok hx d \<and> map_of (fr_datagrams r') key = Some d
      \<and> dg_firstHeaderByteCount d \<noteq> 0 \<and> 0 \<le> dg_finalPayloadByteCount d
      \<and> \<not> tooLong (dg_firstHeaderByteCount d) (dg_finalPayloadByteCount d)
      \<and> tiles 0 (dg_fragments d) = Some (nat (dg_finalPayloadByteCount d)))"
  proof (cases "admit_fragment src order fresh now key cost r")
    case (Admitted d q)
    note a = adm [unfolded Admitted admission.case]
    have b: "books src q" "map_of (fr_datagrams q) key = Some d" "datagram_ok hx d" using a by (simp_all add: store_ok_def)
    show ?thesis
    proof (cases "fragment_overlap hx (rf_offset f) (rf_payload hx f) (dg_fragments d)")
      case Duplicate
      let ?d = "d\<lparr>dg_updatedAt := now\<rparr>" and ?q = "q\<lparr>fr_datagrams := put_datagram key (d\<lparr>dg_updatedAt := now\<rparr>) (fr_datagrams q)\<rparr>"
      have src: "retainedBytesForSource ?q s = retainedBytesForSource q s" for s by (simp add: retainedBytesForSource_def)
      note p = put_datagram_books [OF b(1,2), of ?q ?d]
      have p': "books src ?q" "length (fr_datagrams ?q) = length (fr_datagrams q)"
        "snd ` set (fr_datagrams ?q) \<subseteq> insert ?d (snd ` set (fr_datagrams q))"
        using p src by auto
      have "store_bounds ?q" using a p'(2) src by (auto simp: store_ok_def store_bounds_def)
      moreover have "datagram_ok hx ?d" using b(3) by (simp add: datagram_ok_def)
      ultimately have "store_ok hx src ?q" using store_ok_put [OF a [THEN conjunct1] p'(1) _ _ p'(3)] by blast
      then show ?thesis using assms(7) Duplicate by (auto simp: process_fragment_def Admitted)
    next
      case Conflict
      then show ?thesis using assms(7) rel a by (auto simp: process_fragment_def Admitted)
    next
      case Disjoint
      show ?thesis
      proof (cases "note_final (rf_end f) mf d \<bind> note_first setFirst (rf_offset f) (rf_headerByteCount f)")
        case None
        then show ?thesis using assms(7) rel a Disjoint by (auto simp: process_fragment_def Admitted)
      next
        case (Some d2)
        then obtain d1 where d1: "note_final (rf_end f) mf d = Some d1"
          "note_first setFirst (rf_offset f) (rf_headerByteCount f) d1 = Some d2"
          by (auto simp: bind_eq_Some_conv)
        note acc = accept_fragment_ok [OF b(3) Disjoint assms(4) d1 assms(6)]
        show ?thesis
        proof (cases "dg_firstHeaderByteCount d2 \<noteq> 0 \<and> tooLong (dg_firstHeaderByteCount d2) (dg_finalPayloadByteCount d2)")
          case True
          then show ?thesis using assms(7) rel a Disjoint Some by (auto simp: process_fragment_def Admitted)
        next
          case False
          obtain d3 q3 where ret: "retain_fragment src key now f d2 q = (d3, q3)" by fastforce
          obtain c' q4 where chk: "check_complete key d3 q3 = (c', q4)" by fastforce
          have d3: "d3 = d2\<lparr>dg_fragments := dg_fragments d2 @ [f], dg_updatedAt := now\<rparr>"
            using ret by (simp add: retain_fragment_def Let_def)
          have q3: "store_ok hx src q3" "map_of (fr_datagrams q3) key = Some d3"
            using retain_fragment_ok [OF a [THEN conjunct1] b(2) ret _ acc(2)] a assms(3,5) acc(1) d3 by auto
          have res: "c = c'" "r' = q4"
            using assms(7) Disjoint Some False ret chk by (auto simp: process_fragment_def Admitted Let_def split: if_splits)
          note k = check_complete_ok [OF q3 chk]
          have tl: "dg_firstHeaderByteCount d3 \<noteq> 0 \<Longrightarrow> \<not> tooLong (dg_firstHeaderByteCount d3) (dg_finalPayloadByteCount d3)"
            using False by (simp add: d3)
          have "datagram_ok hx e \<and> map_of (fr_datagrams q4) key = Some e
              \<and> dg_firstHeaderByteCount e \<noteq> 0 \<and> 0 \<le> dg_finalPayloadByteCount e
              \<and> \<not> tooLong (dg_firstHeaderByteCount e) (dg_finalPayloadByteCount e)
              \<and> tiles 0 (dg_fragments e) = Some (nat (dg_finalPayloadByteCount e))" if "c' = CoreComplete e" for e
          proof -
            from k(2) [OF that] have "dg_firstHeaderByteCount e = dg_firstHeaderByteCount d3"
              "dg_finalPayloadByteCount e = dg_finalPayloadByteCount d3" by simp_all
            then show ?thesis using k(2) [OF that] tl by metis
          qed
          then show ?thesis using k(1) unfolding res by blast
        qed
      qed
    qed
  qed (use adm assms(2,7) rel in \<open>auto simp: process_fragment_def\<close>)
  then show "store_ok hx src r'"
    "c = CoreComplete d \<Longrightarrow> datagram_ok hx d \<and> map_of (fr_datagrams r') key = Some d
      \<and> dg_firstHeaderByteCount d \<noteq> 0 \<and> 0 \<le> dg_finalPayloadByteCount d
      \<and> \<not> tooLong (dg_firstHeaderByteCount d) (dg_finalPayloadByteCount d)
      \<and> tiles 0 (dg_fragments d) = Some (nat (dg_finalPayloadByteCount d))"
    by auto
qed

end
