(* ===== verification/Fragment_Assembly.thy ===== *)
theory Fragment_Assembly
  imports Fragment_Store
begin

text \<open>
  What the store makes of the fragments of one datagram: a complete datagram is assembled into
  exactly its header and its payload, and the fragments that tile a datagram complete it in
  whatever order they arrive.
\<close>

section \<open>The assembled datagram\<close>

lemma tiles_bytes: "tiles p fs = Some n \<Longrightarrow> n = p + (\<Sum>f\<leftarrow>fs. rf_payloadByteCount f)"
  by (induction fs arbitrary: p) (fastforce split: if_splits)+

lemma tiles_le: "tiles p fs = Some n \<Longrightarrow> p \<le> n"
  using tiles_bytes by fastforce

lemma copy_at_exact: "off + length xs \<le> length buf \<Longrightarrow> copy_at off xs buf = take off buf @ xs @ drop (off + length xs) buf"
  by (simp add: copy_at_def put_at_def)

lemma fold_copy_tiles:
  assumes "tiles p fs = Some n" "\<forall>f \<in> set fs. frag_ok hx f" "length buf = h + n"
  shows "fold (\<lambda>f. copy_at (h + rf_offset f) (rf_payload hx f)) fs buf = take (h + p) buf @ concat (map (rf_payload hx) fs)"
  using assms
proof (induction fs arbitrary: p buf)
  case (Cons f fs)
  let ?b = "copy_at (h + rf_offset f) (rf_payload hx f) buf"
  have f: "rf_offset f = p" "tiles (p + rf_payloadByteCount f) fs = Some n" "frag_ok hx f"
    using Cons.prems(1,2) by (auto split: if_splits)
  have le: "p + rf_payloadByteCount f \<le> n" using f(2) by (rule tiles_le)
  have b: "?b = take (h + p) buf @ rf_payload hx f @ drop (h + p + rf_payloadByteCount f) buf"
    using f le Cons.prems(3) by (subst copy_at_exact) simp_all
  then have "length ?b = h + n" using le f(3) Cons.prems(3) by simp
  from Cons.IH [OF f(2) _ this] have "fold (\<lambda>f. copy_at (h + rf_offset f) (rf_payload hx f)) fs ?b =
      take (h + (p + rf_payloadByteCount f)) ?b @ concat (map (rf_payload hx) fs)"
    using Cons.prems(2) by simp
  moreover have "take (h + (p + rf_payloadByteCount f)) ?b = take (h + p) buf @ rf_payload hx f"
    unfolding b using f(3) le Cons.prems(3) by simp
  ultimately show ?case by simp
qed simp

definition complete :: "nat \<Rightarrow> 'x fragmentDatagram_scheme \<Rightarrow> bool" where
  "complete hx d \<longleftrightarrow> datagram_ok hx d \<and> dg_firstHeaderByteCount d \<noteq> 0 \<and> 0 \<le> dg_finalPayloadByteCount d
     \<and> tiles 0 (dg_fragments d) = Some (nat (dg_finalPayloadByteCount d))"

lemma complete_head:
  assumes "complete hx d"
  obtains f fs where "dg_fragments d = f # fs" "rf_offset f = 0" "rf_headerByteCount f = dg_firstHeaderByteCount d" "frag_ok hx f"
proof -
  obtain g where g: "g \<in> set (dg_fragments d)" "rf_offset g = 0" "rf_headerByteCount g = dg_firstHeaderByteCount d"
    using assms by (auto simp: complete_def datagram_ok_def)
  then obtain f fs where f: "dg_fragments d = f # fs" by (cases "dg_fragments d") auto
  have o: "rf_offset f = 0" using assms f by (auto simp: complete_def split: if_splits)
  have ok: "frag_ok hx f" "frag_ok hx g" using assms f g(1) by (auto simp: complete_def datagram_ok_def)
  have "g = f"
  proof (rule ccontr)
    assume "g \<noteq> f"
    then have "apart g f" using assms g(1) f by (intro apart_distinct [of "dg_fragments d"]) (auto simp: complete_def datagram_ok_def)
    then show False using o g(2) ok by (auto simp: apart_def rf_end_def frag_ok_def)
  qed
  then show thesis using that f o g(3) ok(1) by blast
qed

text \<open>
  A complete datagram is put together exactly: the header of its first fragment, then the
  payloads in order. Nothing of the pool buffer's earlier content is left.
\<close>

lemma assemble_complete:
  assumes "complete hx d"
  shows "assemble hx dirt d =
      take (dg_firstHeaderByteCount d) (rf_packet (hd (dg_fragments d))) @ concat (map (rf_payload hx) (dg_fragments d))"
    "length (concat (map (rf_payload hx) (dg_fragments d))) = nat (dg_finalPayloadByteCount d)"
    "length (take (dg_firstHeaderByteCount d) (rf_packet (hd (dg_fragments d)))) = dg_firstHeaderByteCount d"
proof -
  let ?h = "dg_firstHeaderByteCount d" and ?n = "nat (dg_finalPayloadByteCount d)" and ?fs = "dg_fragments d"
  obtain f fs where f: "?fs = f # fs" "rf_offset f = 0" "rf_headerByteCount f = ?h" "frag_ok hx f"
    using complete_head [OF assms] .
  let ?buf = "pool_buffer dirt (?h + ?n)" and ?head = "take ?h (rf_packet f)"
  have l: "length ?head = ?h" using f(3,4) by (simp add: frag_ok_def)
  have ok: "\<forall>f \<in> set ?fs. frag_ok hx f" "tiles 0 ?fs = Some ?n"
    using assms by (auto simp: complete_def datagram_ok_def)
  have "length (put_at 0 ?head ?buf) = ?h + ?n" using l by (simp add: put_at_def)
  note fold = fold_copy_tiles [OF ok(2,1) this]
  have "take ?h (put_at 0 ?head ?buf) = ?head" using l by (simp add: put_at_def)
  then show "assemble hx dirt d = take ?h (rf_packet (hd ?fs)) @ concat (map (rf_payload hx) ?fs)"
    using f(1,2) fold by (simp add: assemble_def Let_def)
  have "length (concat (map (rf_payload hx) ?fs)) = (\<Sum>f\<leftarrow>?fs. rf_payloadByteCount f)"
    using ok(1) by (simp add: length_concat comp_def cong: map_cong)
  then show "length (concat (map (rf_payload hx) ?fs)) = ?n" using tiles_bytes [OF ok(2)] by simp
  show "length (take ?h (rf_packet (hd ?fs))) = ?h" using l f(1) by simp
qed

section \<open>Fragments in any order\<close>

lemma tiles_facts:
  assumes "tiles p fs = Some n" "\<forall>f \<in> set fs. 0 < rf_payloadByteCount f"
  shows "sorted (map rf_offset fs)" "distinct (map rf_offset fs)" "sorted_wrt apart fs"
    "\<And>f. f \<in> set fs \<Longrightarrow> p \<le> rf_offset f \<and> rf_end f \<le> n"
    "\<And>f g. f \<in> set fs \<Longrightarrow> g \<in> set fs \<Longrightarrow> rf_end f = n \<Longrightarrow> rf_end g = n \<Longrightarrow> f = g"
proof -
  have "sorted (map rf_offset fs) \<and> distinct (map rf_offset fs) \<and> sorted_wrt apart fs
     \<and> (\<forall>f \<in> set fs. p \<le> rf_offset f \<and> rf_end f \<le> n)
     \<and> (\<forall>f \<in> set fs. \<forall>g \<in> set fs. rf_end f = n \<longrightarrow> rf_end g = n \<longrightarrow> f = g)"
    using assms
  proof (induction fs arbitrary: p)
    case (Cons f fs)
    have f: "rf_offset f = p" "tiles (p + rf_payloadByteCount f) fs = Some n" "0 < rf_payloadByteCount f"
      using Cons.prems by (auto split: if_splits)
    have IH: "sorted (map rf_offset fs)" "distinct (map rf_offset fs)" "sorted_wrt apart fs"
      "\<forall>f' \<in> set fs. p + rf_payloadByteCount f \<le> rf_offset f' \<and> rf_end f' \<le> n"
      "\<forall>f \<in> set fs. \<forall>g \<in> set fs. rf_end f = n \<longrightarrow> rf_end g = n \<longrightarrow> f = g"
      using Cons.IH [OF f(2)] Cons.prems(2) by auto
    have e: "rf_end f = p + rf_payloadByteCount f" using f(1) by (simp add: rf_end_def)
    have le: "rf_end f \<le> n" unfolding e using f(2) by (rule tiles_le)
    have lt: "rf_end f < rf_end g" if "g \<in> set fs" for g
      using IH(4) that Cons.prems(2) e by (fastforce simp: rf_end_def)
    have "rf_end f \<noteq> n" if "g \<in> set fs" "rf_end g = n" for g using lt [OF that(1)] that(2) by simp
    then have "\<forall>a \<in> set (f # fs). \<forall>g \<in> set (f # fs). rf_end a = n \<longrightarrow> rf_end g = n \<longrightarrow> a = g"
      using IH(5) by auto
    moreover have "sorted (map rf_offset (f # fs)) \<and> distinct (map rf_offset (f # fs))"
      using IH(1,2,4) f(1,3) by fastforce
    moreover have "sorted_wrt apart (f # fs)" using IH(3,4) e by (auto simp: apart_def)
    moreover have "\<forall>f' \<in> set (f # fs). p \<le> rf_offset f' \<and> rf_end f' \<le> n"
      using IH(4) f(1) le by fastforce
    ultimately show ?case by blast
  qed simp
  then show "sorted (map rf_offset fs)" "distinct (map rf_offset fs)" "sorted_wrt apart fs"
    "\<And>f. f \<in> set fs \<Longrightarrow> p \<le> rf_offset f \<and> rf_end f \<le> n"
    "\<And>f g. f \<in> set fs \<Longrightarrow> g \<in> set fs \<Longrightarrow> rf_end f = n \<Longrightarrow> rf_end g = n \<Longrightarrow> f = g"
    by blast+
qed

definition parts :: "nat \<Rightarrow> nat \<Rightarrow> nat \<Rightarrow> retainedFragment list \<Rightarrow> bool" where
  "parts hx h n G \<longleftrightarrow> tiles 0 G = Some n \<and> G \<noteq> [] \<and> length G \<le> ipv4FragmentReassemblyMaxFragments
     \<and> (\<forall>f \<in> set G. frag_ok hx f \<and> rf_headerByteCount f = h)"

text \<open>The store holds exactly the parts \<open>ps\<close> of one datagram, which came first at \<open>t0\<close>.\<close>

definition holds_parts ::
  "'k \<Rightarrow> nat \<Rightarrow> nat \<Rightarrow> 'x \<Rightarrow> 'x \<Rightarrow> int \<Rightarrow> retainedFragment list \<Rightarrow> 'x fragmentDatagram_scheme \<Rightarrow> bool" where
  "holds_parts key h n x fresh t0 ps d \<longleftrightarrow>
     mset (dg_fragments d) = mset ps \<and> dg_createdAt d = t0
   \<and> dg_firstHeaderByteCount d = (if \<exists>f \<in> set ps. rf_offset f = 0 then h else 0)
   \<and> dg_finalPayloadByteCount d = (if \<exists>f \<in> set ps. rf_end f = n then int n else - 1)
   \<and> fragmentDatagram.more d = (if \<exists>f \<in> set ps. rf_offset f = 0 then x else fresh)"

definition store_holds ::
  "('k \<Rightarrow> 's) \<Rightarrow> 'k \<Rightarrow> ('x fragmentDatagram_scheme \<Rightarrow> bool) \<Rightarrow> int \<Rightarrow> int \<Rightarrow> int \<Rightarrow> ('k, 's, 'x) reassembler \<Rightarrow> bool" where
  "store_holds src key P bytes M Q r \<longleftrightarrow>
     (\<exists>d. fr_datagrams r = [(key, d)] \<and> P d) \<and> fr_retainedByteCount r = bytes \<and> retainedBytesForSource r (src key) = bytes
   \<and> fr_maxRetainedBytes r = M \<and> fr_maxRetainedBytesPerSource r = Q"

definition empty_store :: "('k \<Rightarrow> 's) \<Rightarrow> 'k \<Rightarrow> int \<Rightarrow> int \<Rightarrow> ('k, 's, 'x) reassembler \<Rightarrow> bool" where
  "empty_store src key M Q r \<longleftrightarrow> fr_datagrams r = [] \<and> fr_retainedByteCount r = 0 \<and> retainedBytesForSource r (src key) = 0
   \<and> fr_maxRetainedBytes r = M \<and> fr_maxRetainedBytesPerSource r = Q"

lemma parts_facts:
  assumes "parts hx h n G"
  shows "f \<in> set G \<Longrightarrow> 0 < rf_payloadByteCount f" "f \<in> set G \<Longrightarrow> rf_end f \<le> n"
    "f \<in> set G \<Longrightarrow> g \<in> set G \<Longrightarrow> f \<noteq> g \<Longrightarrow> apart f g" "distinct G" "sorted (map rf_offset G)"
    "inj_on rf_offset (set G)" "f \<in> set G \<Longrightarrow> g \<in> set G \<Longrightarrow> rf_end f = n \<Longrightarrow> rf_end g = n \<Longrightarrow> f = g"
    "n = (\<Sum>f\<leftarrow>G. rf_payloadByteCount f)" "rf_offset (hd G) = 0" "\<exists>f \<in> set G. rf_end f = n"
proof -
  have t: "tiles 0 G = Some n" "\<forall>f \<in> set G. 0 < rf_payloadByteCount f"
    using assms by (auto simp: parts_def frag_ok_def)
  note facts = tiles_facts [OF t]
  show "f \<in> set G \<Longrightarrow> 0 < rf_payloadByteCount f" using t(2) by simp
  show "f \<in> set G \<Longrightarrow> rf_end f \<le> n" using facts(4) by simp
  show "f \<in> set G \<Longrightarrow> g \<in> set G \<Longrightarrow> f \<noteq> g \<Longrightarrow> apart f g" using facts(3) by (rule apart_distinct)
  show "distinct G" "inj_on rf_offset (set G)" using facts(2) by (simp_all add: distinct_map)
  show "sorted (map rf_offset G)" by (rule facts(1))
  show "f \<in> set G \<Longrightarrow> g \<in> set G \<Longrightarrow> rf_end f = n \<Longrightarrow> rf_end g = n \<Longrightarrow> f = g" by (rule facts(5))
  show "n = (\<Sum>f\<leftarrow>G. rf_payloadByteCount f)" using tiles_bytes [OF t(1)] by simp
  have ne: "G \<noteq> []" using assms by (simp add: parts_def)
  then show "rf_offset (hd G) = 0" using t(1) by (cases G) (auto split: if_splits)
  have "\<exists>f \<in> set fs. rf_end f = n" if "tiles p fs = Some n" "fs \<noteq> []" for p fs
    using that
  proof (induction fs arbitrary: p)
    case (Cons f fs)
    then show ?case by (cases "fs = []") (auto simp: rf_end_def split: if_splits)
  qed simp
  then show "\<exists>f \<in> set G. rf_end f = n" using t(1) ne by blast
qed

lemma overlap_none:
  "(\<And>g. g \<in> set fs \<Longrightarrow> apart f g \<and> 0 < rf_payloadByteCount g) \<Longrightarrow> frag_ok hx f \<Longrightarrow>
   fragment_overlap hx (rf_offset f) (rf_payload hx f) fs = Disjoint"
proof (induction fs)
  case (Cons g fs)
  have "apart f g" "0 < rf_payloadByteCount g" "0 < rf_payloadByteCount f" using Cons.prems by (auto simp: frag_ok_def)
  then have "\<not> (rf_offset f < rf_end g \<and> rf_offset g < rf_end f)" "rf_offset f \<noteq> rf_offset g"
    by (auto simp: apart_def rf_end_def)
  then show ?case using Cons by (auto simp: Let_def rf_end_def)
qed simp

lemma sum_parts_less:
  assumes "parts hx h n G" "set qs \<subset> set G" "distinct qs"
  shows "(\<Sum>f\<leftarrow>qs. rf_payloadByteCount f) < n"
proof -
  have "(\<Sum>f\<leftarrow>qs. rf_payloadByteCount f) = (\<Sum>f\<in>set qs. rf_payloadByteCount f)"
    using assms(3) by (simp add: sum_list_distinct_conv_sum_set)
  also have "\<dots> < (\<Sum>f\<in>set G. rf_payloadByteCount f)"
  proof -
    obtain g where "g \<in> set G - set qs" using assms(2) by blast
    then show ?thesis
      using assms(2) parts_facts(1) [OF assms(1)] by (intro sum_strict_mono2 [of _ _ g]) auto
  qed
  also have "\<dots> = n"
    using parts_facts(4,8) [OF assms(1)] by (simp add: sum_list_distinct_conv_sum_set)
  finally show ?thesis .
qed

lemma note_part:
  assumes "parts hx h n G" "holds_parts key h n x fresh t0 ps d" "set ps \<subseteq> set G" "distinct ps" "f \<in> set G" "f \<notin> set ps"
    "keeps_common setFirst" "\<And>d. fragmentDatagram.more (setFirst d) = x"
  obtains d' where
    "note_final (rf_end f) (rf_end f \<noteq> n) d \<bind> note_first setFirst (rf_offset f) (rf_headerByteCount f) = Some d'"
    "holds_parts key h n x fresh t0 (f # ps) (d'\<lparr>dg_fragments := dg_fragments d' @ [f], dg_updatedAt := now\<rparr>)"
    "dg_firstHeaderByteCount d' \<in> {0, h}" "dg_finalPayloadByteCount d' \<in> {- 1, int n}"
proof -
  note p = parts_facts [OF assms(1)] and hp = assms(2) [unfolded holds_parts_def]
  have sets: "set (dg_fragments d) = set ps" using hp by (metis set_mset_mset)
  have len: "length (dg_fragments d) < ipv4FragmentReassemblyMaxFragments"
  proof -
    have "length (dg_fragments d) = card (set ps)" using hp assms(4) by (metis distinct_card size_mset)
    also have "\<dots> < card (set G)" using assms(3,5,6) by (intro psubset_card_mono) auto
    also have "\<dots> \<le> ipv4FragmentReassemblyMaxFragments" using assms(1) card_length [of G] by (simp add: parts_def)
    finally show ?thesis .
  qed
  have noend: "rf_end g \<noteq> n" if "g \<in> set ps" "rf_end f = n" for g
    using p(7) [of g f] that assms(3,5,6) by blast
  have le: "\<not> n < rf_end g" if "g \<in> set ps" for g using p(2) [of g] that assms(3) by auto
  have fin: "note_final (rf_end f) (rf_end f \<noteq> n) d =
      Some (d\<lparr>dg_finalPayloadByteCount := if \<exists>g \<in> set (f # ps). rf_end g = n then int n else - 1\<rparr>)"
    using hp len noend p(2) [OF assms(5)] le by (auto simp: note_final_def list_ex_iff sets dest!: le)
  have nofirst: "rf_offset g \<noteq> 0" if "g \<in> set ps" "rf_offset f = 0" for g
    using inj_onD [OF p(6), of g f] that assms(3,5,6) by auto
  have h: "rf_headerByteCount f = h" using assms(1,5) by (simp add: parts_def)
  let ?d1 = "d\<lparr>dg_finalPayloadByteCount := if \<exists>g \<in> set (f # ps). rf_end g = n then int n else - 1\<rparr>"
  let ?d2 = "if rf_offset f = 0 then setFirst (?d1\<lparr>dg_firstHeaderByteCount := h\<rparr>) else ?d1"
  have "note_first setFirst (rf_offset f) (rf_headerByteCount f) ?d1 = Some ?d2"
    using hp nofirst h by (auto simp: note_first_def)
  then have "note_final (rf_end f) (rf_end f \<noteq> n) d \<bind> note_first setFirst (rf_offset f) (rf_headerByteCount f) = Some ?d2"
    by (simp add: fin)
  moreover have "holds_parts key h n x fresh t0 (f # ps) (?d2\<lparr>dg_fragments := dg_fragments ?d2 @ [f], dg_updatedAt := now\<rparr>)"
    using hp nofirst keeps_commonD [OF assms(7)] assms(8) by (auto simp: holds_parts_def)
  moreover have "dg_firstHeaderByteCount ?d2 \<in> {0, h}" "dg_finalPayloadByteCount ?d2 \<in> {- 1, int n}"
    using hp keeps_commonD [OF assms(7)] by auto
  ultimately show thesis by (rule that)
qed

lemma expire_nothing:
  "(\<And>k d. (k, d) \<in> set (fr_datagrams r) \<Longrightarrow> now - dg_createdAt d < ipv4FragmentReassemblyTimeout) \<Longrightarrow> expire src now r = r"
proof -
  assume young: "\<And>k d. (k, d) \<in> set (fr_datagrams r) \<Longrightarrow> now - dg_createdAt d < ipv4FragmentReassemblyTimeout"
  have "fold (\<lambda>(key, d) r. if ipv4FragmentReassemblyTimeout \<le> now - dg_createdAt d then releaseDatagram src key r else r) ds r = r"
    if "set ds \<subseteq> set (fr_datagrams r)" for ds
    using that
  proof (induction ds)
    case (Cons a ds)
    obtain k d where a: "a = (k, d)" by (cases a)
    then have "now - dg_createdAt d < ipv4FragmentReassemblyTimeout" using young [of k d] Cons.prems by simp
    then show ?case using Cons by (simp add: a)
  qed simp
  then show ?thesis by (simp add: expire_def)
qed

lemma expire_holds:
  assumes "store_holds src key (holds_parts key h n x fresh t0 ps) b M Q r" "now - t0 < ipv4FragmentReassemblyTimeout"
  shows "expire src now r = r"
  using assms by (intro expire_nothing) (auto simp: store_holds_def holds_parts_def)

lemma expire_empty: "empty_store src key M Q r \<Longrightarrow> expire src now r = r"
  by (intro expire_nothing) (simp add: empty_store_def)

lemma admit_empty:
  assumes "empty_store src key M Q r" "cost \<le> M" "0 < Q \<Longrightarrow> cost \<le> Q"
  obtains d r' where "admit_fragment src order fresh now key cost r = Admitted d r'"
    "store_holds src key (holds_parts key h n x fresh now []) 0 M Q r'" "fr_datagrams r' = [(key, d)]"
proof -
  let ?d = "\<lparr>dg_createdAt = now, dg_updatedAt = now, dg_fragments = [], dg_firstHeaderByteCount = 0,
     dg_finalPayloadByteCount = - 1, \<dots> = fresh\<rparr>"
  note e = assms(1) [unfolded empty_store_def]
  have "makeDatagramRoom src order now r = r"
    using e expire_empty [OF assms(1)] by (simp add: makeDatagramRoom_def evict_def ipv4FragmentReassemblyMaxDatagrams_def)
  then have "admit_fragment src order fresh now key cost r = Admitted ?d (r\<lparr>fr_datagrams := [(key, ?d)]\<rparr>)"
    using e assms(2,3) by (auto simp: admit_fragment_def evict_def Let_def)
  moreover have "store_holds src key (holds_parts key h n x fresh now []) 0 M Q (r\<lparr>fr_datagrams := [(key, ?d)]\<rparr>)"
    using e by (auto simp: store_holds_def holds_parts_def retainedBytesForSource_def)
  ultimately show thesis by (rule that) simp
qed

lemma admit_holds:
  assumes "store_holds src key P b M Q r" "b + cost \<le> M" "0 < Q \<Longrightarrow> b + cost \<le> Q"
  obtains d where "admit_fragment src order fresh now key cost r = Admitted d r" "fr_datagrams r = [(key, d)]" "P d"
proof -
  obtain d where d: "fr_datagrams r = [(key, d)]" "P d" using assms(1) by (auto simp: store_holds_def)
  have "\<not> (fr_maxRetainedBytes r < fr_retainedByteCount r + cost
      \<or> 0 < fr_maxRetainedBytesPerSource r \<and> fr_maxRetainedBytesPerSource r < retainedBytesForSource r (src key) + cost)"
    using assms by (auto simp: store_holds_def)
  then have "admit_fragment src order fresh now key cost r = Admitted d r" using d(1) by (simp add: admit_fragment_def)
  then show thesis using that d by blast
qed

lemma check_parts:
  assumes "parts hx h n G" "holds_parts key h n x fresh t0 qs d" "set qs \<subseteq> set G" "distinct qs" "fr_datagrams r = [(key, d)]"
  shows "\<exists>d'. check_complete key d r = (if set qs = set G then CoreComplete d' else CoreKept, r\<lparr>fr_datagrams := [(key, d')]\<rparr>)
    \<and> holds_parts key h n x fresh t0 qs d'
    \<and> (set qs = set G \<longrightarrow> dg_fragments d' = G \<and> dg_firstHeaderByteCount d' = h \<and> dg_finalPayloadByteCount d' = int n
        \<and> fragmentDatagram.more d' = x)"
proof -
  note p = parts_facts [OF assms(1)] and hp = assms(2) [unfolded holds_parts_def]
  have G: "hd G \<in> set G" "h \<noteq> 0" using assms(1) by (auto simp: parts_def frag_ok_def dest: hd_in_set)
  let ?d = "d\<lparr>dg_fragments := sort_key rf_offset (dg_fragments d)\<rparr>"
  show ?thesis
  proof (cases "set qs = set G")
    case True
    have m: "mset (dg_fragments d) = mset G"
      using hp True assms(4) p(4) by (metis set_eq_iff_mset_eq_distinct)
    then have "set (dg_fragments d) = set G" by (metis set_mset_mset)
    then have s: "sort_key rf_offset (dg_fragments d) = G"
      using m p(5,6) by (intro sort_key_inj_key_eq) simp_all
    have "\<exists>f \<in> set qs. rf_offset f = 0" "\<exists>f \<in> set qs. rf_end f = n" using True G(1) p(9,10) by auto
    then have f: "dg_firstHeaderByteCount d = h" "dg_finalPayloadByteCount d = int n" "fragmentDatagram.more d = x" using hp by simp_all
    moreover have "tiles 0 G = Some n" using assms(1) by (simp add: parts_def)
    ultimately have "check_complete key d r = (CoreComplete ?d, r\<lparr>fr_datagrams := [(key, ?d)]\<rparr>)"
      using s G(2) assms(5) by (simp add: check_complete_def Let_def)
    moreover have "holds_parts key h n x fresh t0 qs ?d" using hp by (simp add: holds_parts_def)
    ultimately show ?thesis using True s f by (intro exI [of _ ?d]) simp
  next
    case False
    have keep: "r\<lparr>fr_datagrams := [(key, d)]\<rparr> = r" using assms(5) by (metis fragmentReassembler.surjective fragmentReassembler.update_convs(3))
    show ?thesis
    proof (cases "dg_firstHeaderByteCount d = 0 \<or> dg_finalPayloadByteCount d < 0")
      case True
      then show ?thesis using False assms(2) keep by (intro exI [of _ d]) (simp add: check_complete_def)
    next
      case complete: False
      have "(\<Sum>f\<leftarrow>dg_fragments ?d. rf_payloadByteCount f) = (\<Sum>f\<leftarrow>qs. rf_payloadByteCount f)"
        using hp by (metis (no_types, lifting) fragmentDatagram.select_convs(3) fragmentDatagram.surjective
            fragmentDatagram.update_convs(3) mset_map mset_sort sum_mset_sum_list)
      also have "\<dots> < n" using sum_parts_less [OF assms(1) _ assms(4)] False assms(3) by blast
      finally have "tiles 0 (dg_fragments ?d) \<noteq> Some n" using tiles_bytes by fastforce
      moreover have "dg_finalPayloadByteCount d = int n" using complete hp by (auto split: if_splits)
      ultimately have "check_complete key d r = (CoreKept, r\<lparr>fr_datagrams := [(key, ?d)]\<rparr>)"
        using complete assms(5) by (auto simp: check_complete_def Let_def)
      moreover have "holds_parts key h n x fresh t0 qs ?d" using hp by (simp add: holds_parts_def)
      ultimately show ?thesis using False by (intro exI [of _ ?d]) simp
    qed
  qed
qed

text \<open>
  One more part of a datagram: it is retained, and it completes the datagram exactly when it is
  the last one that was missing.
\<close>

lemma process_part:
  assumes "parts hx h n G" "set ps \<subseteq> set G" "distinct ps" "f \<in> set G" "f \<notin> set ps"
    "keeps_common setFirst" "\<And>d. fragmentDatagram.more (setFirst d) = x"
    "\<not> tooLong h (- 1)" "\<not> tooLong h (int n)"
    "if ps = [] then empty_store src key M Q r \<and> now = t0
     else store_holds src key (holds_parts key h n x fresh t0 ps) (charge ps) M Q r"
    "charge (f # ps) \<le> M" "0 < Q \<Longrightarrow> charge (f # ps) \<le> Q" "cost = int (length (rf_packet f))" "mf = (rf_end f \<noteq> n)"
  shows "\<exists>r' d. process_fragment hx setFirst tooLong fresh src order now key cost f mf r =
       (if set (f # ps) = set G then CoreComplete d else CoreKept, True, r')
    \<and> store_holds src key (holds_parts key h n x fresh t0 (f # ps)) (charge (f # ps)) M Q r' \<and> fr_datagrams r' = [(key, d)]
    \<and> (set (f # ps) = set G \<longrightarrow> dg_fragments d = G \<and> dg_firstHeaderByteCount d = h \<and> dg_finalPayloadByteCount d = int n
        \<and> fragmentDatagram.more d = x)"
proof -
  note p = parts_facts [OF assms(1)]
  obtain d q where a: "admit_fragment src order fresh now key cost r = Admitted d q" "fr_datagrams q = [(key, d)]"
    "store_holds src key (holds_parts key h n x fresh t0 ps) (charge ps) M Q q"
  proof (cases "ps = []")
    case True
    then show thesis
      using admit_empty [of src key M Q r cost order fresh now h n x] assms(10-13) that by (metis charge_simps(1,2) add_0_right)
  next
    case False
    then have "store_holds src key (holds_parts key h n x fresh t0 ps) (charge ps) M Q r" using assms(10) by simp
    moreover have "charge ps + cost \<le> M" "0 < Q \<Longrightarrow> charge ps + cost \<le> Q" using assms(11-13) by simp_all
    ultimately show thesis using that admit_holds [of src key _ "charge ps" M Q r cost order fresh now] by metis
  qed
  have hd: "holds_parts key h n x fresh t0 ps d" using a(2,3) by (auto simp: store_holds_def)
  have sets: "set (dg_fragments d) = set ps" using hd by (metis holds_parts_def set_mset_mset)
  have ok: "frag_ok hx f" using assms(1,4) by (simp add: parts_def)
  have ov: "fragment_overlap hx (rf_offset f) (rf_payload hx f) (dg_fragments d) = Disjoint"
    using p(1,3) assms(2,4,5) sets ok by (intro overlap_none) auto
  obtain d1 where d1: "note_final (rf_end f) (rf_end f \<noteq> n) d \<bind> note_first setFirst (rf_offset f) (rf_headerByteCount f) = Some d1"
    "holds_parts key h n x fresh t0 (f # ps) (d1\<lparr>dg_fragments := dg_fragments d1 @ [f], dg_updatedAt := now\<rparr>)"
    "dg_firstHeaderByteCount d1 \<in> {0, h}" "dg_finalPayloadByteCount d1 \<in> {- 1, int n}"
    using note_part [OF assms(1) hd assms(2-7)] .
  let ?d2 = "d1\<lparr>dg_fragments := dg_fragments d1 @ [f], dg_updatedAt := now\<rparr>"
  obtain q2 where r: "retain_fragment src key now f d1 q = (?d2, q2)" by (simp add: retain_fragment_def Let_def)
  have q2: "fr_datagrams q2 = [(key, ?d2)]" "fr_retainedByteCount q2 = charge (f # ps)"
    "retainedBytesForSource q2 (src key) = charge (f # ps)" "fr_maxRetainedBytes q2 = M" "fr_maxRetainedBytesPerSource q2 = Q"
    using r a(2,3) by (auto simp: retain_fragment_def Let_def store_holds_def retainedBytesForSource_def [of q2])
  obtain d3 where c: "check_complete key ?d2 q2 =
      (if set (f # ps) = set G then CoreComplete d3 else CoreKept, q2\<lparr>fr_datagrams := [(key, d3)]\<rparr>)"
    "holds_parts key h n x fresh t0 (f # ps) d3"
    "set (f # ps) = set G \<longrightarrow> dg_fragments d3 = G \<and> dg_firstHeaderByteCount d3 = h \<and> dg_finalPayloadByteCount d3 = int n
      \<and> fragmentDatagram.more d3 = x"
    using check_parts [OF assms(1) d1(2) _ _ q2(1)] assms(2-5) by auto
  have "\<not> (dg_firstHeaderByteCount d1 \<noteq> 0 \<and> tooLong (dg_firstHeaderByteCount d1) (dg_finalPayloadByteCount d1))"
    using d1(3,4) assms(8,9) by auto
  then have "process_fragment hx setFirst tooLong fresh src order now key cost f mf r =
      (if set (f # ps) = set G then CoreComplete d3 else CoreKept, True, q2\<lparr>fr_datagrams := [(key, d3)]\<rparr>)"
    unfolding process_fragment_def a(1) admission.case ov overlap.case assms(14) d1(1) option.case r by (simp add: c(1))
  moreover have "store_holds src key (holds_parts key h n x fresh t0 (f # ps)) (charge (f # ps)) M Q (q2\<lparr>fr_datagrams := [(key, d3)]\<rparr>)"
    using q2 c(2) by (auto simp: store_holds_def retainedBytesForSource_def)
  ultimately show ?thesis using c(3) by (intro exI [of _ "q2\<lparr>fr_datagrams := [(key, d3)]\<rparr>"] exI [of _ d3]) simp
qed

end
