(* ===== verification/Ip_Fragment.thy ===== *)
theory Ip_Fragment
  imports Fragment_Assembly
begin

text \<open>
  Fragmentation and reassembly of both address families: the IPv4 and the IPv6 reassembler on
  the shared store, the gate that dispatches to them, and the two fragmenters (ip_fragment.go,
  ip_ipv6_fragment.go).

  \<^item> The transfer path, the transfer key and the provide mode of a fragment key are opaque values
    with equality, so they are type variables.
  \<^item> The identification counters of the process and the outcomes of the next reads of the system
    random source are a record that is passed through. A failed read is \<open>None\<close>. The IPv6 counter
    loop is left with \<open>None\<close> when the given outcomes are used up before it returns.
  \<^item> The current time is an argument.
\<close>

unbundle bit_operations_syntax

section \<open>Identifications\<close>

record idSource =
  ids_ipv4 :: uint32
  ids_ipv6 :: uint32
  ids_random :: "uint32 option list"

function next4 :: "uint32 \<Rightarrow> uint16 \<times> uint32" where
  "next4 counter =
     (let c = counter + 1; identification = ucast c in if identification \<noteq> 0 then (identification, c) else next4 c)"
  by pat_completeness auto

lemma next4_step: "(ucast ((c :: uint32) + 1) :: uint16) = 0 \<Longrightarrow> (ucast (c + 1 + 1) :: uint16) \<noteq> 0"
proof -
  have b: "bit (ucast d :: uint16) 0 = bit d 0" for d :: uint32 by (simp only: bit_ucast_iff) simp
  assume "(ucast (c + 1) :: uint16) = 0"
  then have "\<not> bit (c + 1) 0" using b [of "c + 1"] by simp
  then have "bit (c + 1 + 1) 0" unfolding bit_0 even_add by simp
  then show ?thesis using b [of "c + 1 + 1"] by (metis bit_0_eq bot_apply bot_bool_def)
qed

termination next4
  by (relation "measure (\<lambda>c. if (ucast (c + 1) :: uint16) = 0 then 1 else 0)") (auto dest: next4_step)

declare next4.simps [simp del]

definition nextIpv4FragmentIdentification :: "idSource \<Rightarrow> uint16 \<times> idSource" where
  "nextIpv4FragmentIdentification ids =
     (let (identification, c) = next4 (ids_ipv4 ids) in (identification, ids\<lparr>ids_ipv4 := c\<rparr>))"

fun next6 :: "uint32 option list \<Rightarrow> uint32 \<Rightarrow> (uint32 \<times> uint32 option list \<times> uint32) option" where
  "next6 [] counter = None"
| "next6 (None # reads) counter = (let c = counter + 1 in if c \<noteq> 0 then Some (c, reads, c) else next6 reads c)"
| "next6 (Some b # reads) counter = (if b \<noteq> 0 then Some (b, reads, counter) else next6 reads counter)"

definition nextIpv6FragmentIdentification :: "idSource \<Rightarrow> (uint32 \<times> idSource) option" where
  "nextIpv6FragmentIdentification ids =
     map_option (\<lambda>(identification, reads, c). (identification, ids\<lparr>ids_random := reads, ids_ipv6 := c\<rparr>))
       (next6 (ids_random ids) (ids_ipv6 ids))"

section \<open>Results\<close>

record ipFragmentProcessResult =
  rs_packet :: bytes
  rs_fragments :: "bytes list"
  rs_fragment :: bool
  rs_accepted :: bool

definition passed :: "bytes \<Rightarrow> ipFragmentProcessResult" where
  "passed packet = \<lparr>rs_packet = packet, rs_fragments = [], rs_fragment = False, rs_accepted = True\<rparr>"

definition dropped :: ipFragmentProcessResult where
  "dropped = \<lparr>rs_packet = [], rs_fragments = [], rs_fragment = True, rs_accepted = False\<rparr>"

definition kept :: ipFragmentProcessResult where
  "kept = \<lparr>rs_packet = [], rs_fragments = [], rs_fragment = True, rs_accepted = True\<rparr>"

definition completed :: "bytes \<Rightarrow> bytes list \<Rightarrow> ipFragmentProcessResult" where
  "completed packet fragments = \<lparr>rs_packet = packet, rs_fragments = fragments, rs_fragment = True, rs_accepted = True\<rparr>"

section \<open>The IPv4 reassembler\<close>

record ('s, 't, 'm) ipv4FragmentKey =
  k4_source :: 's
  k4_transferKey :: 't
  k4_provideMode :: 'm
  k4_sourceIp :: bytes
  k4_destinationIp :: bytes
  k4_protocol :: byte
  k4_identification :: uint16

type_synonym ('s, 't, 'm) ipv4FragmentReassembler = "(('s, 't, 'm) ipv4FragmentKey, 's, unit) reassembler"
type_synonym ('s, 't, 'm) order4 = "(('s, 't, 'm) ipv4FragmentKey, unit) visit_order"

definition newIpv4FragmentReassembler :: "('s, 't, 'm) ipv4FragmentReassembler" where
  "newIpv4FragmentReassembler = newFragmentReassembler"

definition isIpv4FragmentPacket :: "bytes \<Rightarrow> bool" where
  "isIpv4FragmentPacket packet \<longleftrightarrow>
     Ipv4HeaderSizeWithoutExtensions \<le> length packet \<and> ip_version packet = 4 \<and> u16_at packet 6 AND 0x3fff \<noteq> 0"

definition isIpFragmentPacket :: "bytes \<Rightarrow> bool" where
  "isIpFragmentPacket packet =
     (if packet = [] then False
      else if ip_version packet = 4 then isIpv4FragmentPacket packet
      else if ip_version packet = 6 then isIpv6FragmentPacket packet
      else False)"

definition fragment_key4 :: "'s \<Rightarrow> 't \<Rightarrow> 'm \<Rightarrow> bytes \<Rightarrow> ('s, 't, 'm) ipv4FragmentKey" where
  "fragment_key4 source transferKey provideMode packet =
     \<lparr>k4_source = source, k4_transferKey = transferKey, k4_provideMode = provideMode,
      k4_sourceIp = subslice 12 16 packet, k4_destinationIp = subslice 16 20 packet,
      k4_protocol = packet ! 9, k4_identification = u16_at packet 4\<rparr>"

text \<open>The header checks: the fragment as it would be retained and whether more follow.\<close>

definition parse_fragment4 :: "bytes \<Rightarrow> (retainedFragment \<times> bool) option" where
  "parse_fragment4 packet =
     (let flagsAndOffset = u16_at packet 6
      in if flagsAndOffset AND 0x8000 \<noteq> 0 then None
         else
           let headerByteCount = unat (packet ! 0 AND 0x0f) * 4;
               totalByteCount = unat (u16_at packet 2)
           in if headerByteCount < Ipv4HeaderSizeWithoutExtensions \<or> totalByteCount < headerByteCount
                \<or> length packet < totalByteCount
              then None
              else
                let payloadByteCount = totalByteCount - headerByteCount;
                    moreFragments = (flagsAndOffset AND 0x2000 \<noteq> 0);
                    offset = unat (flagsAndOffset AND 0x1fff) * 8
                in if payloadByteCount = 0 \<or> moreFragments \<and> payloadByteCount mod 8 \<noteq> 0
                     \<or> 0xffff - int Ipv4HeaderSizeWithoutExtensions < int (offset + payloadByteCount)
                   then None
                   else Some (\<lparr>rf_packet = take totalByteCount packet, rf_headerByteCount = headerByteCount,
                          rf_offset = offset, rf_payloadByteCount = payloadByteCount\<rparr>, moreFragments))"

definition tooLong4 :: "nat \<Rightarrow> int \<Rightarrow> bool" where
  "tooLong4 firstHeaderByteCount finalPayloadByteCount \<longleftrightarrow> 0xffff - int firstHeaderByteCount < finalPayloadByteCount"

definition writeIpv4HeaderChecksum :: "bytes \<Rightarrow> bytes" where
  "writeIpv4HeaderChecksum header =
     (let header = put_at 10 [0, 0] header in put_at 10 (putUint16 (checksumFinish (checksumAdd 0 header))) header)"

definition reassemble4 :: "(nat \<Rightarrow> bytes) \<Rightarrow> fragmentDatagram \<Rightarrow> bytes" where
  "reassemble4 dirt d =
     (let h = dg_firstHeaderByteCount d;
          packetByteCount = h + nat (dg_finalPayloadByteCount d);
          reassembled = assemble 0 dirt d;
          reassembled = put_at 2 (putUint16 (of_nat packetByteCount)) reassembled;
          reassembled = put_at 6 (putUint16 0) reassembled
      in put_at 0 (writeIpv4HeaderChecksum (take h reassembled)) reassembled)"

definition canonical_fragment4 :: "uint16 \<Rightarrow> bytes \<Rightarrow> bytes" where
  "canonical_fragment4 identification packet =
     (let headerByteCount = unat (packet ! 0 AND 0x0f) * 4;
          packet = put_at 4 (putUint16 identification) packet;
          packet = put_at 6 (putUint16 (u16_at packet 6 AND NOT 0x4000)) packet
      in put_at 0 (writeIpv4HeaderChecksum (take headerByteCount packet)) packet)"

definition processResultAt4 ::
  "('s, 't, 'm) order4 \<Rightarrow> (nat \<Rightarrow> bytes) \<Rightarrow> 's \<Rightarrow> 't \<Rightarrow> 'm \<Rightarrow> bytes \<Rightarrow> int \<Rightarrow> bool \<Rightarrow> idSource
   \<Rightarrow> ('s, 't, 'm) ipv4FragmentReassembler \<Rightarrow> ipFragmentProcessResult \<times> idSource \<times> ('s, 't, 'm) ipv4FragmentReassembler" where
  "processResultAt4 order dirt source transferKey provideMode packet now retainCompletedFragments ids r =
     (if length packet < Ipv4HeaderSizeWithoutExtensions \<or> ip_version packet \<noteq> 4 then (passed packet, ids, r)
      else if u16_at packet 6 AND 0x3fff = 0 then (passed packet, ids, r)
      else
        let r = expire k4_source now r;
            r = (if fr_maxRetainedBytes r \<le> 0 then r\<lparr>fr_maxRetainedBytes := ipv4FragmentReassemblyMaxRetainedBytes\<rparr> else r);
            key = fragment_key4 source transferKey provideMode packet
        in (case parse_fragment4 packet of
              None \<Rightarrow> (dropped, ids, releaseDatagram k4_source key r)
            | Some (f, moreFragments) \<Rightarrow>
                (case process_fragment 0 id tooLong4 () k4_source order now key (int (length packet)) f moreFragments r of
                   (CoreDropped, _, r) \<Rightarrow> (dropped, ids, r)
                 | (CoreKept, _, r) \<Rightarrow> (kept, ids, r)
                 | (CoreComplete d, _, r) \<Rightarrow>
                     if retainCompletedFragments
                     then
                       let (retained, r) = detachDatagram k4_source key r;
                           (identification, ids) = nextIpv4FragmentIdentification ids
                       in (completed (reassemble4 dirt d) (map (\<lambda>f. canonical_fragment4 identification (rf_packet f)) retained), ids, r)
                     else (completed (reassemble4 dirt d) [], ids, releaseDatagram k4_source key r))))"

definition processAt4 ::
  "('s, 't, 'm) order4 \<Rightarrow> (nat \<Rightarrow> bytes) \<Rightarrow> 's \<Rightarrow> 't \<Rightarrow> 'm \<Rightarrow> bytes \<Rightarrow> int \<Rightarrow> idSource
   \<Rightarrow> ('s, 't, 'm) ipv4FragmentReassembler \<Rightarrow> bytes \<times> idSource \<times> ('s, 't, 'm) ipv4FragmentReassembler" where
  "processAt4 order dirt source transferKey provideMode packet now ids r =
     (let (result, ids, r) = processResultAt4 order dirt source transferKey provideMode packet now False ids r
      in (rs_packet result, ids, r))"

definition close4 :: "('s, 't, 'm) ipv4FragmentReassembler \<Rightarrow> ('s, 't, 'm) ipv4FragmentReassembler" where
  "close4 r = closeReassembler k4_source r"

section \<open>The IPv6 reassembler\<close>

record ('s, 't, 'm) ipv6FragmentKey =
  k6_source :: 's
  k6_transferKey :: 't
  k6_provideMode :: 'm
  k6_sourceIp :: bytes
  k6_destinationIp :: bytes
  k6_identification :: uint32

record ipv6FragmentDatagram = fragmentDatagram +
  dg_firstNextHeaderFieldOffset :: nat
  dg_firstNextHeader :: byte

type_synonym ipv6_first = "unit ipv6FragmentDatagram_ext"
type_synonym ('s, 't, 'm) ipv6FragmentReassembler = "(('s, 't, 'm) ipv6FragmentKey, 's, ipv6_first) reassembler"
type_synonym ('s, 't, 'm) order6 = "(('s, 't, 'm) ipv6FragmentKey, ipv6_first) visit_order"

definition newIpv6FragmentReassembler :: "('s, 't, 'm) ipv6FragmentReassembler" where
  "newIpv6FragmentReassembler = newFragmentReassembler"

definition fragment_key6 :: "'s \<Rightarrow> 't \<Rightarrow> 'm \<Rightarrow> bytes \<Rightarrow> ipv6HeaderWalk \<Rightarrow> ('s, 't, 'm) ipv6FragmentKey" where
  "fragment_key6 source transferKey provideMode packet walk =
     \<lparr>k6_source = source, k6_transferKey = transferKey, k6_provideMode = provideMode,
      k6_sourceIp = subslice 8 24 packet, k6_destinationIp = subslice 24 40 packet,
      k6_identification = fi_identification (wk_fragment walk)\<rparr>"

definition parse_fragment6 :: "bytes \<Rightarrow> ipv6HeaderWalk \<Rightarrow> (retainedFragment \<times> bool) option" where
  "parse_fragment6 packet walk =
     (let unfragmentableByteCount = fi_headerOffset (wk_fragment walk);
          payloadByteCount = int (wk_payloadEnd walk) - int (wk_transportOffset walk);
          moreFragments = fi_moreFragments (wk_fragment walk);
          offset = fi_offset (wk_fragment walk)
      in if payloadByteCount \<le> 0 \<or> moreFragments \<and> payloadByteCount mod 8 \<noteq> 0
           \<or> 0xffff < int unfragmentableByteCount - int Ipv6HeaderSize + int offset + payloadByteCount
         then None
         else Some (\<lparr>rf_packet = take (wk_payloadEnd walk) packet, rf_headerByteCount = unfragmentableByteCount,
                rf_offset = offset, rf_payloadByteCount = nat payloadByteCount\<rparr>, moreFragments))"

definition tooLong6 :: "nat \<Rightarrow> int \<Rightarrow> bool" where
  "tooLong6 firstUnfragmentableByteCount finalPayloadByteCount \<longleftrightarrow>
     0 \<le> finalPayloadByteCount
   \<and> 0xffff < int firstUnfragmentableByteCount - int Ipv6HeaderSize + finalPayloadByteCount"

definition setFirst6 :: "ipv6FragmentInfo \<Rightarrow> ipv6FragmentDatagram \<Rightarrow> ipv6FragmentDatagram" where
  "setFirst6 fragment d =
     d\<lparr>dg_firstNextHeaderFieldOffset := fi_precedingNextHeaderFieldOffset fragment,
       dg_firstNextHeader := fi_nextHeader fragment\<rparr>"

definition reassemble6 :: "(nat \<Rightarrow> bytes) \<Rightarrow> ipv6FragmentDatagram \<Rightarrow> bytes" where
  "reassemble6 dirt d =
     (let packetByteCount = dg_firstHeaderByteCount d + nat (dg_finalPayloadByteCount d);
          reassembled = assemble ipv6FragmentHeaderSize dirt d;
          reassembled = reassembled[dg_firstNextHeaderFieldOffset d := dg_firstNextHeader d]
      in put_at 4 (putUint16 (of_nat (packetByteCount - Ipv6HeaderSize))) reassembled)"

definition processResultAt6 ::
  "('s, 't, 'm) order6 \<Rightarrow> (nat \<Rightarrow> bytes) \<Rightarrow> 's \<Rightarrow> 't \<Rightarrow> 'm \<Rightarrow> bytes \<Rightarrow> int \<Rightarrow> bool \<Rightarrow> idSource
   \<Rightarrow> ('s, 't, 'm) ipv6FragmentReassembler
   \<Rightarrow> (ipFragmentProcessResult \<times> idSource \<times> ('s, 't, 'm) ipv6FragmentReassembler) option" where
  "processResultAt6 order dirt source transferKey provideMode packet now retainCompletedFragments ids r =
     (if length packet < Ipv6HeaderSize \<or> ip_version packet \<noteq> 6 then Some (passed packet, ids, r)
      else if \<not> isIpv6ExtensionHeader (packet ! 6) then Some (passed packet, ids, r)
      else
        (case walkIpv6ExtensionHeaders packet of
           None \<Rightarrow> Some (passed packet, ids, r)
         | Some walk \<Rightarrow>
             if \<not> wk_fragmented walk then Some (passed packet, ids, r)
             else
               let r = expire k6_source now r;
                   r = (if fr_maxRetainedBytes r \<le> 0 then r\<lparr>fr_maxRetainedBytes := ipv4FragmentReassemblyMaxRetainedBytes\<rparr> else r);
                   key = fragment_key6 source transferKey provideMode packet walk
               in (case parse_fragment6 packet walk of
                     None \<Rightarrow> Some (dropped, ids, releaseDatagram k6_source key r)
                   | Some (f, moreFragments) \<Rightarrow>
                       (case process_fragment ipv6FragmentHeaderSize (setFirst6 (wk_fragment walk)) tooLong6
                               (ipv6FragmentDatagram.fields 0 0) k6_source order now key (int (length packet)) f moreFragments r of
                          (CoreDropped, _, r) \<Rightarrow> Some (dropped, ids, r)
                        | (CoreKept, _, r) \<Rightarrow> Some (kept, ids, r)
                        | (CoreComplete d, _, r) \<Rightarrow>
                            if retainCompletedFragments
                            then
                              let (retained, r) = detachDatagram k6_source key r
                              in do {
                                (identification, ids) \<leftarrow> nextIpv6FragmentIdentification ids;
                                Some (completed (reassemble6 dirt d)
                                  (map (\<lambda>f. put_at (rf_headerByteCount f + 4) (putUint32 identification) (rf_packet f)) retained), ids, r)
                              }
                            else Some (completed (reassemble6 dirt d) [], ids, releaseDatagram k6_source key r)))))"

definition processAt6 ::
  "('s, 't, 'm) order6 \<Rightarrow> (nat \<Rightarrow> bytes) \<Rightarrow> 's \<Rightarrow> 't \<Rightarrow> 'm \<Rightarrow> bytes \<Rightarrow> int \<Rightarrow> idSource
   \<Rightarrow> ('s, 't, 'm) ipv6FragmentReassembler \<Rightarrow> (bytes \<times> idSource \<times> ('s, 't, 'm) ipv6FragmentReassembler) option" where
  "processAt6 order dirt source transferKey provideMode packet now ids r =
     map_option (\<lambda>(result, ids, r). (rs_packet result, ids, r))
       (processResultAt6 order dirt source transferKey provideMode packet now False ids r)"

definition close6 :: "('s, 't, 'm) ipv6FragmentReassembler \<Rightarrow> ('s, 't, 'm) ipv6FragmentReassembler" where
  "close6 r = closeReassembler k6_source r"

section \<open>The gate\<close>

record ('s, 't, 'm) ipFragmentGate =
  gt_maxRetainedBytes :: int
  gt_maxRetainedBytesPerSource :: int
  gt_reassembler4 :: "('s, 't, 'm) ipv4FragmentReassembler option"
  gt_reassembler6 :: "('s, 't, 'm) ipv6FragmentReassembler option"

definition with_limits :: "('s, 't, 'm) ipFragmentGate \<Rightarrow> ('k, 's, 'd) fragmentReassembler \<Rightarrow> ('k, 's, 'd) fragmentReassembler" where
  "with_limits gate r =
     (let r = (if 0 < gt_maxRetainedBytes gate then r\<lparr>fr_maxRetainedBytes := gt_maxRetainedBytes gate\<rparr> else r)
      in if 0 < gt_maxRetainedBytesPerSource gate
         then r\<lparr>fr_maxRetainedBytesPerSource := gt_maxRetainedBytesPerSource gate\<rparr> else r)"

definition processOwned ::
  "('s, 't, 'm) order4 \<Rightarrow> ('s, 't, 'm) order6 \<Rightarrow> (nat \<Rightarrow> bytes) \<Rightarrow> 's \<Rightarrow> 't \<Rightarrow> 'm \<Rightarrow> bytes \<Rightarrow> int \<Rightarrow> idSource
   \<Rightarrow> ('s, 't, 'm) ipFragmentGate \<Rightarrow> (ipFragmentProcessResult \<times> idSource \<times> ('s, 't, 'm) ipFragmentGate) option" where
  "processOwned order4 order6 dirt source transferKey provideMode packet now ids gate =
     (if 0 < length packet \<and> ip_version packet = 6
      then
        let r = (case gt_reassembler6 gate of None \<Rightarrow> with_limits gate newIpv6FragmentReassembler | Some r \<Rightarrow> r)
        in map_option (\<lambda>(result, ids, r). (result, ids, gate\<lparr>gt_reassembler6 := Some r\<rparr>))
             (processResultAt6 order6 dirt source transferKey provideMode packet now True ids r)
      else
        let r = (case gt_reassembler4 gate of None \<Rightarrow> with_limits gate newIpv4FragmentReassembler | Some r \<Rightarrow> r);
            (result, ids, r) = processResultAt4 order4 dirt source transferKey provideMode packet now True ids r
        in Some (result, ids, gate\<lparr>gt_reassembler4 := Some r\<rparr>))"

definition gate_close :: "('s, 't, 'm) ipFragmentGate \<Rightarrow> ('s, 't, 'm) ipFragmentGate" where
  "gate_close gate = gate\<lparr>gt_reassembler4 := None, gt_reassembler6 := None\<rparr>"

section \<open>The fragmenters\<close>

datatype fragment_error = ErrInvalidIpv4Packet | ErrIpv4MtuTooSmall
  | ErrInvalidIpv6Packet | ErrIpv6MtuTooSmall | ErrIpv6ExtensionHeadersFragment

text \<open>One fragment: the buffer from the pool, the copied header and payload slice, the changed fields.\<close>

definition make_fragment4 :: "(nat \<Rightarrow> bytes) \<Rightarrow> bytes \<Rightarrow> uint16 \<Rightarrow> bytes \<Rightarrow> nat \<Rightarrow> bool \<Rightarrow> bytes" where
  "make_fragment4 dirt header identification part offset moreFollow =
     (let h = length header;
          fragment = pool_buffer dirt (h + length part);
          fragment = put_at 0 header fragment;
          fragment = put_at h part fragment;
          fragment = put_at 2 (putUint16 (of_nat (length fragment))) fragment;
          fragment = put_at 4 (putUint16 identification) fragment;
          flagsAndOffset = of_nat (offset div 8);
          flagsAndOffset = (if moreFollow then flagsAndOffset OR 0x2000 else flagsAndOffset);
          fragment = put_at 6 (putUint16 flagsAndOffset) fragment
      in put_at 0 (writeIpv4HeaderChecksum (take h fragment)) fragment)"

definition make_fragment6 :: "(nat \<Rightarrow> bytes) \<Rightarrow> bytes \<Rightarrow> uint32 \<Rightarrow> bytes \<Rightarrow> nat \<Rightarrow> bool \<Rightarrow> bytes" where
  "make_fragment6 dirt header identification part offset moreFollow =
     (let fragment = pool_buffer dirt (Ipv6HeaderSize + ipv6FragmentHeaderSize + length part);
          fragment = put_at 0 header fragment;
          fragment = put_at 4 (putUint16 (of_nat (length fragment - Ipv6HeaderSize))) fragment;
          fragment = put_at 6 [44] fragment;
          fragment = put_at Ipv6HeaderSize [header ! 6, 0] fragment;
          offsetAndFlags = of_nat offset;
          offsetAndFlags = (if moreFollow then offsetAndFlags OR 1 else offsetAndFlags);
          fragment = put_at (Ipv6HeaderSize + 2) (putUint16 offsetAndFlags) fragment;
          fragment = put_at (Ipv6HeaderSize + 4) (putUint32 identification) fragment
      in put_at (Ipv6HeaderSize + ipv6FragmentHeaderSize) part fragment)"

text \<open>
  The loop both fragmenters run over the payload, with the fragment builder of the family. The
  size of a part is at least 8 where it is called.
\<close>

function fragment_loop :: "(bytes \<Rightarrow> nat \<Rightarrow> bool \<Rightarrow> bytes) \<Rightarrow> bytes \<Rightarrow> nat \<Rightarrow> nat \<Rightarrow> bytes list" where
  "fragment_loop build ipPayload fragmentPayloadByteCount offset =
     (if length ipPayload \<le> offset \<or> fragmentPayloadByteCount = 0 then []
      else
        let e = min (offset + fragmentPayloadByteCount) (length ipPayload)
        in build (subslice offset e ipPayload) offset (e < length ipPayload)
           # fragment_loop build ipPayload fragmentPayloadByteCount e)"
  by pat_completeness auto
termination
  by (relation "measure (\<lambda>(build, ipPayload, size, offset). length ipPayload - offset)") auto

declare fragment_loop.simps [simp del]

definition fragmentIpv4Packet :: "(nat \<Rightarrow> bytes) \<Rightarrow> bytes \<Rightarrow> int \<Rightarrow> idSource \<Rightarrow> (fragment_error + bytes list) \<times> idSource" where
  "fragmentIpv4Packet dirt packet mtu ids =
     (if length packet < Ipv4HeaderSizeWithoutExtensions \<or> ip_version packet \<noteq> 4 then (Inl ErrInvalidIpv4Packet, ids)
      else
        let headerByteCount = unat (packet ! 0 AND 0x0f) * 4
        in if headerByteCount < Ipv4HeaderSizeWithoutExtensions \<or> length packet < headerByteCount
           then (Inl ErrInvalidIpv4Packet, ids)
           else
             let fragmentPayloadByteCount = (mtu - int headerByteCount) AND NOT 7
             in if fragmentPayloadByteCount < 8 then (Inl ErrIpv4MtuTooSmall, ids)
                else
                  let (identification, ids) = nextIpv4FragmentIdentification ids
                  in (Inr (fragment_loop (make_fragment4 dirt (take headerByteCount packet) identification)
                            (drop headerByteCount packet) (nat fragmentPayloadByteCount) 0), ids))"

definition fragmentIpv6Packet ::
  "(nat \<Rightarrow> bytes) \<Rightarrow> bytes \<Rightarrow> int \<Rightarrow> idSource \<Rightarrow> ((fragment_error + bytes list) \<times> idSource) option" where
  "fragmentIpv6Packet dirt packet mtu ids =
     (if length packet < Ipv6HeaderSize \<or> ip_version packet \<noteq> 6 then Some (Inl ErrInvalidIpv6Packet, ids)
      else
        let declaredEnd = Ipv6HeaderSize + unat (u16_at packet 4)
        in if length packet < declaredEnd then Some (Inl ErrInvalidIpv6Packet, ids)
           else if isIpv6ExtensionHeader (packet ! 6) then Some (Inl ErrIpv6ExtensionHeadersFragment, ids)
           else
             let fragmentPayloadByteCount = (mtu - int Ipv6HeaderSize - int ipv6FragmentHeaderSize) AND NOT 7
             in if fragmentPayloadByteCount < 8 then Some (Inl ErrIpv6MtuTooSmall, ids)
                else do {
                  (identification, ids) \<leftarrow> nextIpv6FragmentIdentification ids;
                  Some (Inr (fragment_loop (make_fragment6 dirt (take Ipv6HeaderSize packet) identification)
                         (subslice Ipv6HeaderSize declaredEnd packet) (nat fragmentPayloadByteCount) 0), ids)
                })"

section \<open>The invariant of the reassemblers\<close>

lemma unat_nibble: "unat ((b :: byte) AND 0x0f) \<le> 15"
proof -
  have "b AND 15 = take_bit 4 b" by (simp add: take_bit_eq_mask mask_eq_exp_minus_1)
  then have "unat (b AND 15) = unat b mod 16" by (simp add: take_bit_eq_mod unat_mod)
  then show ?thesis by simp
qed

lemma parse_fragment4_ok:
  assumes "parse_fragment4 packet = Some (f, mf)"
  shows "frag_ok 0 f" "length (rf_packet f) \<le> length packet"
  using assms by (auto simp: parse_fragment4_def Let_def frag_ok_def header_sizes split: if_splits)

lemma parse_fragment6_ok:
  assumes "walkIpv6ExtensionHeaders packet = Some walk" "wk_fragmented walk" "parse_fragment6 packet walk = Some (f, mf)"
  shows "frag_ok ipv6FragmentHeaderSize f" "length (rf_packet f) \<le> length packet"
proof -
  note w = walk_headers_sound [OF assms(1)]
  have "fi_headerOffset (wk_fragment walk) + ipv6FragmentHeaderSize = wk_transportOffset walk"
    "Ipv6HeaderSize \<le> fi_headerOffset (wk_fragment walk)"
    using w(1) assms(2) by (simp_all add: walk_sound_def Let_def)
  then show "frag_ok ipv6FragmentHeaderSize f" "length (rf_packet f) \<le> length packet"
    using assms(3) w(2) by (auto simp: parse_fragment6_def Let_def frag_ok_def header_sizes split: if_splits)
qed

definition fresh_reassembler :: "('k, 's, 'd) fragmentReassembler \<Rightarrow> bool" where
  "fresh_reassembler r \<longleftrightarrow> fr_datagrams r = [] \<and> fr_retainedByteCount r = 0 \<and> fr_retainedBytesBySource r = Map.empty"

lemma fresh_store_ok: "fresh_reassembler r \<Longrightarrow> store_ok hx src r"
  by (auto simp: fresh_reassembler_def store_ok_def books_def store_bounds_def retainedBytesForSource_def source_bytes_def
      ipv4FragmentReassemblyMaxRetainedBytes_def)

lemma release_ok: "store_ok hx src r \<Longrightarrow> store_ok hx src (releaseDatagram src key r)"
  by (rule store_ok_shrinks) (auto simp: store_ok_def intro: release_shrinks(2))

lemma detach_ok: "store_ok hx src r \<Longrightarrow> detachDatagram src key r = (fs, r') \<Longrightarrow> store_ok hx src r'"
  using release_ok [of hx src r key] by (simp add: releaseDatagram_def)

definition with_default_max :: "('k, 's, 'd) fragmentReassembler \<Rightarrow> ('k, 's, 'd) fragmentReassembler" where
  "with_default_max r =
     (if fr_maxRetainedBytes r \<le> 0 then r\<lparr>fr_maxRetainedBytes := ipv4FragmentReassemblyMaxRetainedBytes\<rparr> else r)"

lemma with_default_max_ok:
  assumes "store_ok hx src r"
  shows "store_ok hx src (with_default_max r)" "0 < fr_maxRetainedBytes (with_default_max r)"
  using assms
  by (auto simp: with_default_max_def store_ok_def books_def store_bounds_def retainedBytesForSource_def
      ipv4FragmentReassemblyMaxRetainedBytes_def)

lemma expire_ok: "store_ok hx src r \<Longrightarrow> store_ok hx src (expire src now r)"
  by (rule store_ok_shrinks) (auto simp: store_ok_def intro: expire_shrinks)

lemma close_ok: "store_ok hx src r \<Longrightarrow> store_ok hx src (closeReassembler src r)"
  by (rule store_ok_shrinks) (auto simp: store_ok_def intro: close_shrinks)

text \<open>One packet through a reassembler, with what a completed datagram looked like.\<close>

lemma keeps_common_simps [simp]: "keeps_common id" "keeps_common (setFirst6 i)"
  by (simp_all add: keeps_common_def setFirst6_def fragmentDatagram.defs)

lemmas process_ready = with_default_max_ok [OF expire_ok]

lemma processResultAt4_pass:
  "\<not> isIpv4FragmentPacket packet \<Longrightarrow>
   processResultAt4 order dirt source transferKey provideMode packet now retain ids r = (passed packet, ids, r)"
  by (auto simp: processResultAt4_def isIpv4FragmentPacket_def)

lemma processResultAt4_fragment:
  assumes "isIpv4FragmentPacket packet" "parse_fragment4 packet = Some (f, mf)"
  shows "processResultAt4 order dirt source transferKey provideMode packet now retain ids r =
    (case process_fragment 0 id tooLong4 () k4_source order now (fragment_key4 source transferKey provideMode packet)
        (int (length packet)) f mf (with_default_max (expire k4_source now r)) of
       (CoreDropped, _, r) \<Rightarrow> (dropped, ids, r)
     | (CoreKept, _, r) \<Rightarrow> (kept, ids, r)
     | (CoreComplete d, _, r) \<Rightarrow>
         if retain
         then
           let (retained, r) = detachDatagram k4_source (fragment_key4 source transferKey provideMode packet) r;
               (identification, ids) = nextIpv4FragmentIdentification ids
           in (completed (reassemble4 dirt d) (map (\<lambda>f. canonical_fragment4 identification (rf_packet f)) retained), ids, r)
         else (completed (reassemble4 dirt d) [], ids,
                releaseDatagram k4_source (fragment_key4 source transferKey provideMode packet) r))"
proof -
  have "\<not> (length packet < Ipv4HeaderSizeWithoutExtensions \<or> ip_version packet \<noteq> 4)" "u16_at packet 6 AND 0x3fff \<noteq> 0"
    using assms(1) by (auto simp: isIpv4FragmentPacket_def)
  then show ?thesis unfolding processResultAt4_def Let_def assms(2) with_default_max_def by simp
qed

lemma processResultAt4_malformed:
  assumes "isIpv4FragmentPacket packet" "parse_fragment4 packet = None"
  shows "processResultAt4 order dirt source transferKey provideMode packet now retain ids r =
    (dropped, ids, releaseDatagram k4_source (fragment_key4 source transferKey provideMode packet)
      (with_default_max (expire k4_source now r)))"
  using assms by (simp add: processResultAt4_def Let_def with_default_max_def isIpv4FragmentPacket_def)

lemma processResultAt4_ok:
  assumes "is_order order" "store_ok 0 k4_source r"
    "processResultAt4 order dirt source transferKey provideMode packet now retain ids r = (result, ids', r')"
  shows "store_ok 0 k4_source r'"
proof -
  let ?r = "with_default_max (expire k4_source now r)" and ?key = "fragment_key4 source transferKey provideMode packet"
  note ready = process_ready [OF assms(2), of now]
  consider (pass) "\<not> isIpv4FragmentPacket packet" | (bad) "isIpv4FragmentPacket packet" "parse_fragment4 packet = None"
    | (frag) f mf where "isIpv4FragmentPacket packet" "parse_fragment4 packet = Some (f, mf)"
    by (metis not_None_eq surj_pair)
  then show ?thesis
  proof cases
    case pass
    then show ?thesis using assms(2,3) by (simp add: processResultAt4_pass)
  next
    case bad
    then show ?thesis using assms(3) release_ok [OF ready(1), of ?key] by (simp add: processResultAt4_malformed)
  next
    case frag
    obtain c a q where core: "process_fragment 0 id tooLong4 () k4_source order now ?key (int (length packet)) f mf ?r = (c, a, q)"
      by (metis prod_cases3)
    have q: "store_ok 0 k4_source q"
      by (rule process_fragment_ok(1) [OF assms(1) ready parse_fragment4_ok(1) [OF frag(2)] _ keeps_common_simps(1) core])
        (use parse_fragment4_ok(2) [OF frag(2)] in simp)
    show ?thesis
      using assms(3) release_ok [OF q, of ?key] detach_ok [OF q, of ?key] q unfolding processResultAt4_fragment [OF frag] core
      by (cases c) (auto split: if_splits prod.splits)
  qed
qed

definition fragment_walk6 :: "bytes \<Rightarrow> ipv6HeaderWalk option" where
  "fragment_walk6 packet =
     (if length packet < Ipv6HeaderSize \<or> ip_version packet \<noteq> 6 \<or> \<not> isIpv6ExtensionHeader (packet ! 6) then None
      else (case walkIpv6ExtensionHeaders packet of None \<Rightarrow> None | Some walk \<Rightarrow> if wk_fragmented walk then Some walk else None))"

lemma fragment_walk6_Some:
  assumes "fragment_walk6 packet = Some walk"
  shows "walkIpv6ExtensionHeaders packet = Some walk" "wk_fragmented walk"
  using assms by (auto simp: fragment_walk6_def split: if_splits option.splits)

lemma processResultAt6_pass:
  "fragment_walk6 packet = None \<Longrightarrow>
   processResultAt6 order dirt source transferKey provideMode packet now retain ids r = Some (passed packet, ids, r)"
  by (auto simp: processResultAt6_def fragment_walk6_def split: if_splits option.splits)

lemma processResultAt6_fragment:
  assumes "fragment_walk6 packet = Some walk" "parse_fragment6 packet walk = Some (f, mf)"
  shows "processResultAt6 order dirt source transferKey provideMode packet now retain ids r =
    (case process_fragment ipv6FragmentHeaderSize (setFirst6 (wk_fragment walk)) tooLong6 (ipv6FragmentDatagram.fields 0 0)
        k6_source order now (fragment_key6 source transferKey provideMode packet walk) (int (length packet)) f mf
        (with_default_max (expire k6_source now r)) of
       (CoreDropped, _, r) \<Rightarrow> Some (dropped, ids, r)
     | (CoreKept, _, r) \<Rightarrow> Some (kept, ids, r)
     | (CoreComplete d, _, r) \<Rightarrow>
         if retain
         then
           let (retained, r) = detachDatagram k6_source (fragment_key6 source transferKey provideMode packet walk) r
           in do {
             (identification, ids) \<leftarrow> nextIpv6FragmentIdentification ids;
             Some (completed (reassemble6 dirt d)
               (map (\<lambda>f. put_at (rf_headerByteCount f + 4) (putUint32 identification) (rf_packet f)) retained), ids, r)
           }
         else Some (completed (reassemble6 dirt d) [], ids,
                releaseDatagram k6_source (fragment_key6 source transferKey provideMode packet walk) r))"
proof -
  have "\<not> (length packet < Ipv6HeaderSize \<or> ip_version packet \<noteq> 6)" "\<not> \<not> isIpv6ExtensionHeader (packet ! 6)" "\<not> \<not> wk_fragmented walk"
    using assms(1) by (auto simp: fragment_walk6_def split: if_splits option.splits)
  then show ?thesis
    unfolding processResultAt6_def Let_def fragment_walk6_Some(1) [OF assms(1)] option.case assms(2) with_default_max_def by simp
qed

lemma processResultAt6_malformed:
  assumes "fragment_walk6 packet = Some walk" "parse_fragment6 packet walk = None"
  shows "processResultAt6 order dirt source transferKey provideMode packet now retain ids r =
    Some (dropped, ids, releaseDatagram k6_source (fragment_key6 source transferKey provideMode packet walk)
      (with_default_max (expire k6_source now r)))"
  using assms fragment_walk6_Some [OF assms(1)]
  by (auto simp: processResultAt6_def Let_def with_default_max_def fragment_walk6_def split: if_splits)

lemma processResultAt6_ok:
  assumes "is_order order" "store_ok ipv6FragmentHeaderSize k6_source r"
    "processResultAt6 order dirt source transferKey provideMode packet now retain ids r = Some (result, ids', r')"
  shows "store_ok ipv6FragmentHeaderSize k6_source r'"
proof -
  let ?r = "with_default_max (expire k6_source now r)"
  note ready = process_ready [OF assms(2), of now]
  consider (pass) "fragment_walk6 packet = None"
    | (bad) walk where "fragment_walk6 packet = Some walk" "parse_fragment6 packet walk = None"
    | (frag) walk f mf where "fragment_walk6 packet = Some walk" "parse_fragment6 packet walk = Some (f, mf)"
    by (metis not_None_eq surj_pair)
  then show ?thesis
  proof cases
    case pass
    then show ?thesis using assms(2,3) by (simp add: processResultAt6_pass)
  next
    case bad
    then show ?thesis using assms(3) release_ok [OF ready(1)] by (auto simp: processResultAt6_malformed)
  next
    case frag
    let ?key = "fragment_key6 source transferKey provideMode packet walk"
    note w = fragment_walk6_Some [OF frag(1)]
    obtain c a q where core: "process_fragment ipv6FragmentHeaderSize (setFirst6 (wk_fragment walk)) tooLong6
        (ipv6FragmentDatagram.fields 0 0) k6_source order now ?key (int (length packet)) f mf ?r = (c, a, q)"
      by (metis prod_cases3)
    have q: "store_ok ipv6FragmentHeaderSize k6_source q"
      by (rule process_fragment_ok(1) [OF assms(1) ready parse_fragment6_ok(1) [OF w frag(2)] _ keeps_common_simps(2) core])
        (use parse_fragment6_ok(2) [OF w frag(2)] in simp)
    show ?thesis
      using assms(3) release_ok [OF q, of ?key] detach_ok [OF q, of ?key] q unfolding processResultAt6_fragment [OF frag] core
      by (cases c) (auto simp: bind_eq_Some_conv split: if_splits prod.splits)
  qed
qed

section \<open>The layout of fragments\<close>

lemma putUint16_get: "putUint16 (getUint16 a b) = [a, b]"
proof -
  have "ucast (drop_bit 8 (getUint16 a b)) = a" "ucast (getUint16 a b) = b"
    by (rule bit_word_eqI; auto simp: getUint16_def bit_simps dest: bit_imp_le_length)+
  then show ?thesis by (simp add: putUint16_def)
qed

definition hdr4 :: "bytes \<Rightarrow> uint16 \<Rightarrow> uint16 \<Rightarrow> uint16 \<Rightarrow> bytes \<Rightarrow> uint16 \<Rightarrow> bytes \<Rightarrow> bytes" where
  "hdr4 a len identification flags m c rest =
     a @ putUint16 len @ putUint16 identification @ putUint16 flags @ m @ putUint16 c @ rest"

definition ck4 :: "bytes \<Rightarrow> uint16 \<Rightarrow> uint16 \<Rightarrow> uint16 \<Rightarrow> bytes \<Rightarrow> bytes \<Rightarrow> uint16" where
  "ck4 a len identification flags m rest = checksumFinish (checksumAdd 0 (hdr4 a len identification flags m 0 rest))"

lemma length_hdr4 [simp]: "length (hdr4 a l i f m c rest) = length a + 8 + length m + length rest"
  by (simp add: hdr4_def)

lemma hdr4_split:
  assumes "12 \<le> length header"
  obtains a l i f m c rest where "header = hdr4 a l i f m c rest" "length a = 2" "length m = 2"
proof -
  obtain x0 x1 x2 x3 x4 x5 x6 x7 x8 x9 x10 x11 rest where
    h: "header = x0 # x1 # x2 # x3 # x4 # x5 # x6 # x7 # x8 # x9 # x10 # x11 # rest"
    using assms by (auto simp: numeral_eq_Suc Suc_le_length_iff)
  show thesis
    by (rule that [of "[x0, x1]" "getUint16 x2 x3" "getUint16 x4 x5" "getUint16 x6 x7" "[x8, x9]" "getUint16 x10 x11" rest])
      (simp_all add: h hdr4_def putUint16_get)
qed

lemma writeIpv4HeaderChecksum_hdr4:
  "length a = 2 \<Longrightarrow> length m = 2 \<Longrightarrow>
   writeIpv4HeaderChecksum (hdr4 a l i f m c rest) = hdr4 a l i f m (ck4 a l i f m rest) rest"
  unfolding writeIpv4HeaderChecksum_def put_zero16 hdr4_def ck4_def by (simp add: put_at_blocks)

lemma put_at_one: "put_at 0 [y] (x # b) = y # b"
  by (simp add: put_at_def)

lemma list_split:
  assumes "length xs = i + j"
  obtains a b where "xs = a @ b" "length a = i" "length b = j"
  by (rule that [of "take i xs" "drop i xs"]) (use assms in simp_all)

lemma make_fragment4_layout:
  assumes "header = hdr4 a l i f m c rest" "length a = 2" "length m = 2"
  shows "make_fragment4 dirt header identification part offset mf =
    (let len = of_nat (length header + length part); flags = of_nat (offset div 8) OR (if mf then 0x2000 else 0)
     in hdr4 a len identification flags m (ck4 a len identification flags m rest) rest @ part)"
proof -
  let ?h = "length header"
  obtain b1 b2 where b: "pool_buffer dirt (?h + length part) = b1 @ b2" "length b1 = ?h" "length b2 = length part"
    by (rule list_split [of "pool_buffer dirt (?h + length part)" ?h "length part"]) simp
  have c0: "put_at ?h part (put_at 0 header (b1 @ b2)) = header @ part" using b by (simp add: put_at_blocks)
  let ?t = "of_nat (?h + length part) :: uint16"
  have c1: "put_at 2 (putUint16 ?t) (header @ part) = hdr4 a ?t i f m c rest @ part"
    unfolding assms(1) hdr4_def using assms(2,3) by (simp add: put_at_blocks)
  have c2: "put_at 4 (putUint16 x) (hdr4 a ?t i f m c rest @ part) = hdr4 a ?t x f m c rest @ part" for x
    unfolding hdr4_def using assms(2,3) by (simp add: put_at_blocks)
  have c3: "put_at 6 (putUint16 y) (hdr4 a ?t x f m c rest @ part) = hdr4 a ?t x y m c rest @ part" for x y
    unfolding hdr4_def using assms(2,3) by (simp add: put_at_blocks)
  have hl: "?h = length (hdr4 a t x y m c rest)" for t x y unfolding assms(1) by simp
  have c4: "put_at 0 (writeIpv4HeaderChecksum (take ?h (hdr4 a ?t x y m c rest @ part))) (hdr4 a ?t x y m c rest @ part) =
      hdr4 a ?t x y m (ck4 a ?t x y m rest) rest @ part" for x y
  proof -
    have "take ?h (hdr4 a ?t x y m c rest @ part) = hdr4 a ?t x y m c rest" using hl [of ?t x y] by simp
    then show ?thesis by (simp only: writeIpv4HeaderChecksum_hdr4 [OF assms(2,3)]) (rule put_at_here, simp)
  qed
  have ll: "length (header @ part) = ?h + length part" by simp
  show ?thesis
    unfolding make_fragment4_def Let_def b(1) c0 ll c1 c2 c3 c4 by (cases mf) simp_all
qed

lemma make_fragment6_layout:
  assumes "header = a @ putUint16 l @ [nh, hop] @ rest" "length a = 4" "length rest = 32"
  shows "make_fragment6 dirt header identification part offset mf =
    a @ putUint16 (of_nat (8 + length part)) @ [44, hop] @ rest @ [nh, 0]
    @ putUint16 (of_nat offset OR (if mf then 1 else 0)) @ putUint32 identification @ part"
proof -
  let ?buf = "pool_buffer dirt (48 + length part)"
  obtain b1 c1 where 1: "?buf = b1 @ c1" "length b1 = 40" "length c1 = 8 + length part"
    by (rule list_split [of ?buf 40 "8 + length part"]) simp
  obtain b2 c2 where 2: "c1 = b2 @ c2" "length b2 = 2" "length c2 = 6 + length part"
    by (rule list_split [of c1 2 "6 + length part"]) (simp add: 1)
  obtain b3 c3 where 3: "c2 = b3 @ c3" "length b3 = 2" "length c3 = 4 + length part"
    by (rule list_split [of c2 2 "4 + length part"]) (simp add: 2)
  obtain b4 b5 where 4: "c3 = b4 @ b5" "length b4 = 4" "length b5 = length part"
    by (rule list_split [of c3 4 "length part"]) (simp add: 3)
  have b: "?buf = b1 @ b2 @ b3 @ b4 @ b5" by (simp add: 1 2 3 4)
  have nh: "header ! 6 = nh" unfolding assms(1) using assms(2) by (simp add: nth_append)
  have "length header = 40" unfolding assms(1) using assms(2,3) by simp
  then have c0: "put_at 0 header (b1 @ b2 @ b3 @ b4 @ b5) = header @ b2 @ b3 @ b4 @ b5" using 1(2) by (simp add: put_at_here)
  have s: "48 + length part - 40 = 8 + length part" by simp
  show ?thesis
    unfolding make_fragment6_def Let_def header_sizes ipv6FragmentHeaderSize_def
    using 1(2) 2(2) 3(2) 4(2,3) assms(2,3)
    by (simp add: b c0 nh s) (simp add: assms(1) put_at_blocks put_at_one)
qed

end
