(* ===== verification/Fragment_Roundtrip.thy ===== *)
theory Fragment_Roundtrip
  imports Ip_Fragment
begin

text \<open>
  Fragmenting and reassembling are inverse: the parts a fragmenter cuts a payload into, what a
  reassembler holds after any of them arrived, and that the fragments \<open>fragmentIpv4Packet\<close> makes
  of a packet give the packet back in whatever order they arrive.
\<close>

unbundle bit_operations_syntax

section \<open>The parts of a payload\<close>

lemma and_not_7: "(x :: int) AND NOT 7 = x div 8 * 8"
proof -
  have "x AND NOT (mask 3) = push_bit 3 (drop_bit 3 x)" by (rule bit_eqI) (auto simp: bit_simps)
  then show ?thesis by (simp add: mask_eq_exp_minus_1 push_bit_eq_mult drop_bit_eq_div)
qed

lemma and_not_7_size:
  assumes "8 \<le> (x :: int) AND NOT 7"
  shows "8 dvd nat (x AND NOT 7)" "x AND NOT 7 \<le> x"
proof -
  have "int 8 dvd int (nat (x AND NOT 7))" using assms unfolding and_not_7 by simp
  then show "8 dvd nat (x AND NOT 7)" unfolding int_dvd_int_iff .
  show "x AND NOT 7 \<le> x" unfolding and_not_7 by (simp add: minus_mod_eq_div_mult [symmetric])
qed

function chunks :: "bytes \<Rightarrow> nat \<Rightarrow> nat \<Rightarrow> (bytes \<times> nat \<times> bool) list" where
  "chunks payload sz offset =
     (if length payload \<le> offset \<or> sz = 0 then []
      else
        let e = min (offset + sz) (length payload)
        in (subslice offset e payload, offset, e < length payload) # chunks payload sz e)"
  by pat_completeness auto
termination
  by (relation "measure (\<lambda>(payload, sz, offset). length payload - offset)") auto

declare chunks.simps [simp del]

lemma fragment_loop_chunks:
  "fragment_loop build payload sz offset = map (\<lambda>(part, offset, mf). build part offset mf) (chunks payload sz offset)"
  by (induction payload sz offset rule: chunks.induct) (subst fragment_loop.simps, subst chunks.simps, simp add: Let_def)

lemma chunks_facts:
  assumes "0 < sz" "(part, o', mf) \<in> set (chunks payload sz offset)"
  shows "part \<noteq> [] \<and> length part \<le> sz \<and> offset \<le> o' \<and> o' + length part \<le> length payload \<and> part = subslice o' (o' + length part) payload
    \<and> (mf \<longleftrightarrow> o' + length part \<noteq> length payload) \<and> (mf \<longrightarrow> length part = sz) \<and> (\<exists>k. o' = offset + k * sz)"
  using assms
proof (induction payload sz offset rule: chunks.induct)
  case (1 payload sz offset)
  let ?e = "min (offset + sz) (length payload)"
  have lt: "offset < length payload" using 1(3) by (subst (asm) chunks.simps) (auto split: if_splits)
  then have c: "chunks payload sz offset = (subslice offset ?e payload, offset, ?e < length payload) # chunks payload sz ?e"
    using 1(2) by (subst chunks.simps) (simp add: Let_def)
  show ?case
  proof (cases "(part, o', mf) = (subslice offset ?e payload, offset, ?e < length payload)")
    case True
    then have p: "length part = ?e - offset" "o' = offset" "mf \<longleftrightarrow> ?e < length payload" "part = subslice offset ?e payload" using lt by auto
    have "0 < ?e - offset" using lt 1(2) by simp
    then have "part \<noteq> []" using p(1) by (metis length_greater_0_conv)
    moreover have "offset + length part = ?e" using p(1) lt by simp
    ultimately show ?thesis using p lt by auto
  next
    case False
    then have m: "(part, o', mf) \<in> set (chunks payload sz ?e)" using 1(3) unfolding c by (metis set_ConsD)
    then have "?e < length payload" by (subst (asm) chunks.simps) (auto split: if_splits)
    then have e: "?e = offset + sz" by simp
    have "\<not> (length payload \<le> offset \<or> sz = 0)" using lt 1(2) by simp
    from 1(1) [OF this refl 1(2) m] obtain k where k: "o' = ?e + k * sz"
      and r: "part \<noteq> [] \<and> length part \<le> sz \<and> ?e \<le> o' \<and> o' + length part \<le> length payload \<and> part = subslice o' (o' + length part) payload
        \<and> (mf \<longleftrightarrow> o' + length part \<noteq> length payload) \<and> (mf \<longrightarrow> length part = sz)" by blast
    have "o' = offset + (k + 1) * sz" using k e by simp
    moreover have "offset \<le> o'" using r e by simp
    ultimately show ?thesis using r by blast
  qed
qed

lemma chunks_concat:
  "0 < sz \<Longrightarrow> offset \<le> length payload \<Longrightarrow> concat (map fst (chunks payload sz offset)) = drop offset payload"
proof (induction payload sz offset rule: chunks.induct)
  case (1 payload sz offset)
  let ?e = "min (offset + sz) (length payload)"
  show ?case
  proof (cases "length payload \<le> offset")
    case True
    then show ?thesis by (subst chunks.simps) simp
  next
    case False
    then have "concat (map fst (chunks payload sz ?e)) = drop ?e payload" using 1 by simp
    moreover have "subslice offset ?e payload @ drop ?e payload = drop offset payload"
      using False by (simp add: subslice_def) (metis add.commute append_take_drop_id drop_drop le_add_diff_inverse min.bounded_iff le_add1 linear)
    ultimately show ?thesis using False 1(2) by (subst chunks.simps) (simp add: Let_def)
  qed
qed

lemma chunks_tile:
  "0 < sz \<Longrightarrow> offset \<le> length payload \<Longrightarrow>
   (\<And>part o' mf. rf_offset (g (part, o', mf)) = o' \<and> rf_payloadByteCount (g (part, o', mf)) = length part) \<Longrightarrow>
   tiles offset (map g (chunks payload sz offset)) = Some (length payload)"
proof (induction payload sz offset rule: chunks.induct)
  case (1 payload sz offset)
  let ?e = "min (offset + sz) (length payload)"
  show ?case
  proof (cases "length payload \<le> offset")
    case True
    then show ?thesis using 1(3) by (subst chunks.simps) simp
  next
    case False
    then have "tiles ?e (map g (chunks payload sz ?e)) = Some (length payload)" using 1 by simp
    moreover have "offset + length (subslice offset ?e payload) = ?e" using False by simp
    ultimately show ?thesis using False 1(2,4) by (subst chunks.simps) (simp add: Let_def)
  qed
qed

lemma chunks_many:
  assumes "0 < sz" "sz < length payload"
  shows "2 \<le> length (chunks payload sz 0)"
  using assms by (subst chunks.simps, subst chunks.simps) (auto simp: Let_def)

section \<open>IPv4 fragments\<close>

lemma flags4:
  assumes "k < 8192"
  shows "unat ((of_nat k OR (if mf then 0x2000 else 0) :: uint16) AND 0x1fff) = k"
    "(of_nat k OR (if mf then 0x2000 else 0) :: uint16) AND 0x2000 \<noteq> 0 \<longleftrightarrow> mf"
    "(of_nat k OR (if mf then 0x2000 else 0) :: uint16) AND 0x8000 = 0"
    "(of_nat k OR (if mf then 0x2000 else 0) :: uint16) AND 0x3fff \<noteq> 0 \<longleftrightarrow> mf \<or> k \<noteq> 0"
proof -
  let ?w = "of_nat k :: uint16" and ?f = "of_nat k OR (if mf then 0x2000 else 0) :: uint16"
  have t: "take_bit 13 k = k" using assms by (simp add: take_bit_nat_eq_self)
  have b: "\<not> bit k n" if "13 \<le> n" for n
    using that by (metis bit_take_bit_iff leD t)
  have b': "n < 13" if "bit k n" for n using b [of n] that by (cases "n < 13") auto
  have wb: "bit ?w n \<longleftrightarrow> n < 16 \<and> bit k n" for n by (simp add: bit_simps)
  have fb: "bit ?f n \<longleftrightarrow> n < 16 \<and> (bit k n \<or> mf \<and> n = 13)" for n
  proof -
    have "(0x2000 :: uint16) = push_bit 13 1" by simp
    then have "bit (0x2000 :: uint16) n \<longleftrightarrow> n = 13" by (simp only: bit_push_bit_iff bit_1_iff) auto
    then show ?thesis by (cases mf) (auto simp: bit_or_iff wb)
  qed
  have "?f AND 0x1fff = take_bit 13 ?f" by (simp only: take_bit_eq_mask) (simp add: mask_eq_exp_minus_1)
  also have "\<dots> = ?w" by (rule bit_word_eqI) (auto simp: bit_take_bit_iff fb wb dest: b')
  finally show "unat (?f AND 0x1fff) = k"
    using assms by (simp add: unsigned_of_nat take_bit_nat_eq_self)
  have e: "x AND 0x2000 \<noteq> 0 \<longleftrightarrow> bit x 13" "x AND 0x8000 \<noteq> 0 \<longleftrightarrow> bit x 15" for x :: uint16
    using and_exp_eq_0_iff_not_bit [of x 13] and_exp_eq_0_iff_not_bit [of x 15] by simp_all
  show "?f AND 0x2000 \<noteq> 0 \<longleftrightarrow> mf" unfolding e(1) fb using b [of 13] by auto
  show "?f AND 0x8000 = 0" using e(2) [of ?f] fb [of 15] b [of 15] by auto
  have "?f AND 0x3fff = take_bit 14 ?f" by (simp only: take_bit_eq_mask) (simp add: mask_eq_exp_minus_1)
  also have "\<dots> = ?f"
  proof (rule bit_word_eqI)
    fix n
    show "bit (take_bit 14 ?f) n = bit ?f n" unfolding bit_take_bit_iff fb using b' [of n] by auto
  qed
  finally have "?f AND 0x3fff = ?f" .
  moreover have "?f \<noteq> 0 \<longleftrightarrow> mf \<or> k \<noteq> 0"
  proof (cases mf)
    case True
    then have "bit ?f 13" using fb [of 13] by simp
    then have "?f \<noteq> 0" by (metis bit_0_eq bot_apply bot_bool_def)
    then show ?thesis using True by simp
  next
    case False
    have "unat ?w = k" using assms by (simp add: unsigned_of_nat take_bit_nat_eq_self)
    then have "?w = 0 \<longleftrightarrow> k = 0" by (metis unat_eq_zero)
    then show ?thesis using False by (simp only: or.right_neutral if_False) simp
  qed
  ultimately show "?f AND 0x3fff \<noteq> 0 \<longleftrightarrow> mf \<or> k \<noteq> 0" by simp
qed

lemma hdr4_reads:
  assumes "length a = 2" "length m = 2" "p = hdr4 a t i f m c rest @ part" "8 \<le> length rest"
  shows "p ! 0 = a ! 0" "u16_at p 2 = t" "u16_at p 4 = i" "u16_at p 6 = f" "p ! 9 = m ! 1"
    "subslice 12 16 p = take 4 rest" "subslice 16 20 p = take 4 (drop 4 rest)"
proof -
  obtain a0 a1 where a: "a = [a0, a1]" using assms(1) by (auto simp: numeral_eq_Suc length_Suc_conv)
  obtain m0 m1 where m: "m = [m0, m1]" using assms(2) by (auto simp: numeral_eq_Suc length_Suc_conv)
  show "p ! 0 = a ! 0" "u16_at p 2 = t" "u16_at p 4 = i" "u16_at p 6 = f" "p ! 9 = m ! 1"
    "subslice 12 16 p = take 4 rest" "subslice 16 20 p = take 4 (drop 4 rest)"
    unfolding assms(3) hdr4_def a m using assms(4) by (simp_all add: u16_at_def putUint16_def subslice_def)
qed

lemma parse_made4:
  assumes "header = hdr4 a l i f m c rest" "length a = 2" "length m = 2" "h = length header" "20 \<le> h"
    "unat (a ! 0 AND 0x0f) * 4 = h" "drop_bit 4 (a ! 0) = 4" "part \<noteq> []" "h + offset + length part \<le> 65535" "8 dvd offset"
    "mf \<Longrightarrow> 8 dvd length part" "p = make_fragment4 dirt header identification part offset mf"
  shows "parse_fragment4 p = Some (\<lparr>rf_packet = p, rf_headerByteCount = h, rf_offset = offset, rf_payloadByteCount = length part\<rparr>, mf)"
    "isIpv4FragmentPacket p \<longleftrightarrow> mf \<or> offset \<noteq> 0" "length p = h + length part" "drop h p = part"
    "fragment_key4 source transferKey provideMode p =
      \<lparr>k4_source = source, k4_transferKey = transferKey, k4_provideMode = provideMode, k4_sourceIp = take 4 rest,
       k4_destinationIp = take 4 (drop 4 rest), k4_protocol = m ! 1, k4_identification = identification\<rparr>"
    "take h p = hdr4 a (of_nat (h + length part)) identification (of_nat (offset div 8) OR (if mf then 0x2000 else 0)) m
      (ck4 a (of_nat (h + length part)) identification (of_nat (offset div 8) OR (if mf then 0x2000 else 0)) m rest) rest"
proof -
  let ?t = "of_nat (h + length part) :: uint16" and ?f = "of_nat (offset div 8) OR (if mf then 0x2000 else 0) :: uint16"
  let ?H = "hdr4 a ?t identification ?f m (ck4 a ?t identification ?f m rest) rest"
  have p: "p = ?H @ part" unfolding assms(12) make_fragment4_layout [OF assms(1-3)] Let_def assms(4) ..
  have hl: "length ?H = h" unfolding assms(4,1) using assms(2,3) by simp
  have lr: "8 \<le> length rest" using assms(1-5) by simp
  have t: "unat ?t = h + length part" using assms(9) by (intro unat_of_nat16) simp
  have k: "offset div 8 < 8192" using assms(9) by (simp add: less_mult_imp_div_less)
  note fl = flags4 [OF k, of mf]
  note r = hdr4_reads [OF assms(2,3) p lr]
  show lp: "length p = h + length part" using hl by (simp add: p)
  show "take h p = ?H" "drop h p = part" using hl by (simp_all add: p)
  have o: "offset div 8 * 8 = offset" using assms(10) by simp
  have "\<not> 65515 < int (offset + length part)" using assms(5,9) by simp
  moreover have "mf \<longrightarrow> length part mod 8 = 0" using assms(11) by auto
  ultimately show "parse_fragment4 p =
      Some (\<lparr>rf_packet = p, rf_headerByteCount = h, rf_offset = offset, rf_payloadByteCount = length part\<rparr>, mf)"
    using fl(1-3) t r assms(5,6,8) lp o
    by (simp add: parse_fragment4_def Let_def header_sizes del: of_nat_add)
  have "ip_version p = 4" using r(1) assms(7) by (simp add: ip_version_def)
  then show "isIpv4FragmentPacket p \<longleftrightarrow> mf \<or> offset \<noteq> 0"
    using fl(4) r(4) lp assms(5) o by (auto simp: isIpv4FragmentPacket_def header_sizes)
  show "fragment_key4 source transferKey provideMode p =
      \<lparr>k4_source = source, k4_transferKey = transferKey, k4_provideMode = provideMode, k4_sourceIp = take 4 rest,
       k4_destinationIp = take 4 (drop 4 rest), k4_protocol = m ! 1, k4_identification = identification\<rparr>"
    using r by (simp add: fragment_key4_def)
qed

section \<open>Feeding fragments\<close>

fun feed :: "(bytes \<Rightarrow> int \<Rightarrow> 'r \<Rightarrow> 'o \<times> 'r) \<Rightarrow> (bytes \<times> int) list \<Rightarrow> 'r \<Rightarrow> 'o list \<times> 'r" where
  "feed proc [] r = ([], r)"
| "feed proc ((packet, now) # steps) r =
     (let (result, r) = proc packet now r; (results, r) = feed proc steps r in (result # results, r))"

lemma feed_parts:
  assumes step: "\<And>g ps now r. g \<in> set G \<Longrightarrow> g \<notin> set ps \<Longrightarrow> set ps \<subseteq> set G \<Longrightarrow> distinct ps \<Longrightarrow> I ps r \<Longrightarrow>
      now - t0 < ipv4FragmentReassemblyTimeout \<Longrightarrow> (ps = [] \<Longrightarrow> now = t0) \<Longrightarrow>
      \<exists>r'. proc (rf_packet g) now r = (if set (g # ps) = set G then fin else kp, r')
        \<and> (if set (g # ps) = set G then D r' else I (g # ps) r')"
    and "distinct (map fst gs @ ps)" "set (map fst gs) \<union> set ps = set G" "gs \<noteq> []" "I ps r" "ps = [] \<Longrightarrow> snd (hd gs) = t0"
    and "\<forall>(g, now) \<in> set gs. now - t0 < ipv4FragmentReassemblyTimeout"
  shows "\<exists>r'. feed proc (map (\<lambda>(g, now). (rf_packet g, now)) gs) r = (replicate (length gs - 1) kp @ [fin], r') \<and> D r'"
  using assms(2-)
proof (induction gs arbitrary: ps r)
  case (Cons a gs)
  obtain g now where a: "a = (g, now)" by (cases a)
  have "\<exists>r'. proc (rf_packet g) now r = (if set (g # ps) = set G then fin else kp, r')
        \<and> (if set (g # ps) = set G then D r' else I (g # ps) r')"
    by (rule step) (use Cons.prems a in auto)
  then obtain r1 where r1: "proc (rf_packet g) now r = (if set (g # ps) = set G then fin else kp, r1)"
    "if set (g # ps) = set G then D r1 else I (g # ps) r1" by blast
  show ?case
  proof (cases "gs = []")
    case True
    then have "set (g # ps) = set G" using Cons.prems(2) a by simp
    then show ?thesis using r1 True a by simp
  next
    case False
    have x: "fst (hd gs) \<in> fst ` set gs" using False by simp
    have d: "g \<notin> fst ` set gs" "fst ` set gs \<inter> set ps = {}" "insert g (fst ` set gs \<union> set ps) = set G"
      using Cons.prems(1,2) a by auto
    have "fst (hd gs) \<in> set G" "fst (hd gs) \<notin> set (g # ps)" using x d by (blast, simp, blast)
    then have ne: "set (g # ps) \<noteq> set G" by blast
    then have "\<exists>r'. feed proc (map (\<lambda>(g, now). (rf_packet g, now)) gs) r1 = (replicate (length gs - 1) kp @ [fin], r') \<and> D r'"
      using Cons.IH [of "g # ps" r1] Cons.prems False a r1(2) by auto
    moreover obtain k where "length gs = Suc k" using False by (cases gs) auto
    ultimately show ?thesis using r1(1) ne a by auto
  qed
qed simp

lemma parts_complete:
  assumes "parts hx h n G" "dg_fragments d = G" "dg_firstHeaderByteCount d = h" "dg_finalPayloadByteCount d = int n"
  shows "complete hx d"
proof -
  note p = parts_facts [OF assms(1)]
  have g: "G \<noteq> []" "tiles 0 G = Some n" "\<forall>f \<in> set G. frag_ok hx f \<and> rf_headerByteCount f = h"
    "length G \<le> ipv4FragmentReassemblyMaxFragments" using assms(1) by (auto simp: parts_def)
  have "sorted_wrt apart G" using tiles_facts(3) [OF g(2)] p(1) by simp
  moreover have "hd G \<in> set G" using g(1) by simp
  moreover have "h \<noteq> 0" using g(3) calculation(2) by (auto simp: frag_ok_def)
  ultimately show ?thesis using assms(2-4) g p(2,9) by (auto simp: complete_def datagram_ok_def)
qed

lemma fold_uncharge_datagrams [simp]: "fr_datagrams (fold (uncharge s) fs r) = fr_datagrams r"
  by (induction fs arbitrary: r) simp_all

lemma release_single: "fr_datagrams r = [(key, d)] \<Longrightarrow> fr_datagrams (releaseDatagram src key r) = []"
  by (simp add: releaseDatagram_def detachDatagram_def)

text \<open>A list whose image has the elements of a mapped list is a mapped permutation of it.\<close>

lemma steps_of_parts:
  assumes "mset (map fst steps) = mset (map rf_packet G)" "\<And>g. g \<in> set G \<Longrightarrow> inv_of (rf_packet g) = g"
  shows "\<exists>gs. steps = map (\<lambda>(g, now). (rf_packet g, now)) gs \<and> mset (map fst gs) = mset G \<and> map snd gs = map snd steps"
proof -
  let ?gs = "map (\<lambda>(p, now). (inv_of p, now)) steps"
  have s: "set (map fst steps) = set (map rf_packet G)" using assms(1) by (metis set_mset_mset)
  have "map (\<lambda>(g, now). (rf_packet g, now)) ?gs = steps"
  proof (rule map_idI [of steps "\<lambda>(p, now). (rf_packet (inv_of p), now)", unfolded map_map [symmetric], THEN trans [rotated]])
    show "map (\<lambda>(g, now). (rf_packet g, now)) ?gs = map (\<lambda>(p, now). (rf_packet (inv_of p), now)) steps" by auto
  next
    fix x assume "x \<in> set steps"
    then have "fst x \<in> set (map rf_packet G)" using s by force
    then show "(\<lambda>(p, now). (rf_packet (inv_of p), now)) x = x" using assms(2) by (cases x) auto
  qed
  moreover have "mset (map fst ?gs) = mset G"
  proof -
    have "mset (map fst ?gs) = image_mset inv_of (mset (map fst steps))" by (simp add: image_mset.compositionality comp_def case_prod_beta)
    also have "\<dots> = image_mset (\<lambda>g. inv_of (rf_packet g)) (mset G)" unfolding assms(1) by (simp add: image_mset.compositionality comp_def)
    also have "\<dots> = image_mset id (mset G)" using assms(2) by (intro image_mset_cong) simp
    also have "\<dots> = mset G" by simp
    finally show ?thesis .
  qed
  moreover have "map snd ?gs = map snd steps" by auto
  ultimately show ?thesis by (intro exI [of _ ?gs]) simp
qed

lemma charge_subset:
  assumes "distinct ps" "distinct G" "set ps \<subseteq> set G"
  shows "charge ps \<le> charge G"
proof -
  have "charge xs = (\<Sum>f \<in> set xs. int (length (rf_packet f)))" if "distinct xs" for xs
    unfolding charge_def using that by (simp add: sum_list_distinct_conv_sum_set)
  then show ?thesis using assms by (simp add: sum_mono2)
qed

definition part_state ::
  "('k \<Rightarrow> 's) \<Rightarrow> 'k \<Rightarrow> nat \<Rightarrow> nat \<Rightarrow> 'x \<Rightarrow> 'x \<Rightarrow> int \<Rightarrow> int \<Rightarrow> int \<Rightarrow> retainedFragment list \<Rightarrow> ('k, 's, 'x) reassembler \<Rightarrow> bool" where
  "part_state src key h n x fresh t0 M Q ps r \<longleftrightarrow>
     (if ps = [] then empty_store src key M Q r
      else store_holds src key (holds_parts key h n x fresh t0 ps) (charge ps) M Q r)"

lemma part_state_ready:
  assumes "part_state src key h n x fresh t0 M Q ps r" "now - t0 < ipv4FragmentReassemblyTimeout" "0 < M"
  shows "with_default_max (expire src now r) = r"
proof -
  have "expire src now r = r"
    using assms(1,2) expire_empty expire_holds by (auto simp: part_state_def split: if_splits)
  moreover have "fr_maxRetainedBytes r = M"
    using assms(1) by (auto simp: part_state_def empty_store_def store_holds_def split: if_splits)
  ultimately show ?thesis using assms(3) by (simp add: with_default_max_def)
qed

lemma part_state_step:
  assumes "parts hx h n G" "g \<in> set G" "g \<notin> set ps" "set ps \<subseteq> set G" "distinct ps"
    "part_state src key h n x fresh t0 M Q ps r" "ps = [] \<Longrightarrow> now = t0"
    "keeps_common setFirst" "\<And>d. fragmentDatagram.more (setFirst d) = x" "\<not> tooLong h (- 1)" "\<not> tooLong h (int n)"
    "charge G \<le> M" "0 < Q \<Longrightarrow> charge G \<le> Q"
  shows "\<exists>r' d. process_fragment hx setFirst tooLong fresh src order now key (int (length (rf_packet g))) g (rf_end g \<noteq> n) r =
       (if set (g # ps) = set G then CoreComplete d else CoreKept, True, r')
    \<and> part_state src key h n x fresh t0 M Q (g # ps) r' \<and> fr_datagrams r' = [(key, d)]
    \<and> (set (g # ps) = set G \<longrightarrow> dg_fragments d = G \<and> dg_firstHeaderByteCount d = h \<and> dg_finalPayloadByteCount d = int n
        \<and> fragmentDatagram.more d = x)"
proof -
  have "charge (g # ps) \<le> charge G"
    using assms(2-5) parts_facts(4) [OF assms(1)] by (intro charge_subset) auto
  then have c: "charge (g # ps) \<le> M" "0 < Q \<Longrightarrow> charge (g # ps) \<le> Q" using assms(12,13) by linarith+
  have s: "if ps = [] then empty_store src key M Q r \<and> now = t0
     else store_holds src key (holds_parts key h n x fresh t0 ps) (charge ps) M Q r"
    using assms(6,7) by (auto simp: part_state_def split: if_splits)
  show ?thesis
    using process_part [where setFirst = setFirst and tooLong = tooLong and x = x and order = order,
        OF assms(1,4,5,2,3,8,9,10,11) s c refl refl] by (simp add: part_state_def)
qed

lemma feed_permuted:
  assumes step: "\<And>g ps now r. g \<in> set G \<Longrightarrow> g \<notin> set ps \<Longrightarrow> set ps \<subseteq> set G \<Longrightarrow> distinct ps \<Longrightarrow> I ps r \<Longrightarrow>
      now - t0 < ipv4FragmentReassemblyTimeout \<Longrightarrow> (ps = [] \<Longrightarrow> now = t0) \<Longrightarrow>
      \<exists>r'. proc (rf_packet g) now r = (if set (g # ps) = set G then fin else kp, r')
        \<and> (if set (g # ps) = set G then D r' else I (g # ps) r')"
    and "parts hx h n G" "\<And>g. g \<in> set G \<Longrightarrow> inv_of (rf_packet g) = g" "mset (map fst steps) = mset (map rf_packet G)"
      "\<forall>(p, now) \<in> set steps. now - t0 < ipv4FragmentReassemblyTimeout" "t0 = snd (hd steps)" "I [] r"
  shows "\<exists>r'. feed proc steps r = (replicate (length steps - 1) kp @ [fin], r') \<and> D r'"
proof -
  obtain gs where gs: "steps = map (\<lambda>(g, now). (rf_packet g, now)) gs" "mset (map fst gs) = mset G" "map snd gs = map snd steps"
    using steps_of_parts [OF assms(4,3)] by blast
  have G: "G \<noteq> []" "distinct G" using assms(2) parts_facts(4) by (auto simp: parts_def)
  have ne: "gs \<noteq> []" using gs(2) G(1) by auto
  have d: "distinct (map fst gs @ [])" using gs(2) G(2) by (metis append_Nil2 mset_eq_imp_distinct_iff)
  have u: "set (map fst gs) \<union> set [] = set G" using gs(2) by (metis Un_empty_right list.set(1) set_mset_mset)
  have first: "snd (hd gs) = t0" using gs(1) ne unfolding assms(6) by (cases gs) auto
  have times: "\<forall>(g, now) \<in> set gs. now - t0 < ipv4FragmentReassemblyTimeout" using assms(5) gs(1) by auto
  show ?thesis
    using feed_parts [where I = I and proc = proc and fin = fin and kp = kp and D = D and gs = gs and ps = "[]" and r = r,
        OF step d u ne assms(7) first times] unfolding gs(1) by simp
qed

definition feed4 ::
  "('s, 't, 'm) order4 \<Rightarrow> (nat \<Rightarrow> bytes) \<Rightarrow> 's \<Rightarrow> 't \<Rightarrow> 'm \<Rightarrow> idSource \<Rightarrow> (bytes \<times> int) list
   \<Rightarrow> ('s, 't, 'm) ipv4FragmentReassembler \<Rightarrow> ipFragmentProcessResult list \<times> ('s, 't, 'm) ipv4FragmentReassembler" where
  "feed4 order dirt source transferKey provideMode ids =
     feed (\<lambda>packet now r.
       let (result, _, r) = processResultAt4 order dirt source transferKey provideMode packet now False ids r in (result, r))"

lemma feed4_parts:
  assumes "parts 0 h n G"
    and g: "\<And>g. g \<in> set G \<Longrightarrow> isIpv4FragmentPacket (rf_packet g) \<and> parse_fragment4 (rf_packet g) = Some (g, rf_end g \<noteq> n)
      \<and> fragment_key4 source transferKey provideMode (rf_packet g) = key"
    and "h + n \<le> 65535" "charge G \<le> M" "0 < Q \<Longrightarrow> charge G \<le> Q" "0 < M" "empty_store k4_source key M Q r"
    and "mset (map fst steps) = mset (map rf_packet G)"
      "\<forall>(p, now) \<in> set steps. now - snd (hd steps) < ipv4FragmentReassemblyTimeout"
    and fin: "\<And>d. dg_fragments d = G \<Longrightarrow> dg_firstHeaderByteCount d = h \<Longrightarrow> dg_finalPayloadByteCount d = int n \<Longrightarrow> reassemble4 dirt d = whole"
  shows "\<exists>r'. feed4 order dirt source transferKey provideMode ids steps r =
      (replicate (length steps - 1) kept @ [completed whole []], r') \<and> fr_datagrams r' = []"
proof -
  let ?proc = "\<lambda>packet now r.
      let (result, _, r) = processResultAt4 order dirt source transferKey provideMode packet now False ids r in (result, r)"
  define t0 where "t0 = snd (hd steps)"
  let ?I = "part_state k4_source key h n () () t0 M Q"
  have inv: "fst (the (parse_fragment4 (rf_packet x))) = x" if "x \<in> set G" for x using g [OF that] by simp
  have st: "\<exists>r'. ?proc (rf_packet g) now r = (if set (g # ps) = set G then completed whole [] else kept, r')
        \<and> (if set (g # ps) = set G then fr_datagrams r' = [] else ?I (g # ps) r')"
    if a: "g \<in> set G" "g \<notin> set ps" "set ps \<subseteq> set G" "distinct ps" "?I ps r" "now - t0 < ipv4FragmentReassemblyTimeout" "ps = [] \<Longrightarrow> now = t0"
    for g ps now r
  proof -
    have tl: "\<not> tooLong4 h (- 1)" "\<not> tooLong4 h (int n)" using assms(3) by (auto simp: tooLong4_def)
    obtain r1 d where s: "process_fragment 0 id tooLong4 () k4_source order now key (int (length (rf_packet g))) g (rf_end g \<noteq> n) r =
         (if set (g # ps) = set G then CoreComplete d else CoreKept, True, r1)" "?I (g # ps) r1" "fr_datagrams r1 = [(key, d)]"
      "set (g # ps) = set G \<longrightarrow> dg_fragments d = G \<and> dg_firstHeaderByteCount d = h \<and> dg_finalPayloadByteCount d = int n"
      using part_state_step [where setFirst = id and tooLong = tooLong4 and order = order,
          OF assms(1) a(1-5,7) keeps_common_simps(1) _ tl assms(4,5)] by auto
    note k = g [OF a(1)]
    have "processResultAt4 order dirt source transferKey provideMode (rf_packet g) now False ids r =
        (if set (g # ps) = set G then (completed whole [], ids, releaseDatagram k4_source key r1) else (kept, ids, r1))"
      unfolding processResultAt4_fragment [OF k [THEN conjunct1] k [THEN conjunct2, THEN conjunct1]]
      using k s(1,4) part_state_ready [OF a(5,6) assms(6)] fin [of d] by auto
    then show ?thesis using s(2) release_single [OF s(3)] by auto
  qed
  have i0: "?I [] r" using assms(7) by (simp add: part_state_def)
  show ?thesis
    unfolding feed4_def
    by (rule feed_permuted [where I = ?I, OF st assms(1) inv assms(8) _ t0_def i0]) (use assms(9) in \<open>simp_all add: t0_def\<close>)
qed

definition part4 :: "(nat \<Rightarrow> bytes) \<Rightarrow> bytes \<Rightarrow> uint16 \<Rightarrow> bytes \<times> nat \<times> bool \<Rightarrow> retainedFragment" where
  "part4 dirt header identification = (\<lambda>(part, offset, mf).
     \<lparr>rf_packet = make_fragment4 dirt header identification part offset mf, rf_headerByteCount = length header,
      rf_offset = offset, rf_payloadByteCount = length part\<rparr>)"

lemma fragmentIpv4Packet_parts:
  assumes "fragmentIpv4Packet dirt packet mtu ids = (Inr frs, ids')" "h = unat (packet ! 0 AND 0x0f) * 4"
  obtains sz where "frs = map rf_packet (map (part4 dirt (take h packet) (fst (nextIpv4FragmentIdentification ids))) (chunks (drop h packet) sz 0))"
    "8 \<le> sz" "8 dvd sz" "int (h + sz) \<le> mtu" "20 \<le> h" "h \<le> length packet" "ip_version packet = 4"
proof -
  let ?z = "(mtu - int h) AND NOT 7"
  have c: "\<not> length packet < 20" "ip_version packet = 4" "20 \<le> h" "h \<le> length packet" "8 \<le> ?z"
    "frs = fragment_loop (make_fragment4 dirt (take h packet) (fst (nextIpv4FragmentIdentification ids))) (drop h packet) (nat ?z) 0"
    using assms(1) unfolding assms(2)
    by (auto simp: fragmentIpv4Packet_def Let_def header_sizes case_prod_beta split: if_splits)
  note z = and_not_7_size [OF c(5)]
  have "frs = map rf_packet (map (part4 dirt (take h packet) (fst (nextIpv4FragmentIdentification ids))) (chunks (drop h packet) (nat ?z) 0))"
    using c(4) unfolding c(6) fragment_loop_chunks by (simp add: part4_def case_prod_beta comp_def)
  then show thesis using c z by (intro that [of "nat ?z"]) auto
qed

lemma parts4:
  assumes "header = hdr4 a l i f m c rest" "length a = 2" "length m = 2" "h = length header" "20 \<le> h"
    "unat (a ! 0 AND 0x0f) * 4 = h" "drop_bit 4 (a ! 0) = 4" "h + length payload \<le> 65535" "8 \<le> sz" "8 dvd sz"
    "sz < length payload" "length (chunks payload sz 0) \<le> 64"
    "G = map (part4 dirt header identification) (chunks payload sz 0)"
    "key = \<lparr>k4_source = source, k4_transferKey = transferKey, k4_provideMode = provideMode, k4_sourceIp = take 4 rest,
       k4_destinationIp = take 4 (drop 4 rest), k4_protocol = m ! 1, k4_identification = identification\<rparr>"
  shows "parts 0 h (length payload) G" "concat (map (rf_payload 0) G) = payload"
    "take h (rf_packet (hd G)) =
      hdr4 a (of_nat (h + sz)) identification 0x2000 m (ck4 a (of_nat (h + sz)) identification 0x2000 m rest) rest"
    "g \<in> set G \<Longrightarrow> isIpv4FragmentPacket (rf_packet g) \<and> parse_fragment4 (rf_packet g) = Some (g, rf_end g \<noteq> length payload)
      \<and> fragment_key4 source transferKey provideMode (rf_packet g) = key \<and> length (rf_packet g) \<le> h + sz"
proof -
  let ?P = "part4 dirt header identification"
  have sz: "0 < sz" using assms(9) by simp
  have c: "part \<noteq> [] \<and> length part \<le> sz \<and> o' + length part \<le> length payload \<and> (mf \<longleftrightarrow> o' + length part \<noteq> length payload)
      \<and> (mf \<longrightarrow> 8 dvd length part) \<and> 8 dvd o' \<and> (mf \<or> o' \<noteq> 0)"
    if "(part, o', mf) \<in> set (chunks payload sz 0)" for part o' mf
  proof -
    note f = chunks_facts [OF sz that]
    have "mf \<or> o' \<noteq> 0" using f assms(11) by auto
    then show ?thesis using f assms(10) by auto
  qed
  note pm = parse_made4 [OF assms(1-7)]
  have e: "parse_fragment4 (rf_packet (?P x)) = Some (?P x, snd (snd x))" "isIpv4FragmentPacket (rf_packet (?P x))"
    "length (rf_packet (?P x)) = h + length (fst x)" "drop h (rf_packet (?P x)) = fst x"
    "fragment_key4 source transferKey provideMode (rf_packet (?P x)) = key"
    "fst x \<noteq> [] \<and> rf_end (?P x) \<le> length payload \<and> (snd (snd x) \<longleftrightarrow> rf_end (?P x) \<noteq> length payload) \<and> length (fst x) \<le> sz"
    "snd (snd x) \<and> fst (snd x) = 0 \<Longrightarrow> take h (rf_packet (?P x)) =
      hdr4 a (of_nat (h + length (fst x))) identification 0x2000 m (ck4 a (of_nat (h + length (fst x))) identification 0x2000 m rest) rest"
    if "x \<in> set (chunks payload sz 0)" for x
  proof -
    obtain part o' mf where x: "x = (part, o', mf)" by (cases x) auto
    note k = c [OF that [unfolded x]]
    have nz: "mf \<or> o' \<noteq> 0" using k by blast
    have b: "part \<noteq> []" "h + o' + length part \<le> 65535" "8 dvd o'" "mf \<Longrightarrow> 8 dvd length part" using k assms(8) by auto
    note r = pm [where mf = mf and dirt = dirt and identification = identification, OF b refl]
    have f: "?P (part, o', mf) = \<lparr>rf_packet = make_fragment4 dirt header identification part o' mf, rf_headerByteCount = h,
        rf_offset = o', rf_payloadByteCount = length part\<rparr>" by (simp add: part4_def assms(4))
    show "parse_fragment4 (rf_packet (?P x)) = Some (?P x, snd (snd x))" using r(1) by (simp add: f x)
    show "isIpv4FragmentPacket (rf_packet (?P x))" using r(2) nz by (simp add: f x)
    show "length (rf_packet (?P x)) = h + length (fst x)" "drop h (rf_packet (?P x)) = fst x" using r(3,4) by (simp_all add: f x)
    show "fragment_key4 source transferKey provideMode (rf_packet (?P x)) = key" using r(5) by (simp add: f x assms(14))
    show "fst x \<noteq> [] \<and> rf_end (?P x) \<le> length payload \<and> (snd (snd x) \<longleftrightarrow> rf_end (?P x) \<noteq> length payload) \<and> length (fst x) \<le> sz"
      unfolding x f using k by (simp add: rf_end_def)
    show "take h (rf_packet (?P x)) =
      hdr4 a (of_nat (h + length (fst x))) identification 0x2000 m (ck4 a (of_nat (h + length (fst x))) identification 0x2000 m rest) rest"
      if "snd (snd x) \<and> fst (snd x) = 0"
      using that unfolding x f using r(6) by (simp del: of_nat_add)
  qed
  have tile: "tiles 0 G = Some (length payload)" unfolding assms(13) by (rule chunks_tile [OF sz]) (simp_all add: part4_def)
  have two: "2 \<le> length (chunks payload sz 0)" using chunks_many [OF sz assms(11)] .
  have fo: "frag_ok 0 (?P x) \<and> rf_headerByteCount (?P x) = h \<and> rf_payload 0 (?P x) = fst x" if "x \<in> set (chunks payload sz 0)" for x
  proof -
    have "rf_headerByteCount (?P x) = h \<and> rf_payloadByteCount (?P x) = length (fst x)" by (simp add: part4_def assms(4) case_prod_beta)
    then show ?thesis using e(3,4,6) [OF that] assms(5) by (simp add: frag_ok_def rf_payload_def subslice_def)
  qed
  show "parts 0 h (length payload) G"
    unfolding parts_def using tile two assms(12) fo by (auto simp: assms(13) ipv4FragmentReassemblyMaxFragments_def)
  have "map (rf_payload 0) G = map fst (chunks payload sz 0)" unfolding assms(13) using fo by simp
  then show "concat (map (rf_payload 0) G) = payload" using chunks_concat [OF sz, of 0 payload] by simp
  show "isIpv4FragmentPacket (rf_packet g) \<and> parse_fragment4 (rf_packet g) = Some (g, rf_end g \<noteq> length payload)
      \<and> fragment_key4 source transferKey provideMode (rf_packet g) = key \<and> length (rf_packet g) \<le> h + sz" if gG: "g \<in> set G"
  proof -
    obtain x where x: "x \<in> set (chunks payload sz 0)" "g = ?P x" using gG unfolding assms(13) by auto
    show ?thesis using e(1,2,3,5,6) [OF x(1)] unfolding x(2) by auto
  qed
  have "\<exists>cs. chunks payload sz 0 = (take sz payload, 0, True) # cs"
    using sz assms(11) by (subst chunks.simps) (auto simp: Let_def subslice_def)
  then obtain cs where cs: "chunks payload sz 0 = (take sz payload, 0, True) # cs" by blast
  then have "hd G = ?P (take sz payload, 0, True)" by (simp add: assms(13))
  then show "take h (rf_packet (hd G)) =
      hdr4 a (of_nat (h + sz)) identification 0x2000 m (ck4 a (of_nat (h + sz)) identification 0x2000 m rest) rest"
    using e(7) [of "(take sz payload, 0, True)"] cs assms(11) by simp
qed

lemma reassemble4_layout:
  assumes "complete 0 d" "take (dg_firstHeaderByteCount d) (rf_packet (hd (dg_fragments d))) = hdr4 a t i f m c rest"
    "length a = 2" "length m = 2" "dg_finalPayloadByteCount d = int n" "h = dg_firstHeaderByteCount d"
  shows "reassemble4 dirt d = hdr4 a (of_nat (h + n)) i 0 m (ck4 a (of_nat (h + n)) i 0 m rest) rest
     @ concat (map (rf_payload 0) (dg_fragments d))"
proof -
  let ?P = "concat (map (rf_payload 0) (dg_fragments d))" and ?t = "of_nat (h + n) :: uint16"
  note s = assemble_complete [OF assms(1)]
  have h: "h = length (hdr4 a x y z m c rest)" for x y z
    using s(3) assms(2,6) by simp
  have "put_at 6 (putUint16 0) (put_at 2 (putUint16 ?t) (assemble 0 dirt d)) = hdr4 a ?t i 0 m c rest @ ?P"
    unfolding s(1) assms(2) hdr4_def using assms(3,4) by (simp add: put_at_blocks)
  moreover have "take h (hdr4 a ?t i 0 m c rest @ ?P) = hdr4 a ?t i 0 m c rest" using h [of ?t i 0] by simp
  ultimately have "reassemble4 dirt d = put_at 0 (hdr4 a ?t i 0 m (ck4 a ?t i 0 m rest) rest) (hdr4 a ?t i 0 m c rest @ ?P)"
    using assms(5) by (simp add: reassemble4_def Let_def assms(6) [symmetric] writeIpv4HeaderChecksum_hdr4 [OF assms(3,4)])
  then show ?thesis by (simp add: put_at_here)
qed

definition restamp4 :: "nat \<Rightarrow> uint16 \<Rightarrow> bytes \<Rightarrow> bytes" where
  "restamp4 h identification packet =
     (let q = put_at 6 (putUint16 0) (put_at 4 (putUint16 identification) packet)
      in put_at 0 (writeIpv4HeaderChecksum (take h q)) q)"

lemma chunks_few: "0 < sz \<Longrightarrow> length payload \<le> sz \<Longrightarrow> length (chunks payload sz 0) \<le> 1"
  by (subst chunks.simps, subst chunks.simps) (simp add: Let_def)

lemma restamp4_layout:
  assumes "packet = hdr4 a l i f m c rest @ payload" "length a = 2" "length m = 2" "h = length (hdr4 a l i f m c rest)"
  shows "restamp4 h identification packet = hdr4 a l identification 0 m (ck4 a l identification 0 m rest) rest @ payload"
proof -
  let ?H = "hdr4 a l identification 0 m c rest"
  have "put_at 6 (putUint16 0) (put_at 4 (putUint16 identification) packet) = ?H @ payload"
    unfolding assms(1) hdr4_def using assms(2,3) by (simp add: put_at_blocks)
  moreover have "take h (?H @ payload) = ?H" using assms(4) by simp
  ultimately show ?thesis
    by (simp add: restamp4_def writeIpv4HeaderChecksum_hdr4 [OF assms(2,3)] put_at_here)
qed

text \<open>An IPv4 packet with its header complete, some payload, and a truthful length field.\<close>

definition whole_packet4 :: "nat \<Rightarrow> bytes \<Rightarrow> bool" where
  "whole_packet4 h packet \<longleftrightarrow> h = unat (packet ! 0 AND 0x0f) * 4 \<and> length packet \<le> 65535 \<and> u16_at packet 2 = of_nat (length packet)"

definition steps_of :: "(bytes \<times> int) list \<Rightarrow> bytes list \<Rightarrow> bool" where
  "steps_of steps frs \<longleftrightarrow> mset (map fst steps) = mset frs
     \<and> (\<forall>(p, now) \<in> set steps. now - snd (hd steps) < ipv4FragmentReassemblyTimeout)"

definition room_for :: "bytes list \<Rightarrow> ('k, 's, 'd) fragmentReassembler \<Rightarrow> bool" where
  "room_for frs r \<longleftrightarrow> int (\<Sum>p\<leftarrow>frs. length p) \<le> fr_maxRetainedBytes r
     \<and> (0 < fr_maxRetainedBytesPerSource r \<longrightarrow> int (\<Sum>p\<leftarrow>frs. length p) \<le> fr_maxRetainedBytesPerSource r)"

lemma charge_map: "charge G = int (\<Sum>p\<leftarrow>map rf_packet G. length p)"
  by (induction G) simp_all

lemma fragments4_setup:
  assumes "whole_packet4 h packet" "fragmentIpv4Packet dirt packet mtu ids = (Inr frs, ids')" "2 \<le> length frs" "length frs \<le> 64"
  obtains sz a l i f m c rest where
    "take h packet = hdr4 a l i f m c rest" "length a = 2" "length m = 2" "length (take h packet) = h" "20 \<le> h" "l = of_nat (length packet)"
    "unat (a ! 0 AND 0x0f) * 4 = h" "drop_bit 4 (a ! 0) = 4" "h + length (drop h packet) \<le> 65535" "8 \<le> sz" "8 dvd sz"
    "sz < length (drop h packet)" "length (chunks (drop h packet) sz 0) \<le> 64" "int (h + sz) \<le> mtu"
    "frs = map rf_packet (map (part4 dirt (take h packet) (fst (nextIpv4FragmentIdentification ids))) (chunks (drop h packet) sz 0))"
proof -
  have h: "h = unat (packet ! 0 AND 0x0f) * 4" using assms(1) by (simp add: whole_packet4_def)
  obtain sz where sz: "frs = map rf_packet (map (part4 dirt (take h packet) (fst (nextIpv4FragmentIdentification ids))) (chunks (drop h packet) sz 0))"
    "8 \<le> sz" "8 dvd sz" "int (h + sz) \<le> mtu" "20 \<le> h" "h \<le> length packet" "ip_version packet = 4"
    using fragmentIpv4Packet_parts [OF assms(2) h] .
  have len: "length (take h packet) = h" using sz(6) by simp
  have "12 \<le> length (take h packet)" using sz(5) len by simp
  then obtain a l i f m c rest where hd: "take h packet = hdr4 a l i f m c rest" "length a = 2" "length m = 2"
    using hdr4_split by metis
  have lr: "8 \<le> length rest" using len sz(5) hd by simp
  have p: "packet = hdr4 a l i f m c rest @ drop h packet" by (metis append_take_drop_id hd(1))
  note r = hdr4_reads [OF hd(2,3) p lr]
  have n: "length frs = length (chunks (drop h packet) sz 0)" using sz(1) by simp
  have "sz < length (drop h packet)"
  proof (rule ccontr)
    assume "\<not> sz < length (drop h packet)"
    then have "length (chunks (drop h packet) sz 0) \<le> 1" using sz(2) by (intro chunks_few) simp_all
    then show False using n assms(3) by simp
  qed
  then show thesis
    using that [OF hd len sz(5)] r(1,2) assms(1,4) n sz h by (simp add: whole_packet4_def ip_version_def)
qed

section \<open>Property of the IPv4 path\<close>

text \<open>
  C31. IPv4 fragments of a packet reassemble to the packet in any order. A packet with a truthful
  length field is fragmented into two to 64 fragments; they reach a fresh reassembler with room
  for their bytes, each exactly once, in any order, none later than the reassembly timeout after
  the first. Then every fragment but the last one to arrive is retained without a result, the
  last one yields the original packet (with the fragments' identification, no fragment flags and
  a recomputed header checksum), and the reassembler is left without datagrams. What the message
  pool's buffers held before has no influence.
\<close>

theorem fragments4_reassemble:
  assumes "whole_packet4 h packet" "fragmentIpv4Packet dirt packet mtu ids = (Inr frs, ids')" "2 \<le> length frs" "length frs \<le> 64"
    "steps_of steps frs" "fresh_reassembler r" "room_for frs r"
  shows "\<exists>r'. feed4 order dirt' source transferKey provideMode ids'' steps r =
      (replicate (length frs - 1) kept @ [completed (restamp4 h (fst (nextIpv4FragmentIdentification ids)) packet) []], r')
    \<and> fr_datagrams r' = []"
proof -
  let ?id = "fst (nextIpv4FragmentIdentification ids)" and ?pl = "drop h packet"
  obtain sz a l i f m c rest where s:
    "take h packet = hdr4 a l i f m c rest" "length a = 2" "length m = 2" "length (take h packet) = h" "20 \<le> h" "l = of_nat (length packet)"
    "unat (a ! 0 AND 0x0f) * 4 = h" "drop_bit 4 (a ! 0) = 4" "h + length ?pl \<le> 65535" "8 \<le> sz" "8 dvd sz"
    "sz < length ?pl" "length (chunks ?pl sz 0) \<le> 64" "int (h + sz) \<le> mtu"
    "frs = map rf_packet (map (part4 dirt (take h packet) ?id) (chunks ?pl sz 0))"
    using fragments4_setup [OF assms(1-4)] .
  define G where "G = map (part4 dirt (take h packet) ?id) (chunks ?pl sz 0)"
  let ?key = "\<lparr>k4_source = source, k4_transferKey = transferKey, k4_provideMode = provideMode, k4_sourceIp = take 4 rest,
       k4_destinationIp = take 4 (drop 4 rest), k4_protocol = m ! 1, k4_identification = ?id\<rparr>"
  note g = parts4 [OF s(1-3) s(4) [symmetric] s(5,7-13) G_def refl [of ?key]]
  have "0 < length (rf_packet x)" if "x \<in> set G" for x using g(1) that by (auto simp: parts_def frag_ok_def)
  moreover have "G \<noteq> []" using g(1) by (simp add: parts_def)
  ultimately have "0 < charge G" by (cases G) (auto simp: add_pos_nonneg)
  moreover have M: "charge G \<le> fr_maxRetainedBytes r"
    "0 < fr_maxRetainedBytesPerSource r \<Longrightarrow> charge G \<le> fr_maxRetainedBytesPerSource r"
    using assms(7) unfolding room_for_def s(15) G_def [symmetric] charge_map by simp_all
  ultimately have M0: "0 < fr_maxRetainedBytes r" by simp
  have empty: "empty_store k4_source ?key (fr_maxRetainedBytes r) (fr_maxRetainedBytesPerSource r) r"
    using assms(6) by (simp add: fresh_reassembler_def empty_store_def retainedBytesForSource_def)
  have p: "packet = hdr4 a l i f m c rest @ ?pl" by (metis append_take_drop_id s(1))
  have whole: "reassemble4 dirt' d = restamp4 h ?id packet"
    if d: "dg_fragments d = G" "dg_firstHeaderByteCount d = h" "dg_finalPayloadByteCount d = int (length ?pl)" for d
  proof -
    have t: "take (dg_firstHeaderByteCount d) (rf_packet (hd (dg_fragments d))) =
        hdr4 a (of_nat (h + sz)) ?id 0x2000 m (ck4 a (of_nat (h + sz)) ?id 0x2000 m rest) rest"
      using g(3) by (simp add: d)
    have "of_nat (h + length ?pl) = l" using s(4,6) by (metis append_take_drop_id length_append)
    then have "reassemble4 dirt' d = hdr4 a l ?id 0 m (ck4 a l ?id 0 m rest) rest @ ?pl"
      using reassemble4_layout [OF parts_complete [OF g(1) d] t s(2,3) d(3) d(2) [symmetric]] g(2) d(1) by simp
    then show ?thesis using restamp4_layout [OF p s(2,3)] s(1,4) by simp
  qed
  have st: "mset (map fst steps) = mset (map rf_packet G)"
    "\<forall>(p, now) \<in> set steps. now - snd (hd steps) < ipv4FragmentReassemblyTimeout"
    using assms(5) unfolding steps_of_def s(15) G_def by simp_all
  have pk: "isIpv4FragmentPacket (rf_packet x) \<and> parse_fragment4 (rf_packet x) = Some (x, rf_end x \<noteq> length ?pl)
      \<and> fragment_key4 source transferKey provideMode (rf_packet x) = ?key" if "x \<in> set G" for x
    using g(4) [OF that] by blast
  note result = feed4_parts [where order = order and ids = ids'', OF g(1) pk s(9) M M0 empty st whole]
  have ls: "length steps = length frs" using st(1) s(15) G_def by (metis length_map size_mset)
  show ?thesis using result unfolding ls by blast
qed

text \<open>A 44-byte UDP packet that a link of 36 bytes carries in two fragments.\<close>

definition example_packet4 :: bytes where
  "example_packet4 = [0x45, 0, 0, 44, 0, 0, 0, 0, 64, 17, 0, 0, 10, 0, 0, 1, 10, 0, 0, 2] @ map of_nat [1..<25]"

definition example_ids :: idSource where
  "example_ids = \<lparr>ids_ipv4 = 6, ids_ipv6 = 0, ids_random = [Some 9]\<rparr>"

definition example_fragments4 :: "bytes list" where
  "example_fragments4 = (case fragmentIpv4Packet (\<lambda>_. []) example_packet4 36 example_ids of (Inr frs, _) \<Rightarrow> frs | _ \<Rightarrow> [])"

lemma example_fragments4_made:
  "\<exists>ids'. fragmentIpv4Packet (\<lambda>_. []) example_packet4 36 example_ids = (Inr example_fragments4, ids')"
  "whole_packet4 20 example_packet4" "length example_fragments4 = 2" "map length example_fragments4 = [36, 28]"
proof -
  have "case fragmentIpv4Packet (\<lambda>_. []) example_packet4 36 example_ids of (Inr frs, _) \<Rightarrow> True | _ \<Rightarrow> False" by code_simp
  then show "\<exists>ids'. fragmentIpv4Packet (\<lambda>_. []) example_packet4 36 example_ids = (Inr example_fragments4, ids')"
    by (auto simp: example_fragments4_def split: sum.splits prod.splits)
  have "unat (example_packet4 ! 0 AND 0x0f) = 5" "u16_at example_packet4 2 = 44" "length example_packet4 = 44" by code_simp+
  then show "whole_packet4 20 example_packet4" by (simp add: whole_packet4_def)
  show "length example_fragments4 = 2" by code_simp
  show "map length example_fragments4 = [36, 28]" by code_simp
qed

theorem fragments4_reassemble_witness:
  "length example_fragments4 = 2
   \<and> (\<exists>r'. feed4 id (\<lambda>_. []) () () () example_ids [(example_fragments4 ! 1, 100), (example_fragments4 ! 0, 103)]
        newIpv4FragmentReassembler = ([kept, completed (restamp4 20 7 example_packet4) []], r') \<and> fr_datagrams r' = [])"
proof -
  note m = example_fragments4_made
  obtain ids' where i: "fragmentIpv4Packet (\<lambda>_. []) example_packet4 36 example_ids = (Inr example_fragments4, ids')" using m(1) ..
  obtain p q where f: "example_fragments4 = [p, q]" "length p + length q = 64"
    using m(3,4) by (auto simp: numeral_eq_Suc length_Suc_conv)
  have s: "steps_of [(example_fragments4 ! 1, 100), (example_fragments4 ! 0, 103)] example_fragments4"
    by (simp add: f steps_of_def ipv4FragmentReassemblyTimeout_def)
  have r: "fresh_reassembler (newIpv4FragmentReassembler :: (unit, unit, unit) ipv4FragmentReassembler)"
    "room_for example_fragments4 (newIpv4FragmentReassembler :: (unit, unit, unit) ipv4FragmentReassembler)"
    using f(2) by (simp_all add: f fresh_reassembler_def room_for_def newIpv4FragmentReassembler_def newFragmentReassembler_def
      ipv4FragmentReassemblyMaxRetainedBytes_def)
  have "fst (nextIpv4FragmentIdentification example_ids) = 7" by code_simp
  then show ?thesis
    using fragments4_reassemble [OF m(2) i _ _ s r, of id "\<lambda>_. []" "()" "()" "()" example_ids] m(3) by simp
qed

end
