(* ===== verification/Fragment_Roundtrip6.thy ===== *)
theory Fragment_Roundtrip6
  imports Fragment_Roundtrip
begin

text \<open>
  The IPv6 half of the round trip of fragmentation and reassembly, and what every fragment of
  either fragmenter satisfies.
\<close>

unbundle bit_operations_syntax

section \<open>IPv6 fragments\<close>

lemma flags6:
  assumes "8 dvd k" "k < 65536"
  shows "unat ((of_nat k OR (if mf then 1 else 0) :: uint16) AND NOT 7) = k"
    "(of_nat k OR (if mf then 1 else 0) :: uint16) AND 1 \<noteq> 0 \<longleftrightarrow> mf"
proof -
  let ?w = "of_nat k :: uint16" and ?f = "of_nat k OR (if mf then 1 else 0) :: uint16"
  have t: "take_bit 3 k = 0" using assms(1) by (simp add: take_bit_eq_mod)
  have b: "\<not> bit k n" if "n < 3" for n
    using that t by (metis bit_0_eq bit_take_bit_iff bot_apply bot_bool_def)
  have m: "(7 :: uint16) = mask 3" by (simp add: mask_eq_exp_minus_1)
  have "?f AND NOT 7 = ?w"
  proof (rule bit_word_eqI)
    fix n
    assume n: "n < LENGTH(16)"
    show "bit (?f AND NOT 7) n = bit ?w n"
      using n b [of n] unfolding m by (cases mf) (auto simp: bit_simps)
  qed
  then show "unat (?f AND NOT 7) = k" using assms(2) by (simp only:) (rule unat_of_nat16)
  have "\<not> bit ?w 0" using b [of 0] by (simp add: bit_simps)
  then have "bit ?f 0 \<longleftrightarrow> mf" by (cases mf) (auto simp: bit_simps)
  then show "?f AND 1 \<noteq> 0 \<longleftrightarrow> mf" using and_exp_eq_0_iff_not_bit [of ?f 0] unfolding power_0 by blast
qed

lemma walk_fragment:
  assumes "offset + ipv6FragmentHeaderSize \<le> e" "fi_offset (read_fragment_header packet offset field) \<noteq> 0
      \<or> fi_moreFragments (read_fragment_header packet offset field)"
  shows "walk_loop (Suc i) packet e 44 offset field empty_walk =
    Some (empty_walk\<lparr>wk_fragment := read_fragment_header packet offset field, wk_fragmentPresent := True,
      wk_nextHeader := packet ! offset, wk_transportOffset := offset + ipv6FragmentHeaderSize, wk_payloadEnd := e, wk_fragmented := True\<rparr>)"
proof -
  have "\<not> ipv6_plain_extension 44" by (simp add: ipv6_plain_extension_def)
  then show ?thesis using assms by (simp add: Let_def empty_walk_def)
qed

definition hdr6 :: "bytes \<Rightarrow> uint16 \<Rightarrow> byte \<Rightarrow> byte \<Rightarrow> bytes \<Rightarrow> bytes" where
  "hdr6 a l nh hop rest = a @ putUint16 l @ [nh, hop] @ rest"

lemma hdr6_split:
  assumes "length header = 40"
  obtains a l nh hop rest where "header = hdr6 a l nh hop rest" "length a = 4" "length rest = 32" "a ! 0 = header ! 0"
proof -
  obtain x0 x1 x2 x3 x4 x5 x6 x7 rest where h: "header = x0 # x1 # x2 # x3 # x4 # x5 # x6 # x7 # rest"
  proof -
    have "8 \<le> length header" using assms by simp
    then show thesis using that by (auto simp: numeral_eq_Suc Suc_le_length_iff)
  qed
  show thesis
    by (rule that [of "[x0, x1, x2, x3]" "getUint16 x4 x5" x6 x7 rest]) (use assms in \<open>simp_all add: h hdr6_def putUint16_get\<close>)
qed

lemma hdr6_reads:
  assumes "length a = 4" "length rest = 32" "p = hdr6 a l nh hop rest @ tail"
  shows "p ! 0 = a ! 0" "u16_at p 4 = l" "p ! 6 = nh" "subslice 8 24 p = take 16 rest" "subslice 24 40 p = drop 16 rest"
    "drop 40 p = tail" "length p = 40 + length tail" "k < length tail \<Longrightarrow> p ! (40 + k) = tail ! k"
proof -
  obtain a0 a1 a2 a3 where a: "a = [a0, a1, a2, a3]" using assms(1) by (rule list4E)
  have p: "p = a0 # a1 # a2 # a3 # ucast (drop_bit 8 l) # ucast l # nh # hop # rest @ tail"
    unfolding assms(3) hdr6_def a by (simp add: putUint16_def)
  show "p ! 0 = a ! 0" "u16_at p 4 = l" "p ! 6 = nh" unfolding p a by (simp_all add: u16_at_def)
  show "subslice 8 24 p = take 16 rest" "subslice 24 40 p = drop 16 rest" "drop 40 p = tail" "length p = 40 + length tail"
    unfolding p using assms(2) by (simp_all add: subslice_def)
  then show "p ! (40 + k) = tail ! k" if "k < length tail" using that by (metis le_add1 nth_drop)
qed

lemma parse_made6:
  assumes "header = hdr6 a l nh hop rest" "length a = 4" "length rest = 32" "drop_bit 4 (a ! 0) = 6"
    "part \<noteq> []" "8 + length part \<le> 65535" "offset + length part \<le> 65535" "8 dvd offset" "mf \<Longrightarrow> 8 dvd length part" "mf \<or> offset \<noteq> 0"
    "p = make_fragment6 dirt header identification part offset mf"
  shows "\<exists>walk. fragment_walk6 p = Some walk
    \<and> parse_fragment6 p walk = Some (\<lparr>rf_packet = p, rf_headerByteCount = 40, rf_offset = offset, rf_payloadByteCount = length part\<rparr>, mf)
    \<and> fragment_key6 source transferKey provideMode p walk =
        \<lparr>k6_source = source, k6_transferKey = transferKey, k6_provideMode = provideMode, k6_sourceIp = take 16 rest,
         k6_destinationIp = drop 16 rest, k6_identification = identification\<rparr>
    \<and> fi_precedingNextHeaderFieldOffset (wk_fragment walk) = 6 \<and> fi_nextHeader (wk_fragment walk) = nh"
    "length p = 48 + length part" "drop 48 p = part" "take 40 p = hdr6 a (of_nat (8 + length part)) 44 hop rest"
proof -
  define w where "w = (of_nat offset OR (if mf then 1 else 0) :: uint16)"
  let ?tail = "[nh, 0] @ putUint16 w @ putUint32 identification @ part"
  have p: "p = hdr6 a (of_nat (8 + length part)) 44 hop rest @ ?tail"
    unfolding assms(11) make_fragment6_layout [OF assms(1) [unfolded hdr6_def] assms(2,3)] hdr6_def w_def by simp
  note r = hdr6_reads [OF assms(2,3) p]
  have n: "unat (of_nat (8 + length part) :: uint16) = 8 + length part" using assms(6) by (intro unat_of_nat16) simp
  note fl = flags6 [OF assms(8), of mf, folded w_def]
  have o: "offset < 65536" using assms(5,7) by (cases part) auto
  have t: "?tail ! 0 = nh" "u16_at p 42 = w" "u32_at p 44 = identification" "p ! 40 = nh"
  proof -
    have e: "?tail = nh # 0 # ucast (drop_bit 8 w) # ucast w # ucast (drop_bit 24 identification) # ucast (drop_bit 16 identification)
        # ucast (drop_bit 8 identification) # ucast identification # part"
      by (simp only: putUint16_def putUint32_def append_Cons append_Nil)
    have l: "length ?tail = 8 + length part" by simp
    have q: "p ! 40 = ?tail ! 0" "p ! 42 = ?tail ! 2" "p ! 43 = ?tail ! 3" "p ! 44 = ?tail ! 4" "p ! 45 = ?tail ! 5" "p ! 46 = ?tail ! 6" "p ! 47 = ?tail ! 7"
      using r(8) [of 0] r(8) [of 2] r(8) [of 3] r(8) [of 4] r(8) [of 5] r(8) [of 6] r(8) [of 7] l
      by (simp_all del: append_Cons append_Nil append_assoc)
    show "?tail ! 0 = nh" by simp
    show "p ! 40 = nh" using q(1) by simp
    have "u16_at p 42 = getUint16 (?tail ! 2) (?tail ! 3)" using q(2,3) by (simp only: u16_at_def) simp
    then show "u16_at p 42 = w" unfolding e by (simp only: nth_Cons_numeral) simp
    have "u32_at p 44 = getUint32 (?tail ! 4) (?tail ! 5) (?tail ! 6) (?tail ! 7)" using q(4-7) by (simp only: u32_at_def) simp
    then show "u32_at p 44 = identification" unfolding e by simp
  qed
  show lp: "length p = 48 + length part" using r(7) by simp
  have "drop 48 p = drop 8 (drop 40 p)" by (simp add: drop_drop)
  then show "drop 48 p = part" unfolding r(6) by simp
  show "take 40 p = hdr6 a (of_nat (8 + length part)) 44 hop rest" unfolding p hdr6_def using assms(2,3) by simp
  let ?i = "read_fragment_header p 40 6"
  let ?walk = "empty_walk\<lparr>wk_fragment := ?i, wk_fragmentPresent := True, wk_nextHeader := p ! 40,
      wk_transportOffset := 40 + ipv6FragmentHeaderSize, wk_payloadEnd := 48 + length part, wk_fragmented := True\<rparr>"
  have i: "?i = \<lparr>fi_headerOffset = 40, fi_precedingNextHeaderFieldOffset = 6, fi_nextHeader = nh, fi_offset = offset,
      fi_moreFragments = mf, fi_identification = identification\<rparr>"
    using t(2-4) fl(1) [OF o] fl(2) [OF o] by (simp add: read_fragment_header_def Let_def)
  have c: "fi_offset ?i \<noteq> 0 \<or> fi_moreFragments ?i" using assms(10) unfolding i by auto
  have "walk_loop (Suc 15) p (48 + length part) 44 40 6 empty_walk = Some ?walk"
    by (rule walk_fragment [OF _ c]) (simp add: ipv6FragmentHeaderSize_def)
  then have w: "walkIpv6ExtensionHeaders p = Some ?walk"
    using r(1-3) n lp assms(4) by (simp add: walkIpv6ExtensionHeaders_def header_sizes Let_def ipv6MaxExtensionHeaderCount_def ip_version_def
        del: walk_loop.simps of_nat_add)
  have fw: "fragment_walk6 p = Some ?walk"
    using w r(1,3) lp assms(4) by (simp add: fragment_walk6_def header_sizes ip_version_def isIpv6ExtensionHeader_def)
  have "int (length part) mod 8 = int (length part mod 8)" by (simp add: zmod_int)
  then have "\<not> (mf \<and> int (length part) mod 8 \<noteq> 0)" by (cases mf) (simp_all add: assms(9))
  then have "parse_fragment6 p ?walk =
      Some (\<lparr>rf_packet = p, rf_headerByteCount = 40, rf_offset = offset, rf_payloadByteCount = length part\<rparr>, mf)"
    using assms(5,7) lp by (simp add: parse_fragment6_def Let_def i header_sizes ipv6FragmentHeaderSize_def)
  moreover have "fragment_key6 source transferKey provideMode p ?walk =
        \<lparr>k6_source = source, k6_transferKey = transferKey, k6_provideMode = provideMode, k6_sourceIp = take 16 rest,
         k6_destinationIp = drop 16 rest, k6_identification = identification\<rparr>"
    using r(4,5) by (simp add: fragment_key6_def i)
  ultimately show "\<exists>walk. fragment_walk6 p = Some walk
    \<and> parse_fragment6 p walk = Some (\<lparr>rf_packet = p, rf_headerByteCount = 40, rf_offset = offset, rf_payloadByteCount = length part\<rparr>, mf)
    \<and> fragment_key6 source transferKey provideMode p walk =
        \<lparr>k6_source = source, k6_transferKey = transferKey, k6_provideMode = provideMode, k6_sourceIp = take 16 rest,
         k6_destinationIp = drop 16 rest, k6_identification = identification\<rparr>
    \<and> fi_precedingNextHeaderFieldOffset (wk_fragment walk) = 6 \<and> fi_nextHeader (wk_fragment walk) = nh"
    using fw by (intro exI [of _ ?walk]) (simp add: i)
qed

definition feed6 ::
  "('s, 't, 'm) order6 \<Rightarrow> (nat \<Rightarrow> bytes) \<Rightarrow> 's \<Rightarrow> 't \<Rightarrow> 'm \<Rightarrow> idSource \<Rightarrow> (bytes \<times> int) list
   \<Rightarrow> ('s, 't, 'm) ipv6FragmentReassembler \<Rightarrow> ipFragmentProcessResult option list \<times> ('s, 't, 'm) ipv6FragmentReassembler" where
  "feed6 order dirt source transferKey provideMode ids =
     feed (\<lambda>packet now r.
       case processResultAt6 order dirt source transferKey provideMode packet now False ids r of
         None \<Rightarrow> (None, r)
       | Some (result, _, r) \<Rightarrow> (Some result, r))"

lemma feed6_parts:
  assumes "parts ipv6FragmentHeaderSize 40 n G"
    and g: "\<And>g. g \<in> set G \<Longrightarrow> \<exists>walk. fragment_walk6 (rf_packet g) = Some walk
      \<and> parse_fragment6 (rf_packet g) walk = Some (g, rf_end g \<noteq> n)
      \<and> fragment_key6 source transferKey provideMode (rf_packet g) walk = key
      \<and> fi_precedingNextHeaderFieldOffset (wk_fragment walk) = 6 \<and> fi_nextHeader (wk_fragment walk) = nh"
    and "n \<le> 65535" "charge G \<le> M" "0 < Q \<Longrightarrow> charge G \<le> Q" "0 < M" "empty_store k6_source key M Q r"
    and "mset (map fst steps) = mset (map rf_packet G)"
      "\<forall>(p, now) \<in> set steps. now - snd (hd steps) < ipv4FragmentReassemblyTimeout"
    and fin: "\<And>d. dg_fragments d = G \<Longrightarrow> dg_firstHeaderByteCount d = 40 \<Longrightarrow> dg_finalPayloadByteCount d = int n
      \<Longrightarrow> fragmentDatagram.more d = ipv6FragmentDatagram.fields 6 nh \<Longrightarrow> reassemble6 dirt d = whole"
  shows "\<exists>r'. feed6 order dirt source transferKey provideMode ids steps r =
      (replicate (length steps - 1) (Some kept) @ [Some (completed whole [])], r') \<and> fr_datagrams r' = []"
proof -
  let ?proc = "\<lambda>packet now r.
      case processResultAt6 order dirt source transferKey provideMode packet now False ids r of
         None \<Rightarrow> (None, r) | Some (result, _, r) \<Rightarrow> (Some result, r)"
  let ?x = "ipv6FragmentDatagram.fields 6 nh" and ?fresh = "ipv6FragmentDatagram.fields 0 0"
  define t0 where "t0 = snd (hd steps)"
  let ?I = "part_state k6_source key 40 n ?x ?fresh t0 M Q"
  have inv: "fst (the (parse_fragment6 (rf_packet x) (the (fragment_walk6 (rf_packet x))))) = x" if "x \<in> set G" for x
    using g [OF that] by auto
  have st: "\<exists>r'. ?proc (rf_packet g) now r = (if set (g # ps) = set G then Some (completed whole []) else Some kept, r')
        \<and> (if set (g # ps) = set G then fr_datagrams r' = [] else ?I (g # ps) r')"
    if a: "g \<in> set G" "g \<notin> set ps" "set ps \<subseteq> set G" "distinct ps" "?I ps r" "now - t0 < ipv4FragmentReassemblyTimeout" "ps = [] \<Longrightarrow> now = t0"
    for g ps now r
  proof -
    have tl: "\<not> tooLong6 40 (- 1)" "\<not> tooLong6 40 (int n)" using assms(3) by (auto simp: tooLong6_def header_sizes)
    obtain walk where w: "fragment_walk6 (rf_packet g) = Some walk" "parse_fragment6 (rf_packet g) walk = Some (g, rf_end g \<noteq> n)"
      "fragment_key6 source transferKey provideMode (rf_packet g) walk = key"
      "fi_precedingNextHeaderFieldOffset (wk_fragment walk) = 6" "fi_nextHeader (wk_fragment walk) = nh"
      using g [OF a(1)] by blast
    have sf: "fragmentDatagram.more (setFirst6 (wk_fragment walk) d) = ?x" for d :: ipv6FragmentDatagram
      using w(4,5) by (cases d) (simp add: setFirst6_def ipv6FragmentDatagram.defs)
    obtain r1 d where s: "process_fragment ipv6FragmentHeaderSize (setFirst6 (wk_fragment walk)) tooLong6 ?fresh k6_source order now key
          (int (length (rf_packet g))) g (rf_end g \<noteq> n) r =
         (if set (g # ps) = set G then CoreComplete d else CoreKept, True, r1)" "?I (g # ps) r1" "fr_datagrams r1 = [(key, d)]"
      "set (g # ps) = set G \<longrightarrow> dg_fragments d = G \<and> dg_firstHeaderByteCount d = 40 \<and> dg_finalPayloadByteCount d = int n
        \<and> fragmentDatagram.more d = ?x"
      using part_state_step [where setFirst = "setFirst6 (wk_fragment walk)" and tooLong = tooLong6 and order = order,
          OF assms(1) a(1-5,7) keeps_common_simps(2) sf tl assms(4,5)] by blast
    have "processResultAt6 order dirt source transferKey provideMode (rf_packet g) now False ids r =
        (if set (g # ps) = set G then Some (completed whole [], ids, releaseDatagram k6_source key r1) else Some (kept, ids, r1))"
      unfolding processResultAt6_fragment [OF w(1,2)] w(3)
      using s(1,4) part_state_ready [OF a(5,6) assms(6)] fin [of d] by auto
    then show ?thesis using s(2) release_single [OF s(3)] by auto
  qed
  have i0: "?I [] r" using assms(7) by (simp add: part_state_def)
  show ?thesis
    unfolding feed6_def
    by (rule feed_permuted [where I = ?I, OF st assms(1) inv assms(8) _ t0_def i0]) (use assms(9) in \<open>simp_all add: t0_def\<close>)
qed

definition part6 :: "(nat \<Rightarrow> bytes) \<Rightarrow> bytes \<Rightarrow> uint32 \<Rightarrow> bytes \<times> nat \<times> bool \<Rightarrow> retainedFragment" where
  "part6 dirt header identification = (\<lambda>(part, offset, mf).
     \<lparr>rf_packet = make_fragment6 dirt header identification part offset mf, rf_headerByteCount = 40,
      rf_offset = offset, rf_payloadByteCount = length part\<rparr>)"

lemma parts6:
  assumes "header = hdr6 a l nh hop rest" "length a = 4" "length rest = 32" "drop_bit 4 (a ! 0) = 6"
    "length payload \<le> 65535" "8 \<le> sz" "8 dvd sz" "sz < length payload" "8 + sz \<le> 65535" "length (chunks payload sz 0) \<le> 64"
    "G = map (part6 dirt header identification) (chunks payload sz 0)"
    "key = \<lparr>k6_source = source, k6_transferKey = transferKey, k6_provideMode = provideMode, k6_sourceIp = take 16 rest,
       k6_destinationIp = drop 16 rest, k6_identification = identification\<rparr>"
  shows "parts ipv6FragmentHeaderSize 40 (length payload) G" "concat (map (rf_payload ipv6FragmentHeaderSize) G) = payload"
    "take 40 (rf_packet (hd G)) = hdr6 a (of_nat (8 + sz)) 44 hop rest"
    "g \<in> set G \<Longrightarrow> (\<exists>walk. fragment_walk6 (rf_packet g) = Some walk \<and> parse_fragment6 (rf_packet g) walk = Some (g, rf_end g \<noteq> length payload)
      \<and> fragment_key6 source transferKey provideMode (rf_packet g) walk = key
      \<and> fi_precedingNextHeaderFieldOffset (wk_fragment walk) = 6 \<and> fi_nextHeader (wk_fragment walk) = nh)
      \<and> length (rf_packet g) \<le> 48 + sz"
proof -
  let ?P = "part6 dirt header identification"
  have sz: "0 < sz" using assms(6) by simp
  have e: "(\<exists>walk. fragment_walk6 (rf_packet (?P x)) = Some walk \<and> parse_fragment6 (rf_packet (?P x)) walk = Some (?P x, snd (snd x))
      \<and> fragment_key6 source transferKey provideMode (rf_packet (?P x)) walk = key
      \<and> fi_precedingNextHeaderFieldOffset (wk_fragment walk) = 6 \<and> fi_nextHeader (wk_fragment walk) = nh)"
    "length (rf_packet (?P x)) = 48 + length (fst x)" "drop 48 (rf_packet (?P x)) = fst x"
    "take 40 (rf_packet (?P x)) = hdr6 a (of_nat (8 + length (fst x))) 44 hop rest"
    "fst x \<noteq> []" "snd (snd x) \<longleftrightarrow> rf_end (?P x) \<noteq> length payload" "length (fst x) \<le> sz"
    if "x \<in> set (chunks payload sz 0)" for x
  proof -
    obtain part o' mf where x: "x = (part, o', mf)" by (cases x) auto
    note f = chunks_facts [OF sz that [unfolded x]]
    have b: "part \<noteq> []" "8 + length part \<le> 65535" "o' + length part \<le> 65535" "8 dvd o'" "mf \<Longrightarrow> 8 dvd length part" "mf \<or> o' \<noteq> 0"
      using f assms(5,7-9) by auto
    note r = parse_made6 [where mf = mf and dirt = dirt and identification = identification, OF assms(1-4) b refl]
    have q: "?P (part, o', mf) = \<lparr>rf_packet = make_fragment6 dirt header identification part o' mf, rf_headerByteCount = 40,
        rf_offset = o', rf_payloadByteCount = length part\<rparr>" by (simp add: part6_def)
    show "(\<exists>walk. fragment_walk6 (rf_packet (?P x)) = Some walk \<and> parse_fragment6 (rf_packet (?P x)) walk = Some (?P x, snd (snd x))
      \<and> fragment_key6 source transferKey provideMode (rf_packet (?P x)) walk = key
      \<and> fi_precedingNextHeaderFieldOffset (wk_fragment walk) = 6 \<and> fi_nextHeader (wk_fragment walk) = nh)"
      using r(1) [of source transferKey provideMode] by (simp add: q x assms(12))
    show "length (rf_packet (?P x)) = 48 + length (fst x)" "drop 48 (rf_packet (?P x)) = fst x"
      "take 40 (rf_packet (?P x)) = hdr6 a (of_nat (8 + length (fst x))) 44 hop rest"
      unfolding x q using r(2-4) by (simp_all del: of_nat_add)
    show "fst x \<noteq> []" "snd (snd x) \<longleftrightarrow> rf_end (?P x) \<noteq> length payload" "length (fst x) \<le> sz"
      unfolding x q using f by (auto simp: rf_end_def)
  qed
  have tile: "tiles 0 G = Some (length payload)" unfolding assms(11) by (rule chunks_tile [OF sz]) (simp_all add: part6_def)
  have two: "2 \<le> length (chunks payload sz 0)" using chunks_many [OF sz assms(8)] .
  have fo: "frag_ok ipv6FragmentHeaderSize (?P x) \<and> rf_headerByteCount (?P x) = 40 \<and> rf_payload ipv6FragmentHeaderSize (?P x) = fst x"
    if "x \<in> set (chunks payload sz 0)" for x
  proof -
    have "rf_headerByteCount (?P x) = 40 \<and> rf_payloadByteCount (?P x) = length (fst x)" by (simp add: part6_def case_prod_beta)
    then show ?thesis using e(2,3,5) [OF that] by (simp add: frag_ok_def rf_payload_def subslice_def ipv6FragmentHeaderSize_def)
  qed
  show "parts ipv6FragmentHeaderSize 40 (length payload) G"
    unfolding parts_def using tile two assms(10) fo by (auto simp: assms(11) ipv4FragmentReassemblyMaxFragments_def)
  have "map (rf_payload ipv6FragmentHeaderSize) G = map fst (chunks payload sz 0)" unfolding assms(11) using fo by simp
  then show "concat (map (rf_payload ipv6FragmentHeaderSize) G) = payload" using chunks_concat [OF sz, of 0 payload] by simp
  show "(\<exists>walk. fragment_walk6 (rf_packet g) = Some walk \<and> parse_fragment6 (rf_packet g) walk = Some (g, rf_end g \<noteq> length payload)
      \<and> fragment_key6 source transferKey provideMode (rf_packet g) walk = key
      \<and> fi_precedingNextHeaderFieldOffset (wk_fragment walk) = 6 \<and> fi_nextHeader (wk_fragment walk) = nh)
      \<and> length (rf_packet g) \<le> 48 + sz" if gG: "g \<in> set G"
  proof -
    obtain x where x: "x \<in> set (chunks payload sz 0)" "g = ?P x" using gG unfolding assms(11) by auto
    show ?thesis using e(1,2,6,7) [OF x(1)] unfolding x(2) by auto
  qed
  have "\<exists>cs. chunks payload sz 0 = (take sz payload, 0, True) # cs"
    using sz assms(8) by (subst chunks.simps) (auto simp: Let_def subslice_def)
  then obtain cs where cs: "chunks payload sz 0 = (take sz payload, 0, True) # cs" by blast
  then have "hd G = ?P (take sz payload, 0, True)" by (simp add: assms(11))
  then show "take 40 (rf_packet (hd G)) = hdr6 a (of_nat (8 + sz)) 44 hop rest"
    using e(4) [of "(take sz payload, 0, True)"] cs assms(8) by (simp del: of_nat_add)
qed

lemma reassemble6_layout:
  assumes "complete ipv6FragmentHeaderSize d" "take 40 (rf_packet (hd (dg_fragments d))) = hdr6 a t x hop rest"
    "length a = 4" "dg_firstHeaderByteCount d = 40" "dg_finalPayloadByteCount d = int n"
    "fragmentDatagram.more d = ipv6FragmentDatagram.fields 6 nh"
  shows "reassemble6 dirt d = hdr6 a (of_nat n) nh hop rest @ concat (map (rf_payload ipv6FragmentHeaderSize) (dg_fragments d))"
proof -
  let ?P = "concat (map (rf_payload ipv6FragmentHeaderSize) (dg_fragments d))"
  have more: "dg_firstNextHeaderFieldOffset d = 6" "dg_firstNextHeader d = nh"
    using assms(6) by (cases d; simp add: ipv6FragmentDatagram.defs)+
  have s: "assemble ipv6FragmentHeaderSize dirt d = hdr6 a t x hop rest @ ?P"
    using assemble_complete(1) [OF assms(1)] assms(2,4) by simp
  have "(hdr6 a t x hop rest @ ?P)[6 := nh] = hdr6 a t nh hop rest @ ?P"
    using assms(3) by (simp add: hdr6_def list_update_append putUint16_def)
  then show ?thesis
    using assms(3,4,5) s more
    by (simp add: reassemble6_def Let_def header_sizes hdr6_def put_at_blocks)
qed

lemma fragments6_setup:
  assumes "fragmentIpv6Packet dirt packet mtu ids = Some (Inr frs, ids')" "n = unat (u16_at packet 4)"
  obtains sz a nh hop rest identification where
    "nextIpv6FragmentIdentification ids = Some (identification, ids')"
    "take 40 packet = hdr6 a (of_nat n) nh hop rest" "length a = 4" "length rest = 32" "drop_bit 4 (a ! 0) = 6"
    "40 + n \<le> length packet" "8 \<le> sz" "8 dvd sz" "int (48 + sz) \<le> mtu"
    "frs = map rf_packet (map (part6 dirt (take 40 packet) identification) (chunks (subslice 40 (40 + n) packet) sz 0))"
proof -
  let ?z = "(mtu - 40 - 8) AND NOT 7"
  have c: "40 \<le> length packet" "ip_version packet = 6" "40 + n \<le> length packet" "8 \<le> ?z"
    using assms(1) unfolding assms(2)
    by (auto simp: fragmentIpv6Packet_def Let_def header_sizes ipv6FragmentHeaderSize_def bind_eq_Some_conv split: if_splits)
  obtain identification where ident: "nextIpv6FragmentIdentification ids = Some (identification, ids')"
    "frs = fragment_loop (make_fragment6 dirt (take 40 packet) identification) (subslice 40 (40 + n) packet) (nat ?z) 0"
    using assms(1) unfolding assms(2)
    by (auto simp: fragmentIpv6Packet_def Let_def header_sizes ipv6FragmentHeaderSize_def bind_eq_Some_conv split: if_splits)
  note q = and_not_7_size [OF c(4)]
  have z: "8 \<le> nat ?z" "8 dvd nat ?z" "int (48 + nat ?z) \<le> mtu" using c(4) q by linarith+
  have frs: "frs = map rf_packet (map (part6 dirt (take 40 packet) identification) (chunks (subslice 40 (40 + n) packet) (nat ?z) 0))"
    unfolding ident(2) fragment_loop_chunks by (simp add: part6_def case_prod_beta comp_def)
  have "length (take 40 packet) = 40" using c(1) by simp
  then obtain a l nh hop rest where h: "take 40 packet = hdr6 a l nh hop rest" "length a = 4" "length rest = 32"
    using hdr6_split by metis
  have p: "packet = hdr6 a l nh hop rest @ drop 40 packet" by (metis append_take_drop_id h(1))
  note r = hdr6_reads [OF h(2,3) p]
  have "l = of_nat n" using r(2) assms(2) by simp
  then show thesis using that ident(1) h r(1) c z frs by (simp add: ip_version_def)
qed

section \<open>Property of the IPv6 path\<close>

text \<open>
  C32. IPv6 fragments of a packet reassemble to the packet in any order. A packet that is
  fragmented for a link of at most 65535 bytes into two to 64 fragments, which reach a fresh
  reassembler with room for their bytes, each exactly once, in any order, none later than the
  reassembly timeout after the first, comes back unchanged byte for byte (up to its declared
  end), with the last fragment to arrive; every other fragment is retained without a result, and
  the reassembler is left without datagrams. The restored next header and payload length come
  out of the fragment header and the reassembled size, not out of a saved copy.
\<close>

theorem fragments6_reassemble:
  assumes "fragmentIpv6Packet dirt packet mtu ids = Some (Inr frs, ids')" "mtu \<le> 65535" "2 \<le> length frs" "length frs \<le> 64"
    "steps_of steps frs" "fresh_reassembler r" "room_for frs r"
  shows "\<exists>r'. feed6 order dirt' source transferKey provideMode ids'' steps r =
      (replicate (length frs - 1) (Some kept) @ [Some (completed (take (40 + unat (u16_at packet 4)) packet) [])], r')
    \<and> fr_datagrams r' = []"
proof -
  define n where "n = unat (u16_at packet 4)"
  let ?pl = "subslice 40 (40 + n) packet"
  obtain sz a nh hop rest identification where s:
    "nextIpv6FragmentIdentification ids = Some (identification, ids')"
    "take 40 packet = hdr6 a (of_nat n) nh hop rest" "length a = 4" "length rest = 32" "drop_bit 4 (a ! 0) = 6"
    "40 + n \<le> length packet" "8 \<le> sz" "8 dvd sz" "int (48 + sz) \<le> mtu"
    "frs = map rf_packet (map (part6 dirt (take 40 packet) identification) (chunks ?pl sz 0))"
    using fragments6_setup [OF assms(1) n_def] .
  have pl: "length ?pl = n" using s(6) by (simp add: subslice_def)
  have n: "n \<le> 65535" using unsigned_less [where 'a = nat, of "u16_at packet 4"] by (simp add: n_def)
  have lf: "length frs = length (chunks ?pl sz 0)" using s(10) by simp
  have lt: "sz < length ?pl"
  proof (rule ccontr)
    assume "\<not> sz < length ?pl"
    then have "length (chunks ?pl sz 0) \<le> 1" using s(7) by (intro chunks_few) simp_all
    then show False using lf assms(3) by simp
  qed
  define G where "G = map (part6 dirt (take 40 packet) identification) (chunks ?pl sz 0)"
  let ?key = "\<lparr>k6_source = source, k6_transferKey = transferKey, k6_provideMode = provideMode, k6_sourceIp = take 16 rest,
       k6_destinationIp = drop 16 rest, k6_identification = identification\<rparr>"
  have b: "length ?pl \<le> 65535" "8 + sz \<le> 65535" "length (chunks ?pl sz 0) \<le> 64" using n pl s(9) assms(2,4) lf by simp_all
  note g = parts6 [OF s(2-5) b(1) s(7,8) lt b(2,3) G_def refl [of ?key], unfolded pl]
  have "0 < length (rf_packet x)" if "x \<in> set G" for x using g(1) that by (auto simp: parts_def frag_ok_def)
  moreover have "G \<noteq> []" using g(1) by (simp add: parts_def)
  ultimately have "0 < charge G" by (cases G) (auto simp: add_pos_nonneg)
  moreover have M: "charge G \<le> fr_maxRetainedBytes r"
    "0 < fr_maxRetainedBytesPerSource r \<Longrightarrow> charge G \<le> fr_maxRetainedBytesPerSource r"
    using assms(7) unfolding room_for_def s(10) G_def [symmetric] charge_map by simp_all
  ultimately have M0: "0 < fr_maxRetainedBytes r" by simp
  have empty: "empty_store k6_source ?key (fr_maxRetainedBytes r) (fr_maxRetainedBytesPerSource r) r"
    using assms(6) by (simp add: fresh_reassembler_def empty_store_def retainedBytesForSource_def)
  have whole: "reassemble6 dirt' d = take (40 + n) packet"
    if d: "dg_fragments d = G" "dg_firstHeaderByteCount d = 40" "dg_finalPayloadByteCount d = int n"
      "fragmentDatagram.more d = ipv6FragmentDatagram.fields 6 nh" for d
  proof -
    have t: "take 40 (rf_packet (hd (dg_fragments d))) = hdr6 a (of_nat (8 + sz)) 44 hop rest" using g(3) by (simp add: d)
    have "reassemble6 dirt' d = hdr6 a (of_nat n) nh hop rest @ ?pl"
      using reassemble6_layout [OF parts_complete [OF g(1) d(1-3)] t s(3) d(2-4)] g(2) d(1) by simp
    also have "\<dots> = take 40 packet @ take n (drop 40 packet)" by (simp add: s(2) [symmetric] subslice_def)
    also have "\<dots> = take (40 + n) packet" by (simp only: take_add)
    finally show ?thesis .
  qed
  have st: "mset (map fst steps) = mset (map rf_packet G)"
    "\<forall>(p, now) \<in> set steps. now - snd (hd steps) < ipv4FragmentReassemblyTimeout"
    using assms(5) unfolding steps_of_def s(10) G_def by simp_all
  note result = feed6_parts [where order = order and ids = ids'', OF g(1) g(4) [THEN conjunct1] n M M0 empty st whole]
  have ls: "length steps = length frs" using st(1) s(10) G_def by (metis length_map size_mset)
  show ?thesis using result unfolding ls n_def [symmetric] by blast
qed

text \<open>A UDP packet whose 24 bytes of payload are cut into 16 and 8 bytes for a link of 64 bytes.\<close>

definition example_packet6 :: bytes where
  "example_packet6 = [0x60, 0, 0, 0, 0, 24, 17, 64] @ replicate 16 1 @ replicate 16 2 @ map of_nat [1..<25]"

definition example_fragments6 :: "bytes list" where
  "example_fragments6 =
     (case fragmentIpv6Packet (\<lambda>_. []) example_packet6 64 example_ids of Some (Inr frs, _) \<Rightarrow> frs | _ \<Rightarrow> [])"

lemma example_fragments6_made:
  "\<exists>ids'. fragmentIpv6Packet (\<lambda>_. []) example_packet6 64 example_ids = Some (Inr example_fragments6, ids')"
  "length example_fragments6 = 2" "map length example_fragments6 = [64, 56]"
proof -
  have "case fragmentIpv6Packet (\<lambda>_. []) example_packet6 64 example_ids of Some (Inr frs, _) \<Rightarrow> True | _ \<Rightarrow> False" by code_simp
  then show "\<exists>ids'. fragmentIpv6Packet (\<lambda>_. []) example_packet6 64 example_ids = Some (Inr example_fragments6, ids')"
    by (auto simp: example_fragments6_def split: sum.splits prod.splits option.splits)
  show "length example_fragments6 = 2" by code_simp
  show "map length example_fragments6 = [64, 56]" by code_simp
qed

theorem fragments6_reassemble_witness:
  "length example_fragments6 = 2
   \<and> (\<exists>r'. feed6 id (\<lambda>_. []) () () () example_ids [(example_fragments6 ! 1, 100), (example_fragments6 ! 0, 103)]
        newIpv6FragmentReassembler = ([Some kept, Some (completed example_packet6 [])], r') \<and> fr_datagrams r' = [])"
proof -
  note m = example_fragments6_made
  obtain ids' where i: "fragmentIpv6Packet (\<lambda>_. []) example_packet6 64 example_ids = Some (Inr example_fragments6, ids')" using m(1) ..
  obtain p q where f: "example_fragments6 = [p, q]" "length p + length q = 120"
    using m(2,3) by (auto simp: numeral_eq_Suc length_Suc_conv)
  have s: "steps_of [(example_fragments6 ! 1, 100), (example_fragments6 ! 0, 103)] example_fragments6"
    by (simp add: f steps_of_def ipv4FragmentReassemblyTimeout_def)
  have r: "fresh_reassembler (newIpv6FragmentReassembler :: (unit, unit, unit) ipv6FragmentReassembler)"
    "room_for example_fragments6 (newIpv6FragmentReassembler :: (unit, unit, unit) ipv6FragmentReassembler)"
    using f(2) by (simp_all add: f fresh_reassembler_def room_for_def newIpv6FragmentReassembler_def newFragmentReassembler_def
      ipv4FragmentReassemblyMaxRetainedBytes_def)
  have "take (40 + unat (u16_at example_packet6 4)) example_packet6 = example_packet6" by code_simp
  then show ?thesis
    using fragments6_reassemble [OF i _ _ _ s r, of id "\<lambda>_. []" "()" "()" "()" example_ids] m(2) by simp
qed

section \<open>What every fragment satisfies\<close>

lemma part4_shape:
  assumes "20 \<le> length header"
  shows "length (rf_packet (part4 dirt header identification x)) = length header + length (fst x)"
    "drop (length header) (rf_packet (part4 dirt header identification x)) = fst x"
proof -
  obtain part offset mf where x: "x = (part, offset, mf)" by (cases x) auto
  have "12 \<le> length header" using assms by simp
  then obtain a l i f m c rest where h: "header = hdr4 a l i f m c rest" "length a = 2" "length m = 2" using hdr4_split by metis
  have "length header = length (hdr4 a l' i' f' m c' rest)" for l' i' f' c' using h by simp
  then show "length (rf_packet (part4 dirt header identification x)) = length header + length (fst x)"
    "drop (length header) (rf_packet (part4 dirt header identification x)) = fst x"
    using make_fragment4_layout [OF h, of dirt identification part offset mf] by (simp_all add: x part4_def Let_def)
qed

lemma part6_shape:
  assumes "length header = 40"
  shows "length (rf_packet (part6 dirt header identification x)) = 48 + length (fst x)"
    "drop 48 (rf_packet (part6 dirt header identification x)) = fst x"
proof -
  obtain part offset mf where x: "x = (part, offset, mf)" by (cases x) auto
  obtain a l nh hop rest where h: "header = hdr6 a l nh hop rest" "length a = 4" "length rest = 32" using hdr6_split [OF assms] by metis
  show "length (rf_packet (part6 dirt header identification x)) = 48 + length (fst x)"
    "drop 48 (rf_packet (part6 dirt header identification x)) = fst x"
    using make_fragment6_layout [OF h(1) [unfolded hdr6_def] h(2,3), of dirt identification part offset mf] h(2,3)
    by (simp_all add: x part6_def)
qed

lemma chunked_fragments:
  assumes "0 < sz" "\<And>x. length (rf_packet (build x)) = k + length (fst x)" "\<And>x. drop k (rf_packet (build x)) = fst x" "int (k + sz) \<le> mtu"
  shows "\<forall>p \<in> set (map rf_packet (map build (chunks payload sz 0))). int (length p) \<le> mtu"
    "concat (map (drop k) (map rf_packet (map build (chunks payload sz 0)))) = payload"
proof -
  have "int (k + length (fst x)) \<le> mtu" if "x \<in> set (chunks payload sz 0)" for x
  proof -
    obtain part o' mf where x: "x = (part, o', mf)" by (cases x) auto
    show ?thesis using chunks_facts [OF assms(1) that [unfolded x]] assms(4) x by auto
  qed
  then show "\<forall>p \<in> set (map rf_packet (map build (chunks payload sz 0))). int (length p) \<le> mtu" using assms(2) by auto
  have "map (drop k) (map rf_packet (map build (chunks payload sz 0))) = map fst (chunks payload sz 0)" using assms(3) by simp
  then show "concat (map (drop k) (map rf_packet (map build (chunks payload sz 0)))) = payload"
    using chunks_concat [OF assms(1), of 0 payload] by (simp only:) simp
qed

text \<open>
  C35. Fragments fit the link and carry the payload. Whenever a fragmenter returns fragments, not
  one of them is longer than the MTU it was given, and the bytes behind the headers are, in
  order, exactly the bytes behind the header of the packet: for IPv4 everything after the header
  with its options, for IPv6 everything from the fixed header to the declared end.
\<close>

theorem fragments_fit:
  "(fragmentIpv4Packet dirt packet mtu ids = (Inr frs, ids') \<longrightarrow>
      (\<forall>p \<in> set frs. int (length p) \<le> mtu)
    \<and> concat (map (drop (unat (packet ! 0 AND 0x0f) * 4)) frs) = drop (unat (packet ! 0 AND 0x0f) * 4) packet)
   \<and> (fragmentIpv6Packet dirt packet mtu ids = Some (Inr frs, ids') \<longrightarrow>
      (\<forall>p \<in> set frs. int (length p) \<le> mtu)
    \<and> concat (map (drop (Ipv6HeaderSize + ipv6FragmentHeaderSize)) frs) =
        subslice Ipv6HeaderSize (Ipv6HeaderSize + unat (u16_at packet 4)) packet)"
proof (intro conjI impI)
  let ?h = "unat (packet ! 0 AND 0x0f) * 4"
  assume "fragmentIpv4Packet dirt packet mtu ids = (Inr frs, ids')"
  then obtain sz where s: "frs = map rf_packet (map (part4 dirt (take ?h packet) (fst (nextIpv4FragmentIdentification ids))) (chunks (drop ?h packet) sz 0))"
    "8 \<le> sz" "8 dvd sz" "int (?h + sz) \<le> mtu" "20 \<le> ?h" "?h \<le> length packet" "ip_version packet = 4"
    using fragmentIpv4Packet_parts [OF _ refl] by metis
  have l: "length (take ?h packet) = ?h" "20 \<le> length (take ?h packet)" using s(5,6) by simp_all
  note p = part4_shape [OF l(2), unfolded l(1)]
  have sz: "0 < sz" using s(2) by simp
  show "\<forall>p \<in> set frs. int (length p) \<le> mtu" "concat (map (drop ?h) frs) = drop ?h packet"
    unfolding s(1) using chunked_fragments [where build = "part4 dirt (take ?h packet) (fst (nextIpv4FragmentIdentification ids))", OF sz p s(4)]
    by blast+
next
  assume "fragmentIpv6Packet dirt packet mtu ids = Some (Inr frs, ids')"
  then obtain sz identification where s: "40 \<le> length packet" "8 \<le> sz" "int (48 + sz) \<le> mtu"
    "frs = map rf_packet (map (part6 dirt (take 40 packet) identification) (chunks (subslice 40 (40 + unat (u16_at packet 4)) packet) sz 0))"
    using fragments6_setup [OF _ refl] by (metis add_leD1)
  have l: "length (take 40 packet) = 40" using s(1) by simp
  note p = part6_shape [OF l]
  have sz: "0 < sz" using s(2) by simp
  show "\<forall>p \<in> set frs. int (length p) \<le> mtu"
    "concat (map (drop (Ipv6HeaderSize + ipv6FragmentHeaderSize)) frs) =
        subslice Ipv6HeaderSize (Ipv6HeaderSize + unat (u16_at packet 4)) packet"
    unfolding s(4) using chunked_fragments [where build = "part6 dirt (take 40 packet) identification", OF sz p s(3)]
    by (simp_all add: header_sizes ipv6FragmentHeaderSize_def)
qed

theorem fragments_fit_witness:
  "list_all (\<lambda>p. length p \<le> 36) example_fragments4 \<and> concat (map (drop 20) example_fragments4) = drop 20 example_packet4
   \<and> list_all (\<lambda>p. length p \<le> 64) example_fragments6 \<and> concat (map (drop 48) example_fragments6) = drop 40 example_packet6"
proof -
  obtain i4 where i4: "fragmentIpv4Packet (\<lambda>_. []) example_packet4 36 example_ids = (Inr example_fragments4, i4)"
    using example_fragments4_made(1) ..
  obtain i6 where i6: "fragmentIpv6Packet (\<lambda>_. []) example_packet6 64 example_ids = Some (Inr example_fragments6, i6)"
    using example_fragments6_made(1) ..
  have h: "unat (example_packet4 ! 0 AND 0x0f) * 4 = 20" using example_fragments4_made(2) by (simp add: whole_packet4_def)
  have "subslice 40 (40 + unat (u16_at example_packet6 4)) example_packet6 = drop 40 example_packet6" by code_simp
  then show ?thesis
    using fragments_fit [of "\<lambda>_. []" example_packet4 36 example_ids example_fragments4 i4]
      fragments_fit [of "\<lambda>_. []" example_packet6 64 example_ids example_fragments6 i6] i4 i6
    by (simp add: h list_all_iff header_sizes ipv6FragmentHeaderSize_def)
qed

end
