(* ===== verification/Fragment_Cache.thy ===== *)
theory Fragment_Cache
  imports Fragment_Roundtrip6
begin

text \<open>
  What holds of a reassembler after any sequence of operations: how much it retains, that its
  limits stay what they were set to, and that no byte of a recycled buffer gets into a packet.
\<close>

unbundle bit_operations_syntax

section \<open>The limits\<close>

definition limits :: "('k, 's, 'd) fragmentReassembler \<Rightarrow> int \<times> int" where
  "limits r = (fr_maxRetainedBytes r, fr_maxRetainedBytesPerSource r)"

lemma limits_update [simp]:
  "limits (r\<lparr>fr_datagrams := x\<rparr>) = limits r" "limits (r\<lparr>fr_retainedByteCount := n\<rparr>) = limits r"
  "limits (r\<lparr>fr_retainedBytesBySource := m\<rparr>) = limits r"
  by (simp_all add: limits_def)

lemma limits_fold: "(\<And>x r. limits (f x r) = limits r) \<Longrightarrow> limits (fold f xs r) = limits r"
  by (induction xs arbitrary: r) simp_all

lemma limits_release [simp]:
  "limits (snd (detachDatagram src key r)) = limits r" "limits (releaseDatagram src key r) = limits r"
proof -
  have u: "limits (uncharge s f q) = limits q" for s f and q :: "('k, 's, 'd) fragmentReassembler"
    by (simp add: uncharge_def Let_def)
  show "limits (snd (detachDatagram src key r)) = limits r"
    by (simp add: detachDatagram_def limits_fold u split: option.split)
  then show "limits (releaseDatagram src key r) = limits r" by (simp add: releaseDatagram_def)
qed

lemma limits_expire [simp]: "limits (expire src now r) = limits r" "limits (closeReassembler src r) = limits r"
  unfolding expire_def closeReassembler_def by (rule limits_fold; auto)+

lemma limits_oldest [simp]:
  "limits (snd (releaseOldestDatagram src order exclude r)) = limits r"
  "limits (snd (releaseOldestDatagramForSource src order s r)) = limits r"
  by (simp_all add: releaseOldestDatagram_def releaseOldestDatagramForSource_def split: option.split)

lemma limits_evict_loop: "(\<And>r. limits (snd (release r)) = limits r) \<Longrightarrow> limits (snd (evict_loop n over release r)) = limits r"
proof (induction n arbitrary: r)
  case (Suc n)
  obtain found r' where r: "release r = (found, r')" by (cases "release r")
  then have "limits r' = limits r" using Suc.prems [of r] by simp
  then show ?case using Suc r by simp
qed simp

lemma limits_evict [simp]:
  "limits (snd (evict over (releaseOldestDatagram src order exclude) r)) = limits r"
  "limits (snd (evict over (releaseOldestDatagramForSource src order s) r)) = limits r"
  unfolding evict_def by (rule limits_evict_loop; simp)+

lemma limits_evicted:
  "evict over (releaseOldestDatagram src order exclude) r = (room, r') \<Longrightarrow> limits r' = limits r"
  "evict over (releaseOldestDatagramForSource src order s) r = (room, r') \<Longrightarrow> limits r' = limits r"
  by (metis limits_evict(1) snd_conv, metis limits_evict(2) snd_conv)

lemma limits_room [simp]: "limits (makeDatagramRoom src order now r) = limits r"
  by (simp add: makeDatagramRoom_def)

lemma limits_admit:
  "case admit_fragment src order fresh now key cost r of
     Refused q \<Rightarrow> limits q = limits r | Overflowed q \<Rightarrow> limits q = limits r | Admitted d q \<Rightarrow> limits q = limits r"
  by (auto simp: admit_fragment_def Let_def dest!: limits_evicted split: option.split prod.split)

lemma limits_retain [simp]: "limits (snd (retain_fragment src key now f d r)) = limits r"
  "limits (snd (check_complete key d r)) = limits r"
  by (simp_all add: retain_fragment_def check_complete_def Let_def)

lemma limits_process:
  assumes "process_fragment hx setFirst tooLong fresh src order now key cost f mf r = (c, accepted, r')"
  shows "limits r' = limits r"
proof (cases "admit_fragment src order fresh now key cost r")
  case (Admitted d q)
  have q: "limits q = limits r" using limits_admit [where src = src and order = order and fresh = fresh and now = now and key = key and cost = cost and r = r] Admitted by simp
  have "limits (snd (snd (case retain_fragment src key now f e q of (d, r) \<Rightarrow> case check_complete key d r of (c, r) \<Rightarrow> (c, True, r)))) = limits r" for e
    using q by (simp add: case_prod_beta)
  then have "limits (snd (snd (process_fragment hx setFirst tooLong fresh src order now key cost f mf r))) = limits r"
    using q Admitted by (simp add: process_fragment_def Let_def split: overlap.split option.split)
  then show ?thesis using assms by simp
qed (use assms limits_admit [where src = src and order = order and fresh = fresh and now = now and key = key and cost = cost and r = r] in \<open>auto simp: process_fragment_def\<close>)

text \<open>The limit that applies: a limit that is not positive stands for the default.\<close>

definition effective_max :: "('k, 's, 'd) fragmentReassembler \<Rightarrow> int" where
  "effective_max r = (if fr_maxRetainedBytes r \<le> 0 then ipv4FragmentReassemblyMaxRetainedBytes else fr_maxRetainedBytes r)"

definition same_limits :: "('k, 's, 'd) fragmentReassembler \<Rightarrow> ('k, 's, 'd) fragmentReassembler \<Rightarrow> bool" where
  "same_limits r r' \<longleftrightarrow> effective_max r' = effective_max r \<and> fr_maxRetainedBytesPerSource r' = fr_maxRetainedBytesPerSource r"

lemma same_limits_trans: "same_limits a b \<Longrightarrow> same_limits b c \<Longrightarrow> same_limits a c"
  by (simp add: same_limits_def)

lemma same_limits_refl [simp]: "same_limits r r"
  by (simp add: same_limits_def)

lemma limits_same: "limits r' = limits r \<Longrightarrow> same_limits r r'"
  by (simp add: limits_def same_limits_def effective_max_def)

lemma ready_same: "same_limits r (with_default_max (expire src now r))"
proof -
  have "same_limits q (with_default_max q)" for q :: "('a, 'b, 'c fragmentDatagram_scheme) fragmentReassembler"
    by (simp add: same_limits_def effective_max_def with_default_max_def ipv4FragmentReassemblyMaxRetainedBytes_def)
  moreover have "same_limits r (expire src now r)" by (rule limits_same) simp
  ultimately show ?thesis using same_limits_trans by blast
qed

lemma processResultAt4_limits:
  assumes "processResultAt4 order dirt source transferKey provideMode packet now retain ids r = (result, ids', r')"
  shows "same_limits r r'"
proof -
  let ?r = "with_default_max (expire k4_source now r)" and ?key = "fragment_key4 source transferKey provideMode packet"
  consider (pass) "\<not> isIpv4FragmentPacket packet" | (bad) "isIpv4FragmentPacket packet" "parse_fragment4 packet = None"
    | (frag) f mf where "isIpv4FragmentPacket packet" "parse_fragment4 packet = Some (f, mf)"
    by (metis not_None_eq surj_pair)
  then have "r' = r \<or> limits r' = limits ?r"
  proof cases
    case pass
    then show ?thesis using assms by (simp add: processResultAt4_pass)
  next
    case bad
    then show ?thesis using assms by (auto simp: processResultAt4_malformed)
  next
    case frag
    obtain c accepted q where core: "process_fragment 0 id tooLong4 () k4_source order now ?key (int (length packet)) f mf ?r = (c, accepted, q)"
      by (metis prod_cases3)
    have q: "limits (snd (detachDatagram k4_source ?key q)) = limits ?r" "limits (releaseDatagram k4_source ?key q) = limits ?r" "limits q = limits ?r"
      using limits_process [OF core] by simp_all
    then show ?thesis
      using assms unfolding processResultAt4_fragment [OF frag] core by (cases c) (auto simp: case_prod_beta Let_def split: if_splits)
  qed
  then show ?thesis using ready_same [of r k4_source now] limits_same same_limits_trans same_limits_refl by blast
qed

lemma processResultAt6_limits:
  assumes "processResultAt6 order dirt source transferKey provideMode packet now retain ids r = Some (result, ids', r')"
  shows "same_limits r r'"
proof -
  let ?r = "with_default_max (expire k6_source now r)"
  consider (pass) "fragment_walk6 packet = None"
    | (bad) walk where "fragment_walk6 packet = Some walk" "parse_fragment6 packet walk = None"
    | (frag) walk f mf where "fragment_walk6 packet = Some walk" "parse_fragment6 packet walk = Some (f, mf)"
    by (metis not_None_eq surj_pair)
  then have "r' = r \<or> limits r' = limits ?r"
  proof cases
    case pass
    then show ?thesis using assms by (simp add: processResultAt6_pass)
  next
    case bad
    then show ?thesis using assms by (auto simp: processResultAt6_malformed)
  next
    case frag
    let ?key = "fragment_key6 source transferKey provideMode packet walk"
    obtain c accepted q where core: "process_fragment ipv6FragmentHeaderSize (setFirst6 (wk_fragment walk)) tooLong6
        (ipv6FragmentDatagram.fields 0 0) k6_source order now ?key (int (length packet)) f mf ?r = (c, accepted, q)"
      by (metis prod_cases3)
    have q: "limits (snd (detachDatagram k6_source ?key q)) = limits ?r" "limits (releaseDatagram k6_source ?key q) = limits ?r" "limits q = limits ?r"
      using limits_process [OF core] by simp_all
    then show ?thesis
      using assms unfolding processResultAt6_fragment [OF frag] core
      by (cases c) (auto simp: case_prod_beta Let_def bind_eq_Some_conv split: if_splits)
  qed
  then show ?thesis using ready_same [of r k6_source now] limits_same same_limits_trans same_limits_refl by blast
qed

section \<open>Any sequence of operations\<close>

text \<open>
  The operations of a reassembler: a packet with any arguments, at any time and with any map
  iteration order, and closing.
\<close>

inductive step4 :: "('s, 't, 'm) ipv4FragmentReassembler \<Rightarrow> ('s, 't, 'm) ipv4FragmentReassembler \<Rightarrow> bool" where
  packet4: "is_order order \<Longrightarrow>
    processResultAt4 order dirt source transferKey provideMode packet now retain ids r = (result, ids', r') \<Longrightarrow> step4 r r'"
| closed4: "step4 r (close4 r)"

inductive step6 :: "('s, 't, 'm) ipv6FragmentReassembler \<Rightarrow> ('s, 't, 'm) ipv6FragmentReassembler \<Rightarrow> bool" where
  packet6: "is_order order \<Longrightarrow>
    processResultAt6 order dirt source transferKey provideMode packet now retain ids r = Some (result, ids', r') \<Longrightarrow> step6 r r'"
| closed6: "step6 r (close6 r)"

text \<open>What a cache promises: an invariant of its steps, and limits that stay.\<close>

locale bounded_cache =
  fixes step :: "('k, 's, 'x) reassembler \<Rightarrow> ('k, 's, 'x) reassembler \<Rightarrow> bool"
    and hx :: nat and src :: "'k \<Rightarrow> 's"
  assumes step_ok: "store_ok hx src r \<Longrightarrow> step r r' \<Longrightarrow> store_ok hx src r'"
    and step_limits: "step r r' \<Longrightarrow> same_limits r r'"
begin

lemma reachable_ok: "step\<^sup>*\<^sup>* r r' \<Longrightarrow> fresh_reassembler r \<Longrightarrow> store_ok hx src r' \<and> same_limits r r'"
proof (induction rule: rtranclp_induct)
  case base
  then show ?case by (simp add: fresh_store_ok)
next
  case (step y z)
  then show ?case using step_ok step_limits same_limits_trans by blast
qed

end

interpretation cache4: bounded_cache step4 0 k4_source
proof
  fix r r' :: "('s, 't, 'm) ipv4FragmentReassembler"
  show "store_ok 0 k4_source r \<Longrightarrow> step4 r r' \<Longrightarrow> store_ok 0 k4_source r'"
    by (auto elim!: step4.cases simp: close4_def intro: processResultAt4_ok close_ok)
  show "step4 r r' \<Longrightarrow> same_limits r r'"
    by (auto elim!: step4.cases simp: close4_def intro: processResultAt4_limits limits_same)
qed

interpretation cache6: bounded_cache step6 ipv6FragmentHeaderSize k6_source
proof
  fix r r' :: "('s, 't, 'm) ipv6FragmentReassembler"
  show "store_ok ipv6FragmentHeaderSize k6_source r \<Longrightarrow> step6 r r' \<Longrightarrow> store_ok ipv6FragmentHeaderSize k6_source r'"
    by (auto elim!: step6.cases simp: close6_def intro: processResultAt6_ok close_ok)
  show "step6 r r' \<Longrightarrow> same_limits r r'"
    by (auto elim!: step6.cases simp: close6_def intro: processResultAt6_limits limits_same)
qed

text \<open>The bytes and fragments a store really holds, against limits.\<close>

definition cache_within :: "('k \<Rightarrow> 's) \<Rightarrow> int \<Rightarrow> int \<Rightarrow> ('k, 's, 'x) reassembler \<Rightarrow> bool" where
  "cache_within src limit quota r \<longleftrightarrow>
     length (fr_datagrams r) \<le> ipv4FragmentReassemblyMaxDatagrams
   \<and> (\<forall>(key, d) \<in> set (fr_datagrams r). length (dg_fragments d) \<le> ipv4FragmentReassemblyMaxFragments)
   \<and> fr_retainedByteCount r = (\<Sum>(key, d)\<leftarrow>fr_datagrams r. charge (dg_fragments d))
   \<and> (\<Sum>(key, d)\<leftarrow>fr_datagrams r. charge (dg_fragments d)) \<le> limit
   \<and> (0 < quota \<longrightarrow> (\<forall>s. (\<Sum>(key, d)\<leftarrow>filter (\<lambda>(key, d). src key = s) (fr_datagrams r). charge (dg_fragments d)) \<le> quota))"

lemma cache_within_ok:
  assumes "store_ok hx src r" "same_limits r0 r"
  shows "cache_within src (effective_max r0) (fr_maxRetainedBytesPerSource r0) r"
proof -
  have b: "books src r" "store_bounds r" "\<forall>d \<in> snd ` set (fr_datagrams r). datagram_ok hx d" using assms(1) by (auto simp: store_ok_def)
  have "fr_maxRetainedBytesPerSource r = fr_maxRetainedBytesPerSource r0" "effective_max r = effective_max r0"
    using assms(2) by (simp_all add: same_limits_def)
  then show ?thesis
    using b unfolding cache_within_def books_def store_bounds_def effective_max_def [of r, symmetric] store_bytes_def source_bytes_def
    by (auto simp: datagram_ok_def)
qed

section \<open>The gate\<close>

inductive gate_step :: "('s, 't, 'm) ipFragmentGate \<Rightarrow> ('s, 't, 'm) ipFragmentGate \<Rightarrow> bool" where
  gate_packet: "is_order order4 \<Longrightarrow> is_order order6 \<Longrightarrow>
    processOwned order4 order6 dirt source transferKey provideMode packet now ids gate = Some (result, ids', gate') \<Longrightarrow> gate_step gate gate'"
| gate_closed: "gate_step gate (gate_close gate)"

definition gate_ok :: "int \<Rightarrow> int \<Rightarrow> ('s, 't, 'm) ipFragmentGate \<Rightarrow> bool" where
  "gate_ok limit quota gate \<longleftrightarrow> gt_maxRetainedBytes gate = limit \<and> gt_maxRetainedBytesPerSource gate = quota
     \<and> (\<forall>r. gt_reassembler4 gate = Some r \<longrightarrow> store_ok 0 k4_source r \<and> same_limits (with_limits gate newIpv4FragmentReassembler) r)
     \<and> (\<forall>r. gt_reassembler6 gate = Some r \<longrightarrow>
          store_ok ipv6FragmentHeaderSize k6_source r \<and> same_limits (with_limits gate newIpv6FragmentReassembler) r)"

lemma fresh_with_limits: "fresh_reassembler r \<Longrightarrow> fresh_reassembler (with_limits gate r)"
  by (simp add: fresh_reassembler_def with_limits_def Let_def)

lemma fresh_new: "fresh_reassembler newIpv4FragmentReassembler" "fresh_reassembler newIpv6FragmentReassembler"
  by (simp_all add: fresh_reassembler_def newIpv4FragmentReassembler_def newIpv6FragmentReassembler_def newFragmentReassembler_def)

lemma with_limits_gate [simp]:
  "with_limits (gate\<lparr>gt_reassembler4 := a\<rparr>) r = with_limits gate r" "with_limits (gate\<lparr>gt_reassembler6 := b\<rparr>) r = with_limits gate r"
  by (simp_all add: with_limits_def)

lemma gate_step_ok:
  assumes "gate_ok limit quota gate" "gate_step gate gate'"
  shows "gate_ok limit quota gate'"
  using assms(2)
proof cases
  case (gate_packet order4 order6 dirt source transferKey provideMode packet now ids result ids')
  show ?thesis
  proof (cases "0 < length packet \<and> ip_version packet = 6")
    case True
    let ?r = "case gt_reassembler6 gate of None \<Rightarrow> with_limits gate newIpv6FragmentReassembler | Some r \<Rightarrow> r"
    obtain q where q: "processResultAt6 order6 dirt source transferKey provideMode packet now True ids ?r = Some (result, ids', q)"
      "gate' = gate\<lparr>gt_reassembler6 := Some q\<rparr>"
      using gate_packet(3) True by (auto simp: processOwned_def Let_def)
    have "store_ok ipv6FragmentHeaderSize k6_source ?r \<and> same_limits (with_limits gate newIpv6FragmentReassembler) ?r"
      using assms(1) fresh_store_ok [OF fresh_with_limits [OF fresh_new(2)]] by (auto simp: gate_ok_def split: option.split)
    then show ?thesis
      using assms(1) processResultAt6_ok [OF gate_packet(2) _ q(1)] same_limits_trans [OF _ processResultAt6_limits [OF q(1)]]
      unfolding q(2) gate_ok_def by simp
  next
    case False
    let ?r = "case gt_reassembler4 gate of None \<Rightarrow> with_limits gate newIpv4FragmentReassembler | Some r \<Rightarrow> r"
    obtain q where q: "processResultAt4 order4 dirt source transferKey provideMode packet now True ids ?r = (result, ids', q)"
      "gate' = gate\<lparr>gt_reassembler4 := Some q\<rparr>"
      using gate_packet(3) False unfolding processOwned_def if_not_P [OF False] Let_def by (auto split: prod.splits)
    have "store_ok 0 k4_source ?r \<and> same_limits (with_limits gate newIpv4FragmentReassembler) ?r"
      using assms(1) fresh_store_ok [OF fresh_with_limits [OF fresh_new(1)]] by (auto simp: gate_ok_def split: option.split)
    then show ?thesis
      using assms(1) processResultAt4_ok [OF gate_packet(1) _ q(1)] same_limits_trans [OF _ processResultAt4_limits [OF q(1)]]
      unfolding q(2) gate_ok_def by simp
  qed
next
  case gate_closed
  then show ?thesis using assms(1) by (simp add: gate_ok_def gate_close_def with_limits_def)
qed

lemma gate_reachable_ok: "gate_step\<^sup>*\<^sup>* gate gate' \<Longrightarrow> gate_ok limit quota gate \<Longrightarrow> gate_ok limit quota gate'"
  by (induction rule: rtranclp_induct) (auto intro: gate_step_ok)

lemma cache_within_gate:
  assumes "store_ok hx src r" "same_limits (with_limits gate newFragmentReassembler) r"
    "gt_maxRetainedBytes gate = m" "gt_maxRetainedBytesPerSource gate = q"
  shows "cache_within src (if 0 < m then m else ipv4FragmentReassemblyMaxRetainedBytes) q r"
proof -
  have e: "effective_max (with_limits gate newFragmentReassembler) = (if 0 < m then m else ipv4FragmentReassemblyMaxRetainedBytes)"
    "fr_maxRetainedBytesPerSource (with_limits gate newFragmentReassembler) = (if 0 < q then q else 0)"
    using assms(3,4) by (simp_all add: effective_max_def with_limits_def newFragmentReassembler_def Let_def ipv4FragmentReassemblyMaxRetainedBytes_def)
  show ?thesis using cache_within_ok [OF assms(1,2)] unfolding e by (auto simp: cache_within_def split: if_splits)
qed

section \<open>Properties of the caches\<close>

text \<open>
  C33. Fragment caches are bounded. After any sequence of packets and closings, with any
  arguments, times and map iteration orders, from a fresh reassembler of either family: it holds
  at most the maximum number of datagrams and fragments per datagram, its byte counter is the sum
  of the bytes of the retained packets, this sum does not exceed the limit the reassembler was
  created with (the default when none was set), and no source holds more than its quota when
  there is one.
\<close>

theorem fragment_caches_bounded:
  "(\<forall>(r :: ('s, 't, 'm) ipv4FragmentReassembler) r'. fresh_reassembler r \<and> step4\<^sup>*\<^sup>* r r' \<longrightarrow>
      cache_within k4_source (effective_max r) (fr_maxRetainedBytesPerSource r) r')
   \<and> (\<forall>(r :: ('s, 't, 'm) ipv6FragmentReassembler) r'. fresh_reassembler r \<and> step6\<^sup>*\<^sup>* r r' \<longrightarrow>
      cache_within k6_source (effective_max r) (fr_maxRetainedBytesPerSource r) r')"
proof (intro conjI allI impI)
  show "cache_within k4_source (effective_max r) (fr_maxRetainedBytesPerSource r) r'"
    if "fresh_reassembler r \<and> step4\<^sup>*\<^sup>* r r'" for r r' :: "('s, 't, 'm) ipv4FragmentReassembler"
    using cache4.reachable_ok [of r r'] that by (intro cache_within_ok) auto
  show "cache_within k6_source (effective_max r) (fr_maxRetainedBytesPerSource r) r'"
    if "fresh_reassembler r \<and> step6\<^sup>*\<^sup>* r r'" for r r' :: "('s, 't, 'm) ipv6FragmentReassembler"
    using cache6.reachable_ok [of r r'] that by (intro cache_within_ok) auto
qed

text \<open>
  C36. The gate keeps both caches within its limits. A gate that starts without reassemblers and
  handles any sequence of packets of both families and closings keeps in each family no more
  bytes than its limit (the default when it has none), no more than its per-source quota for any
  source, and exactly as many as its counters say.
\<close>

theorem fragment_gate_bounded:
  assumes "gt_reassembler4 gate = None" "gt_reassembler6 gate = None" "gate_step\<^sup>*\<^sup>* gate gate'"
  defines "limit \<equiv> (if 0 < gt_maxRetainedBytes gate then gt_maxRetainedBytes gate else ipv4FragmentReassemblyMaxRetainedBytes)"
  shows "(\<forall>r. gt_reassembler4 gate' = Some r \<longrightarrow> cache_within k4_source limit (gt_maxRetainedBytesPerSource gate) r)
    \<and> (\<forall>r. gt_reassembler6 gate' = Some r \<longrightarrow> cache_within k6_source limit (gt_maxRetainedBytesPerSource gate) r)"
proof -
  have "gate_ok (gt_maxRetainedBytes gate) (gt_maxRetainedBytesPerSource gate) gate" using assms(1,2) by (simp add: gate_ok_def)
  then have ok: "gate_ok (gt_maxRetainedBytes gate) (gt_maxRetainedBytesPerSource gate) gate'" using gate_reachable_ok [OF assms(3)] by blast
  show ?thesis
    using ok unfolding gate_ok_def limit_def newIpv4FragmentReassembler_def newIpv6FragmentReassembler_def
    by (blast intro: cache_within_gate)
qed

section \<open>Recycled buffers\<close>

lemma process_fragment_complete:
  assumes "is_order order" "store_ok hx src r" "0 < fr_maxRetainedBytes r" "frag_ok hx f" "int (length (rf_packet f)) \<le> cost"
    "keeps_common setFirst"
    "process_fragment hx setFirst tooLong fresh src order now key cost f mf r = (CoreComplete d, accepted, r')"
  shows "complete hx d"
  using process_fragment_ok(2) [OF assms refl] by (simp add: complete_def)

lemma assemble_dirt: "complete hx d \<Longrightarrow> assemble hx dirt d = assemble hx dirt' d"
  by (simp add: assemble_complete(1))

lemma processResultAt4_dirt:
  assumes "is_order order" "store_ok 0 k4_source r"
  shows "processResultAt4 order dirt source transferKey provideMode packet now retain ids r =
    processResultAt4 order dirt' source transferKey provideMode packet now retain ids r"
proof -
  let ?r = "with_default_max (expire k4_source now r)" and ?key = "fragment_key4 source transferKey provideMode packet"
  note ready = process_ready [OF assms(2), of now]
  consider (pass) "\<not> isIpv4FragmentPacket packet" | (bad) "isIpv4FragmentPacket packet" "parse_fragment4 packet = None"
    | (frag) f mf where "isIpv4FragmentPacket packet" "parse_fragment4 packet = Some (f, mf)"
    by (metis not_None_eq surj_pair)
  then show ?thesis
  proof cases
    case frag
    obtain c accepted q where core: "process_fragment 0 id tooLong4 () k4_source order now ?key (int (length packet)) f mf ?r = (c, accepted, q)"
      by (metis prod_cases3)
    note p = parse_fragment4_ok [OF frag(2)]
    have "reassemble4 dirt d = reassemble4 dirt' d" if "c = CoreComplete d" for d
    proof -
      have "complete 0 d"
        using process_fragment_complete [OF assms(1) ready p(1) _ keeps_common_simps(1) core [unfolded that]] p(2) by simp
      then show ?thesis using assemble_dirt [of 0 d dirt dirt'] by (simp add: reassemble4_def)
    qed
    then show ?thesis unfolding processResultAt4_fragment [OF frag] core by (cases c) simp_all
  qed (simp_all add: processResultAt4_pass processResultAt4_malformed)
qed

lemma processResultAt6_dirt:
  assumes "is_order order" "store_ok ipv6FragmentHeaderSize k6_source r"
  shows "processResultAt6 order dirt source transferKey provideMode packet now retain ids r =
    processResultAt6 order dirt' source transferKey provideMode packet now retain ids r"
proof -
  let ?r = "with_default_max (expire k6_source now r)"
  note ready = process_ready [OF assms(2), of now]
  consider (pass) "fragment_walk6 packet = None"
    | (bad) walk where "fragment_walk6 packet = Some walk" "parse_fragment6 packet walk = None"
    | (frag) walk f mf where "fragment_walk6 packet = Some walk" "parse_fragment6 packet walk = Some (f, mf)"
    by (metis not_None_eq surj_pair)
  then show ?thesis
  proof cases
    case frag
    let ?key = "fragment_key6 source transferKey provideMode packet walk"
    obtain c accepted q where core: "process_fragment ipv6FragmentHeaderSize (setFirst6 (wk_fragment walk)) tooLong6
        (ipv6FragmentDatagram.fields 0 0) k6_source order now ?key (int (length packet)) f mf ?r = (c, accepted, q)"
      by (metis prod_cases3)
    note p = parse_fragment6_ok [OF fragment_walk6_Some [OF frag(1)] frag(2)]
    have "reassemble6 dirt d = reassemble6 dirt' d" if "c = CoreComplete d" for d
    proof -
      have "complete ipv6FragmentHeaderSize d"
        using process_fragment_complete [OF assms(1) ready p(1) _ keeps_common_simps(2) core [unfolded that]] p(2) by simp
      then show ?thesis using assemble_dirt [of ipv6FragmentHeaderSize d dirt dirt'] by (simp add: reassemble6_def)
    qed
    then show ?thesis unfolding processResultAt6_fragment [OF frag] core by (cases c) simp_all
  qed (simp_all add: processResultAt6_pass processResultAt6_malformed)
qed

lemma make_fragment4_dirt: "20 \<le> length header \<Longrightarrow> make_fragment4 dirt header = make_fragment4 dirt' header"
proof -
  assume "20 \<le> length header"
  then have "12 \<le> length header" by simp
  then obtain a l i f m c rest where h: "header = hdr4 a l i f m c rest" "length a = 2" "length m = 2" using hdr4_split by metis
  show ?thesis by (intro ext) (simp only: make_fragment4_layout [OF h])
qed

lemma make_fragment6_dirt: "length header = 40 \<Longrightarrow> make_fragment6 dirt header = make_fragment6 dirt' header"
proof -
  assume "length header = 40"
  then obtain a l nh hop rest where h: "header = hdr6 a l nh hop rest" "length a = 4" "length rest = 32" using hdr6_split by metis
  show ?thesis by (intro ext) (simp only: make_fragment6_layout [OF h(1) [unfolded hdr6_def] h(2,3)])
qed

text \<open>
  C34. No byte of a recycled buffer gets into a packet. Buffers come from the message pool with
  whatever they held before. For every reachable reassembler the result of a packet, and for
  every packet the result of either fragmenter, is the same whatever the pool's buffers held: a
  reassembled packet and a fragment consist only of bytes of packets of their own datagram and
  of computed header fields.
\<close>

theorem fragments_leak_nothing:
  fixes r4 r4' :: "('s, 't, 'm) ipv4FragmentReassembler" and r6 r6' :: "('s, 't, 'm) ipv6FragmentReassembler"
  assumes "fresh_reassembler r4" "step4\<^sup>*\<^sup>* r4 r4'" "fresh_reassembler r6" "step6\<^sup>*\<^sup>* r6 r6'" "is_order order4" "is_order order6"
  shows "processResultAt4 order4 dirt source transferKey provideMode packet now retain ids r4' =
      processResultAt4 order4 dirt' source transferKey provideMode packet now retain ids r4'
    \<and> processResultAt6 order6 dirt source transferKey provideMode packet now retain ids r6' =
      processResultAt6 order6 dirt' source transferKey provideMode packet now retain ids r6'
    \<and> fragmentIpv4Packet dirt packet mtu ids = fragmentIpv4Packet dirt' packet mtu ids
    \<and> fragmentIpv6Packet dirt packet mtu ids = fragmentIpv6Packet dirt' packet mtu ids"
proof (intro conjI)
  show "processResultAt4 order4 dirt source transferKey provideMode packet now retain ids r4' =
      processResultAt4 order4 dirt' source transferKey provideMode packet now retain ids r4'"
    using cache4.reachable_ok [OF assms(2,1)] by (intro processResultAt4_dirt [OF assms(5)]) simp
  show "processResultAt6 order6 dirt source transferKey provideMode packet now retain ids r6' =
      processResultAt6 order6 dirt' source transferKey provideMode packet now retain ids r6'"
    using cache6.reachable_ok [OF assms(4,3)] by (intro processResultAt6_dirt [OF assms(6)]) simp
  show "fragmentIpv4Packet dirt packet mtu ids = fragmentIpv4Packet dirt' packet mtu ids"
    using make_fragment4_dirt [of "take (unat (packet ! 0 AND 0x0f) * 4) packet" dirt dirt']
    by (auto simp: fragmentIpv4Packet_def Let_def header_sizes)
  show "fragmentIpv6Packet dirt packet mtu ids = fragmentIpv6Packet dirt' packet mtu ids"
    using make_fragment6_dirt [of "take 40 packet" dirt dirt']
    by (auto simp: fragmentIpv6Packet_def Let_def header_sizes)
qed

section \<open>The properties on an example\<close>

text \<open>The caches after the second fragment of the example packet of their family.\<close>

definition example_held4 :: "(unit, unit, unit) ipv4FragmentReassembler" where
  "example_held4 = snd (snd (processResultAt4 id (\<lambda>_. []) () () () (example_fragments4 ! 1) 100 False example_ids newIpv4FragmentReassembler))"

definition example_held6 :: "(unit, unit, unit) ipv6FragmentReassembler" where
  "example_held6 = snd (snd (the (processResultAt6 id (\<lambda>_. []) () () () (example_fragments6 ! 1) 100 False example_ids newIpv6FragmentReassembler)))"

definition example_gate :: "(unit, unit, unit) ipFragmentGate" where
  "example_gate = \<lparr>gt_maxRetainedBytes = 100, gt_maxRetainedBytesPerSource = 50, gt_reassembler4 = None, gt_reassembler6 = None\<rparr>"

definition example_gate_held :: "(unit, unit, unit) ipFragmentGate" where
  "example_gate_held = snd (snd (the (processOwned id id (\<lambda>_. []) () () () (example_fragments4 ! 1) 100 example_ids example_gate)))"

lemma id_is_order [simp]: "is_order id"
  by (simp add: is_order_def)

lemma packet4_step:
  "is_order order \<Longrightarrow> step4 r (snd (snd (processResultAt4 order dirt source transferKey provideMode packet now retain ids r)))"
  by (rule packet4 [where result = "fst (processResultAt4 order dirt source transferKey provideMode packet now retain ids r)"
      and ids' = "fst (snd (processResultAt4 order dirt source transferKey provideMode packet now retain ids r))"]) simp_all

lemma packet6_step:
  assumes "is_order order" "processResultAt6 order dirt source transferKey provideMode packet now retain ids r \<noteq> None"
  shows "step6 r (snd (snd (the (processResultAt6 order dirt source transferKey provideMode packet now retain ids r))))"
proof -
  obtain result ids' r' where "processResultAt6 order dirt source transferKey provideMode packet now retain ids r = Some (result, ids', r')"
    using assms(2) by auto
  then show ?thesis using packet6 [OF assms(1)] by simp
qed

lemma gate_packet_step:
  assumes "is_order order4" "is_order order6" "processOwned order4 order6 dirt source transferKey provideMode packet now ids gate \<noteq> None"
  shows "gate_step gate (snd (snd (the (processOwned order4 order6 dirt source transferKey provideMode packet now ids gate))))"
proof -
  obtain result ids' g where "processOwned order4 order6 dirt source transferKey provideMode packet now ids gate = Some (result, ids', g)"
    using assms(3) by auto
  then show ?thesis using gate_packet [OF assms(1,2)] by simp
qed

lemma example_held_reached: "step4\<^sup>*\<^sup>* newIpv4FragmentReassembler example_held4" "step6\<^sup>*\<^sup>* newIpv6FragmentReassembler example_held6"
  "gate_step\<^sup>*\<^sup>* example_gate example_gate_held"
proof -
  have "step4 newIpv4FragmentReassembler example_held4"
    unfolding example_held4_def by (rule packet4_step [OF id_is_order])
  then show "step4\<^sup>*\<^sup>* newIpv4FragmentReassembler example_held4" by blast
  have "processResultAt6 id (\<lambda>_. []) () () () (example_fragments6 ! 1) 100 False example_ids newIpv6FragmentReassembler \<noteq> None" by code_simp
  then have "step6 newIpv6FragmentReassembler example_held6"
    unfolding example_held6_def by (rule packet6_step [OF id_is_order])
  then show "step6\<^sup>*\<^sup>* newIpv6FragmentReassembler example_held6" by blast
  have "processOwned id id (\<lambda>_. []) () () () (example_fragments4 ! 1) 100 example_ids example_gate \<noteq> None" by code_simp
  then have "gate_step example_gate example_gate_held"
    unfolding example_gate_held_def by (rule gate_packet_step [OF id_is_order id_is_order])
  then show "gate_step\<^sup>*\<^sup>* example_gate example_gate_held" by blast
qed

lemma example_held_bytes: "fr_retainedByteCount example_held4 = 28" "fr_retainedByteCount example_held6 = 56"
  "map_option fr_retainedByteCount (gt_reassembler4 example_gate_held) = Some 28"
  by code_simp+

theorem fragment_caches_bounded_witness:
  "fr_retainedByteCount example_held4 = 28 \<and> fr_retainedByteCount example_held6 = 56
   \<and> cache_within k4_source 65536 0 example_held4 \<and> cache_within k6_source 65536 0 example_held6"
proof -
  let ?r4 = "newIpv4FragmentReassembler :: (unit, unit, unit) ipv4FragmentReassembler"
    and ?r6 = "newIpv6FragmentReassembler :: (unit, unit, unit) ipv6FragmentReassembler"
  have l: "effective_max ?r4 = 65536" "effective_max ?r6 = 65536" "fr_maxRetainedBytesPerSource ?r4 = 0" "fr_maxRetainedBytesPerSource ?r6 = 0"
    by (simp_all add: effective_max_def newIpv4FragmentReassembler_def newIpv6FragmentReassembler_def newFragmentReassembler_def
        ipv4FragmentReassemblyMaxRetainedBytes_def)
  have "cache_within k4_source (effective_max ?r4) (fr_maxRetainedBytesPerSource ?r4) example_held4"
    "cache_within k6_source (effective_max ?r6) (fr_maxRetainedBytesPerSource ?r6) example_held6"
    using fragment_caches_bounded example_held_reached fresh_new by blast+
  then show ?thesis unfolding l using example_held_bytes by simp
qed

theorem fragment_gate_bounded_witness:
  "\<exists>r. gt_reassembler4 example_gate_held = Some r \<and> fr_retainedByteCount r = 28 \<and> cache_within k4_source 100 50 r"
proof -
  obtain r where r: "gt_reassembler4 example_gate_held = Some r" "fr_retainedByteCount r = 28"
    using example_held_bytes(3) by auto
  have g: "gt_reassembler4 example_gate = None" "gt_reassembler6 example_gate = None" "gt_maxRetainedBytes example_gate = 100"
    "gt_maxRetainedBytesPerSource example_gate = 50" by (simp_all add: example_gate_def)
  show ?thesis using fragment_gate_bounded [OF g(1,2) example_held_reached(3)] r g by auto
qed

theorem fragments_leak_nothing_witness:
  "fst (processResultAt4 id (\<lambda>n. replicate n 0xff) () () () (example_fragments4 ! 0) 101 False example_ids example_held4) =
     fst (processResultAt4 id (\<lambda>_. []) () () () (example_fragments4 ! 0) 101 False example_ids example_held4)
   \<and> rs_packet (fst (processResultAt4 id (\<lambda>_. []) () () () (example_fragments4 ! 0) 101 False example_ids example_held4)) \<noteq> []"
proof -
  have "rs_packet (fst (processResultAt4 id (\<lambda>_. []) () () () (example_fragments4 ! 0) 101 False example_ids example_held4)) \<noteq> []"
    by code_simp
  then show ?thesis
    using fragments_leak_nothing [OF fresh_new(1) example_held_reached(1) fresh_new(2) example_held_reached(2) id_is_order id_is_order,
        of "\<lambda>n. replicate n 0xff" "()" "()" "()" "example_fragments4 ! 0" 101 False example_ids "\<lambda>_. []" 0] by metis
qed

end
