(* ===== verification/Transfer_Flight.thy ===== *)
theory Transfer_Flight
  imports Go_Prelude
begin

text \<open>
  The flight controller of the unreliable carrier (transfer_flight.go) and the items of a send
  sequence that are charged to it (transfer.go).

  \<^item> byte and message counts are 64-bit integers with their wrap-around written out.
  \<^item> division follows Go: it truncates towards zero, and a zero divisor is a panic, which is
    \<open>None\<close>.
  \<^item> a scheduling key is the struct of the source, whose only field is its validity; the map of
    message counts is read as 0 where it has no entry.
  \<^item> the items of a sequence are a list and are named by their position in it.
  \<^item> the client's statistics, which only read the controller, are left out.
\<close>

section \<open>The controller\<close>

record sendSchedulingKey =
  sk_valid :: bool

record flightSettings =
  st_initialByteCount :: int
  st_minimumByteCount :: int
  st_maximumByteCount :: int
  st_initialMessageCount :: int
  st_minimumMessageCount :: int
  st_maximumMessageCount :: int
  st_slowStartGrowthDivisor :: int
  st_increaseByteCount :: int
  st_increaseMessageCount :: int

record transferFlightPolicySnapshot =
  po_generation :: uint64
  po_limited :: bool
  po_byteLimit :: int
  po_messageLimit :: int
  po_flowReserve :: bool
  po_reliableRouteAvailable :: bool

record sendFlightController =
  fc_initialByteCount :: int
  fc_minimumByteCount :: int
  fc_maximumByteCount :: int
  fc_increaseByteCount :: int
  fc_initialMessageCount :: int
  fc_minimumMessageCount :: int
  fc_maximumMessageCount :: int
  fc_increaseMessageCount :: int
  fc_slowStartDivisor :: int
  fc_activeMinimumByteCount :: int
  fc_activeMaximumByteCount :: int
  fc_policyByteLimit :: int
  fc_activeMinimumMessageCount :: int
  fc_activeMaximumMessageCount :: int
  fc_policyMessageLimit :: int
  fc_flowReserveEnabled :: bool
  fc_generation :: uint64
  fc_limited :: bool
  fc_slowStart :: bool
  fc_byteCount :: int
  fc_byteLimit :: int
  fc_messageCount :: int
  fc_messageLimit :: int
  fc_messageCountByKey :: "sendSchedulingKey \<rightharpoonup> int"
  fc_flowReserveInUse :: bool
  fc_additiveIncreaseRemainder :: int
  fc_slowStartIncreaseRemainder :: int
  fc_additiveMessageRemainder :: int
  fc_slowStartMessageRemainder :: int

definition zero_controller :: sendFlightController where
  "zero_controller =
     \<lparr>fc_initialByteCount = 0, fc_minimumByteCount = 0, fc_maximumByteCount = 0, fc_increaseByteCount = 0,
      fc_initialMessageCount = 0, fc_minimumMessageCount = 0, fc_maximumMessageCount = 0, fc_increaseMessageCount = 0,
      fc_slowStartDivisor = 0, fc_activeMinimumByteCount = 0, fc_activeMaximumByteCount = 0, fc_policyByteLimit = 0,
      fc_activeMinimumMessageCount = 0, fc_activeMaximumMessageCount = 0, fc_policyMessageLimit = 0, fc_flowReserveEnabled = False,
      fc_generation = 0, fc_limited = False, fc_slowStart = False, fc_byteCount = 0, fc_byteLimit = 0, fc_messageCount = 0,
      fc_messageLimit = 0, fc_messageCountByKey = Map.empty, fc_flowReserveInUse = False, fc_additiveIncreaseRemainder = 0,
      fc_slowStartIncreaseRemainder = 0, fc_additiveMessageRemainder = 0, fc_slowStartMessageRemainder = 0\<rparr>"

text \<open>The normalised message settings: initial, minimum, maximum, increase.\<close>

definition message_settings :: "flightSettings \<Rightarrow> int \<times> int \<times> int \<times> int" where
  "message_settings st =
     (let initialMessageCount = st_initialMessageCount st;
          minimumMessageCount = st_minimumMessageCount st;
          maximumMessageCount = st_maximumMessageCount st;
          increaseMessageCount = st_increaseMessageCount st
      in if 0 < initialMessageCount
         then
           let minimumMessageCount = (if minimumMessageCount \<le> 0 then initialMessageCount else minimumMessageCount);
               maximumMessageCount =
                 (if maximumMessageCount < minimumMessageCount then minimumMessageCount else maximumMessageCount)
           in (min (max initialMessageCount minimumMessageCount) maximumMessageCount, minimumMessageCount,
               maximumMessageCount, if increaseMessageCount \<le> 0 then 1 else increaseMessageCount)
         else (initialMessageCount, minimumMessageCount, maximumMessageCount, increaseMessageCount))"

definition newSendFlightController :: "flightSettings option \<Rightarrow> sendFlightController" where
  "newSendFlightController settings =
     (case settings of
        None \<Rightarrow> zero_controller
      | Some st \<Rightarrow>
          if st_initialByteCount st \<le> 0 then zero_controller
          else
            let initialByteCount = st_initialByteCount st;
                minimumByteCount = (if st_minimumByteCount st \<le> 0 then initialByteCount else st_minimumByteCount st);
                maximumByteCount = (if st_maximumByteCount st < minimumByteCount then minimumByteCount else st_maximumByteCount st);
                initialByteCount = min (max initialByteCount minimumByteCount) maximumByteCount;
                increaseByteCount = (if st_increaseByteCount st \<le> 0 then 1 else st_increaseByteCount st);
                slowStartDivisor = (if st_slowStartGrowthDivisor st \<le> 0 then 1 else st_slowStartGrowthDivisor st);
                (initialMessageCount, minimumMessageCount, maximumMessageCount, increaseMessageCount) = message_settings st
            in zero_controller
                 \<lparr>fc_initialByteCount := initialByteCount, fc_minimumByteCount := minimumByteCount,
                  fc_maximumByteCount := maximumByteCount, fc_increaseByteCount := increaseByteCount,
                  fc_initialMessageCount := initialMessageCount, fc_minimumMessageCount := minimumMessageCount,
                  fc_maximumMessageCount := maximumMessageCount, fc_increaseMessageCount := increaseMessageCount,
                  fc_slowStartDivisor := slowStartDivisor\<rparr>)"

definition reset_remainders :: "sendFlightController \<Rightarrow> sendFlightController" where
  "reset_remainders c =
     c\<lparr>fc_additiveIncreaseRemainder := 0, fc_slowStartIncreaseRemainder := 0, fc_additiveMessageRemainder := 0,
       fc_slowStartMessageRemainder := 0\<rparr>"

text \<open>The floors and ceilings a policy gives a controller that it limits, and the limits it starts with.\<close>

definition active_bytes :: "transferFlightPolicySnapshot \<Rightarrow> sendFlightController \<Rightarrow> int \<times> int" where
  "active_bytes policy c =
     (let maxBytes = fc_maximumByteCount c;
          maxBytes = (if 0 < po_byteLimit policy then min maxBytes (po_byteLimit policy) else maxBytes)
      in (min (fc_minimumByteCount c) maxBytes, maxBytes))"

definition active_messages :: "transferFlightPolicySnapshot \<Rightarrow> sendFlightController \<Rightarrow> int \<times> int" where
  "active_messages policy c =
     (if 0 < po_messageLimit policy \<and> 0 < fc_initialMessageCount c
      then let maxMessages = min (fc_maximumMessageCount c) (po_messageLimit policy)
           in (min (fc_minimumMessageCount c) maxMessages, maxMessages)
      else (fc_minimumMessageCount c, fc_maximumMessageCount c))"

definition limit_flight :: "transferFlightPolicySnapshot \<Rightarrow> sendFlightController \<Rightarrow> sendFlightController" where
  "limit_flight policy c =
     (let (minBytes, maxBytes) = active_bytes policy c; (minMessages, maxMessages) = active_messages policy c
      in c\<lparr>fc_activeMaximumByteCount := maxBytes, fc_activeMinimumByteCount := minBytes,
           fc_byteLimit := min (max (fc_initialByteCount c) minBytes) maxBytes,
           fc_activeMinimumMessageCount := minMessages, fc_activeMaximumMessageCount := maxMessages,
           fc_messageLimit := min (max (fc_initialMessageCount c) minMessages) maxMessages, fc_slowStart := True\<rparr>)"

definition applyPolicy :: "transferFlightPolicySnapshot \<Rightarrow> sendFlightController \<Rightarrow> bool \<times> sendFlightController" where
  "applyPolicy policy c =
     (let limited = (po_limited policy \<and> 0 < fc_initialByteCount c)
      in if fc_generation c = po_generation policy \<and> fc_limited c = limited \<and> fc_policyByteLimit c = po_byteLimit policy
           \<and> fc_policyMessageLimit c = po_messageLimit policy \<and> fc_flowReserveEnabled c = po_flowReserve policy
         then (False, c)
         else
           let c = c\<lparr>fc_generation := po_generation policy, fc_limited := limited, fc_policyByteLimit := po_byteLimit policy,
                     fc_policyMessageLimit := po_messageLimit policy, fc_flowReserveEnabled := po_flowReserve policy\<rparr>;
               c = reset_remainders c
           in (True,
               if limited then limit_flight policy c
               else c\<lparr>fc_byteLimit := 0, fc_activeMinimumByteCount := 0, fc_activeMaximumByteCount := 0, fc_messageLimit := 0,
                      fc_activeMinimumMessageCount := 0, fc_activeMaximumMessageCount := 0, fc_slowStart := False\<rparr>))"

definition message_count :: "sendFlightController \<Rightarrow> sendSchedulingKey \<Rightarrow> int" where
  "message_count c key = (case fc_messageCountByKey c key of None \<Rightarrow> 0 | Some n \<Rightarrow> n)"

definition canSendForKey :: "sendSchedulingKey \<Rightarrow> sendFlightController \<Rightarrow> bool" where
  "canSendForKey key c \<longleftrightarrow>
     \<not> fc_limited c \<or> fc_byteCount c = 0 \<and> fc_messageCount c = 0
     \<or> fc_byteCount c < fc_byteLimit c \<and> (fc_messageLimit c \<le> 0 \<or> fc_messageCount c < fc_messageLimit c)
     \<or> fc_flowReserveEnabled c \<and> sk_valid key \<and> \<not> fc_flowReserveInUse c \<and> message_count c key = 0"

definition canSend :: "sendFlightController \<Rightarrow> bool" where
  "canSend c = canSendForKey \<lparr>sk_valid = False\<rparr> c"

definition sendForKey :: "int \<Rightarrow> sendSchedulingKey \<Rightarrow> sendFlightController \<Rightarrow> bool \<times> sendFlightController" where
  "sendForKey byteCount key c =
     (let reserved = (fc_limited c \<and> fc_flowReserveEnabled c \<and> sk_valid key \<and> \<not> fc_flowReserveInUse c \<and> message_count c key = 0
            \<and> (fc_byteLimit c \<le> fc_byteCount c \<or> 0 < fc_messageLimit c \<and> fc_messageLimit c \<le> fc_messageCount c));
          c = (if reserved then c\<lparr>fc_flowReserveInUse := True\<rparr> else c);
          c = (if 0 < byteCount
               then
                 let c = c\<lparr>fc_byteCount := i64 (fc_byteCount c + byteCount), fc_messageCount := i64 (fc_messageCount c + 1)\<rparr>
                 in if sk_valid key
                    then c\<lparr>fc_messageCountByKey := (fc_messageCountByKey c)(key \<mapsto> i64 (message_count c key + 1))\<rparr>
                    else c
               else c)
      in (reserved, c))"

definition send :: "int \<Rightarrow> sendFlightController \<Rightarrow> sendFlightController" where
  "send byteCount c = snd (sendForKey byteCount \<lparr>sk_valid = False\<rparr> c)"

text \<open>One message less; the result says whether there was one.\<close>

definition uncount :: "sendSchedulingKey \<Rightarrow> sendFlightController \<Rightarrow> bool \<times> sendFlightController" where
  "uncount key c =
     (if 0 < fc_messageCount c
      then
        let c = c\<lparr>fc_messageCount := i64 (fc_messageCount c - 1)\<rparr>
        in (True,
            if sk_valid key \<and> 0 < message_count c key
            then
              let n = i64 (message_count c key - 1)
              in c\<lparr>fc_messageCountByKey := (if n = 0 then (fc_messageCountByKey c)(key := None) else (fc_messageCountByKey c)(key \<mapsto> n))\<rparr>
            else c)
      else (False, c))"

definition slow_start_bytes :: "int \<Rightarrow> sendFlightController \<Rightarrow> sendFlightController option" where
  "slow_start_bytes acked c =
     (if 0 < acked \<and> fc_byteLimit c < fc_activeMaximumByteCount c
      then
        let numerator = i64 (fc_slowStartIncreaseRemainder c + acked)
        in Option.bind (go_div numerator (fc_slowStartDivisor c)) (\<lambda>increase.
           Option.bind (go_mod numerator (fc_slowStartDivisor c)) (\<lambda>rest.
           Some (c\<lparr>fc_slowStartIncreaseRemainder := rest,
                   fc_byteLimit := min (fc_activeMaximumByteCount c) (i64 (fc_byteLimit c + increase))\<rparr>)))
      else Some c)"

definition slow_start_messages :: "int \<Rightarrow> sendFlightController \<Rightarrow> sendFlightController option" where
  "slow_start_messages acked c =
     (if 0 < acked \<and> fc_messageLimit c < fc_activeMaximumMessageCount c
      then
        let numerator = i64 (fc_slowStartMessageRemainder c + acked)
        in Option.bind (go_div numerator (fc_slowStartDivisor c)) (\<lambda>increase.
           Option.bind (go_mod numerator (fc_slowStartDivisor c)) (\<lambda>rest.
           Some (c\<lparr>fc_slowStartMessageRemainder := rest,
                   fc_messageLimit := min (fc_activeMaximumMessageCount c) (i64 (fc_messageLimit c + increase))\<rparr>)))
      else Some c)"

definition additive_bytes :: "int \<Rightarrow> sendFlightController \<Rightarrow> sendFlightController option" where
  "additive_bytes acked c =
     (if 0 < acked \<and> fc_byteLimit c < fc_activeMaximumByteCount c
      then
        let numerator = i64 (fc_additiveIncreaseRemainder c + i64 (fc_increaseByteCount c * acked))
        in Option.bind (go_div numerator (fc_byteLimit c)) (\<lambda>increase.
           Option.bind (go_mod numerator (fc_byteLimit c)) (\<lambda>rest.
           Some (c\<lparr>fc_additiveIncreaseRemainder := rest,
                   fc_byteLimit := min (fc_activeMaximumByteCount c) (i64 (fc_byteLimit c + increase))\<rparr>)))
      else Some c)"

definition additive_messages :: "int \<Rightarrow> sendFlightController \<Rightarrow> sendFlightController option" where
  "additive_messages acked c =
     (if 0 < acked \<and> 0 < fc_messageLimit c \<and> fc_messageLimit c < fc_activeMaximumMessageCount c
      then
        let numerator = i64 (fc_additiveMessageRemainder c + i64 (fc_increaseMessageCount c * acked))
        in Option.bind (go_div numerator (fc_messageLimit c)) (\<lambda>increase.
           Option.bind (go_mod numerator (fc_messageLimit c)) (\<lambda>rest.
           Some (c\<lparr>fc_additiveMessageRemainder := rest,
                   fc_messageLimit := min (fc_activeMaximumMessageCount c) (i64 (fc_messageLimit c + increase))\<rparr>)))
      else Some c)"

definition acknowledgeForKey :: "int \<Rightarrow> sendSchedulingKey \<Rightarrow> bool \<Rightarrow> sendFlightController \<Rightarrow> sendFlightController option" where
  "acknowledgeForKey byteCount key reserved c =
     (let c = (if reserved then c\<lparr>fc_flowReserveInUse := False\<rparr> else c)
      in if byteCount \<le> 0 then Some c
         else
           let acknowledgedByteCount = min byteCount (fc_byteCount c);
               c = c\<lparr>fc_byteCount := i64 (fc_byteCount c - acknowledgedByteCount)\<rparr>;
               (counted, c) = uncount key c;
               acknowledgedMessageCount = (if counted then 1 else 0)
           in if \<not> fc_limited c then Some c
              else if fc_slowStart c
              then Option.bind (slow_start_bytes acknowledgedByteCount c) (slow_start_messages acknowledgedMessageCount)
              else Option.bind (additive_bytes acknowledgedByteCount c) (additive_messages acknowledgedMessageCount))"

definition acknowledge :: "int \<Rightarrow> sendFlightController \<Rightarrow> sendFlightController option" where
  "acknowledge byteCount c = acknowledgeForKey byteCount \<lparr>sk_valid = False\<rparr> False c"

definition reduceForLoss :: "sendFlightController \<Rightarrow> bool \<times> sendFlightController" where
  "reduceForLoss c =
     (if \<not> fc_limited c then (False, c)
      else
        let c = reset_remainders (c\<lparr>fc_slowStart := False\<rparr>);
            half = (\<lambda>x. sgn x * (\<bar>x\<bar> div 2));
            reducedByteLimit = max (fc_activeMinimumByteCount c) (half (fc_byteLimit c));
            reduced = (reducedByteLimit < fc_byteLimit c);
            c = c\<lparr>fc_byteLimit := reducedByteLimit\<rparr>
        in if 0 < fc_messageLimit c
           then
             let reducedMessageLimit = max (fc_activeMinimumMessageCount c) (half (fc_messageLimit c));
                 reduced = (reduced \<or> reducedMessageLimit < fc_messageLimit c)
             in (reduced, c\<lparr>fc_messageLimit := reducedMessageLimit\<rparr>)
           else (reduced, c))"

definition atFloor :: "sendFlightController \<Rightarrow> bool" where
  "atFloor c \<longleftrightarrow> fc_limited c \<and> \<not> fc_slowStart c
     \<and> (fc_byteLimit c \<le> fc_activeMinimumByteCount c
        \<or> 0 < fc_messageLimit c \<and> fc_messageLimit c \<le> fc_activeMinimumMessageCount c)"

definition forget :: "int \<Rightarrow> sendSchedulingKey \<Rightarrow> bool \<Rightarrow> sendFlightController \<Rightarrow> sendFlightController" where
  "forget byteCount key reserved c =
     (let c = c\<lparr>fc_byteCount := i64 (fc_byteCount c - min byteCount (fc_byteCount c))\<rparr>;
          (_, c) = uncount key c
      in if reserved then c\<lparr>fc_flowReserveInUse := False\<rparr> else c)"

section \<open>The items of a sequence\<close>

record flightItem =
  it_byteCount :: int
  it_schedulingKey :: sendSchedulingKey
  it_unreliableFlightTracked :: bool
  it_unreliableFlowReserve :: bool

record flightSequence =
  sq_flightController :: "sendFlightController option"
  sq_items :: "flightItem list"

definition trackUnreliableFlight :: "nat \<Rightarrow> flightSequence \<Rightarrow> flightSequence" where
  "trackUnreliableFlight i s =
     (case sq_flightController s of
        None \<Rightarrow> s
      | Some c \<Rightarrow>
          if length (sq_items s) \<le> i \<or> it_unreliableFlightTracked (sq_items s ! i) then s
          else
            let item = sq_items s ! i;
                (reserved, c) = sendForKey (it_byteCount item) (it_schedulingKey item) c
            in s\<lparr>sq_flightController := Some c,
                 sq_items := (sq_items s)[i := item\<lparr>it_unreliableFlightTracked := True, it_unreliableFlowReserve := reserved\<rparr>]\<rparr>)"

definition releaseUnreliableFlight :: "nat \<Rightarrow> flightSequence \<Rightarrow> flightSequence option" where
  "releaseUnreliableFlight i s =
     (case sq_flightController s of
        None \<Rightarrow> Some s
      | Some c \<Rightarrow>
          if length (sq_items s) \<le> i \<or> \<not> it_unreliableFlightTracked (sq_items s ! i) then Some s
          else
            let item = sq_items s ! i
            in map_option (\<lambda>c. s\<lparr>sq_flightController := Some c,
                   sq_items := (sq_items s)[i := item\<lparr>it_unreliableFlightTracked := False, it_unreliableFlowReserve := False\<rparr>]\<rparr>)
                 (acknowledgeForKey (it_byteCount item) (it_schedulingKey item) (it_unreliableFlowReserve item) c))"

definition forgetUnreliableFlight :: "nat \<Rightarrow> flightSequence \<Rightarrow> flightSequence" where
  "forgetUnreliableFlight i s =
     (case sq_flightController s of
        None \<Rightarrow> s
      | Some c \<Rightarrow>
          if length (sq_items s) \<le> i \<or> \<not> it_unreliableFlightTracked (sq_items s ! i) then s
          else
            let item = sq_items s ! i
            in s\<lparr>sq_flightController := Some (forget (it_byteCount item) (it_schedulingKey item) (it_unreliableFlowReserve item) c),
                 sq_items := (sq_items s)[i := item\<lparr>it_unreliableFlightTracked := False, it_unreliableFlowReserve := False\<rparr>]\<rparr>)"

text \<open>The controller is dereferenced here without a check; a missing one is a panic.\<close>

definition observeUnreliableResendTimeout ::
  "nat \<Rightarrow> transferFlightPolicySnapshot \<Rightarrow> flightSequence \<Rightarrow> (bool \<times> flightSequence) option" where
  "observeUnreliableResendTimeout i policy s =
     (case sq_flightController s of
        None \<Rightarrow> None
      | Some c \<Rightarrow>
          let s = s\<lparr>sq_flightController := Some (snd (reduceForLoss c))\<rparr>
          in Some (if \<not> po_reliableRouteAvailable policy then (False, s) else (True, forgetUnreliableFlight i s)))"

definition unreliableFlightGates :: "transferFlightPolicySnapshot \<Rightarrow> flightSequence \<Rightarrow> bool" where
  "unreliableFlightGates policy s =
     (case sq_flightController s of None \<Rightarrow> False | Some c \<Rightarrow> fc_limited c \<and> \<not> po_reliableRouteAvailable policy)"

definition reliableOnlyWrite :: "bool \<Rightarrow> transferFlightPolicySnapshot \<Rightarrow> flightSequence \<Rightarrow> bool" where
  "reliableOnlyWrite floorSingleFlight policy s =
     (case sq_flightController s of
        None \<Rightarrow> False
      | Some c \<Rightarrow>
          fc_limited c \<and> po_reliableRouteAvailable policy
          \<and> (\<not> canSend c \<or> floorSingleFlight \<and> atFloor c \<and> 0 < fc_messageCount c))"

section \<open>The limits stay in their range\<close>

abbreviation flight_bound :: int where
  "flight_bound \<equiv> 2 ^ 31"

lemma clamp: "(m :: int) \<le> M \<Longrightarrow> m \<le> min (max i m) M" "min (max i m) M \<le> (M :: int)"
  by simp_all

text \<open>Settings a send buffer can be given: below 2 GiB, and with message limits or with none.\<close>

definition settings_ok :: "flightSettings \<Rightarrow> bool" where
  "settings_ok st \<longleftrightarrow> st_initialByteCount st \<le> flight_bound \<and> st_minimumByteCount st \<le> flight_bound
     \<and> st_maximumByteCount st \<le> flight_bound \<and> st_increaseByteCount st \<le> flight_bound
     \<and> st_slowStartGrowthDivisor st \<le> flight_bound \<and> st_initialMessageCount st \<le> flight_bound
     \<and> st_minimumMessageCount st \<le> flight_bound \<and> st_maximumMessageCount st \<le> flight_bound
     \<and> st_increaseMessageCount st \<le> flight_bound
     \<and> (0 < st_initialMessageCount st \<or>
        st_initialMessageCount st = 0 \<and> st_minimumMessageCount st = 0 \<and> st_maximumMessageCount st = 0)"

definition controller_ok :: "sendFlightController \<Rightarrow> bool" where
  "controller_ok c \<longleftrightarrow> (0 < fc_initialByteCount c \<longrightarrow>
     0 < fc_minimumByteCount c \<and> fc_minimumByteCount c \<le> fc_maximumByteCount c \<and> fc_maximumByteCount c \<le> flight_bound
     \<and> 0 < fc_increaseByteCount c \<and> fc_increaseByteCount c \<le> flight_bound
     \<and> 0 < fc_slowStartDivisor c \<and> fc_slowStartDivisor c \<le> flight_bound
     \<and> (if 0 < fc_initialMessageCount c
        then 0 < fc_minimumMessageCount c \<and> fc_minimumMessageCount c \<le> fc_maximumMessageCount c
          \<and> fc_maximumMessageCount c \<le> flight_bound \<and> 0 < fc_increaseMessageCount c \<and> fc_increaseMessageCount c \<le> flight_bound
        else fc_initialMessageCount c = 0 \<and> fc_minimumMessageCount c = 0 \<and> fc_maximumMessageCount c = 0))"

lemma message_settings_ok:
  assumes "settings_ok st" "message_settings st = (i, m, M, inc)"
  shows "if 0 < i then 0 < m \<and> m \<le> M \<and> M \<le> flight_bound \<and> 0 < inc \<and> inc \<le> flight_bound else i = 0 \<and> m = 0 \<and> M = 0"
proof -
  have s: "st_initialMessageCount st \<le> flight_bound" "st_minimumMessageCount st \<le> flight_bound"
    "st_maximumMessageCount st \<le> flight_bound" "st_increaseMessageCount st \<le> flight_bound"
    "0 < st_initialMessageCount st \<or> st_initialMessageCount st = 0 \<and> st_minimumMessageCount st = 0 \<and> st_maximumMessageCount st = 0"
    using assms(1) by (simp_all add: settings_ok_def)
  show ?thesis using assms(2) s unfolding message_settings_def Let_def by (simp split: if_splits) linarith+
qed

lemma new_controller_cases:
  obtains (none) "newSendFlightController settings = zero_controller"
  | (some) st b m M inc d mi mm mM minc where "settings = Some st" "0 < b" "0 < m" "m \<le> M" "message_settings st = (mi, mm, mM, minc)"
      "settings_ok st \<longrightarrow> M \<le> flight_bound \<and> 0 < inc \<and> inc \<le> flight_bound \<and> 0 < d \<and> d \<le> flight_bound"
      "newSendFlightController settings = zero_controller
                 \<lparr>fc_initialByteCount := b, fc_minimumByteCount := m, fc_maximumByteCount := M, fc_increaseByteCount := inc,
                  fc_initialMessageCount := mi, fc_minimumMessageCount := mm, fc_maximumMessageCount := mM,
                  fc_increaseMessageCount := minc, fc_slowStartDivisor := d\<rparr>"
proof (cases "case settings of None \<Rightarrow> True | Some st \<Rightarrow> st_initialByteCount st \<le> 0")
  case True
  then have "newSendFlightController settings = zero_controller" unfolding newSendFlightController_def by (cases settings) simp_all
  then show thesis by (rule none)
next
  case False
  then obtain st where st: "settings = Some st" "0 < st_initialByteCount st" by (auto split: option.splits)
  obtain mi mm mM minc where ms: "message_settings st = (mi, mm, mM, minc)" by (metis prod_cases4)
  define m where "m = (if st_minimumByteCount st \<le> 0 then st_initialByteCount st else st_minimumByteCount st)"
  define M where "M = (if st_maximumByteCount st < m then m else st_maximumByteCount st)"
  define b where "b = min (max (st_initialByteCount st) m) M"
  define inc where "inc = (if st_increaseByteCount st \<le> 0 then 1 else st_increaseByteCount st)"
  define d where "d = (if st_slowStartGrowthDivisor st \<le> 0 then 1 else st_slowStartGrowthDivisor st)"
  have m: "0 < m" "m \<le> M" using st(2) by (simp_all add: m_def M_def)
  have b: "0 < b" using m clamp(1) [OF m(2), of "st_initialByteCount st"] unfolding b_def by linarith
  have ok: "settings_ok st \<longrightarrow> M \<le> flight_bound \<and> 0 < inc \<and> inc \<le> flight_bound \<and> 0 < d \<and> d \<le> flight_bound"
    by (auto simp: settings_ok_def inc_def d_def m_def M_def)
  show thesis
    by (rule some [OF st(1) b m ms ok]) (use st(2) in \<open>simp add: newSendFlightController_def st(1) ms Let_def b_def m_def M_def inc_def d_def\<close>)
qed

lemma new_controller_ok:
  assumes "\<And>st. settings = Some st \<Longrightarrow> settings_ok st"
  shows "controller_ok (newSendFlightController settings)"
proof (cases settings rule: new_controller_cases)
  case none
  then show ?thesis by (simp add: controller_ok_def zero_controller_def)
next
  case (some st b m M inc d mi mm mM minc)
  then show ?thesis
    using assms [OF some(1)] message_settings_ok [OF _ some(5)] unfolding some(7) controller_ok_def by (cases "0 < mi") simp_all
qed

text \<open>The byte limit between its floor and its ceiling, the ceiling below the settings and the policy, and likewise for messages.\<close>

definition byte_limits :: "sendFlightController \<Rightarrow> bool" where
  "byte_limits c \<longleftrightarrow>
     (if fc_limited c
      then 0 < fc_activeMinimumByteCount c \<and> fc_activeMinimumByteCount c \<le> fc_byteLimit c
        \<and> fc_byteLimit c \<le> fc_activeMaximumByteCount c \<and> fc_activeMaximumByteCount c \<le> fc_maximumByteCount c
        \<and> (0 < fc_policyByteLimit c \<longrightarrow> fc_activeMaximumByteCount c \<le> fc_policyByteLimit c)
      else fc_activeMinimumByteCount c = 0 \<and> fc_byteLimit c = 0 \<and> fc_activeMaximumByteCount c = 0)"

definition message_limits :: "sendFlightController \<Rightarrow> bool" where
  "message_limits c \<longleftrightarrow>
     (if fc_limited c \<and> 0 < fc_initialMessageCount c
      then 0 < fc_activeMinimumMessageCount c \<and> fc_activeMinimumMessageCount c \<le> fc_messageLimit c
        \<and> fc_messageLimit c \<le> fc_activeMaximumMessageCount c \<and> fc_activeMaximumMessageCount c \<le> fc_maximumMessageCount c
        \<and> (0 < fc_policyMessageLimit c \<longrightarrow> fc_activeMaximumMessageCount c \<le> fc_policyMessageLimit c)
      else fc_activeMinimumMessageCount c = 0 \<and> fc_messageLimit c = 0 \<and> fc_activeMaximumMessageCount c = 0)"

definition remainders_ok :: "sendFlightController \<Rightarrow> bool" where
  "remainders_ok c \<longleftrightarrow>
     0 \<le> fc_slowStartIncreaseRemainder c \<and> fc_slowStartIncreaseRemainder c \<le> flight_bound
     \<and> 0 \<le> fc_slowStartMessageRemainder c \<and> fc_slowStartMessageRemainder c \<le> flight_bound
     \<and> 0 \<le> fc_additiveIncreaseRemainder c \<and> fc_additiveIncreaseRemainder c \<le> flight_bound
     \<and> 0 \<le> fc_additiveMessageRemainder c \<and> fc_additiveMessageRemainder c \<le> flight_bound"

definition limits_ok :: "sendFlightController \<Rightarrow> bool" where
  "limits_ok c \<longleftrightarrow> controller_ok c \<and> byte_limits c \<and> message_limits c \<and> remainders_ok c
     \<and> (fc_limited c \<longrightarrow> 0 < fc_initialByteCount c)"

definition consts_of :: "sendFlightController \<Rightarrow> (int \<times> int \<times> int \<times> int) \<times> (int \<times> int \<times> int \<times> int) \<times> int" where
  "consts_of c = ((fc_initialByteCount c, fc_minimumByteCount c, fc_maximumByteCount c, fc_increaseByteCount c),
     (fc_initialMessageCount c, fc_minimumMessageCount c, fc_maximumMessageCount c, fc_increaseMessageCount c), fc_slowStartDivisor c)"

definition remainders_of :: "sendFlightController \<Rightarrow> (int \<times> int) \<times> int \<times> int" where
  "remainders_of c = ((fc_slowStartIncreaseRemainder c, fc_slowStartMessageRemainder c),
     fc_additiveIncreaseRemainder c, fc_additiveMessageRemainder c)"

lemma controller_ok_consts: "consts_of c' = consts_of c \<Longrightarrow> controller_ok c \<Longrightarrow> controller_ok c'"
  unfolding consts_of_def prod.inject controller_ok_def by (elim conjE) (simp only:)

lemma remainders_ok_same: "remainders_of c' = remainders_of c \<Longrightarrow> remainders_ok c \<Longrightarrow> remainders_ok c'"
  unfolding remainders_of_def prod.inject remainders_ok_def by (elim conjE) (simp only:)

text \<open>What a controller counts.\<close>

definition counts :: "sendFlightController \<Rightarrow> int \<times> int \<times> (sendSchedulingKey \<rightharpoonup> int) \<times> bool" where
  "counts c = (fc_byteCount c, fc_messageCount c, fc_messageCountByKey c, fc_flowReserveInUse c)"

lemma new_limits_ok:
  assumes "\<And>st. settings = Some st \<Longrightarrow> settings_ok st"
  shows "limits_ok (newSendFlightController settings)" "counts (newSendFlightController settings) = (0, 0, Map.empty, False)"
proof -
  let ?c = "newSendFlightController settings"
  have f: "fc_limited ?c = False" "fc_activeMinimumByteCount ?c = 0" "fc_byteLimit ?c = 0" "fc_activeMaximumByteCount ?c = 0"
    "fc_activeMinimumMessageCount ?c = 0" "fc_messageLimit ?c = 0" "fc_activeMaximumMessageCount ?c = 0"
    "remainders_of ?c = ((0, 0), 0, 0)" "counts ?c = (0, 0, Map.empty, False)"
    by (cases settings rule: new_controller_cases; simp add: zero_controller_def remainders_of_def counts_def)+
  show "limits_ok ?c"
    using new_controller_ok [OF assms] f(1-8) by (simp add: limits_ok_def byte_limits_def message_limits_def remainders_ok_def remainders_of_def)
  show "counts ?c = (0, 0, Map.empty, False)" by (rule f(9))
qed

lemma active_bytes_ok:
  assumes "controller_ok c" "0 < fc_initialByteCount c" "active_bytes policy c = (m, M)"
  shows "0 < m" "m \<le> M" "M \<le> fc_maximumByteCount c" "0 < po_byteLimit policy \<Longrightarrow> M \<le> po_byteLimit policy"
proof -
  have k: "0 < fc_minimumByteCount c" "fc_minimumByteCount c \<le> fc_maximumByteCount c" using assms(1,2) unfolding controller_ok_def by blast+
  show "0 < m" "m \<le> M" "M \<le> fc_maximumByteCount c" "0 < po_byteLimit policy \<Longrightarrow> M \<le> po_byteLimit policy"
    using assms(3) k by (auto simp: active_bytes_def Let_def)
qed

lemma active_messages_ok:
  assumes "controller_ok c" "0 < fc_initialByteCount c" "active_messages policy c = (m, M)"
  shows "if 0 < fc_initialMessageCount c
    then 0 < m \<and> m \<le> M \<and> M \<le> fc_maximumMessageCount c \<and> (0 < po_messageLimit policy \<longrightarrow> M \<le> po_messageLimit policy)
    else fc_initialMessageCount c = 0 \<and> m = 0 \<and> M = 0"
proof (cases "0 < fc_initialMessageCount c")
  case True
  then have k: "0 < fc_minimumMessageCount c" "fc_minimumMessageCount c \<le> fc_maximumMessageCount c"
    using assms(1,2) unfolding controller_ok_def by simp_all
  show ?thesis using assms(3) k True by (auto simp: active_messages_def Let_def split: if_splits)
next
  case False
  then have k: "fc_initialMessageCount c = 0" "fc_minimumMessageCount c = 0" "fc_maximumMessageCount c = 0"
    using assms(1,2) unfolding controller_ok_def by simp_all
  show ?thesis using assms(3) k by (simp add: active_messages_def)
qed

lemma limit_flight_ok:
  assumes "controller_ok c" "0 < fc_initialByteCount c" "fc_limited c" "remainders_ok c"
    "fc_policyByteLimit c = po_byteLimit policy" "fc_policyMessageLimit c = po_messageLimit policy"
  shows "limits_ok (limit_flight policy c)"
proof -
  let ?c = "limit_flight policy c"
  obtain m M n N where mM: "active_bytes policy c = (m, M)" and nN: "active_messages policy c = (n, N)" by (metis surj_pair)
  note f = limit_flight_def [of policy c, unfolded mM nN Let_def prod.case]
  have same: "controller_ok ?c" "remainders_ok ?c" "fc_limited ?c" "0 < fc_initialByteCount ?c"
  proof -
    have "consts_of ?c = consts_of c" "remainders_of ?c = remainders_of c" by (simp_all add: consts_of_def remainders_of_def f)
    then show "controller_ok ?c" "remainders_ok ?c"
      using assms(1,4) by (blast intro: controller_ok_consts remainders_ok_same)+
    show "fc_limited ?c" "0 < fc_initialByteCount ?c" using assms(2,3) by (simp_all add: f)
  qed
  note b = active_bytes_ok [OF assms(1,2) mM] and n = active_messages_ok [OF assms(1,2) nN]
  have "fc_activeMaximumByteCount ?c = M" "fc_activeMinimumByteCount ?c = m" "fc_byteLimit ?c = min (max (fc_initialByteCount c) m) M"
    "fc_maximumByteCount ?c = fc_maximumByteCount c" "fc_policyByteLimit ?c = po_byteLimit policy"
    using assms(5) by (simp_all add: f)
  then have "byte_limits ?c" using same(3) b clamp(1) [OF b(2)] by (simp add: byte_limits_def)
  moreover have "fc_activeMaximumMessageCount ?c = N" "fc_activeMinimumMessageCount ?c = n"
    "fc_messageLimit ?c = min (max (fc_initialMessageCount c) n) N" "fc_maximumMessageCount ?c = fc_maximumMessageCount c"
    "fc_policyMessageLimit ?c = po_messageLimit policy" "fc_initialMessageCount ?c = fc_initialMessageCount c"
    using assms(6) by (simp_all add: f)
  then have "message_limits ?c" using same(3) n clamp(1) [of n N] by (cases "0 < fc_initialMessageCount c") (simp_all add: message_limits_def)
  ultimately show ?thesis using same by (simp add: limits_ok_def)
qed

lemma applyPolicy_ok:
  assumes "limits_ok c"
  shows "limits_ok (snd (applyPolicy policy c))" "counts (snd (applyPolicy policy c)) = counts c"
    "consts_of (snd (applyPolicy policy c)) = consts_of c"
proof -
  let ?l = "po_limited policy \<and> 0 < fc_initialByteCount c"
  let ?c = "reset_remainders (c\<lparr>fc_generation := po_generation policy, fc_limited := ?l, fc_policyByteLimit := po_byteLimit policy,
                     fc_policyMessageLimit := po_messageLimit policy, fc_flowReserveEnabled := po_flowReserve policy\<rparr>)"
  let ?u = "?c\<lparr>fc_byteLimit := 0, fc_activeMinimumByteCount := 0, fc_activeMaximumByteCount := 0, fc_messageLimit := 0,
                      fc_activeMinimumMessageCount := 0, fc_activeMaximumMessageCount := 0, fc_slowStart := False\<rparr>"
  have "controller_ok c" using assms by (simp add: limits_ok_def)
  then have c: "controller_ok ?c" "controller_ok ?u"
    by (rule controller_ok_consts [rotated], simp add: consts_of_def reset_remainders_def)+
  have r: "remainders_ok ?c" "remainders_ok ?u" by (simp_all add: remainders_ok_def reset_remainders_def)
  have l: "limits_ok (limit_flight policy ?c)" if ?l
    using that c(1) r(1) by (intro limit_flight_ok) (simp_all add: reset_remainders_def)
  have u: "limits_ok ?u" if "\<not> ?l"
    using that c(2) r(2) unfolding limits_ok_def by (auto simp: byte_limits_def message_limits_def reset_remainders_def)
  have w: "limits_ok (if ?l then limit_flight policy ?c else ?u)" using l u by (rule if_split [THEN iffD2, OF conjI, OF impI impI])
  have d: "snd (applyPolicy policy c) = c \<or> snd (applyPolicy policy c) = (if ?l then limit_flight policy ?c else ?u)"
    by (simp add: applyPolicy_def Let_def)
  then show "limits_ok (snd (applyPolicy policy c))" using assms w by (elim disjE) (simp_all only:)
  have "counts (limit_flight policy ?c) = counts ?c" "counts ?u = counts ?c" "counts ?c = counts c"
    by (simp_all add: counts_def limit_flight_def case_prod_beta reset_remainders_def)
  then show "counts (snd (applyPolicy policy c)) = counts c" using d by (elim disjE) (simp_all only: if_distrib [of counts] if_cancel)
  have "consts_of (limit_flight policy ?c) = consts_of ?c" "consts_of ?u = consts_of ?c" "consts_of ?c = consts_of c"
    by (simp_all add: consts_of_def limit_flight_def case_prod_beta reset_remainders_def)
  then show "consts_of (snd (applyPolicy policy c)) = consts_of c" using d by (elim disjE) (simp_all only: if_distrib [of consts_of] if_cancel)
qed

lemma reduceForLoss_ok:
  assumes "limits_ok c"
  shows "limits_ok (snd (reduceForLoss c))" "counts (snd (reduceForLoss c)) = counts c" "consts_of (snd (reduceForLoss c)) = consts_of c"
proof -
  let ?c = "snd (reduceForLoss c)"
  show "consts_of ?c = consts_of c" by (simp add: reduceForLoss_def consts_of_def reset_remainders_def Let_def)
  show "counts ?c = counts c"
    by (simp add: reduceForLoss_def counts_def reset_remainders_def Let_def)
  show "limits_ok ?c"
  proof (cases "fc_limited c")
    case True
    have k: "consts_of ?c = consts_of c" "fc_limited ?c" "remainders_ok ?c" "fc_initialByteCount ?c = fc_initialByteCount c"
      using True by (simp_all add: reduceForLoss_def Let_def reset_remainders_def consts_of_def remainders_ok_def)
    have b: "byte_limits c" "message_limits c" "controller_ok c" "0 < fc_initialByteCount c" using assms True by (simp_all add: limits_ok_def)
    have f: "fc_activeMinimumByteCount ?c = fc_activeMinimumByteCount c" "fc_activeMaximumByteCount ?c = fc_activeMaximumByteCount c"
      "fc_maximumByteCount ?c = fc_maximumByteCount c" "fc_policyByteLimit ?c = fc_policyByteLimit c"
      "fc_activeMinimumMessageCount ?c = fc_activeMinimumMessageCount c" "fc_activeMaximumMessageCount ?c = fc_activeMaximumMessageCount c"
      "fc_maximumMessageCount ?c = fc_maximumMessageCount c" "fc_policyMessageLimit ?c = fc_policyMessageLimit c"
      "fc_initialMessageCount ?c = fc_initialMessageCount c"
      using True by (simp_all add: reduceForLoss_def Let_def reset_remainders_def)
    have g: "fc_byteLimit ?c = max (fc_activeMinimumByteCount c) (sgn (fc_byteLimit c) * (\<bar>fc_byteLimit c\<bar> div 2))"
      "fc_messageLimit ?c = (if 0 < fc_messageLimit c then max (fc_activeMinimumMessageCount c) (fc_messageLimit c div 2) else fc_messageLimit c)"
      using True by (simp_all add: reduceForLoss_def Let_def reset_remainders_def)
    have h: "x div 2 \<le> x" if "0 < x" for x :: int using that by simp
    have "byte_limits ?c"
      using b(1) True k(2) h [of "fc_byteLimit c"] unfolding byte_limits_def f g by auto
    moreover have "message_limits ?c"
      using b(2) True k(2) h [of "fc_messageLimit c"] unfolding message_limits_def f g by auto
    ultimately show ?thesis using controller_ok_consts [OF k(1) b(3)] k b(4) by (simp add: limits_ok_def)
  qed (use assms in \<open>simp add: reduceForLoss_def\<close>)
qed

lemma byte_limit_update:
  assumes "limits_ok c" "fc_limited c" "fc_activeMinimumByteCount c \<le> l" "l \<le> fc_activeMaximumByteCount c" "0 \<le> r" "r \<le> flight_bound"
  shows "limits_ok (c\<lparr>fc_slowStartIncreaseRemainder := r, fc_byteLimit := l\<rparr>)"
    "limits_ok (c\<lparr>fc_additiveIncreaseRemainder := r, fc_byteLimit := l\<rparr>)"
proof -
  let ?a = "c\<lparr>fc_slowStartIncreaseRemainder := r, fc_byteLimit := l\<rparr>" and ?b = "c\<lparr>fc_additiveIncreaseRemainder := r, fc_byteLimit := l\<rparr>"
  have l: "controller_ok c" "byte_limits c" "message_limits c" "remainders_ok c" "0 < fc_initialByteCount c" using assms(1,2) by (simp_all add: limits_ok_def)
  have "controller_ok ?a" "controller_ok ?b" using l(1) by (auto intro!: controller_ok_consts [OF _ l(1)] simp: consts_of_def)
  moreover have "remainders_ok ?a" "remainders_ok ?b" using l(4) assms(5,6) unfolding remainders_ok_def by simp_all
  moreover have "byte_limits ?a" "byte_limits ?b" using l(2) assms(2-4) unfolding byte_limits_def by simp_all
  moreover have "message_limits ?a" "message_limits ?b" using l(3) unfolding message_limits_def by simp_all
  ultimately show "limits_ok ?a" "limits_ok ?b" using l(5) by (simp_all add: limits_ok_def)
qed

lemma message_limit_update:
  assumes "limits_ok c" "fc_limited c" "0 < fc_initialMessageCount c" "fc_activeMinimumMessageCount c \<le> l" "l \<le> fc_activeMaximumMessageCount c"
    "0 \<le> r" "r \<le> flight_bound"
  shows "limits_ok (c\<lparr>fc_slowStartMessageRemainder := r, fc_messageLimit := l\<rparr>)"
    "limits_ok (c\<lparr>fc_additiveMessageRemainder := r, fc_messageLimit := l\<rparr>)"
proof -
  let ?a = "c\<lparr>fc_slowStartMessageRemainder := r, fc_messageLimit := l\<rparr>" and ?b = "c\<lparr>fc_additiveMessageRemainder := r, fc_messageLimit := l\<rparr>"
  have l: "controller_ok c" "byte_limits c" "message_limits c" "remainders_ok c" "0 < fc_initialByteCount c" using assms(1,2) by (simp_all add: limits_ok_def)
  have "controller_ok ?a" "controller_ok ?b" using l(1) by (auto intro!: controller_ok_consts [OF _ l(1)] simp: consts_of_def)
  moreover have "remainders_ok ?a" "remainders_ok ?b" using l(4) assms(6,7) unfolding remainders_ok_def by simp_all
  moreover have "message_limits ?a" "message_limits ?b" using l(3) assms(2-5) unfolding message_limits_def by simp_all
  moreover have "byte_limits ?a" "byte_limits ?b" using l(2) unfolding byte_limits_def by simp_all
  ultimately show "limits_ok ?a" "limits_ok ?b" using l(5) by (simp_all add: limits_ok_def)
qed

text \<open>One step of growth with a remainder that is carried over.\<close>

lemma growth:
  assumes "0 \<le> r" "r \<le> flight_bound" "0 \<le> x" "x \<le> 2 ^ 62" "0 < d" "d \<le> flight_bound" "0 \<le> l" "l \<le> M" "M \<le> flight_bound"
  shows "i64 (r + x) = r + x" "go_div (r + x) d = Some ((r + x) div d)" "go_mod (r + x) d = Some ((r + x) mod d)"
    "min M (i64 (l + (r + x) div d)) = min M (l + (r + x) div d)" "l \<le> min M (l + (r + x) div d)"
    "0 \<le> (r + x) mod d" "(r + x) mod d \<le> flight_bound"
proof -
  have s: "0 \<le> r + x" "r + x < 2 ^ 63" using assms by simp_all
  show "i64 (r + x) = r + x" using s by (intro i64_id) (simp add: in64_def)
  show "go_div (r + x) d = Some ((r + x) div d)" "go_mod (r + x) d = Some ((r + x) mod d)" using go_div_pos [OF s(1) assms(5) s(2)] by simp_all
  have q: "0 \<le> (r + x) div d" "(r + x) div d \<le> r + x" using zdiv_mono2 [of "r + x" 1 d] s(1) assms(5) by (simp_all add: pos_imp_zdiv_nonneg_iff)
  have "i64 (l + (r + x) div d) = l + (r + x) div d" using q assms by (intro i64_id) (simp add: in64_def)
  then show "min M (i64 (l + (r + x) div d)) = min M (l + (r + x) div d)" by simp
  show "l \<le> min M (l + (r + x) div d)" using q assms(8) by simp
  show "0 \<le> (r + x) mod d" using assms(5) by simp
  show "(r + x) mod d \<le> flight_bound" using pos_mod_bound [OF assms(5), of "r + x"] assms(6) by linarith
qed

lemma limited_facts:
  assumes "limits_ok c" "fc_limited c"
  shows "0 < fc_slowStartDivisor c" "fc_slowStartDivisor c \<le> flight_bound" "0 < fc_increaseByteCount c" "fc_increaseByteCount c \<le> flight_bound"
    "0 < fc_activeMinimumByteCount c" "fc_activeMinimumByteCount c \<le> fc_byteLimit c" "fc_byteLimit c \<le> fc_activeMaximumByteCount c"
    "fc_activeMaximumByteCount c \<le> flight_bound" "remainders_ok c"
    "fc_messageLimit c < fc_activeMaximumMessageCount c \<Longrightarrow> 0 < fc_initialMessageCount c"
    "0 < fc_initialMessageCount c \<Longrightarrow> 0 < fc_activeMinimumMessageCount c \<and> fc_activeMinimumMessageCount c \<le> fc_messageLimit c
      \<and> fc_messageLimit c \<le> fc_activeMaximumMessageCount c \<and> fc_activeMaximumMessageCount c \<le> flight_bound
      \<and> 0 < fc_increaseMessageCount c \<and> fc_increaseMessageCount c \<le> flight_bound"
proof -
  have l: "controller_ok c" "byte_limits c" "message_limits c" "remainders_ok c" "0 < fc_initialByteCount c" using assms by (simp_all add: limits_ok_def)
  have k: "0 < fc_slowStartDivisor c" "fc_slowStartDivisor c \<le> flight_bound" "0 < fc_increaseByteCount c" "fc_increaseByteCount c \<le> flight_bound"
    "fc_maximumByteCount c \<le> flight_bound"
    using l(1,5) unfolding controller_ok_def by blast+
  show "0 < fc_slowStartDivisor c" "fc_slowStartDivisor c \<le> flight_bound" "0 < fc_increaseByteCount c" "fc_increaseByteCount c \<le> flight_bound"
    by (fact k)+
  show "remainders_ok c" by (fact l(4))
  show "0 < fc_activeMinimumByteCount c" "fc_activeMinimumByteCount c \<le> fc_byteLimit c" "fc_byteLimit c \<le> fc_activeMaximumByteCount c"
    "fc_activeMaximumByteCount c \<le> flight_bound"
    using l(2) assms(2) k(5) unfolding byte_limits_def by simp_all
  show "fc_messageLimit c < fc_activeMaximumMessageCount c \<Longrightarrow> 0 < fc_initialMessageCount c"
    using l(3) unfolding message_limits_def by (simp split: if_splits)
  assume p: "0 < fc_initialMessageCount c"
  then have "fc_maximumMessageCount c \<le> flight_bound \<and> 0 < fc_increaseMessageCount c \<and> fc_increaseMessageCount c \<le> flight_bound"
    using l(1,5) unfolding controller_ok_def by simp
  then show "0 < fc_activeMinimumMessageCount c \<and> fc_activeMinimumMessageCount c \<le> fc_messageLimit c
      \<and> fc_messageLimit c \<le> fc_activeMaximumMessageCount c \<and> fc_activeMaximumMessageCount c \<le> flight_bound
      \<and> 0 < fc_increaseMessageCount c \<and> fc_increaseMessageCount c \<le> flight_bound"
    using l(3) assms(2) p unfolding message_limits_def by simp
qed

definition grows :: "sendFlightController \<Rightarrow> sendFlightController option \<Rightarrow> bool" where
  "grows c r \<longleftrightarrow> (\<exists>c'. r = Some c' \<and> limits_ok c' \<and> counts c' = counts c \<and> consts_of c' = consts_of c \<and> fc_limited c')"

lemma grows_self: "limits_ok c \<Longrightarrow> fc_limited c \<Longrightarrow> grows c (Some c)"
  by (simp add: grows_def)

lemma slow_start_bytes_ok:
  assumes "limits_ok c" "fc_limited c" "acked \<le> flight_bound"
  shows "grows c (slow_start_bytes acked c)"
proof (cases "0 < acked \<and> fc_byteLimit c < fc_activeMaximumByteCount c")
  case True
  note f = limited_facts [OF assms(1,2)]
  have r: "0 \<le> fc_slowStartIncreaseRemainder c" "fc_slowStartIncreaseRemainder c \<le> flight_bound" using f(9) unfolding remainders_ok_def by blast+
  have b: "0 \<le> acked" "acked \<le> 2 ^ 62" "0 \<le> fc_byteLimit c" using True assms(3) f(5,6) by simp_all
  note g = growth [OF r b(1,2) f(1,2) b(3) f(7,8)]
  have "fc_activeMinimumByteCount c \<le> min (fc_activeMaximumByteCount c) (fc_byteLimit c + (fc_slowStartIncreaseRemainder c + acked) div fc_slowStartDivisor c)"
    using g(5) f(6) by linarith
  then show ?thesis
    using byte_limit_update(1) [OF assms(1,2) _ _ g(6,7)] True assms(2)
    by (simp add: slow_start_bytes_def Let_def g(1-4) grows_def counts_def consts_of_def)
qed (use assms in \<open>auto simp: slow_start_bytes_def intro: grows_self\<close>)

lemma slow_start_messages_ok:
  assumes "limits_ok c" "fc_limited c" "acked \<le> flight_bound"
  shows "grows c (slow_start_messages acked c)"
proof (cases "0 < acked \<and> fc_messageLimit c < fc_activeMaximumMessageCount c")
  case True
  note f = limited_facts [OF assms(1,2)]
  have i: "0 < fc_initialMessageCount c" using True f(10) by blast
  note m = f(11) [OF i]
  have r: "0 \<le> fc_slowStartMessageRemainder c" "fc_slowStartMessageRemainder c \<le> flight_bound" using f(9) unfolding remainders_ok_def by blast+
  have b: "0 \<le> acked" "acked \<le> 2 ^ 62" "0 \<le> fc_messageLimit c" "fc_messageLimit c \<le> fc_activeMaximumMessageCount c"
    "fc_activeMaximumMessageCount c \<le> flight_bound" using True assms(3) m by simp_all
  note g = growth [OF r b(1,2) f(1,2) b(3-5)]
  have "fc_activeMinimumMessageCount c \<le> min (fc_activeMaximumMessageCount c) (fc_messageLimit c + (fc_slowStartMessageRemainder c + acked) div fc_slowStartDivisor c)"
    using g(5) m by linarith
  then show ?thesis
    using message_limit_update(1) [OF assms(1,2) i _ _ g(6,7)] True assms(2)
    by (simp add: slow_start_messages_def Let_def g(1-4) grows_def counts_def consts_of_def)
qed (use assms in \<open>auto simp: slow_start_messages_def intro: grows_self\<close>)

lemma product_bound:
  assumes "0 < a" "a \<le> flight_bound" "0 < b" "b \<le> flight_bound"
  shows "0 \<le> a * b" "a * b \<le> 2 ^ 62" "i64 (a * b) = a * b"
proof -
  show p: "0 \<le> a * b" using assms by simp
  have "a * b \<le> flight_bound * flight_bound" using assms by (intro mult_mono) auto
  then show q: "a * b \<le> 2 ^ 62" by simp
  show "i64 (a * b) = a * b" using p q by (intro i64_id) (simp add: in64_def)
qed

lemma additive_bytes_ok:
  assumes "limits_ok c" "fc_limited c" "acked \<le> flight_bound"
  shows "grows c (additive_bytes acked c)"
proof (cases "0 < acked \<and> fc_byteLimit c < fc_activeMaximumByteCount c")
  case True
  note f = limited_facts [OF assms(1,2)]
  have r: "0 \<le> fc_additiveIncreaseRemainder c" "fc_additiveIncreaseRemainder c \<le> flight_bound" using f(9) unfolding remainders_ok_def by blast+
  have b: "0 < acked" "0 \<le> fc_byteLimit c" "0 < fc_byteLimit c" "fc_byteLimit c \<le> flight_bound" using True f(5-8) by simp_all
  note p = product_bound [OF f(3,4) b(1) assms(3)]
  note g = growth [OF r p(1,2) b(3,4) b(2) f(7,8)]
  have "fc_activeMinimumByteCount c \<le> min (fc_activeMaximumByteCount c)
      (fc_byteLimit c + (fc_additiveIncreaseRemainder c + fc_increaseByteCount c * acked) div fc_byteLimit c)"
    using g(5) f(6) by linarith
  then show ?thesis
    using byte_limit_update(2) [OF assms(1,2) _ _ g(6,7)] True assms(2)
    by (simp add: additive_bytes_def Let_def p(3) g(1-4) grows_def counts_def consts_of_def)
qed (use assms in \<open>auto simp: additive_bytes_def intro: grows_self\<close>)

lemma additive_messages_ok:
  assumes "limits_ok c" "fc_limited c" "acked \<le> flight_bound"
  shows "grows c (additive_messages acked c)"
proof (cases "0 < acked \<and> 0 < fc_messageLimit c \<and> fc_messageLimit c < fc_activeMaximumMessageCount c")
  case True
  note f = limited_facts [OF assms(1,2)]
  have i: "0 < fc_initialMessageCount c" using True f(10) by blast
  note m = f(11) [OF i]
  have r: "0 \<le> fc_additiveMessageRemainder c" "fc_additiveMessageRemainder c \<le> flight_bound" using f(9) unfolding remainders_ok_def by blast+
  have b: "0 < acked" "0 \<le> fc_messageLimit c" "0 < fc_messageLimit c" "fc_messageLimit c \<le> flight_bound"
    "fc_messageLimit c \<le> fc_activeMaximumMessageCount c" "fc_activeMaximumMessageCount c \<le> flight_bound"
    "0 < fc_increaseMessageCount c" "fc_increaseMessageCount c \<le> flight_bound" using True m by simp_all
  note p = product_bound [OF b(7,8) b(1) assms(3)]
  note g = growth [OF r p(1,2) b(3,4) b(2,5,6)]
  have "fc_activeMinimumMessageCount c \<le> min (fc_activeMaximumMessageCount c)
      (fc_messageLimit c + (fc_additiveMessageRemainder c + fc_increaseMessageCount c * acked) div fc_messageLimit c)"
    using g(5) m by linarith
  then show ?thesis
    using message_limit_update(2) [OF assms(1,2) i _ _ g(6,7)] True assms(2)
    by (simp add: additive_messages_def Let_def p(3) g(1-4) grows_def counts_def consts_of_def)
qed (use assms in \<open>auto simp: additive_messages_def intro: grows_self\<close>)

lemma grows_bind:
  assumes "grows c r" "\<And>c'. limits_ok c' \<Longrightarrow> fc_limited c' \<Longrightarrow> grows c' (g c')"
  shows "grows c (Option.bind r g)"
proof -
  obtain c' where c: "r = Some c'" "limits_ok c'" "counts c' = counts c" "fc_limited c'" "consts_of c' = consts_of c" using assms(1) by (auto simp: grows_def)
  then show ?thesis using assms(2) [OF c(2,4)] by (simp add: grows_def)
qed

section \<open>The counts\<close>

text \<open>The counts after a message is no longer in flight, written on the counts alone.\<close>

definition uncounted :: "int \<Rightarrow> sendSchedulingKey \<Rightarrow> bool \<Rightarrow> int \<times> int \<times> (sendSchedulingKey \<rightharpoonup> int) \<times> bool
   \<Rightarrow> int \<times> int \<times> (sendSchedulingKey \<rightharpoonup> int) \<times> bool" where
  "uncounted n key reserved = (\<lambda>(bytes, messages, byKey, inUse).
     let k = (case byKey key of None \<Rightarrow> 0 | Some k \<Rightarrow> k)
     in (i64 (bytes - min n bytes), if 0 < messages then i64 (messages - 1) else messages,
         if 0 < messages \<and> sk_valid key \<and> 0 < k
         then if i64 (k - 1) = 0 then byKey(key := None) else byKey(key \<mapsto> i64 (k - 1))
         else byKey,
         inUse \<and> \<not> reserved))"

lemma limits_ok_counts:
  assumes "limits_ok c"
  shows "limits_ok (c\<lparr>fc_byteCount := a, fc_messageCount := b, fc_messageCountByKey := m, fc_flowReserveInUse := u\<rparr>)"
proof -
  let ?c = "c\<lparr>fc_byteCount := a, fc_messageCount := b, fc_messageCountByKey := m, fc_flowReserveInUse := u\<rparr>"
  have l: "controller_ok c" "byte_limits c" "message_limits c" "remainders_ok c" "fc_limited c \<longrightarrow> 0 < fc_initialByteCount c"
    using assms by (simp_all add: limits_ok_def)
  have "controller_ok ?c" by (rule controller_ok_consts [OF _ l(1)]) (simp add: consts_of_def)
  moreover have "remainders_ok ?c" by (rule remainders_ok_same [OF _ l(4)]) (simp add: remainders_of_def)
  moreover have "byte_limits ?c" using l(2) unfolding byte_limits_def by simp
  moreover have "message_limits ?c" using l(3) unfolding message_limits_def by simp
  ultimately show ?thesis using l(5) by (simp add: limits_ok_def)
qed

definition with_counts :: "int \<times> int \<times> (sendSchedulingKey \<rightharpoonup> int) \<times> bool \<Rightarrow> sendFlightController \<Rightarrow> sendFlightController" where
  "with_counts = (\<lambda>(a, b, m, u) c. c\<lparr>fc_byteCount := a, fc_messageCount := b, fc_messageCountByKey := m, fc_flowReserveInUse := u\<rparr>)"

lemma with_counts_simps [simp]: "counts (with_counts k c) = k" "fc_limited (with_counts k c) = fc_limited c"
  "consts_of (with_counts k c) = consts_of c"
  "limits_ok c \<Longrightarrow> limits_ok (with_counts k c)"
  by (auto simp: with_counts_def counts_def consts_of_def case_prod_beta limits_ok_counts)

lemma forget_counts: "forget n key reserved c = with_counts (uncounted n key reserved (counts c)) c"
  by (rule sendFlightController.equality) (simp_all add: forget_def uncount_def uncounted_def with_counts_def counts_def message_count_def Let_def)

lemma acknowledge_counts:
  assumes "0 < n"
  shows "\<exists>a. a \<le> n \<and> (\<exists>m \<in> {0, 1}. acknowledgeForKey n key reserved c =
    (let c' = with_counts (uncounted n key reserved (counts c)) c
     in if \<not> fc_limited c then Some c'
        else if fc_slowStart c then Option.bind (slow_start_bytes a c') (slow_start_messages m)
        else Option.bind (additive_bytes a c') (additive_messages m)))"
proof -
  let ?c = "with_counts (uncounted n key reserved (counts c)) c"
  define m :: int where "m = (if 0 < fc_messageCount c then 1 else 0)"
  let ?b = "(if reserved then c\<lparr>fc_flowReserveInUse := False\<rparr> else c)\<lparr>fc_byteCount := i64 (fc_byteCount c - min n (fc_byteCount c))\<rparr>"
  have u: "uncount key ?b = (0 < fc_messageCount c, ?c)"
    by (simp add: uncount_def uncounted_def with_counts_def counts_def message_count_def Let_def)
  have "acknowledgeForKey n key reserved c =
    (if \<not> fc_limited c then Some ?c
     else if fc_slowStart c then Option.bind (slow_start_bytes (min n (fc_byteCount c)) ?c) (slow_start_messages m)
     else Option.bind (additive_bytes (min n (fc_byteCount c)) ?c) (additive_messages m))"
  proof -
    have f: "fc_byteCount (if reserved then c\<lparr>fc_flowReserveInUse := False\<rparr> else c) = fc_byteCount c" by simp
    have s: "fc_slowStart ?c = fc_slowStart c" by (simp add: with_counts_def case_prod_beta)
    show ?thesis using assms unfolding acknowledgeForKey_def Let_def f u prod.case by (simp add: s m_def)
  qed
  moreover have "min n (fc_byteCount c) \<le> n" "m \<in> {0, 1}" by (simp_all add: m_def)
  ultimately show ?thesis unfolding Let_def by blast
qed

lemma acknowledge_ok:
  assumes "limits_ok c" "0 < n" "n \<le> flight_bound"
  shows "\<exists>c'. acknowledgeForKey n key reserved c = Some c' \<and> limits_ok c' \<and> counts c' = uncounted n key reserved (counts c)
    \<and> consts_of c' = consts_of c"
proof -
  let ?c = "with_counts (uncounted n key reserved (counts c)) c"
  obtain a m where a: "a \<le> n" "m \<in> {0 :: int, 1}" "acknowledgeForKey n key reserved c =
    (if \<not> fc_limited c then Some ?c
     else if fc_slowStart c then Option.bind (slow_start_bytes a ?c) (slow_start_messages m)
     else Option.bind (additive_bytes a ?c) (additive_messages m))"
    using acknowledge_counts [OF assms(2), of key reserved c] unfolding Let_def by blast
  have ab: "a \<le> flight_bound" "m \<le> flight_bound" using a(1,2) assms(3) by auto
  have l: "limits_ok ?c" using assms(1) by simp
  show ?thesis
  proof (cases "fc_limited c")
    case True
    then have lc: "fc_limited ?c" by simp
    have "grows ?c (Option.bind (slow_start_bytes a ?c) (slow_start_messages m))"
      by (rule grows_bind [OF slow_start_bytes_ok [OF l lc ab(1)]]) (rule slow_start_messages_ok [OF _ _ ab(2)])
    moreover have "grows ?c (Option.bind (additive_bytes a ?c) (additive_messages m))"
      by (rule grows_bind [OF additive_bytes_ok [OF l lc ab(1)]]) (rule additive_messages_ok [OF _ _ ab(2)])
    ultimately show ?thesis using True a(3) by (auto simp: grows_def)
  next
    case False
    then show ?thesis using a(3) l by simp
  qed
qed

lemma sendForKey_counts:
  assumes "0 < n"
  shows "\<exists>reserved. sendForKey n key c =
    (reserved, with_counts (i64 (fc_byteCount c + n), i64 (fc_messageCount c + 1),
        if sk_valid key then (fc_messageCountByKey c)(key \<mapsto> i64 (message_count c key + 1)) else fc_messageCountByKey c,
        fc_flowReserveInUse c \<or> reserved) c)
    \<and> (reserved \<longrightarrow> \<not> fc_flowReserveInUse c)"
  using assms by (auto simp: sendForKey_def Let_def with_counts_def message_count_def)

end
