(* ===== verification/Flight_Run.thy ===== *)
theory Flight_Run
  imports Transfer_Flight
begin

text \<open>
  The items of a send sequence against its flight controller: what the controller counts is
  what is in flight, in any run of the sequence.
\<close>

text \<open>Sums over the items of a sequence that satisfy a predicate.\<close>

definition tally :: "(flightItem \<Rightarrow> bool) \<Rightarrow> (flightItem \<Rightarrow> int) \<Rightarrow> flightItem list \<Rightarrow> int" where
  "tally P f items = (\<Sum>item\<leftarrow>items. if P item then f item else 0)"

lemma tally_update:
  "i < length items \<Longrightarrow> tally P f (items[i := x]) =
     tally P f items - (if P (items ! i) then f (items ! i) else 0) + (if P x then f x else 0)"
  unfolding tally_def by (induction items arbitrary: i) (auto split: nat.split)

lemma tally_append [simp]: "tally P f (items @ [x]) = tally P f items + (if P x then f x else 0)"
  by (simp add: tally_def)

lemma tally_bounds:
  assumes "\<forall>item \<in> set items. 0 \<le> f item \<and> f item \<le> b" "0 \<le> b"
  shows "0 \<le> tally P f items" "tally P f items \<le> int (length items) * b"
  using assms(1) by (induction items) (auto simp: tally_def algebra_simps assms(2) intro: add_increasing2)

lemma tally_member:
  assumes "\<forall>item \<in> set items. 0 \<le> f item" "i < length items" "P (items ! i)"
  shows "f (items ! i) \<le> tally P f items"
proof -
  have "0 \<le> tally P f (items[i := (items ! i)]) - f (items ! i)"
  proof -
    have "0 \<le> (\<Sum>item\<leftarrow>xs. if P item then f item else 0)" if "\<forall>item \<in> set xs. 0 \<le> f item" for xs
      using that by (intro sum_list_nonneg) auto
    moreover have "items = take i items @ items ! i # drop (Suc i) items" using assms(2) by (simp add: id_take_nth_drop)
    then have "tally P f items = (\<Sum>item\<leftarrow>take i items. if P item then f item else 0) + f (items ! i)
        + (\<Sum>item\<leftarrow>drop (Suc i) items. if P item then f item else 0)"
      using assms(3) unfolding tally_def by (metis (mono_tags, lifting) add.assoc list.simps(9) map_append sum_list.Cons sum_list.append)
    moreover have "\<forall>item \<in> set (take i items). 0 \<le> f item" "\<forall>item \<in> set (drop (Suc i) items). 0 \<le> f item"
      using assms(1) by (meson in_set_takeD in_set_dropD)+
    ultimately show ?thesis by simp
  qed
  then show ?thesis by simp
qed

definition tracked_reserve :: "flightItem \<Rightarrow> bool" where
  "tracked_reserve item \<longleftrightarrow> it_unreliableFlightTracked item \<and> it_unreliableFlowReserve item"

definition tracked_key :: "sendSchedulingKey \<Rightarrow> flightItem \<Rightarrow> bool" where
  "tracked_key key item \<longleftrightarrow> it_unreliableFlightTracked item \<and> it_schedulingKey item = key"

text \<open>
  A controller counts exactly the messages that are in flight; its byte count is off by at most
  the bytes \<^verbatim>\<open>w\<close> by which items were rewritten while they were in flight.
\<close>

definition flight_books :: "int \<Rightarrow> sendFlightController \<Rightarrow> flightItem list \<Rightarrow> bool" where
  "flight_books w c items \<longleftrightarrow>
     0 \<le> fc_byteCount c \<and> \<bar>fc_byteCount c - tally it_unreliableFlightTracked it_byteCount items\<bar> \<le> w
   \<and> fc_messageCount c = tally it_unreliableFlightTracked (\<lambda>_. 1) items
   \<and> (\<forall>key. sk_valid key \<longrightarrow> message_count c key = tally (tracked_key key) (\<lambda>_. 1) items)
   \<and> tally tracked_reserve (\<lambda>_. 1) items = (if fc_flowReserveInUse c then 1 else 0)"

definition items_ok :: "flightItem list \<Rightarrow> bool" where
  "items_ok items \<longleftrightarrow> int (length items) \<le> flight_bound
     \<and> (\<forall>item \<in> set items. 0 < it_byteCount item \<and> it_byteCount item \<le> flight_bound)"

lemma flight_books_counts: "counts c' = counts c \<Longrightarrow> flight_books w c items \<Longrightarrow> flight_books w c' items \<and> fc_byteCount c' = fc_byteCount c"
  by (simp add: flight_books_def counts_def message_count_def)

lemma tally_in64:
  assumes "items_ok items"
  shows "0 \<le> tally P it_byteCount items" "tally P it_byteCount items \<le> 2 ^ 62" "0 \<le> tally P (\<lambda>_. 1) items" "tally P (\<lambda>_. 1) items \<le> flight_bound"
proof -
  have b: "\<forall>item \<in> set items. 0 \<le> it_byteCount item \<and> it_byteCount item \<le> flight_bound" "int (length items) \<le> flight_bound"
    using assms by (auto simp: items_ok_def)
  note t = tally_bounds [OF b(1), of P] and u = tally_bounds [of items "\<lambda>_. 1" 1 P]
  show "0 \<le> tally P it_byteCount items" using t(1) by simp
  have "int (length items) * flight_bound \<le> flight_bound * flight_bound" using b(2) by (intro mult_right_mono) auto
  then show "tally P it_byteCount items \<le> 2 ^ 62" using t(2) by simp
  show "0 \<le> tally P (\<lambda>_. 1) items" "tally P (\<lambda>_. 1) items \<le> flight_bound" using u b(2) by auto
qed

lemma i64_small: "- (2 ^ 62) - flight_bound \<le> x \<Longrightarrow> x \<le> 2 ^ 62 + flight_bound \<Longrightarrow> i64 x = x"
  by (rule i64_id) (simp add: in64_def)

lemma tracked_books:
  assumes "flight_books w c items" "items_ok items" "fc_byteCount c \<le> 2 ^ 62" "i < length items" "\<not> it_unreliableFlightTracked (items ! i)"
    "sendForKey (it_byteCount (items ! i)) (it_schedulingKey (items ! i)) c = (reserved, c')"
  shows "flight_books w c' (items[i := (items ! i)\<lparr>it_unreliableFlightTracked := True, it_unreliableFlowReserve := reserved\<rparr>])
    \<and> fc_byteCount c' = fc_byteCount c + it_byteCount (items ! i)"
proof -
  let ?it = "items ! i" and ?P = it_unreliableFlightTracked
  have n: "0 < it_byteCount ?it" "it_byteCount ?it \<le> flight_bound" using assms(2,4) by (auto simp: items_ok_def)
  note b = assms(1) [unfolded flight_books_def]
  have k: "message_count c (it_schedulingKey ?it) \<le> flight_bound" "0 \<le> message_count c (it_schedulingKey ?it)" if "sk_valid (it_schedulingKey ?it)"
    using b that tally_in64(3,4) [OF assms(2)] by simp_all
  have s: "i64 (fc_byteCount c + it_byteCount ?it) = fc_byteCount c + it_byteCount ?it" "i64 (fc_messageCount c + 1) = fc_messageCount c + 1"
    "sk_valid (it_schedulingKey ?it) \<Longrightarrow> i64 (message_count c (it_schedulingKey ?it) + 1) = message_count c (it_schedulingKey ?it) + 1"
    using tally_in64 [OF assms(2), of ?P] assms(3) b n k by (auto intro!: i64_small)
  have r: "c' = with_counts (fc_byteCount c + it_byteCount ?it, fc_messageCount c + 1,
      if sk_valid (it_schedulingKey ?it) then (fc_messageCountByKey c)(it_schedulingKey ?it \<mapsto> message_count c (it_schedulingKey ?it) + 1)
      else fc_messageCountByKey c, fc_flowReserveInUse c \<or> reserved) c" "reserved \<longrightarrow> \<not> fc_flowReserveInUse c"
    using sendForKey_counts [OF n(1), of "it_schedulingKey ?it" c] s assms(6) by auto
  let ?items = "items[i := ?it\<lparr>it_unreliableFlightTracked := True, it_unreliableFlowReserve := reserved\<rparr>]"
  have "message_count c' key = tally (tracked_key key) (\<lambda>_. 1) ?items" if v: "sk_valid key" for key
  proof (cases "key = it_schedulingKey ?it")
    case True
    then show ?thesis
      using b v assms(4,5) by (simp add: r(1) tally_update with_counts_def message_count_def tracked_key_def)
  next
    case False
    then show ?thesis
      using b v assms(4,5) by (auto simp: r(1) tally_update with_counts_def message_count_def tracked_key_def)
  qed
  moreover have "0 \<le> fc_byteCount c'" "\<bar>fc_byteCount c' - tally ?P it_byteCount ?items\<bar> \<le> w" "fc_byteCount c' = fc_byteCount c + it_byteCount ?it" "fc_messageCount c' = tally ?P (\<lambda>_. 1) ?items"
    "tally tracked_reserve (\<lambda>_. 1) ?items = (if fc_flowReserveInUse c' then 1 else 0)"
    using b n r(2) assms(4,5) by (auto simp: r(1) tally_update with_counts_def tracked_reserve_def)
  ultimately show ?thesis by (simp add: flight_books_def)
qed

lemma untracked_books:
  assumes "flight_books w c items" "items_ok items" "fc_byteCount c \<le> 2 ^ 62" "i < length items" "it_unreliableFlightTracked (items ! i)"
    "counts c' = uncounted (it_byteCount (items ! i)) (it_schedulingKey (items ! i)) (it_unreliableFlowReserve (items ! i)) (counts c)"
  shows "flight_books w c' (items[i := (items ! i)\<lparr>it_unreliableFlightTracked := False, it_unreliableFlowReserve := False\<rparr>])
    \<and> fc_byteCount c' \<le> fc_byteCount c"
proof -
  let ?it = "items ! i" and ?P = it_unreliableFlightTracked
  let ?k = "message_count c (it_schedulingKey ?it)" and ?n = "min (it_byteCount (items ! i)) (fc_byteCount c)"
  have n: "0 < it_byteCount ?it" "\<forall>item \<in> set items. 0 \<le> it_byteCount item" using assms(2,4) by (auto simp: items_ok_def)
  note b = assms(1) [unfolded flight_books_def]
  have l: "1 \<le> fc_messageCount c" "sk_valid (it_schedulingKey ?it) \<Longrightarrow> 1 \<le> ?k"
    "it_unreliableFlowReserve ?it \<Longrightarrow> fc_flowReserveInUse c" "it_byteCount ?it \<le> tally ?P it_byteCount items"
    using b tally_member [OF n(2) assms(4), of ?P] tally_member [of items "\<lambda>_. 1" i ?P] tally_member [of items "\<lambda>_. 1" i "tracked_key (it_schedulingKey ?it)"]
      tally_member [of items "\<lambda>_. 1" i tracked_reserve] assms(4,5)
    by (auto simp: tracked_key_def tracked_reserve_def split: if_splits)
  have k: "sk_valid (it_schedulingKey ?it) \<Longrightarrow> ?k \<le> flight_bound" using b tally_in64(4) [OF assms(2)] by simp
  have m: "0 \<le> fc_byteCount c" "fc_messageCount c \<le> flight_bound" using b tally_in64(2,4) [OF assms(2)] by simp_all
  have s: "i64 (fc_byteCount c - ?n) = fc_byteCount c - ?n" "i64 (fc_messageCount c - 1) = fc_messageCount c - 1"
    "sk_valid (it_schedulingKey ?it) \<Longrightarrow> i64 (?k - 1) = ?k - 1"
    using l m n k assms(3) by (auto intro!: i64_small)
  have e: "fc_byteCount c' = fc_byteCount c - ?n" "fc_messageCount c' = fc_messageCount c - 1"
    "fc_flowReserveInUse c' \<longleftrightarrow> fc_flowReserveInUse c \<and> \<not> it_unreliableFlowReserve ?it"
    using assms(6) l(1) s(1,2) by (simp_all add: counts_def uncounted_def Let_def)
  have mk: "message_count c' key = (if key = it_schedulingKey ?it then ?k - 1 else message_count c key)" if "sk_valid key" for key
    using assms(6) l(1,2) s(3) that by (auto simp: counts_def uncounted_def Let_def message_count_def split: if_splits)
  have "\<bar>fc_byteCount c - ?n - (tally ?P it_byteCount items - it_byteCount ?it)\<bar> \<le> w" "0 \<le> fc_byteCount c - ?n" "0 \<le> ?n"
    using b l(4) m(1) n(1) by auto
  then show ?thesis
    using b l(3) assms(4,5) unfolding flight_books_def e
    by (auto simp: tally_update mk tracked_key_def tracked_reserve_def)
qed

section \<open>Any run of a sequence\<close>

text \<open>
  What happens to the items of a sequence: a new item, a write that tracks one, an
  acknowledgement, a resend timeout, a new policy, and a rewrite of an item, in flight or not
  (a resend replaces the encoded frame of the item it makes the head before its flight is
  settled). Each step carries the bytes by which it rewrites an item in flight, and a run their
  sum.
\<close>

inductive flight_step :: "int \<Rightarrow> flightSequence \<Rightarrow> flightSequence \<Rightarrow> bool" where
  added: "0 < n \<Longrightarrow> n \<le> flight_bound \<Longrightarrow> flight_step 0 s (s\<lparr>sq_items := sq_items s @
    [\<lparr>it_byteCount = n, it_schedulingKey = key, it_unreliableFlightTracked = False, it_unreliableFlowReserve = False\<rparr>]\<rparr>)"
| tracked: "flight_step 0 s (trackUnreliableFlight i s)"
| released: "releaseUnreliableFlight i s = Some s' \<Longrightarrow> flight_step 0 s s'"
| timed_out: "observeUnreliableResendTimeout i policy s = Some (reliableOnly, s') \<Longrightarrow> flight_step 0 s s'"
| policed: "sq_flightController s = Some c \<Longrightarrow> flight_step 0 s (s\<lparr>sq_flightController := Some (snd (applyPolicy policy c))\<rparr>)"
| rewritten: "i < length (sq_items s) \<Longrightarrow> 0 < n \<Longrightarrow> n \<le> flight_bound \<Longrightarrow>
    flight_step (if it_unreliableFlightTracked (sq_items s ! i) then \<bar>n - it_byteCount (sq_items s ! i)\<bar> else 0) s
      (s\<lparr>sq_items := (sq_items s)[i := (sq_items s ! i)\<lparr>it_byteCount := n\<rparr>]\<rparr>)"

inductive flight_run :: "flightSequence \<Rightarrow> nat \<Rightarrow> int \<Rightarrow> flightSequence \<Rightarrow> bool" for s0 where
  run_start: "flight_run s0 0 0 s0"
| run_step: "flight_run s0 n w s \<Longrightarrow> flight_step d s s' \<Longrightarrow> flight_run s0 (Suc n) (w + d) s'"

definition new_sequence :: "flightSettings option \<Rightarrow> flightSequence" where
  "new_sequence settings = \<lparr>sq_flightController = Some (newSendFlightController settings), sq_items = []\<rparr>"

definition run_ok :: "sendFlightController \<Rightarrow> nat \<Rightarrow> int \<Rightarrow> flightSequence \<Rightarrow> bool" where
  "run_ok c0 n w s \<longleftrightarrow> (\<exists>c. sq_flightController s = Some c \<and> limits_ok c \<and> flight_books w c (sq_items s)
       \<and> fc_byteCount c \<le> int n * flight_bound \<and> consts_of c = consts_of c0)
     \<and> (\<forall>item \<in> set (sq_items s). 0 < it_byteCount item \<and> it_byteCount item \<le> flight_bound) \<and> length (sq_items s) \<le> n"

lemma run_ok_items: "run_ok c0 n w s \<Longrightarrow> int n \<le> flight_bound \<Longrightarrow> items_ok (sq_items s)"
  by (auto simp: run_ok_def items_ok_def)

lemma run_okD:
  assumes "run_ok c0 n w s" "int n \<le> flight_bound"
  obtains c where "sq_flightController s = Some c" "limits_ok c" "flight_books w c (sq_items s)" "consts_of c = consts_of c0"
    "fc_byteCount c \<le> int n * flight_bound" "fc_byteCount c \<le> 2 ^ 62" "items_ok (sq_items s)"
proof -
  obtain c where c: "sq_flightController s = Some c" "limits_ok c" "flight_books w c (sq_items s)" "consts_of c = consts_of c0"
    "fc_byteCount c \<le> int n * flight_bound" using assms(1) by (auto simp: run_ok_def)
  moreover have "int n * flight_bound \<le> flight_bound * flight_bound" using assms(2) by (intro mult_right_mono) auto
  then have "fc_byteCount c \<le> 2 ^ 62" using c(5) by simp
  ultimately show ?thesis using that run_ok_items [OF assms] by blast
qed

lemma in_set_update: "y \<in> set (xs[i := x]) \<Longrightarrow> y = x \<or> y \<in> set xs"
  using set_update_subset_insert [of xs i x] by blast

lemma run_ok_Suc: "run_ok c0 n w s \<Longrightarrow> run_ok c0 (Suc n) w s"
  by (auto simp: run_ok_def)

lemma track_ok:
  assumes "run_ok c0 n w s" "int n \<le> flight_bound"
  shows "run_ok c0 (Suc n) w (trackUnreliableFlight i s)"
proof -
  obtain c where c: "sq_flightController s = Some c" "limits_ok c" "flight_books w c (sq_items s)" "consts_of c = consts_of c0"
    "fc_byteCount c \<le> int n * flight_bound" "fc_byteCount c \<le> 2 ^ 62" "items_ok (sq_items s)"
    by (rule run_okD [OF assms])
  show ?thesis
  proof (cases "length (sq_items s) \<le> i \<or> it_unreliableFlightTracked (sq_items s ! i)")
    case True
    then show ?thesis using assms(1) c(1) run_ok_Suc by (simp add: trackUnreliableFlight_def)
  next
    case False
    then have i: "i < length (sq_items s)" "\<not> it_unreliableFlightTracked (sq_items s ! i)" by simp_all
    have n: "0 < it_byteCount (sq_items s ! i)" "it_byteCount (sq_items s ! i) \<le> flight_bound"
      using c(7) i(1) by (auto simp: items_ok_def)
    obtain reserved c' where s: "sendForKey (it_byteCount (sq_items s ! i)) (it_schedulingKey (sq_items s ! i)) c = (reserved, c')" by (cases "sendForKey (it_byteCount (sq_items s ! i)) (it_schedulingKey (sq_items s ! i)) c")
    have "limits_ok c'" "consts_of c' = consts_of c"
      using sendForKey_counts [OF n(1), of "it_schedulingKey (sq_items s ! i)" c] s c(2) by auto
    moreover have "fc_byteCount c + it_byteCount (sq_items s ! i) \<le> int (Suc n) * flight_bound" using c(5) n(2) by simp
    ultimately show ?thesis
      using tracked_books [OF c(3,7,6) i s] assms(1) c(1,4,5) i n s
      by (auto simp: run_ok_def trackUnreliableFlight_def Let_def dest!: in_set_update)
  qed
qed

lemma release_flight_ok:
  assumes "run_ok c0 n w s" "int n \<le> flight_bound"
  shows "\<exists>s'. releaseUnreliableFlight i s = Some s' \<and> run_ok c0 n w s'"
proof -
  obtain c where c: "sq_flightController s = Some c" "limits_ok c" "flight_books w c (sq_items s)" "consts_of c = consts_of c0"
    "fc_byteCount c \<le> int n * flight_bound" "fc_byteCount c \<le> 2 ^ 62" "items_ok (sq_items s)"
    by (rule run_okD [OF assms])
  show ?thesis
  proof (cases "length (sq_items s) \<le> i \<or> \<not> it_unreliableFlightTracked (sq_items s ! i)")
    case True
    then show ?thesis using assms(1) c(1) by (simp add: releaseUnreliableFlight_def)
  next
    case False
    then have i: "i < length (sq_items s)" "it_unreliableFlightTracked (sq_items s ! i)" by simp_all
    let ?it = "sq_items s ! i"
    have n: "0 < it_byteCount ?it" "it_byteCount ?it \<le> flight_bound" using c(7) i(1) by (auto simp: items_ok_def)
    obtain c' where a: "acknowledgeForKey (it_byteCount ?it) (it_schedulingKey ?it) (it_unreliableFlowReserve ?it) c = Some c'" "limits_ok c'"
      "counts c' = uncounted (it_byteCount ?it) (it_schedulingKey ?it) (it_unreliableFlowReserve ?it) (counts c)" "consts_of c' = consts_of c"
      using acknowledge_ok [OF c(2) n, of "it_schedulingKey ?it" "it_unreliableFlowReserve ?it"] by blast
    then show ?thesis
      using untracked_books [OF c(3,7,6) i a(3)] assms(1) c(1,4,5) i n
      by (auto simp: run_ok_def releaseUnreliableFlight_def Let_def dest!: in_set_update)
  qed
qed

lemma forget_ok:
  assumes "run_ok c0 n w s" "int n \<le> flight_bound"
  shows "run_ok c0 n w (forgetUnreliableFlight i s)"
proof -
  obtain c where c: "sq_flightController s = Some c" "limits_ok c" "flight_books w c (sq_items s)" "consts_of c = consts_of c0"
    "fc_byteCount c \<le> int n * flight_bound" "fc_byteCount c \<le> 2 ^ 62" "items_ok (sq_items s)"
    by (rule run_okD [OF assms])
  show ?thesis
  proof (cases "length (sq_items s) \<le> i \<or> \<not> it_unreliableFlightTracked (sq_items s ! i)")
    case True
    then show ?thesis using assms(1) c(1) by (simp add: forgetUnreliableFlight_def)
  next
    case False
    then have i: "i < length (sq_items s)" "it_unreliableFlightTracked (sq_items s ! i)" by simp_all
    let ?it = "sq_items s ! i"
    let ?c = "forget (it_byteCount ?it) (it_schedulingKey ?it) (it_unreliableFlowReserve ?it) c"
    have n: "0 < it_byteCount ?it" "it_byteCount ?it \<le> flight_bound" using c(7) i(1) by (auto simp: items_ok_def)
    have f: "counts ?c = uncounted (it_byteCount ?it) (it_schedulingKey ?it) (it_unreliableFlowReserve ?it) (counts c)" "limits_ok ?c"
      "consts_of ?c = consts_of c" using c(2) by (simp_all add: forget_counts)
    then show ?thesis
      using untracked_books [OF c(3,7,6) i f(1)] assms(1) c(1,4,5) i n
      by (auto simp: run_ok_def forgetUnreliableFlight_def Let_def dest!: in_set_update)
  qed
qed

lemma timeout_ok:
  assumes "run_ok c0 n w s" "int n \<le> flight_bound"
  shows "\<exists>b s'. observeUnreliableResendTimeout i policy s = Some (b, s') \<and> run_ok c0 n w s'"
proof -
  obtain c where c: "sq_flightController s = Some c" "limits_ok c" "flight_books w c (sq_items s)" "consts_of c = consts_of c0"
    "fc_byteCount c \<le> int n * flight_bound" "fc_byteCount c \<le> 2 ^ 62" "items_ok (sq_items s)"
    by (rule run_okD [OF assms])
  let ?s = "s\<lparr>sq_flightController := Some (snd (reduceForLoss c))\<rparr>"
  note r = reduceForLoss_ok [OF c(2)]
  have "run_ok c0 n w ?s" using assms(1) c r flight_books_counts [OF r(2) c(3)] by (auto simp: run_ok_def)
  then show ?thesis using forget_ok [OF _ assms(2), of c0 w ?s i] c(1) by (auto simp: observeUnreliableResendTimeout_def Let_def)
qed

lemma rewritten_books:
  assumes "flight_books w c items" "i < length items"
  shows "flight_books (w + (if it_unreliableFlightTracked (items ! i) then \<bar>n - it_byteCount (items ! i)\<bar> else 0)) c
    (items[i := (items ! i)\<lparr>it_byteCount := n\<rparr>])"
proof -
  have "\<bar>b - t\<bar> \<le> w \<Longrightarrow> \<bar>b - (t - m + n)\<bar> \<le> w + \<bar>n - m\<bar>" for b t m :: int by linarith
  then show ?thesis using assms by (simp add: flight_books_def tally_update tracked_key_def tracked_reserve_def)
qed

lemma flight_step_ok:
  assumes "run_ok c0 n w s" "flight_step d s s'" "int (Suc n) \<le> flight_bound"
  shows "run_ok c0 (Suc n) (w + d) s'"
proof -
  have n: "int n \<le> flight_bound" using assms(3) by simp
  obtain c where c: "sq_flightController s = Some c" "limits_ok c" "flight_books w c (sq_items s)" "consts_of c = consts_of c0"
    "fc_byteCount c \<le> int n * flight_bound" by (rule run_okD [OF assms(1) n])
  show ?thesis
    using assms(2)
  proof cases
    case (added m key)
    have "flight_books w c (sq_items s @ [\<lparr>it_byteCount = m, it_schedulingKey = key, it_unreliableFlightTracked = False, it_unreliableFlowReserve = False\<rparr>])"
      using c(3) by (simp add: flight_books_def tracked_key_def tracked_reserve_def)
    then show ?thesis using assms(1) added c by (auto simp: run_ok_def)
  next
    case (tracked i)
    then show ?thesis using track_ok [OF assms(1) n] by simp
  next
    case (released i)
    then show ?thesis using release_flight_ok [OF assms(1) n, of i] run_ok_Suc by auto
  next
    case (timed_out i policy b)
    then show ?thesis using timeout_ok [OF assms(1) n, of i policy] run_ok_Suc by auto
  next
    case (policed e policy)
    note p = applyPolicy_ok [OF c(2), of policy]
    show ?thesis
      using assms(1) policed c p flight_books_counts [OF p(2) c(3)] by (auto simp: run_ok_def)
  next
    case (rewritten i m)
    then show ?thesis using assms(1) c rewritten_books [OF c(3), of i m] by (auto simp: run_ok_def dest!: in_set_update)
  qed
qed

lemma flight_run_ok:
  assumes "flight_run (new_sequence (Some st)) n w s" "settings_ok st" "int n \<le> flight_bound"
  shows "run_ok (newSendFlightController (Some st)) n w s"
  using assms
proof (induction rule: flight_run.induct)
  case run_start
  let ?c = "newSendFlightController (Some st)"
  have "limits_ok ?c" "counts ?c = (0, 0, Map.empty, False)" using new_limits_ok [of "Some st"] run_start(1) by simp_all
  then show ?case by (simp add: run_ok_def new_sequence_def flight_books_def tally_def counts_def message_count_def)
next
  case (run_step n w s d s')
  then show ?case using flight_step_ok [of _ n w s d s'] by simp
qed

section \<open>Properties of the flight\<close>

text \<open>
  C37. The flight limits stay in their range and no operation panics. In every run of less than
  two billion steps from a new sequence with settings below 2 GiB, after any mix of writes,
  acknowledgements, timeouts, policy changes and rewrites of items, in flight or not: while the controller is limited its
  byte limit is positive and lies between the active floor and the active ceiling, the ceiling
  never exceeds the configured maximum or the policy's limit, and the same holds for messages
  where they are limited; while it is not limited every limit is zero. No acknowledgement
  divides by zero and no timeout finds a sequence without a controller.
\<close>

theorem flight_limits_hold:
  assumes "settings_ok st" "flight_run (new_sequence (Some st)) n w s" "int n \<le> flight_bound"
  shows "\<exists>c. sq_flightController s = Some c \<and> byte_limits c \<and> message_limits c
      \<and> consts_of c = consts_of (newSendFlightController (Some st))
      \<and> (\<forall>i. releaseUnreliableFlight i s \<noteq> None) \<and> (\<forall>i policy. observeUnreliableResendTimeout i policy s \<noteq> None)"
proof -
  note r = flight_run_ok [OF assms(2,1,3)]
  obtain c where c: "sq_flightController s = Some c" "limits_ok c" "consts_of c = consts_of (newSendFlightController (Some st))"
    using r by (auto simp: run_ok_def)
  have "releaseUnreliableFlight i s \<noteq> None" for i using release_flight_ok [OF r assms(3), of i] by auto
  moreover have "observeUnreliableResendTimeout i policy s \<noteq> None" for i policy using timeout_ok [OF r assms(3), of i policy] by auto
  ultimately show ?thesis using c by (simp add: limits_ok_def)
qed

text \<open>
  C38. The flight counts are the items in flight. In every such run the controller's message
  count is the number of the tracked items, its count for a valid scheduling key the number of
  tracked items with that key, and the flow reserve is in use exactly when one tracked item
  holds it, and never by two. Its byte count is never negative and differs from the sum of the
  sizes of the tracked items by no more than the bytes \<^verbatim>\<open>w\<close> by which items were rewritten
  while they were in flight (the promotion of an item to head does that); in a run that rewrites
  no item in flight it is exactly that sum.
\<close>

theorem flight_counts_exact:
  assumes "settings_ok st" "flight_run (new_sequence (Some st)) n w s" "int n \<le> flight_bound"
  shows "\<exists>c. sq_flightController s = Some c
      \<and> 0 \<le> fc_byteCount c
      \<and> \<bar>fc_byteCount c - (\<Sum>item\<leftarrow>filter it_unreliableFlightTracked (sq_items s). it_byteCount item)\<bar> \<le> w
      \<and> (w = 0 \<longrightarrow> fc_byteCount c = (\<Sum>item\<leftarrow>filter it_unreliableFlightTracked (sq_items s). it_byteCount item))
      \<and> fc_messageCount c = int (length (filter it_unreliableFlightTracked (sq_items s)))
      \<and> (\<forall>key. sk_valid key \<longrightarrow> message_count c key = int (length (filter (tracked_key key) (sq_items s))))
      \<and> length (filter tracked_reserve (sq_items s)) = (if fc_flowReserveInUse c then 1 else 0)"
proof -
  obtain c where c: "sq_flightController s = Some c" "flight_books w c (sq_items s)"
    using flight_run_ok [OF assms(2,1,3)] by (auto simp: run_ok_def)
  have "tally P f items = (\<Sum>item\<leftarrow>filter P items. f item)" for P f items by (induction items) (simp_all add: tally_def)
  moreover have "tally P (\<lambda>_. 1) items = int (length (filter P items))" for P items by (induction items) (simp_all add: tally_def)
  moreover have "int m = (if b then 1 else 0) \<longleftrightarrow> m = (if b then 1 else 0)" for m b by simp
  ultimately have "0 \<le> fc_byteCount c" "\<bar>fc_byteCount c - (\<Sum>item\<leftarrow>filter it_unreliableFlightTracked (sq_items s). it_byteCount item)\<bar> \<le> w"
    "fc_messageCount c = int (length (filter it_unreliableFlightTracked (sq_items s)))"
    "\<forall>key. sk_valid key \<longrightarrow> message_count c key = int (length (filter (tracked_key key) (sq_items s)))"
    "length (filter tracked_reserve (sq_items s)) = (if fc_flowReserveInUse c then 1 else 0)"
    using c(2) unfolding flight_books_def by metis+
  then show ?thesis using c(1) by auto
qed

fun acknowledge_all :: "int list \<Rightarrow> sendFlightController \<Rightarrow> sendFlightController option" where
  "acknowledge_all [] c = Some c"
| "acknowledge_all (n # ns) c = Option.bind (acknowledge n c) (acknowledge_all ns)"

lemma slow_start_messages_keeps:
  "slow_start_messages m c = Some c' \<Longrightarrow> fc_byteLimit c' = fc_byteLimit c \<and> fc_activeMaximumByteCount c' = fc_activeMaximumByteCount c
    \<and> fc_slowStartIncreaseRemainder c' = fc_slowStartIncreaseRemainder c \<and> fc_slowStart c' = fc_slowStart c
    \<and> fc_slowStartDivisor c' = fc_slowStartDivisor c"
  by (auto simp: slow_start_messages_def Let_def bind_eq_Some_conv split: if_splits)

lemma slow_start_ack:
  assumes "limits_ok c" "fc_limited c" "fc_slowStart c" "0 < n" "n \<le> flight_bound" "n \<le> fc_byteCount c" "fc_byteCount c \<le> 2 ^ 62"
  shows "\<exists>c'. acknowledge n c = Some c' \<and> limits_ok c' \<and> fc_limited c' \<and> fc_slowStart c' \<and> fc_byteCount c' = fc_byteCount c - n
    \<and> fc_slowStartDivisor c' = fc_slowStartDivisor c \<and> fc_activeMaximumByteCount c' = fc_activeMaximumByteCount c
    \<and> (if fc_byteLimit c < fc_activeMaximumByteCount c
       then fc_byteLimit c' = min (fc_activeMaximumByteCount c) (fc_byteLimit c + (fc_slowStartIncreaseRemainder c + n) div fc_slowStartDivisor c)
         \<and> fc_slowStartIncreaseRemainder c' = (fc_slowStartIncreaseRemainder c + n) mod fc_slowStartDivisor c
       else fc_byteLimit c' = fc_byteLimit c \<and> fc_slowStartIncreaseRemainder c' = fc_slowStartIncreaseRemainder c)"
proof -
  let ?key = "\<lparr>sk_valid = False\<rparr>"
  let ?c = "with_counts (uncounted n ?key False (counts c)) c"
  define m :: int where "m = (if 0 < fc_messageCount c then 1 else 0)"
  have mn: "min n (fc_byteCount c) = n" using assms(6) by simp
  have a: "acknowledge n c = Option.bind (slow_start_bytes n ?c) (slow_start_messages m)"
    using assms(2-4) mn unfolding acknowledge_def acknowledgeForKey_def Let_def
    by (simp add: uncount_def uncounted_def with_counts_def counts_def message_count_def m_def)
  have l: "limits_ok ?c" "fc_limited ?c" using assms(1,2) by simp_all
  have e: "fc_byteLimit ?c = fc_byteLimit c" "fc_activeMaximumByteCount ?c = fc_activeMaximumByteCount c"
    "fc_slowStartIncreaseRemainder ?c = fc_slowStartIncreaseRemainder c" "fc_slowStart ?c = fc_slowStart c" "fc_slowStartDivisor ?c = fc_slowStartDivisor c"
    by (simp_all add: with_counts_def case_prod_beta)
  obtain c1 where c1: "slow_start_bytes n ?c = Some c1" "limits_ok c1" "counts c1 = counts ?c" "fc_limited c1"
    using slow_start_bytes_ok [OF l assms(5)] by (auto simp: grows_def)
  have mb: "m \<le> flight_bound" by (simp add: m_def)
  obtain c2 where c2: "slow_start_messages m c1 = Some c2" "limits_ok c2" "counts c2 = counts c1" "fc_limited c2"
    using slow_start_messages_ok [OF c1(2,4) mb] by (auto simp: grows_def)
  note k = slow_start_messages_keeps [OF c2(1)]
  note f = limited_facts [OF assms(1,2)]
  have r: "0 \<le> fc_slowStartIncreaseRemainder c" "fc_slowStartIncreaseRemainder c \<le> flight_bound" using f(9) unfolding remainders_ok_def by blast+
  have b: "0 \<le> n" "n \<le> 2 ^ 62" "0 \<le> fc_byteLimit c" using assms(4,5) f(5,6) by simp_all
  note g = growth [OF r b(1,2) f(1,2) b(3) f(7,8)]
  have "fc_byteCount c2 = i64 (fc_byteCount c - n)" using c2(3) c1(3) mn by (simp add: counts_def with_counts_def uncounted_def Let_def)
  moreover have "i64 (fc_byteCount c - n) = fc_byteCount c - n" using assms(4,6,7) by (intro i64_small) simp_all
  moreover have "fc_slowStart c1 \<and> fc_slowStartDivisor c1 = fc_slowStartDivisor c \<and> fc_activeMaximumByteCount c1 = fc_activeMaximumByteCount c
    \<and> (if fc_byteLimit c < fc_activeMaximumByteCount c
       then fc_byteLimit c1 = min (fc_activeMaximumByteCount c) (fc_byteLimit c + (fc_slowStartIncreaseRemainder c + n) div fc_slowStartDivisor c)
         \<and> fc_slowStartIncreaseRemainder c1 = (fc_slowStartIncreaseRemainder c + n) mod fc_slowStartDivisor c
       else fc_byteLimit c1 = fc_byteLimit c \<and> fc_slowStartIncreaseRemainder c1 = fc_slowStartIncreaseRemainder c)"
    using c1(1) assms(3,4) g(1-4) by (auto simp: slow_start_bytes_def e Let_def split: if_splits)
  ultimately show ?thesis using a c1(1) c2 k by auto
qed

text \<open>
  C39. Slow start grows by the exact share of what was acknowledged. Dividing each acknowledgement
  by the growth divisor and carrying the remainder loses nothing: after any list of
  acknowledgements of bytes in flight, the byte limit has grown by the quotient of their sum
  (with the remainder there was, which is below the divisor from the start) and the divisor, up
  to the active ceiling, however the bytes were spread over the acknowledgements.
\<close>

theorem slow_start_exact:
  assumes "limits_ok c" "fc_limited c" "fc_slowStart c" "fc_slowStartIncreaseRemainder c < fc_slowStartDivisor c"
    "fc_byteCount c \<le> 2 ^ 62" "sum_list ns \<le> fc_byteCount c" "\<forall>n \<in> set ns. 0 < n \<and> n \<le> flight_bound"
  shows "\<exists>c'. acknowledge_all ns c = Some c' \<and> fc_byteCount c' = fc_byteCount c - sum_list ns
    \<and> fc_byteLimit c' = min (fc_activeMaximumByteCount c)
        (fc_byteLimit c + (fc_slowStartIncreaseRemainder c + sum_list ns) div fc_slowStartDivisor c)"
  using assms
proof (induction ns arbitrary: c)
  case Nil
  note f = limited_facts [OF Nil(1,2)]
  have "0 \<le> fc_slowStartIncreaseRemainder c" using f(9) unfolding remainders_ok_def by blast
  then have "fc_slowStartIncreaseRemainder c div fc_slowStartDivisor c = 0" using Nil(4) by simp
  then show ?case using f(7) by simp
next
  case (Cons n ns)
  let ?d = "fc_slowStartDivisor c" and ?r = "fc_slowStartIncreaseRemainder c" and ?M = "fc_activeMaximumByteCount c" and ?S = "sum_list ns"
  have S: "0 \<le> ?S" using Cons.prems(7) by (intro sum_list_nonneg) auto
  have n: "0 < n" "n \<le> flight_bound" "n \<le> fc_byteCount c" using Cons.prems(6,7) S by simp_all
  note f = limited_facts [OF Cons.prems(1,2)]
  have r: "0 \<le> ?r" using f(9) unfolding remainders_ok_def by blast
  obtain c1 where c1: "acknowledge n c = Some c1" "limits_ok c1" "fc_limited c1" "fc_slowStart c1" "fc_byteCount c1 = fc_byteCount c - n"
    "fc_slowStartDivisor c1 = ?d" "fc_activeMaximumByteCount c1 = ?M"
    "if fc_byteLimit c < ?M then fc_byteLimit c1 = min ?M (fc_byteLimit c + (?r + n) div ?d) \<and> fc_slowStartIncreaseRemainder c1 = (?r + n) mod ?d
     else fc_byteLimit c1 = fc_byteLimit c \<and> fc_slowStartIncreaseRemainder c1 = ?r"
    using slow_start_ack [OF Cons.prems(1-3) n Cons.prems(5)] by blast
  have r1: "fc_slowStartIncreaseRemainder c1 < fc_slowStartDivisor c1" "0 \<le> fc_slowStartIncreaseRemainder c1"
    using c1(6,8) Cons.prems(4) f(1) r by (auto split: if_splits)
  obtain c2 where c2: "acknowledge_all ns c1 = Some c2" "fc_byteCount c2 = fc_byteCount c1 - ?S"
    "fc_byteLimit c2 = min ?M (fc_byteLimit c1 + (fc_slowStartIncreaseRemainder c1 + ?S) div ?d)"
    using Cons.IH [OF c1(2-4) r1(1)] Cons.prems(5-7) c1(5-7) n by auto
  have q: "0 \<le> (fc_slowStartIncreaseRemainder c1 + ?S) div ?d" "0 \<le> (?r + n + ?S) div ?d"
    using r1(2) S f(1) r n(1) by (simp_all add: pos_imp_zdiv_nonneg_iff)
  have "fc_byteLimit c2 = min ?M (fc_byteLimit c + (?r + n + ?S) div ?d)"
  proof (cases "fc_byteLimit c < ?M")
    case True
    have "?r + n + ?S = ((?r + n) mod ?d + ?S) + ((?r + n) div ?d) * ?d" by (simp add: algebra_simps)
    then have "(?r + n + ?S) div ?d = (?r + n) div ?d + ((?r + n) mod ?d + ?S) div ?d" using f(1) by (metis add.commute div_mult_self1 less_irrefl)
    then show ?thesis using c2(3) c1(8) True q(1) by simp
  next
    case False
    then show ?thesis using c2(3) c1(8) q f(7) by simp
  qed
  then show ?case using c1(1,5) c2(1,2) by (simp add: add.assoc)
qed

section \<open>The properties on an example\<close>

text \<open>The default settings of a send buffer, a limited policy, and a sequence with two messages of which one is in flight.\<close>

definition example_settings :: flightSettings where
  "example_settings = \<lparr>st_initialByteCount = 8192, st_minimumByteCount = 8192, st_maximumByteCount = 262144, st_initialMessageCount = 8,
     st_minimumMessageCount = 4, st_maximumMessageCount = 256, st_slowStartGrowthDivisor = 4, st_increaseByteCount = 1150,
     st_increaseMessageCount = 1\<rparr>"

definition example_policy :: transferFlightPolicySnapshot where
  "example_policy = \<lparr>po_generation = 1, po_limited = True, po_byteLimit = 0, po_messageLimit = 16, po_flowReserve = True,
     po_reliableRouteAvailable = True\<rparr>"

definition example_item :: "int \<Rightarrow> flightItem" where
  "example_item n = \<lparr>it_byteCount = n, it_schedulingKey = \<lparr>sk_valid = True\<rparr>, it_unreliableFlightTracked = False, it_unreliableFlowReserve = False\<rparr>"

definition example_flight :: flightSequence where
  "example_flight =
     (let s = new_sequence (Some example_settings);
          s = s\<lparr>sq_flightController := Some (snd (applyPolicy example_policy (newSendFlightController (Some example_settings))))\<rparr>;
          s = s\<lparr>sq_items := sq_items s @ [example_item 1000]\<rparr>;
          s = s\<lparr>sq_items := sq_items s @ [example_item 600]\<rparr>
      in trackUnreliableFlight 0 s)"

lemma example_settings_ok: "settings_ok example_settings"
  by (simp add: settings_ok_def example_settings_def)

lemma example_flight_run: "flight_run (new_sequence (Some example_settings)) 4 0 example_flight"
proof -
  let ?s0 = "new_sequence (Some example_settings)"
  let ?s1 = "?s0\<lparr>sq_flightController := Some (snd (applyPolicy example_policy (newSendFlightController (Some example_settings))))\<rparr>"
  let ?s2 = "?s1\<lparr>sq_items := sq_items ?s1 @ [example_item 1000]\<rparr>"
  let ?s3 = "?s2\<lparr>sq_items := sq_items ?s2 @ [example_item 600]\<rparr>"
  have 1: "flight_step 0 ?s0 ?s1" by (rule policed) (simp add: new_sequence_def)
  have 2: "flight_step 0 ?s1 ?s2" unfolding example_item_def by (rule added) simp_all
  have 3: "flight_step 0 ?s2 ?s3" unfolding example_item_def by (rule added) simp_all
  have 4: "flight_step 0 ?s3 example_flight" unfolding example_flight_def Let_def by (rule tracked)
  have "flight_run ?s0 (Suc (Suc (Suc (Suc 0)))) (0 + 0 + 0 + 0 + 0) example_flight"
    by (rule run_step [OF run_step [OF run_step [OF run_step [OF run_start 1] 2] 3] 4])
  then show ?thesis by (simp add: numeral_eq_Suc)
qed

lemma example_flight_state:
  "map_option (\<lambda>c. (fc_limited c, fc_byteLimit c, fc_byteCount c, fc_messageCount c)) (sq_flightController example_flight) = Some (True, 8192, 1000, 1)"
  "map it_unreliableFlightTracked (sq_items example_flight) = [True, False]"
  by code_simp+

theorem flight_limits_hold_witness:
  "\<exists>c. sq_flightController example_flight = Some c \<and> fc_limited c \<and> byte_limits c \<and> message_limits c
     \<and> (\<forall>i. releaseUnreliableFlight i example_flight \<noteq> None)"
proof -
  obtain c where "sq_flightController example_flight = Some c" "byte_limits c" "message_limits c"
    "\<forall>i. releaseUnreliableFlight i example_flight \<noteq> None"
    using flight_limits_hold [OF example_settings_ok example_flight_run] by auto
  then show ?thesis using example_flight_state(1) by auto
qed

theorem slow_start_exact_witness:
  "\<exists>c c'. sq_flightController example_flight = Some c \<and> acknowledge_all [303, 302, 301] c = Some c'
     \<and> fc_byteCount c' = 94 \<and> fc_byteLimit c' = 8192 + 226"
proof -
  obtain c where c: "sq_flightController example_flight = Some c" "limits_ok c"
    using flight_run_ok [OF example_flight_run example_settings_ok] by (auto simp: run_ok_def)
  have "map_option (\<lambda>c. (fc_limited c, fc_slowStart c, fc_slowStartIncreaseRemainder c, fc_slowStartDivisor c, fc_byteCount c,
      fc_activeMaximumByteCount c, fc_byteLimit c)) (sq_flightController example_flight) = Some (True, True, 0, 4, 1000, 262144, 8192)"
    by code_simp
  then have f: "fc_limited c" "fc_slowStart c" "fc_slowStartIncreaseRemainder c = 0" "fc_slowStartDivisor c = 4" "fc_byteCount c = 1000"
    "fc_activeMaximumByteCount c = 262144" "fc_byteLimit c = 8192" using c(1) by simp_all
  show ?thesis using slow_start_exact [OF c(2) f(1,2), of "[303, 302, 301]"] f c(1) by simp
qed

section \<open>A rewrite in flight\<close>

text \<open>
  A resend promotes the item at the head of the sequence before its flight is settled:
  \<^verbatim>\<open>setHead\<close> replaces the encoded frame by a longer one, and the flight is then released by the
  new length. Here 1000 of 1600 bytes in flight are rewritten to 1400 bytes and released by a
  timeout: the controller is left with 200 bytes for the 600 that are still in flight, off by
  the 400 bytes of the rewrite.
\<close>

definition promoted_head :: flightSequence where
  "promoted_head =
     (let s = trackUnreliableFlight 1 example_flight
      in s\<lparr>sq_items := (sq_items s)[0 := (sq_items s ! 0)\<lparr>it_byteCount := 1400\<rparr>]\<rparr>)"

definition timed_out_head :: flightSequence where
  "timed_out_head = snd (the (observeUnreliableResendTimeout 0 example_policy promoted_head))"

lemma head_rewrite_drifts:
  "map_option (\<lambda>c. fc_byteCount c) (sq_flightController (trackUnreliableFlight 1 example_flight)) = Some 1600"
  "map_option (\<lambda>c. (fc_byteCount c, fc_messageCount c)) (sq_flightController timed_out_head) = Some (200, 1)"
  "map it_byteCount (filter it_unreliableFlightTracked (sq_items timed_out_head)) = [600]"
  by code_simp+

lemma timed_out_head_run: "flight_run (new_sequence (Some example_settings)) 7 400 timed_out_head"
proof -
  let ?s = "trackUnreliableFlight 1 example_flight"
  have i: "0 < length (sq_items ?s)" "it_unreliableFlightTracked (sq_items ?s ! 0)" "it_byteCount (sq_items ?s ! 0) = 1000"
    by code_simp+
  have 5: "flight_step 0 example_flight ?s" by (rule tracked)
  have 6: "flight_step 400 ?s promoted_head" using rewritten [OF i(1), of 1400] i unfolding promoted_head_def Let_def by simp
  have "observeUnreliableResendTimeout 0 example_policy promoted_head \<noteq> None" by code_simp
  then have 7: "flight_step 0 promoted_head timed_out_head"
    by (intro timed_out [of 0 example_policy _ "fst (the (observeUnreliableResendTimeout 0 example_policy promoted_head))"])
      (simp add: timed_out_head_def)
  have "flight_run (new_sequence (Some example_settings)) (Suc (Suc (Suc 4))) (0 + 0 + 400 + 0) timed_out_head"
    by (rule run_step [OF run_step [OF run_step [OF example_flight_run 5] 6] 7])
  then show ?thesis by (simp add: numeral_eq_Suc)
qed

theorem flight_counts_exact_witness:
  "(\<exists>c. sq_flightController example_flight = Some c \<and> fc_byteCount c = 1000 \<and> fc_messageCount c = 1
     \<and> fc_byteCount c = (\<Sum>item\<leftarrow>filter it_unreliableFlightTracked (sq_items example_flight). it_byteCount item))
   \<and> (\<exists>c. sq_flightController timed_out_head = Some c \<and> fc_byteCount c = 200 \<and> fc_messageCount c = 1
     \<and> fc_messageCount c = int (length (filter it_unreliableFlightTracked (sq_items timed_out_head)))
     \<and> \<bar>fc_byteCount c - (\<Sum>item\<leftarrow>filter it_unreliableFlightTracked (sq_items timed_out_head). it_byteCount item)\<bar> \<le> 400)"
proof -
  obtain c where "sq_flightController example_flight = Some c"
    "fc_byteCount c = (\<Sum>item\<leftarrow>filter it_unreliableFlightTracked (sq_items example_flight). it_byteCount item)"
    using flight_counts_exact [OF example_settings_ok example_flight_run] by auto
  moreover obtain d where "sq_flightController timed_out_head = Some d"
    "fc_messageCount d = int (length (filter it_unreliableFlightTracked (sq_items timed_out_head)))"
    "\<bar>fc_byteCount d - (\<Sum>item\<leftarrow>filter it_unreliableFlightTracked (sq_items timed_out_head). it_byteCount item)\<bar> \<le> 400"
    using flight_counts_exact [OF example_settings_ok timed_out_head_run] by auto
  ultimately show ?thesis using example_flight_state(1) head_rewrite_drifts(2) by auto
qed

end
