(* ===== verification/Rtt_Window.thy ===== *)
theory Rtt_Window
  imports Go_Heap
begin

text \<open>
  The window of round-trip samples of a send sequence (transfer_rtt.go): a ring of the last
  samples, a min heap over the same samples, and their running sum.

  \<^item> samples are pointers: addresses into \<open>rw_store\<close>, allocated in order; a nil slot is \<open>None\<close>.
  \<^item> a time is a number of nanoseconds since the Unix epoch; a difference of times saturates at
    the ends of a 64-bit duration, a sum of durations wraps around.
  \<^item> the product of a count of milliseconds and the \<open>float32\<close> factor \<open>rttScale\<close>, truncated to an
    integer, is the function \<open>rw_rttScale\<close> of the count; nothing below depends on which it is.
  \<^item> a panic (a nil sample, a heap index outside the slice, an empty window) is \<open>None\<close>.
\<close>

section \<open>State\<close>

record rttWindowItem =
  ri_sendTime :: int
  ri_receiveTime :: int
  ri_rtt :: int
  ri_heapIndex :: nat

record rttHeap =
  rh_items :: "nat list"
  rh_netRtt :: int

record RttWindow = rttHeap +
  rw_windowTimeout :: int
  rw_rttScale :: "int \<Rightarrow> int"
  rw_minScaledRtt :: int
  rw_rttMinScaledRtt :: int
  rw_maxScaledRtt :: int
  rw_window :: "nat option list"
  rw_windowTailIndex :: nat
  rw_windowHeadIndex :: nat
  rw_store :: "nat \<Rightarrow> rttWindowItem"
  rw_next :: nat

definition time_Sub :: "int \<Rightarrow> int \<Rightarrow> int" where
  "time_Sub a b = max (- (2 ^ 63)) (min (2 ^ 63 - 1) (a - b))"

definition newRttWindowItem :: "int \<Rightarrow> int \<Rightarrow> rttWindowItem" where
  "newRttWindowItem sendTime receiveTime =
     \<lparr>ri_sendTime = sendTime, ri_receiveTime = receiveTime, ri_rtt = time_Sub receiveTime sendTime, ri_heapIndex = 0\<rparr>"

definition NewRttWindow :: "int \<Rightarrow> int \<Rightarrow> (int \<Rightarrow> int) \<Rightarrow> int \<Rightarrow> int list \<Rightarrow> RttWindow option" where
  "NewRttWindow windowSize windowTimeout rttScale minScaledRtt rest =
     (if windowSize \<le> 0 then None
      else
        let (rttMinScaledRtt, maxScaledRtt) =
              (if length rest = 1 then (minScaledRtt, rest ! 0)
               else if 2 \<le> length rest then (rest ! 0, rest ! 1)
               else (0, 0));
            rttMinScaledRtt = (if rttMinScaledRtt \<le> 0 then minScaledRtt else rttMinScaledRtt)
        in Some \<lparr>rh_items = [], rh_netRtt = 0, rw_windowTimeout = windowTimeout, rw_rttScale = rttScale,
                 rw_minScaledRtt = minScaledRtt, rw_rttMinScaledRtt = rttMinScaledRtt, rw_maxScaledRtt = maxScaledRtt,
                 rw_window = replicate (nat windowSize) None, rw_windowTailIndex = 0, rw_windowHeadIndex = 0,
                 rw_store = (\<lambda>_. \<lparr>ri_sendTime = 0, ri_receiveTime = 0, ri_rtt = 0, ri_heapIndex = 0\<rparr>), rw_next = 0\<rparr>)"

section \<open>The heap\<close>

definition upd_index :: "nat \<Rightarrow> nat \<Rightarrow> RttWindow \<Rightarrow> RttWindow" where
  "upd_index a i s = s\<lparr>rw_store := (rw_store s)(a := (rw_store s a)\<lparr>ri_heapIndex := i\<rparr>)\<rparr>"

definition rh_Len :: "RttWindow \<Rightarrow> nat" where
  "rh_Len s = length (rh_items s)"

definition rh_Less :: "RttWindow \<Rightarrow> nat \<Rightarrow> nat \<Rightarrow> bool" where
  "rh_Less s i j \<longleftrightarrow> ri_rtt (rw_store s (rh_items s ! i)) < ri_rtt (rw_store s (rh_items s ! j))"

definition rh_Swap :: "RttWindow \<Rightarrow> nat \<Rightarrow> nat \<Rightarrow> RttWindow" where
  "rh_Swap s i j =
     (let a = rh_items s ! i;
          b = rh_items s ! j;
          s = upd_index b i s;
          s = s\<lparr>rh_items := (rh_items s)[i := b]\<rparr>;
          s = upd_index a j s
      in s\<lparr>rh_items := (rh_items s)[j := a]\<rparr>)"

definition rh_Push :: "RttWindow \<Rightarrow> nat \<Rightarrow> RttWindow" where
  "rh_Push s a = (let s = upd_index a (length (rh_items s)) s in s\<lparr>rh_items := rh_items s @ [a]\<rparr>)"

definition rh_Pop :: "RttWindow \<Rightarrow> nat \<times> RttWindow" where
  "rh_Pop s = (last (rh_items s), s\<lparr>rh_items := butlast (rh_items s)\<rparr>)"

definition rh_Add :: "nat \<Rightarrow> RttWindow \<Rightarrow> RttWindow" where
  "rh_Add a s =
     (let s = heap_Push rh_Less rh_Swap rh_Push rh_Len s a
      in s\<lparr>rh_netRtt := i64 (rh_netRtt s + ri_rtt (rw_store s a))\<rparr>)"

definition rh_Remove :: "nat \<Rightarrow> RttWindow \<Rightarrow> RttWindow option" where
  "rh_Remove a s =
     map_option (\<lambda>(_, s). s\<lparr>rh_netRtt := i64 (rh_netRtt s - ri_rtt (rw_store s a))\<rparr>)
       (heap_Remove rh_Less rh_Swap rh_Pop rh_Len s (ri_heapIndex (rw_store s a)))"

definition rh_MinRtt :: "RttWindow \<Rightarrow> int" where
  "rh_MinRtt s = (if length (rh_items s) = 0 then 0 else ri_rtt (rw_store s (rh_items s ! 0)))"

definition rh_MeanRtt :: "RttWindow \<Rightarrow> int" where
  "rh_MeanRtt s = (let n = length (rh_items s) in if n = 0 then 0 else go_quot (rh_netRtt s) (int n))"

section \<open>The window\<close>

text \<open>
  The loop of \<open>coalesce\<close>, with fuel. The tail moves towards the head by one slot in each
  iteration, so more iterations than the ring has slots are never needed.
\<close>

fun coalesce_loop :: "nat \<Rightarrow> int \<Rightarrow> RttWindow \<Rightarrow> RttWindow option" where
  "coalesce_loop 0 windowStartTime s = None"
| "coalesce_loop (Suc fuel) windowStartTime s =
     (if rw_windowTailIndex s = rw_windowHeadIndex s then Some s
      else
        (case rw_window s ! rw_windowTailIndex s of
           None \<Rightarrow> None
         | Some item \<Rightarrow>
             if \<not> ri_receiveTime (rw_store s item) < windowStartTime then Some s
             else
               (case rh_Remove item s of
                  None \<Rightarrow> None
                | Some s \<Rightarrow>
                    coalesce_loop fuel windowStartTime
                      (s\<lparr>rw_window := (rw_window s)[rw_windowTailIndex s := None],
                         rw_windowTailIndex := (rw_windowTailIndex s + 1) mod length (rw_window s)\<rparr>))))"

definition coalesce :: "int \<Rightarrow> RttWindow \<Rightarrow> RttWindow option" where
  "coalesce windowTime s = coalesce_loop (length (rw_window s)) (windowTime + i64 (- rw_windowTimeout s)) s"

definition openTag :: "int \<Rightarrow> uint64" where
  "openTag sendTime = word_of_int (sendTime div 10 ^ 6)"

text \<open>The slot at the head: a sample that is still there leaves the heap, and the new one takes its place.\<close>

definition store_sample :: "nat \<Rightarrow> RttWindow \<Rightarrow> RttWindow option" where
  "store_sample item s =
     (case (case rw_window s ! rw_windowHeadIndex s of None \<Rightarrow> Some s | Some replaceItem \<Rightarrow> rh_Remove replaceItem s) of
        None \<Rightarrow> None
      | Some s \<Rightarrow>
          let s = s\<lparr>rw_window := (rw_window s)[rw_windowHeadIndex s := Some item],
                    rw_windowHeadIndex := (rw_windowHeadIndex s + 1) mod length (rw_window s)\<rparr>
          in Some (if rw_windowTailIndex s = rw_windowHeadIndex s
                   then s\<lparr>rw_windowTailIndex := (rw_windowTailIndex s + 1) mod length (rw_window s)\<rparr>
                   else s))"

definition closeSendTime :: "uint64 \<Rightarrow> int \<Rightarrow> RttWindow \<Rightarrow> RttWindow option" where
  "closeSendTime sendTimeUnixMilli receiveTime s =
     (let sendTime = sint sendTimeUnixMilli * 10 ^ 6
      in if receiveTime < sendTime then Some s
         else
           (case coalesce receiveTime s of
              None \<Rightarrow> None
            | Some s \<Rightarrow>
                let item = rw_next s;
                    s = s\<lparr>rw_store := (rw_store s)(item := newRttWindowItem sendTime receiveTime), rw_next := item + 1\<rparr>;
                    s = rh_Add item s
                in store_sample item s))"

definition closeTag :: "uint64 option \<Rightarrow> int \<Rightarrow> RttWindow \<Rightarrow> RttWindow option" where
  "closeTag tag receiveTime s = (case tag of None \<Rightarrow> Some s | Some t \<Rightarrow> closeSendTime t receiveTime s)"

definition MeanRtt :: "int \<Rightarrow> RttWindow \<Rightarrow> (int \<times> RttWindow) option" where
  "MeanRtt now s = map_option (\<lambda>s. (rh_MeanRtt s, s)) (coalesce now s)"

definition scaled :: "int \<Rightarrow> RttWindow \<Rightarrow> int" where
  "scaled useRtt s =
     (let floor = (if rw_rttMinScaledRtt s = 0 \<or> useRtt = 0 then rw_minScaledRtt s else rw_rttMinScaledRtt s)
      in min (max (i64 (rw_rttScale s (go_quot useRtt (10 ^ 6)) * 10 ^ 6)) floor) (rw_maxScaledRtt s))"

definition scaledRtt :: "int \<Rightarrow> RttWindow \<Rightarrow> (int \<times> RttWindow) option" where
  "scaledRtt sendTime s = map_option (\<lambda>s. (scaled (rh_MeanRtt s) s, s)) (coalesce sendTime s)"

definition probeRtt :: "int \<Rightarrow> RttWindow \<Rightarrow> (int \<times> RttWindow) option" where
  "probeRtt probeTime s = map_option (\<lambda>s. (scaled (rh_MinRtt s) s, s)) (coalesce probeTime s)"

section \<open>The heap interface\<close>

definition shorter :: "RttWindow \<Rightarrow> nat \<Rightarrow> nat \<Rightarrow> bool" where
  "shorter r a b \<longleftrightarrow> ri_rtt (rw_store r a) < ri_rtt (rw_store r b)"

definition rtt_rest :: "RttWindow \<Rightarrow> RttWindow" where
  "rtt_rest s = s\<lparr>rh_items := [], rw_store := (\<lambda>a. (rw_store s a)\<lparr>ri_heapIndex := 0\<rparr>)\<rparr>"

definition rtt_inv :: "RttWindow \<Rightarrow> RttWindow \<Rightarrow> bool" where
  "rtt_inv r s \<longleftrightarrow> distinct (rh_items s) \<and> (\<forall>i < length (rh_items s). ri_heapIndex (rw_store s (rh_items s ! i)) = i) \<and> rtt_rest s = r"

lemma rtt_of_rest: "rtt_rest s = r \<Longrightarrow> ri_rtt (rw_store s a) = ri_rtt (rw_store r a)"
  by (auto simp: rtt_rest_def)

lemma rh_Swap_fields:
  "rh_items (rh_Swap s i j) = swapped (rh_items s) i j" "rtt_rest (rh_Swap s i j) = rtt_rest s"
  "ri_heapIndex (rw_store (rh_Swap s i j) a) =
     (if a = rh_items s ! i then j else if a = rh_items s ! j then i else ri_heapIndex (rw_store s a))"
  by (auto simp: rh_Swap_def Let_def swapped_def upd_index_def rtt_rest_def fun_eq_iff)

lemma rh_Swap_inv:
  assumes "rtt_inv r s" "i < length (rh_items s)" "j < length (rh_items s)"
  shows "rtt_inv r (rh_Swap s i j)"
  using assms distinct_swapped [OF assms(2,3)]
    swapped_index [of "rh_items s" "\<lambda>a. ri_heapIndex (rw_store s a)" i j _ "\<lambda>a. ri_heapIndex (rw_store (rh_Swap s i j) a)"]
  by (simp add: rtt_inv_def rh_Swap_fields)

interpretation rtt_heap: heap_interface rh_items "shorter r" "rtt_inv r" rh_Less rh_Swap rh_Push rh_Pop rh_Len
  for r
proof (unfold_locales, goal_cases)
  case (3 s i j)
  then show ?case by (auto simp: rh_Less_def shorter_def rtt_inv_def rtt_rest_def)
next
  case (5 s x)
  then show ?case
    by (auto simp: rtt_inv_def rh_Push_def upd_index_def Let_def rtt_rest_def fun_eq_iff nth_append dest: nth_mem)
next
  case (6 s)
  then show ?case by (auto simp: rtt_inv_def rh_Pop_def rtt_rest_def nth_butlast distinct_butlast)
qed (auto simp: shorter_def rh_Swap_fields rh_Len_def intro: rh_Swap_inv)

section \<open>The samples in the heap\<close>

definition heap_part :: "RttWindow \<Rightarrow> bool" where
  "heap_part s \<longleftrightarrow> rtt_inv (rtt_rest s) s \<and> is_heap (shorter (rtt_rest s)) (rh_items s) (length (rh_items s))
     \<and> (\<forall>a \<in> set (rh_items s). a < rw_next s) \<and> rh_netRtt s = i64 (\<Sum>a\<leftarrow>rh_items s. ri_rtt (rw_store s a))"

text \<open>Everything but the heap and its indexes.\<close>

definition ring_part :: "RttWindow \<Rightarrow> nat option list \<times> nat \<times> nat \<times> nat" where
  "ring_part s = (rw_window s, rw_windowTailIndex s, rw_windowHeadIndex s, rw_next s)"

definition settings_part :: "RttWindow \<Rightarrow> int \<times> (int \<Rightarrow> int) \<times> int \<times> int \<times> int" where
  "settings_part s = (rw_windowTimeout s, rw_rttScale s, rw_minScaledRtt s, rw_rttMinScaledRtt s, rw_maxScaledRtt s)"

definition same_samples :: "RttWindow \<Rightarrow> RttWindow \<Rightarrow> bool" where
  "same_samples s s' \<longleftrightarrow> (\<forall>a. ri_rtt (rw_store s' a) = ri_rtt (rw_store s a) \<and> ri_receiveTime (rw_store s' a) = ri_receiveTime (rw_store s a)
     \<and> ri_sendTime (rw_store s' a) = ri_sendTime (rw_store s a))"

lemma same_samples_refl [simp]: "same_samples s s"
  by (simp add: same_samples_def)

lemma same_samples_trans: "same_samples a b \<Longrightarrow> same_samples b c \<Longrightarrow> same_samples a c"
  by (simp add: same_samples_def)

lemma rest_simps:
  "rw_window (rtt_rest s) = rw_window s" "rw_windowTailIndex (rtt_rest s) = rw_windowTailIndex s"
  "rw_windowHeadIndex (rtt_rest s) = rw_windowHeadIndex s" "rw_next (rtt_rest s) = rw_next s"
  "rw_windowTimeout (rtt_rest s) = rw_windowTimeout s" "rw_rttScale (rtt_rest s) = rw_rttScale s"
  "rw_minScaledRtt (rtt_rest s) = rw_minScaledRtt s" "rw_rttMinScaledRtt (rtt_rest s) = rw_rttMinScaledRtt s"
  "rw_maxScaledRtt (rtt_rest s) = rw_maxScaledRtt s" "rh_netRtt (rtt_rest s) = rh_netRtt s"
  "rw_store (rtt_rest s) a = (rw_store s a)\<lparr>ri_heapIndex := 0\<rparr>"
  by (simp_all add: rtt_rest_def)

lemma rest_facts:
  assumes "rtt_rest s' = rtt_rest s"
  shows "ring_part s' = ring_part s" "settings_part s' = settings_part s" "rh_netRtt s' = rh_netRtt s" "same_samples s s'"
proof -
  have f: "rw_window s' = rw_window s" "rw_windowTailIndex s' = rw_windowTailIndex s" "rw_windowHeadIndex s' = rw_windowHeadIndex s"
    "rw_next s' = rw_next s" "rw_windowTimeout s' = rw_windowTimeout s" "rw_rttScale s' = rw_rttScale s" "rw_minScaledRtt s' = rw_minScaledRtt s"
    "rw_rttMinScaledRtt s' = rw_rttMinScaledRtt s" "rw_maxScaledRtt s' = rw_maxScaledRtt s" "rh_netRtt s' = rh_netRtt s"
    using assms by (metis rest_simps(1), metis rest_simps(2), metis rest_simps(3), metis rest_simps(4), metis rest_simps(5),
      metis rest_simps(6), metis rest_simps(7), metis rest_simps(8), metis rest_simps(9), metis rest_simps(10))
  show "ring_part s' = ring_part s" "settings_part s' = settings_part s" "rh_netRtt s' = rh_netRtt s"
    using f by (simp_all add: ring_part_def settings_part_def)
  have "(rw_store s' a)\<lparr>ri_heapIndex := 0\<rparr> = (rw_store s a)\<lparr>ri_heapIndex := 0\<rparr>" for a
    using assms by (metis rest_simps(11))
  then show "same_samples s s'" unfolding same_samples_def
    by (metis rttWindowItem.select_convs(1-3) rttWindowItem.surjective rttWindowItem.update_convs(4))
qed

lemma sum_mset_items: "mset xs = mset ys \<Longrightarrow> sum_list (map f xs) = (sum_list (map f ys) :: int)"
  by (metis mset_map sum_mset_sum_list)

lemma sum_remove:
  assumes "mset xs = mset ys - {#a#}" "a \<in> set ys"
  shows "sum_list (map f xs) = (sum_list (map f ys) :: int) - f a"
proof -
  have "mset ys = mset (a # xs)" using assms by simp
  then show ?thesis using sum_mset_items [of ys "a # xs" f] by simp
qed

lemma heap_part_intro:
  assumes "rtt_inv (rtt_rest s) s1" "is_heap (shorter (rtt_rest s)) (rh_items s1) (length (rh_items s1))"
    "\<forall>a \<in> set (rh_items s1). a < rw_next s1" "n = i64 (\<Sum>a\<leftarrow>rh_items s1. ri_rtt (rw_store s1 a))"
  shows "heap_part (s1\<lparr>rh_netRtt := n\<rparr>)"
proof -
  have r: "rtt_rest s1 = rtt_rest s" using assms(1) by (simp add: rtt_inv_def)
  have "ri_rtt (rw_store s1 a) = ri_rtt (rw_store s a)" for a using rest_facts(4) [OF r] by (simp add: same_samples_def)
  then have "shorter (rtt_rest (s1\<lparr>rh_netRtt := n\<rparr>)) = shorter (rtt_rest s)"
    by (simp add: shorter_def rest_simps fun_eq_iff)
  then show ?thesis using assms by (simp add: heap_part_def rtt_inv_def)
qed

lemma rh_Remove_ok:
  assumes "heap_part s" "a \<in> set (rh_items s)"
  obtains s' where "rh_Remove a s = Some s'" "heap_part s'" "mset (rh_items s') = mset (rh_items s) - {#a#}"
    "ring_part s' = ring_part s" "settings_part s' = settings_part s" "same_samples s s'"
proof -
  have h: "rtt_inv (rtt_rest s) s" "is_heap (shorter (rtt_rest s)) (rh_items s) (length (rh_items s))"
    "\<forall>a \<in> set (rh_items s). a < rw_next s" "rh_netRtt s = i64 (\<Sum>a\<leftarrow>rh_items s. ri_rtt (rw_store s a))"
    using assms(1) by (auto simp: heap_part_def)
  obtain i where i: "i < length (rh_items s)" "rh_items s ! i = a" using assms(2) by (auto simp: in_set_conv_nth)
  have ix: "ri_heapIndex (rw_store s a) = i" using h(1) i by (auto simp: rtt_inv_def)
  obtain s1 where s1: "heap_Remove rh_Less rh_Swap rh_Pop rh_Len s i = Some (rh_items s ! i, s1)" "rtt_inv (rtt_rest s) s1"
    "is_heap (shorter (rtt_rest s)) (rh_items s1) (length (rh_items s1))" "mset (rh_items s1) = mset (rh_items s) - {#rh_items s ! i#}"
    using rtt_heap.heap_Remove_correct [OF h(1,2) i(1)] .
  have "rtt_rest s1 = rtt_rest s" using s1(2) by (simp add: rtt_inv_def)
  note f = rest_facts [OF this]
  let ?n = "i64 (rh_netRtt s1 - ri_rtt (rw_store s1 a))"
  have rtt: "ri_rtt (rw_store s1 b) = ri_rtt (rw_store s b)" for b using f(4) by (simp add: same_samples_def)
  have nx: "rw_next s1 = rw_next s" using f(1) by (simp add: ring_part_def)
  have ms: "mset (rh_items s1) = mset (rh_items s) - {#a#}" using s1(4) i(2) by simp
  have "?n = i64 (\<Sum>a\<leftarrow>rh_items s1. ri_rtt (rw_store s1 a))"
    using f(3) h(4) sum_remove [OF ms assms(2), of "\<lambda>a. ri_rtt (rw_store s a)"] by (simp add: rtt)
  moreover have "\<forall>b \<in> set (rh_items s1). b < rw_next s1" using h(3) ms nx by (metis in_diffD set_mset_mset)
  ultimately have "heap_part (s1\<lparr>rh_netRtt := ?n\<rparr>)" using heap_part_intro [OF s1(2,3)] by blast
  moreover have "rh_Remove a s = Some (s1\<lparr>rh_netRtt := ?n\<rparr>)" by (simp add: rh_Remove_def ix s1(1))
  ultimately show thesis
    using ms f by (intro that [of "s1\<lparr>rh_netRtt := ?n\<rparr>"]) (simp_all add: ring_part_def settings_part_def same_samples_def)
qed

lemma rh_Add_ok:
  assumes "heap_part s" "a \<notin> set (rh_items s)" "a < rw_next s"
  shows "heap_part (rh_Add a s)" "mset (rh_items (rh_Add a s)) = add_mset a (mset (rh_items s))"
    "ring_part (rh_Add a s) = ring_part s" "settings_part (rh_Add a s) = settings_part s" "same_samples s (rh_Add a s)"
proof -
  have h: "rtt_inv (rtt_rest s) s" "is_heap (shorter (rtt_rest s)) (rh_items s) (length (rh_items s))"
    "\<forall>a \<in> set (rh_items s). a < rw_next s" "rh_netRtt s = i64 (\<Sum>a\<leftarrow>rh_items s. ri_rtt (rw_store s a))"
    using assms(1) by (auto simp: heap_part_def)
  define s1 where "s1 = heap_Push rh_Less rh_Swap rh_Push rh_Len s a"
  note p = rtt_heap.heap_Push_correct [OF h(1,2) assms(2), folded s1_def]
  have "rtt_rest s1 = rtt_rest s" using p(1) by (simp add: rtt_inv_def)
  note f = rest_facts [OF this]
  let ?n = "i64 (rh_netRtt s1 + ri_rtt (rw_store s1 a))"
  have rtt: "ri_rtt (rw_store s1 b) = ri_rtt (rw_store s b)" for b using f(4) by (simp add: same_samples_def)
  have nx: "rw_next s1 = rw_next s" using f(1) by (simp add: ring_part_def)
  have "mset (rh_items s1) = mset (a # rh_items s)" using p(3) by simp
  then have "?n = i64 (\<Sum>a\<leftarrow>rh_items s1. ri_rtt (rw_store s1 a))"
    using f(3) h(4) sum_mset_items [of "rh_items s1" "a # rh_items s" "\<lambda>a. ri_rtt (rw_store s a)"] by (simp add: rtt add.commute)
  moreover have "set (rh_items s1) = insert a (set (rh_items s))" using p(3) by (metis set_mset_add_mset_insert set_mset_mset)
  then have "\<forall>b \<in> set (rh_items s1). b < rw_next s1" using h(3) assms(3) nx by simp
  ultimately have k: "heap_part (s1\<lparr>rh_netRtt := ?n\<rparr>)" using heap_part_intro [OF p(1,2)] by blast
  have e: "rh_Add a s = s1\<lparr>rh_netRtt := ?n\<rparr>" by (simp add: rh_Add_def s1_def Let_def)
  show "heap_part (rh_Add a s)" "mset (rh_items (rh_Add a s)) = add_mset a (mset (rh_items s))"
    "ring_part (rh_Add a s) = ring_part s" "settings_part (rh_Add a s) = settings_part s" "same_samples s (rh_Add a s)"
    using k p(3) f unfolding e by (simp_all add: ring_part_def settings_part_def same_samples_def)
qed

section \<open>The ring\<close>

lemma add_mod_if: "t < n \<Longrightarrow> k < n \<Longrightarrow> (t + k) mod n = (if t + k < n then t + k else t + k - (n :: nat))"
  by (simp add: mod_if)

lemma add_mod_inj: "(t + i) mod n = (t + j) mod n \<Longrightarrow> t < n \<Longrightarrow> i < n \<Longrightarrow> j < n \<Longrightarrow> i = (j :: nat)"
  by (simp add: add_mod_if split: if_splits)

lemma rotate_update:
  assumes "t < length w" "j < length w"
  shows "rotate t (w[(t + j) mod length w := v]) = (rotate t w)[j := v]"
proof (rule nth_equalityI)
  fix i
  assume "i < length (rotate t (w[(t + j) mod length w := v]))"
  then have i: "i < length w" by simp
  have "(t + i) mod length w = (t + j) mod length w \<longleftrightarrow> i = j"
    using add_mod_inj [OF _ assms(1) i assms(2)] by blast
  moreover have "(t + j) mod length w < length w" using assms by (intro mod_less_divisor) linarith
  ultimately show "rotate t (w[(t + j) mod length w := v]) ! i = (rotate t w)[j := v] ! i"
    using i assms by (cases "i = j") (simp_all add: nth_rotate)
qed simp

text \<open>
  The slots from the tail on: the samples \<open>xs\<close> between tail and head, the slot \<open>z\<close> at the head,
  which keeps the sample it had when the ring was full, and empty slots.
\<close>

definition ring :: "RttWindow \<Rightarrow> nat list \<Rightarrow> nat option \<Rightarrow> bool" where
  "ring s xs z \<longleftrightarrow> rw_windowTailIndex s < length (rw_window s)
     \<and> rotate (rw_windowTailIndex s) (rw_window s) = map Some xs @ z # replicate (length (rw_window s) - Suc (length xs)) None
     \<and> rw_windowHeadIndex s = (rw_windowTailIndex s + length xs) mod length (rw_window s)"

definition live :: "nat list \<Rightarrow> nat option \<Rightarrow> nat list" where
  "live xs z = xs @ (case z of None \<Rightarrow> [] | Some a \<Rightarrow> [a])"

lemma live_simps [simp]: "live xs None = xs" "live xs (Some a) = xs @ [a]" "live (x # xs) z = x # live xs z"
  by (simp_all add: live_def)

lemma ring_length: "ring s xs z \<Longrightarrow> length xs < length (rw_window s)"
proof -
  assume "ring s xs z"
  then have "length (rotate (rw_windowTailIndex s) (rw_window s)) = length (map Some xs @ z # replicate (length (rw_window s) - Suc (length xs)) None)"
    unfolding ring_def by metis
  then show ?thesis by simp
qed

lemma mod_small_eq: "(t + k) mod n = t \<Longrightarrow> t < n \<Longrightarrow> k < n \<Longrightarrow> k = (0 :: nat)"
  using add_mod_inj [of t k n 0] by simp

lemma ring_empty_iff: "ring s xs z \<Longrightarrow> rw_windowTailIndex s = rw_windowHeadIndex s \<longleftrightarrow> xs = []"
  using ring_length [of s xs z] mod_small_eq [of "rw_windowTailIndex s" "length xs" "length (rw_window s)"]
  by (auto simp: ring_def)

lemma ring_nth:
  assumes "ring s xs z"
  shows "xs \<noteq> [] \<Longrightarrow> rw_window s ! rw_windowTailIndex s = Some (hd xs)" "rw_window s ! rw_windowHeadIndex s = z"
proof -
  let ?w = "rw_window s" and ?t = "rw_windowTailIndex s"
  have r: "?t < length ?w" "rotate ?t ?w = map Some xs @ z # replicate (length ?w - Suc (length xs)) None"
    "rw_windowHeadIndex s = (?t + length xs) mod length ?w" using assms by (simp_all add: ring_def)
  have n: "j < length ?w \<Longrightarrow> rotate ?t ?w ! j = ?w ! ((?t + j) mod length ?w)" for j by (simp add: nth_rotate)
  show "?w ! rw_windowHeadIndex s = z" using n [of "length xs"] ring_length [OF assms] r(2,3) by (simp add: nth_append)
  assume "xs \<noteq> []"
  then have "rotate ?t ?w ! 0 = Some (hd xs)" unfolding r(2) by (cases xs) simp_all
  moreover have "0 < length ?w" using r(1) by linarith
  ultimately show "?w ! ?t = Some (hd xs)" using n [of 0] r(1) by simp
qed

lemma ring_pop:
  assumes "ring s (x # xs) z" "rw_window s' = (rw_window s)[rw_windowTailIndex s := None]"
    "rw_windowTailIndex s' = (rw_windowTailIndex s + 1) mod length (rw_window s)" "rw_windowHeadIndex s' = rw_windowHeadIndex s"
  shows "ring s' xs z"
proof -
  let ?w = "rw_window s" and ?t = "rw_windowTailIndex s" and ?n = "length (rw_window s)"
  have r: "?t < ?n" "rotate ?t ?w = map Some (x # xs) @ z # replicate (?n - Suc (length (x # xs))) None"
    "rw_windowHeadIndex s = (?t + length (x # xs)) mod ?n" using assms(1) by (simp_all add: ring_def)
  have len: "Suc (length xs) < ?n" using ring_length [OF assms(1)] by simp
  have "rotate ?t (?w[(?t + 0) mod ?n := None]) = (rotate ?t ?w)[0 := None]" using r(1) by (intro rotate_update) linarith+
  then have "rotate ?t (?w[?t := None]) = None # map Some xs @ z # replicate (?n - Suc (Suc (length xs))) None" using r(1) by (simp add: r(2))
  then have "rotate (Suc ?t) (?w[?t := None]) = map Some xs @ z # replicate (?n - Suc (Suc (length xs))) None @ [None]" by simp
  moreover have "replicate (?n - Suc (Suc (length xs))) None @ [None] = replicate (?n - Suc (length xs)) (None :: nat option)"
  proof -
    have "?n - Suc (length xs) = Suc (?n - Suc (Suc (length xs)))" using len by simp
    then show ?thesis by (simp add: replicate_append_same)
  qed
  moreover have "rotate (Suc ?t mod ?n) (?w[?t := None]) = rotate (Suc ?t) (?w[?t := None])"
    using rotate_conv_mod [of "Suc ?t" "?w[?t := None]"] by simp
  ultimately have "rotate (Suc ?t mod ?n) (?w[?t := None]) = map Some xs @ z # replicate (?n - Suc (length xs)) None" by simp
  moreover have "(Suc ?t mod ?n + length xs) mod ?n = (?t + length (x # xs)) mod ?n" by (simp add: mod_add_left_eq)
  moreover have "0 < ?n" using r(1) by linarith
  ultimately show ?thesis using assms(2-4) r(3) by (simp add: ring_def)
qed

lemma ring_put:
  assumes "ring s xs z" "w = (rw_window s)[rw_windowHeadIndex s := Some a]" "h = (rw_windowHeadIndex s + 1) mod length (rw_window s)"
    "rw_window s' = w" "rw_windowHeadIndex s' = h"
    "rw_windowTailIndex s' = (if rw_windowTailIndex s = h then (rw_windowTailIndex s + 1) mod length (rw_window s) else rw_windowTailIndex s)"
  shows "if Suc (length xs) = length (rw_window s) then ring s' (tl (xs @ [a])) (Some (hd (xs @ [a]))) else ring s' (xs @ [a]) None"
proof -
  let ?t = "rw_windowTailIndex s" and ?n = "length (rw_window s)"
  have r: "?t < ?n" "rotate ?t (rw_window s) = map Some xs @ z # replicate (?n - Suc (length xs)) None"
    "rw_windowHeadIndex s = (?t + length xs) mod ?n" using assms(1) by (simp_all add: ring_def)
  have len: "length xs < ?n" using ring_length [OF assms(1)] .
  have lw: "length w = ?n" by (simp add: assms(2))
  have "rotate ?t w = (rotate ?t (rw_window s))[length xs := Some a]" unfolding assms(2) r(3) by (rule rotate_update [OF r(1) len])
  then have rw: "rotate ?t w = map Some (xs @ [a]) @ replicate (?n - Suc (length xs)) None" by (simp add: r(2) list_update_append)
  have h: "h = (?t + Suc (length xs)) mod ?n" unfolding assms(3) r(3) by (simp add: mod_simps)
  show ?thesis
  proof (cases "Suc (length xs) = ?n")
    case True
    then have "h = ?t" using h r(1) by simp
    then have t': "rw_windowTailIndex s' = Suc ?t mod ?n" using assms(6) by simp
    have "rotate (Suc ?t mod ?n) w = rotate1 (rotate ?t w)" using rotate_conv_mod [of "Suc ?t" w] lw by simp
    also have "\<dots> = map Some (tl (xs @ [a])) @ [Some (hd (xs @ [a]))]" using True unfolding rw by (cases xs) simp_all
    finally have "rotate (Suc ?t mod ?n) w = map Some (tl (xs @ [a])) @ [Some (hd (xs @ [a]))]" .
    moreover have "(Suc ?t mod ?n + length (tl (xs @ [a]))) mod ?n = ?t"
    proof -
      have "(Suc ?t mod ?n + length xs) mod ?n = (?t + ?n) mod ?n" using True by (metis add_Suc_shift mod_add_left_eq)
      then show ?thesis using r(1) by simp
    qed
    moreover have "Suc ?t mod ?n < ?n" using r(1) by (intro mod_less_divisor) linarith
    ultimately show ?thesis using True assms(4,5) t' lw \<open>h = ?t\<close> by (simp add: ring_def)
  next
    case False
    then have lt: "Suc (length xs) < ?n" using len by simp
    have "h \<noteq> ?t" using mod_small_eq [of ?t "Suc (length xs)" ?n] h r(1) lt by auto
    then have t': "rw_windowTailIndex s' = ?t" using assms(6) by simp
    have "?n - Suc (length xs) = Suc (?n - Suc (Suc (length xs)))" using lt by simp
    then have "rotate ?t w = map Some (xs @ [a]) @ None # replicate (?n - Suc (Suc (length xs))) None" by (simp add: rw)
    then show ?thesis using False assms(4,5) t' lw h r(1) by (simp add: ring_def)
  qed
qed

definition window_ok :: "RttWindow \<Rightarrow> bool" where
  "window_ok s \<longleftrightarrow> heap_part s \<and> (\<exists>xs z. ring s xs z \<and> mset (rh_items s) = mset (live xs z))"

section \<open>The operations keep ring and heap in step\<close>

definition expired :: "RttWindow \<Rightarrow> int \<Rightarrow> nat \<Rightarrow> bool" where
  "expired s t a \<longleftrightarrow> ri_receiveTime (rw_store s a) < t"

lemma expired_same: "same_samples s s' \<Longrightarrow> expired s' t = expired s t"
  by (auto simp: expired_def same_samples_def)

lemma heap_part_iff:
  "heap_part s \<longleftrightarrow> distinct (rh_items s) \<and> (\<forall>i < length (rh_items s). ri_heapIndex (rw_store s (rh_items s ! i)) = i)
     \<and> is_heap (\<lambda>a b. ri_rtt (rw_store s a) < ri_rtt (rw_store s b)) (rh_items s) (length (rh_items s))
     \<and> (\<forall>a \<in> set (rh_items s). a < rw_next s) \<and> rh_netRtt s = i64 (\<Sum>a\<leftarrow>rh_items s. ri_rtt (rw_store s a))"
proof -
  have "shorter (rtt_rest s) = (\<lambda>a b. ri_rtt (rw_store s a) < ri_rtt (rw_store s b))" by (simp add: shorter_def rest_simps fun_eq_iff)
  then show ?thesis by (simp add: heap_part_def rtt_inv_def conj_assoc)
qed

lemma heap_part_ring [simp]:
  "heap_part (s\<lparr>rw_window := w\<rparr>) = heap_part s" "heap_part (s\<lparr>rw_windowTailIndex := t\<rparr>) = heap_part s"
  "heap_part (s\<lparr>rw_windowHeadIndex := h\<rparr>) = heap_part s"
  by (simp_all add: heap_part_iff)

text \<open>\<open>coalesce\<close> drops the expired samples from the old end of the ring, and the same ones from the heap.\<close>

lemma coalesce_loop_ok:
  assumes "heap_part s" "ring s xs z" "mset (rh_items s) = mset (live xs z)" "length xs < fuel"
  shows "\<exists>s'. coalesce_loop fuel t s = Some s' \<and> heap_part s' \<and> ring s' (dropWhile (expired s t) xs) z
    \<and> mset (rh_items s') = mset (live (dropWhile (expired s t) xs) z) \<and> settings_part s' = settings_part s
    \<and> same_samples s s' \<and> rw_next s' = rw_next s \<and> length (rw_window s') = length (rw_window s)"
  using assms
proof (induction fuel arbitrary: s xs)
  case (Suc fuel)
  show ?case
  proof (cases xs)
    case Nil
    then show ?thesis using Suc.prems ring_empty_iff [OF Suc.prems(2)] by simp
  next
    case (Cons x ys)
    have slot: "rw_window s ! rw_windowTailIndex s = Some x" using ring_nth(1) [OF Suc.prems(2)] Cons by simp
    have ne: "rw_windowTailIndex s \<noteq> rw_windowHeadIndex s" using ring_empty_iff [OF Suc.prems(2)] Cons by simp
    show ?thesis
    proof (cases "expired s t x")
      case False
      then show ?thesis using Suc.prems slot ne Cons by (simp add: expired_def)
    next
      case True
      have "mset (rh_items s) = add_mset x (mset (live ys z))" using Suc.prems(3) Cons by simp
      then have "x \<in># mset (rh_items s)" by simp
      then have "x \<in> set (rh_items s)" by simp
      then obtain s1 where s1: "rh_Remove x s = Some s1" "heap_part s1" "mset (rh_items s1) = mset (rh_items s) - {#x#}"
        "ring_part s1 = ring_part s" "settings_part s1 = settings_part s" "same_samples s s1"
        using rh_Remove_ok [OF Suc.prems(1)] by metis
      define s2 where "s2 = s1\<lparr>rw_window := (rw_window s1)[rw_windowTailIndex s1 := None],
        rw_windowTailIndex := (rw_windowTailIndex s1 + 1) mod length (rw_window s1)\<rparr>"
      have f: "rw_window s1 = rw_window s" "rw_windowTailIndex s1 = rw_windowTailIndex s" "rw_windowHeadIndex s1 = rw_windowHeadIndex s"
        "rw_next s1 = rw_next s" using s1(4) by (simp_all add: ring_part_def)
      have "ring s2 ys z" using Suc.prems(2) unfolding Cons by (rule ring_pop) (simp_all add: s2_def f)
      moreover have "mset (rh_items s2) = mset (live ys z)" using s1(3) Suc.prems(3) Cons by (simp add: s2_def)
      moreover have "heap_part s2" using s1(2) by (simp add: s2_def)
      ultimately obtain s' where s': "coalesce_loop fuel t s2 = Some s'" "heap_part s'" "ring s' (dropWhile (expired s2 t) ys) z"
        "mset (rh_items s') = mset (live (dropWhile (expired s2 t) ys) z)" "settings_part s' = settings_part s2"
        "same_samples s2 s'" "rw_next s' = rw_next s2" "length (rw_window s') = length (rw_window s2)"
        using Suc.IH [of s2 ys] Suc.prems(4) Cons by auto
      have "same_samples s s2" using s1(6) by (simp add: s2_def same_samples_def)
      moreover have "settings_part s2 = settings_part s" using s1(5) by (simp add: s2_def settings_part_def)
      moreover have "coalesce_loop (Suc fuel) t s = Some s'"
        using slot ne s1(1) s'(1) True by (simp add: expired_def s2_def)
      moreover have "dropWhile (expired s2 t) ys = dropWhile (expired s t) xs"
        using True Cons expired_same [OF \<open>same_samples s s2\<close>] by simp
      ultimately show ?thesis using s' same_samples_trans f by (intro exI [of _ s']) (simp add: s2_def)
    qed
  qed
qed simp

lemma coalesce_ok:
  assumes "heap_part s" "ring s xs z" "mset (rh_items s) = mset (live xs z)" "t = now + i64 (- rw_windowTimeout s)"
  obtains s' where "coalesce now s = Some s'" "heap_part s'" "ring s' (dropWhile (expired s t) xs) z"
    "mset (rh_items s') = mset (live (dropWhile (expired s t) xs) z)" "settings_part s' = settings_part s"
    "same_samples s s'" "rw_next s' = rw_next s" "length (rw_window s') = length (rw_window s)"
  using coalesce_loop_ok [OF assms(1-3) ring_length [OF assms(2)]] assms(4) unfolding coalesce_def by blast

text \<open>The samples after one more is stored: in a full ring the oldest one moves to the head slot.\<close>

definition stored :: "nat \<Rightarrow> nat list \<Rightarrow> nat \<Rightarrow> nat list \<times> nat option" where
  "stored n xs a = (if Suc (length xs) = n then (tl (xs @ [a]), Some (hd (xs @ [a]))) else (xs @ [a], None))"

lemma live_stored: "mset (case_prod live (stored n xs a)) = add_mset a (mset xs)"
  by (cases xs) (simp_all add: stored_def)

lemma store_sample_ok:
  assumes "heap_part s" "ring s xs z" "mset (rh_items s) = add_mset a (mset (live xs z))"
  obtains s' where "store_sample a s = Some s'" "heap_part s'" "case_prod (ring s') (stored (length (rw_window s)) xs a)"
    "mset (rh_items s') = add_mset a (mset xs)" "settings_part s' = settings_part s" "same_samples s s'" "rw_next s' = rw_next s"
    "length (rw_window s') = length (rw_window s)"
proof -
  obtain s1 where s1: "(case z of None \<Rightarrow> Some s | Some b \<Rightarrow> rh_Remove b s) = Some s1" "heap_part s1"
    "mset (rh_items s1) = add_mset a (mset xs)" "ring_part s1 = ring_part s" "settings_part s1 = settings_part s" "same_samples s s1"
  proof (cases z)
    case None
    then show thesis using assms that [of s] by simp
  next
    case (Some b)
    then have m: "mset (rh_items s) = add_mset b (add_mset a (mset xs))" using assms(3) by simp
    then have "b \<in># mset (rh_items s)" by simp
    then have "b \<in> set (rh_items s)" by simp
    from rh_Remove_ok [OF assms(1) this] obtain s1 where "rh_Remove b s = Some s1" "heap_part s1"
      "mset (rh_items s1) = mset (rh_items s) - {#b#}" "ring_part s1 = ring_part s" "settings_part s1 = settings_part s"
      "same_samples s s1" .
    then show thesis using Some m by (intro that [of s1]) simp_all
  qed
  have f: "rw_window s1 = rw_window s" "rw_windowTailIndex s1 = rw_windowTailIndex s" "rw_windowHeadIndex s1 = rw_windowHeadIndex s"
    "rw_next s1 = rw_next s" using s1(4) by (simp_all add: ring_part_def)
  define s' where "s' = (let s = s1\<lparr>rw_window := (rw_window s1)[rw_windowHeadIndex s1 := Some a],
      rw_windowHeadIndex := (rw_windowHeadIndex s1 + 1) mod length (rw_window s1)\<rparr>
    in if rw_windowTailIndex s = rw_windowHeadIndex s
       then s\<lparr>rw_windowTailIndex := (rw_windowTailIndex s + 1) mod length (rw_window s)\<rparr> else s)"
  have e: "store_sample a s = Some s'"
    using s1(1) ring_nth(2) [OF assms(2)] by (simp add: store_sample_def s'_def Let_def)
  have w: "rw_window s' = (rw_window s)[rw_windowHeadIndex s := Some a]" "rw_windowHeadIndex s' = (rw_windowHeadIndex s + 1) mod length (rw_window s)"
    "rw_windowTailIndex s' = (if rw_windowTailIndex s = (rw_windowHeadIndex s + 1) mod length (rw_window s)
       then (rw_windowTailIndex s + 1) mod length (rw_window s) else rw_windowTailIndex s)"
    by (simp_all add: s'_def Let_def f)
  have "case_prod (ring s') (stored (length (rw_window s)) xs a)"
    using ring_put [OF assms(2) refl refl w] by (simp add: stored_def split: if_splits)
  moreover have "heap_part s'" "rh_items s' = rh_items s1" "settings_part s' = settings_part s1" "same_samples s1 s'" "rw_next s' = rw_next s1"
    using s1(2) by (simp_all add: s'_def Let_def settings_part_def same_samples_def)
  ultimately show thesis using e s1(3,5,6) f(4) w(1) same_samples_trans by (intro that [of s']) auto
qed

lemma closeSendTime_ok:
  assumes "heap_part s" "ring s xs z" "mset (rh_items s) = mset (live xs z)" "t = now + i64 (- rw_windowTimeout s)" "sint tag * 10 ^ 6 \<le> now"
  obtains s' where "closeSendTime tag now s = Some s'" "heap_part s'"
    "case_prod (ring s') (stored (length (rw_window s)) (dropWhile (expired s t) xs) (rw_next s))"
    "mset (rh_items s') = add_mset (rw_next s) (mset (dropWhile (expired s t) xs))" "settings_part s' = settings_part s"
    "length (rw_window s') = length (rw_window s)" "rw_next s' = rw_next s + 1"
    "\<And>a. a \<noteq> rw_next s \<Longrightarrow> ri_rtt (rw_store s' a) = ri_rtt (rw_store s a)"
    "ri_rtt (rw_store s' (rw_next s)) = time_Sub now (sint tag * 10 ^ 6)"
proof -
  let ?xs = "dropWhile (expired s t) xs"
  obtain s1 where s1: "coalesce now s = Some s1" "heap_part s1" "ring s1 ?xs z" "mset (rh_items s1) = mset (live ?xs z)"
    "settings_part s1 = settings_part s" "same_samples s s1" "rw_next s1 = rw_next s" "length (rw_window s1) = length (rw_window s)"
    using coalesce_ok [OF assms(1-4)] .
  let ?a = "rw_next s"
  define s2 where "s2 = s1\<lparr>rw_store := (rw_store s1)(?a := newRttWindowItem (sint tag * 10 ^ 6) now), rw_next := ?a + 1\<rparr>"
  have small: "\<forall>b \<in> set (rh_items s1). b < ?a" using s1(2,7) by (simp add: heap_part_iff)
  have fresh: "?a \<notin> set (rh_items s2)" "?a < rw_next s2" using small by (auto simp: s2_def)
  have keep: "b \<in> set (rh_items s1) \<Longrightarrow> rw_store s2 b = rw_store s1 b" for b using small by (auto simp: s2_def)
  have "heap_part s2"
  proof -
    have i: "rh_items s2 = rh_items s1" "rh_netRtt s2 = rh_netRtt s1" "rw_next s2 = ?a + 1" by (simp_all add: s2_def)
    have n: "k < length (rh_items s1) \<Longrightarrow> rw_store s2 (rh_items s1 ! k) = rw_store s1 (rh_items s1 ! k)" for k by (simp add: keep)
    have "(\<Sum>b\<leftarrow>rh_items s1. ri_rtt (rw_store s2 b)) = (\<Sum>b\<leftarrow>rh_items s1. ri_rtt (rw_store s1 b))"
      using keep by (auto intro!: arg_cong [of _ _ sum_list] map_cong)
    moreover have "is_heap (\<lambda>a b. ri_rtt (rw_store s2 a) < ri_rtt (rw_store s2 b)) (rh_items s1) (length (rh_items s1))"
      using s1(2) n by (auto simp: heap_part_iff is_heap_def heap_ok_def)
    ultimately show ?thesis using s1(2) n small unfolding heap_part_iff i by (auto intro: less_SucI)
  qed
  note add = rh_Add_ok [OF this fresh]
  have f: "rw_window (rh_Add ?a s2) = rw_window s1" "rw_windowTailIndex (rh_Add ?a s2) = rw_windowTailIndex s1"
    "rw_windowHeadIndex (rh_Add ?a s2) = rw_windowHeadIndex s1" "rw_next (rh_Add ?a s2) = ?a + 1"
    using add(3) by (simp_all add: ring_part_def s2_def)
  have "ring (rh_Add ?a s2) ?xs z" using s1(3) by (simp add: ring_def f)
  moreover have "mset (rh_items (rh_Add ?a s2)) = add_mset ?a (mset (live ?xs z))" using add(2) s1(4) by (simp add: s2_def)
  ultimately obtain s' where s': "store_sample ?a (rh_Add ?a s2) = Some s'" "heap_part s'"
    "case_prod (ring s') (stored (length (rw_window (rh_Add ?a s2))) ?xs ?a)" "mset (rh_items s') = add_mset ?a (mset ?xs)"
    "settings_part s' = settings_part (rh_Add ?a s2)" "same_samples (rh_Add ?a s2) s'" "rw_next s' = rw_next (rh_Add ?a s2)"
    "length (rw_window s') = length (rw_window (rh_Add ?a s2))"
    using store_sample_ok [OF add(1)] by metis
  have e: "closeSendTime tag now s = Some s'"
    using assms(5) s1(1,7) s'(1) by (simp add: closeSendTime_def Let_def s2_def)
  have set: "settings_part s' = settings_part s"
    using s'(5) add(4) s1(5) by (simp add: s2_def settings_part_def)
  have rtt: "ri_rtt (rw_store s' b) = ri_rtt (rw_store s2 b)" for b
    using same_samples_trans [OF add(5) s'(6)] by (simp add: same_samples_def)
  have new: "ri_rtt (rw_store s' ?a) = time_Sub now (sint tag * 10 ^ 6)" unfolding rtt by (simp add: s2_def newRttWindowItem_def)
  have old: "b \<noteq> ?a \<Longrightarrow> ri_rtt (rw_store s' b) = ri_rtt (rw_store s b)" for b
    using s1(6) unfolding rtt by (simp add: s2_def same_samples_def)
  show thesis
    by (rule that [OF e s'(2) _ s'(4) set _ _ old new]) (use s'(3,7,8) f s1(8) in simp_all)
qed

section \<open>Every reachable window\<close>

text \<open>A window in use: acknowledgements close samples, the sequence reads the statistics.\<close>

inductive rtt_step :: "RttWindow \<Rightarrow> RttWindow \<Rightarrow> bool" where
  closed: "closeSendTime tag now s = Some s' \<Longrightarrow> rtt_step s s'"
| mean: "MeanRtt now s = Some (d, s') \<Longrightarrow> rtt_step s s'"
| scale: "scaledRtt now s = Some (d, s') \<Longrightarrow> rtt_step s s'"
| probe: "probeRtt now s = Some (d, s') \<Longrightarrow> rtt_step s s'"

text \<open>The samples between tail and head, oldest first.\<close>

definition ring_samples :: "RttWindow \<Rightarrow> nat list" where
  "ring_samples s =
     (let n = length (rw_window s)
      in map the (take ((rw_windowHeadIndex s + n - rw_windowTailIndex s) mod n) (rotate (rw_windowTailIndex s) (rw_window s))))"

lemma ring_samples_eq:
  assumes "ring s xs z"
  shows "ring_samples s = xs"
proof -
  let ?t = "rw_windowTailIndex s" and ?n = "length (rw_window s)"
  have r: "?t < ?n" "rotate ?t (rw_window s) = map Some xs @ z # replicate (?n - Suc (length xs)) None"
    "rw_windowHeadIndex s = (?t + length xs) mod ?n" using assms by (simp_all add: ring_def)
  have len: "length xs < ?n" using ring_length [OF assms] .
  have "(rw_windowHeadIndex s + ?n - ?t) mod ?n = length xs"
    using len unfolding r(3) add_mod_if [OF r(1) len] by (cases "?t + length xs < ?n") simp_all
  then show ?thesis by (simp add: ring_samples_def r(2) comp_def)
qed

lemma window_okE:
  assumes "window_ok s"
  obtains z where "heap_part s" "ring s (ring_samples s) z" "mset (rh_items s) = mset (live (ring_samples s) z)"
    "rw_window s ! rw_windowHeadIndex s = z"
  using assms ring_samples_eq ring_nth(2) unfolding window_ok_def by blast

lemma window_ok_queries:
  assumes "window_ok s" "t = now + i64 (- rw_windowTimeout s)"
  obtains s' where "coalesce now s = Some s'" "window_ok s'"
    "mset (rh_items s') = mset (live (dropWhile (expired s t) (ring_samples s)) (rw_window s ! rw_windowHeadIndex s))"
    "settings_part s' = settings_part s" "same_samples s s'" "length (rw_window s') = length (rw_window s)"
proof -
  obtain z where z: "heap_part s" "ring s (ring_samples s) z" "mset (rh_items s) = mset (live (ring_samples s) z)"
    "rw_window s ! rw_windowHeadIndex s = z" using window_okE [OF assms(1)] .
  obtain s' where "coalesce now s = Some s'" "heap_part s'" "ring s' (dropWhile (expired s t) (ring_samples s)) z"
    "mset (rh_items s') = mset (live (dropWhile (expired s t) (ring_samples s)) z)" "settings_part s' = settings_part s"
    "same_samples s s'" "length (rw_window s') = length (rw_window s)"
    using coalesce_ok [OF z(1-3) assms(2)] by blast
  then show thesis using z(4) by (intro that [of s']) (auto simp: window_ok_def)
qed

lemma window_ok_close:
  assumes "window_ok s" "t = now + i64 (- rw_windowTimeout s)" "sint tag * 10 ^ 6 \<le> now"
  obtains s' where "closeSendTime tag now s = Some s'" "window_ok s'"
    "mset (rh_items s') = add_mset (rw_next s) (mset (dropWhile (expired s t) (ring_samples s)))"
    "settings_part s' = settings_part s" "length (rw_window s') = length (rw_window s)"
    "\<And>a. a \<noteq> rw_next s \<Longrightarrow> ri_rtt (rw_store s' a) = ri_rtt (rw_store s a)"
    "ri_rtt (rw_store s' (rw_next s)) = time_Sub now (sint tag * 10 ^ 6)"
proof -
  obtain z where z: "heap_part s" "ring s (ring_samples s) z" "mset (rh_items s) = mset (live (ring_samples s) z)"
    using window_okE [OF assms(1)] .
  obtain s' where s': "closeSendTime tag now s = Some s'" "heap_part s'"
    "case_prod (ring s') (stored (length (rw_window s)) (dropWhile (expired s t) (ring_samples s)) (rw_next s))"
    "mset (rh_items s') = add_mset (rw_next s) (mset (dropWhile (expired s t) (ring_samples s)))" "settings_part s' = settings_part s"
    "length (rw_window s') = length (rw_window s)" "rw_next s' = rw_next s + 1"
    "\<And>a. a \<noteq> rw_next s \<Longrightarrow> ri_rtt (rw_store s' a) = ri_rtt (rw_store s a)"
    "ri_rtt (rw_store s' (rw_next s)) = time_Sub now (sint tag * 10 ^ 6)"
    using closeSendTime_ok [OF z assms(2,3)] by blast
  obtain ys y where y: "stored (length (rw_window s)) (dropWhile (expired s t) (ring_samples s)) (rw_next s) = (ys, y)" by fastforce
  then have "ring s' ys y" "mset (rh_items s') = mset (live ys y)"
    using s'(3,4) live_stored [of "length (rw_window s)" "dropWhile (expired s t) (ring_samples s)" "rw_next s"] by simp_all
  then have "window_ok s'" using s'(2) unfolding window_ok_def by blast
  with s' show thesis by (intro that [of s']) auto
qed

lemma new_window_ok:
  assumes "NewRttWindow windowSize windowTimeout rttScale minScaledRtt rest = Some s"
  shows "window_ok s" "length (rw_window s) = nat windowSize" "rw_windowTimeout s = windowTimeout"
proof -
  have n: "0 < nat windowSize" using assms by (simp add: NewRttWindow_def split: if_splits)
  then have "replicate (nat windowSize) None = None # replicate (nat windowSize - 1) (None :: nat option)"
    by (metis Suc_diff_1 replicate_Suc)
  moreover have f: "rh_items s = []" "rh_netRtt s = 0" "rw_window s = replicate (nat windowSize) None" "rw_windowTailIndex s = 0"
    "rw_windowHeadIndex s = 0" "rw_windowTimeout s = windowTimeout"
    using assms by (auto simp: NewRttWindow_def Let_def split: if_splits)
  ultimately have "ring s [] None" using n by (simp add: ring_def)
  moreover have "i64 0 = 0" by (simp add: i64_id in64_def)
  then have "heap_part s" using f by (simp add: heap_part_iff is_heap_def)
  ultimately show "window_ok s" using f unfolding window_ok_def by force
  show "length (rw_window s) = nat windowSize" "rw_windowTimeout s = windowTimeout" using f by simp_all
qed

lemma query_step:
  assumes "window_ok s" "coalesce now s = Some s'"
  shows "window_ok s' \<and> length (rw_window s') = length (rw_window s) \<and> rw_windowTimeout s' = rw_windowTimeout s"
  by (rule window_ok_queries [OF assms(1) refl, of now]) (use assms(2) in \<open>auto simp: settings_part_def\<close>)

lemma rtt_step_ok:
  assumes "rtt_step s s'" "window_ok s"
  shows "window_ok s' \<and> length (rw_window s') = length (rw_window s) \<and> rw_windowTimeout s' = rw_windowTimeout s"
  using assms
proof (cases rule: rtt_step.cases)
  case (closed tag now)
  show ?thesis
  proof (cases "sint tag * 10 ^ 6 \<le> now")
    case True
    show ?thesis by (rule window_ok_close [OF assms(2) refl True]) (use closed in \<open>auto simp: settings_part_def\<close>)
  next
    case False
    then show ?thesis using closed assms(2) by (simp add: closeSendTime_def Let_def)
  qed
qed (auto simp: MeanRtt_def scaledRtt_def probeRtt_def dest: query_step [OF assms(2)])

lemma rtt_run_ok:
  assumes "rtt_step\<^sup>*\<^sup>* s0 s" "window_ok s0"
  shows "window_ok s \<and> length (rw_window s) = length (rw_window s0) \<and> rw_windowTimeout s = rw_windowTimeout s0"
  using assms by (induction rule: rtranclp_induct) (auto dest: rtt_step_ok)

lemma mset_rotate: "mset (rotate n xs) = mset xs"
proof (induction n)
  case (Suc n)
  then show ?case by (cases "rotate n xs") simp_all
qed simp

lemma ring_filter: "ring s xs z \<Longrightarrow> mset (filter (\<lambda>x. x \<noteq> None) (rw_window s)) = mset (map Some (live xs z))"
proof -
  assume r: "ring s xs z"
  have "mset (filter (\<lambda>x. x \<noteq> None) (rw_window s)) = mset (filter (\<lambda>x. x \<noteq> None) (rotate (rw_windowTailIndex s) (rw_window s)))"
    by (simp add: mset_filter mset_rotate)
  also have "\<dots> = mset (filter (\<lambda>x. x \<noteq> None) (map Some xs @ z # replicate (length (rw_window s) - Suc (length xs)) None))"
    using r by (simp only: ring_def)
  also have "\<dots> = mset (map Some (live xs z))" by (cases z) (simp_all add: filter_map comp_def)
  finally show ?thesis .
qed

lemma heap_part_min:
  assumes "heap_part s" "rh_items s \<noteq> []"
  shows "rh_MinRtt s = Min (set (map (\<lambda>a. ri_rtt (rw_store s a)) (rh_items s)))"
proof -
  have "is_heap (shorter (rtt_rest s)) (rh_items s) (length (rh_items s))" using assms(1) by (simp add: heap_part_def)
  then have "k < length (rh_items s) \<Longrightarrow> \<not> shorter (rtt_rest s) (rh_items s ! k) (rh_items s ! 0)" for k
    by (rule rtt_heap.heap_first_least)
  then have "ri_rtt (rw_store s (rh_items s ! 0)) \<le> ri_rtt (rw_store s a)" if "a \<in> set (rh_items s)" for a
    using that by (auto simp: in_set_conv_nth shorter_def rest_simps linorder_not_less)
  moreover have "rh_items s ! 0 \<in> set (rh_items s)" using assms(2) by simp
  ultimately have "Min (set (map (\<lambda>a. ri_rtt (rw_store s a)) (rh_items s))) = ri_rtt (rw_store s (rh_items s ! 0))"
    by (intro Min_eqI) auto
  then show ?thesis using assms(2) by (simp add: rh_MinRtt_def)
qed

text \<open>
  C40. The round-trip statistics of a send sequence are computed over exactly the samples that are
  in its ring, and what an operation takes out of the ring is exactly known. Whatever
  acknowledgements and reads came before, no operation panics. The heap holds the samples of the
  ring, each once, and at most \<open>windowSize\<close> of them. Both a close and a read walk the ring
  from its tail and drop samples for as long as they are expired; they stop at the first that is
  not, and at the head slot, whose sample (there can be one once the ring has been full) they do
  not look at.
  Closing a send time that is not in the future then puts the new sample into the head slot, in
  place of the sample there. A read leaves the sample in the head slot where it is, expired or not.
  The mean a read then sees is the quotient of the sum of the samples, wrapped to a 64-bit
  duration, by their number (so it is their mean when the sum does not overflow), and the minimum
  is the least of them.
\<close>

theorem rtt_statistics_exact:
  assumes "NewRttWindow windowSize windowTimeout rttScale minScaledRtt rest = Some s0" "rtt_step\<^sup>*\<^sup>* s0 s"
    "start = now + i64 (- windowTimeout)"
  shows "mset (map Some (rh_items s)) = mset (filter (\<lambda>x. x \<noteq> None) (rw_window s)) \<and> distinct (rh_items s)
       \<and> length (rh_items s) \<le> nat windowSize
     \<and> (if now < sint tag * 10 ^ 6 then closeSendTime tag now s = Some s
        else \<exists>s'. closeSendTime tag now s = Some s' \<and> ri_rtt (rw_store s' (rw_next s)) = time_Sub now (sint tag * 10 ^ 6)
           \<and> mset (rh_items s') = add_mset (rw_next s) (mset (dropWhile (expired s start) (ring_samples s))))
     \<and> (\<exists>s' net. MeanRtt now s = Some (if rh_items s' = [] then 0 else go_quot (i64 net) (int (length (rh_items s'))), s')
       \<and> net = (\<Sum>a\<leftarrow>rh_items s'. ri_rtt (rw_store s a))
       \<and> scaledRtt now s = Some (scaled (rh_MeanRtt s') s', s') \<and> probeRtt now s = Some (scaled (rh_MinRtt s') s', s')
       \<and> rh_MinRtt s' = (if rh_items s' = [] then 0 else Min (set (map (\<lambda>a. ri_rtt (rw_store s a)) (rh_items s'))))
       \<and> mset (rh_items s') = mset (live (dropWhile (expired s start) (ring_samples s)) (rw_window s ! rw_windowHeadIndex s)))"
proof -
  note new = new_window_ok [OF assms(1)]
  have ok: "window_ok s" "length (rw_window s) = nat windowSize" "start = now + i64 (- rw_windowTimeout s)"
    using rtt_run_ok [OF assms(2) new(1)] new(2,3) assms(3) by simp_all
  obtain z where z: "heap_part s" "ring s (ring_samples s) z" "mset (rh_items s) = mset (live (ring_samples s) z)"
    using window_okE [OF ok(1)] .
  have m: "mset (map Some (rh_items s)) = mset (filter (\<lambda>x. x \<noteq> None) (rw_window s))"
    using ring_filter [OF z(2)] z(3) by (metis mset_map)
  then have "length (rh_items s) = length (filter (\<lambda>x. x \<noteq> None) (rw_window s))" by (metis length_map size_mset)
  then have "length (rh_items s) \<le> nat windowSize" using ok(2) by (metis length_filter_le)
  then have heap: "mset (map Some (rh_items s)) = mset (filter (\<lambda>x. x \<noteq> None) (rw_window s)) \<and> distinct (rh_items s)
    \<and> length (rh_items s) \<le> nat windowSize" using m z(1) by (simp add: heap_part_iff)
  have close: "if now < sint tag * 10 ^ 6 then closeSendTime tag now s = Some s
         else \<exists>s'. closeSendTime tag now s = Some s' \<and> ri_rtt (rw_store s' (rw_next s)) = time_Sub now (sint tag * 10 ^ 6)
           \<and> mset (rh_items s') = add_mset (rw_next s) (mset (dropWhile (expired s start) (ring_samples s)))"
  proof (cases "sint tag * 10 ^ 6 \<le> now")
    case True
    then show ?thesis using window_ok_close [OF ok(1,3) True] by (metis linorder_not_less)
  qed (simp add: closeSendTime_def Let_def)
  obtain s' where s': "coalesce now s = Some s'" "window_ok s'"
    "mset (rh_items s') = mset (live (dropWhile (expired s start) (ring_samples s)) (rw_window s ! rw_windowHeadIndex s))"
    "same_samples s s'"
    using window_ok_queries [OF ok(1,3)] by blast
  have h: "heap_part s'" using s'(2) by (simp add: window_ok_def)
  have rtt: "ri_rtt (rw_store s' a) = ri_rtt (rw_store s a)" for a using s'(4) by (simp add: same_samples_def)
  have mean: "rh_MeanRtt s' = (if rh_items s' = [] then 0 else go_quot (i64 (\<Sum>a\<leftarrow>rh_items s'. ri_rtt (rw_store s a))) (int (length (rh_items s'))))"
    using h by (simp add: rh_MeanRtt_def Let_def heap_part_iff rtt)
  have min: "rh_MinRtt s' = (if rh_items s' = [] then 0 else Min (set (map (\<lambda>a. ri_rtt (rw_store s a)) (rh_items s'))))"
    using heap_part_min [OF h] by (cases "rh_items s' = []") (simp_all add: rh_MinRtt_def rtt)
  have read: "\<exists>s' net. MeanRtt now s = Some (if rh_items s' = [] then 0 else go_quot (i64 net) (int (length (rh_items s'))), s')
       \<and> net = (\<Sum>a\<leftarrow>rh_items s'. ri_rtt (rw_store s a))
       \<and> scaledRtt now s = Some (scaled (rh_MeanRtt s') s', s') \<and> probeRtt now s = Some (scaled (rh_MinRtt s') s', s')
       \<and> rh_MinRtt s' = (if rh_items s' = [] then 0 else Min (set (map (\<lambda>a. ri_rtt (rw_store s a)) (rh_items s'))))
       \<and> mset (rh_items s') = mset (live (dropWhile (expired s start) (ring_samples s)) (rw_window s ! rw_windowHeadIndex s))"
    using s'(1) mean min s'(3) by (intro exI [of _ s'] exI [of _ "\<Sum>a\<leftarrow>rh_items s'. ri_rtt (rw_store s a)"])
      (simp add: MeanRtt_def scaledRtt_def probeRtt_def)
  from heap close read show ?thesis by (intro conjI) simp_all
qed

text \<open>The window of the first test of transfer_rtt_test.go, with the times from the start of the test.\<close>

definition test_new :: "RttWindow option" where
  "test_new = NewRttWindow 4 (10 ^ 9) (\<lambda>ms. ms) 0 [10 ^ 9]"

definition close_all :: "(uint64 \<times> int) list \<Rightarrow> RttWindow option \<Rightarrow> RttWindow option" where
  "close_all acks w = fold (\<lambda>(tag, ms) w. Option.bind w (closeSendTime tag (ms * 10 ^ 6))) acks w"

lemma close_all_steps: "close_all acks w = Some s \<Longrightarrow> \<exists>s0. w = Some s0 \<and> rtt_step\<^sup>*\<^sup>* s0 s"
proof (induction acks arbitrary: w)
  case (Cons ack acks)
  then obtain s1 where s1: "Option.bind w (closeSendTime (fst ack) (snd ack * 10 ^ 6)) = Some s1" "rtt_step\<^sup>*\<^sup>* s1 s"
    by (cases ack) (force simp: close_all_def)
  then obtain s0 where "w = Some s0" "rtt_step s0 s1" by (auto simp: bind_eq_Some_conv intro: closed)
  with s1(2) show ?case by (blast intro: converse_rtranclp_into_rtranclp)
qed (simp add: close_all_def)

definition test_full :: "RttWindow option" where
  "test_full = close_all [(50, 300), (150, 300), (100, 500), (0, 800)] test_new"

lemma test_full_defined: "\<not> Option.is_none test_full"
  by code_simp

lemma test_full_run: "\<exists>s0. test_new = Some s0 \<and> rtt_step\<^sup>*\<^sup>* s0 (the test_full)"
proof -
  have "test_full = Some (the test_full)" using test_full_defined by (metis is_none_simps(1) option.exhaust_sel)
  then show ?thesis unfolding test_full_def by (rule close_all_steps)
qed

theorem rtt_statistics_exact_witness:
  "(\<exists>s0. test_new = Some s0 \<and> rtt_step\<^sup>*\<^sup>* s0 (the test_full))
   \<and> mset (map Some (rh_items (the test_full))) = mset (filter (\<lambda>x. x \<noteq> None) (rw_window (the test_full)))
   \<and> distinct (rh_items (the test_full)) \<and> length (rh_items (the test_full)) = 4
   \<and> map_option fst (MeanRtt (800 * 10 ^ 6) (the test_full)) = Some (400 * 10 ^ 6)"
proof -
  obtain s0 where s0: "test_new = Some s0" "rtt_step\<^sup>*\<^sup>* s0 (the test_full)" using test_full_run by blast
  have f: "mset (map Some (rh_items (the test_full))) = mset (filter (\<lambda>x. x \<noteq> None) (rw_window (the test_full)))" "distinct (rh_items (the test_full))"
    using rtt_statistics_exact [OF s0(1) [unfolded test_new_def] s0(2) refl] by blast+
  have "length (rh_items (the test_full)) = 4 \<and> map_option fst (MeanRtt (800 * 10 ^ 6) (the test_full)) = Some (400 * 10 ^ 6)"
    by code_simp
  with f s0 show ?thesis by blast
qed

section \<open>Two limits of the window\<close>

text \<open>
  The sample at the head slot of a ring that has been full is never expired by a read: thirty years
  after the last acknowledgement of the test above the mean is still that of its oldest sample.
\<close>

lemma head_sample_never_expires:
  assumes "window_ok s" "rw_window s ! rw_windowHeadIndex s = Some a"
  shows "\<exists>s'. coalesce now s = Some s' \<and> a \<in> set (rh_items s')"
proof -
  obtain s' where s': "coalesce now s = Some s'"
    "mset (rh_items s') = mset (live (dropWhile (expired s (now + i64 (- rw_windowTimeout s))) (ring_samples s)) (Some a))"
    using window_ok_queries [OF assms(1) refl, of now] assms(2) by metis
  then have "a \<in># mset (rh_items s')" by simp
  with s'(1) show ?thesis by simp
qed

lemma stale_sample_survives: "map_option fst (MeanRtt (10 ^ 18) (the test_full)) = Some (250 * 10 ^ 6)"
  by code_simp

text \<open>
  The send times come back from the peer. Six that are zero, closed in the year 2023, have a sum that
  does not fit a 64-bit duration, and the mean is negative.
\<close>

lemma mean_wraps_around:
  "map_option (\<lambda>s. rh_MeanRtt s < 0)
     (close_all (replicate 6 (0, 17 * 10 ^ 11)) (NewRttWindow 128 (60 * 10 ^ 9) (\<lambda>ms. ms) 0 [10 ^ 9])) = Some True"
  by code_simp

end
