(* ===== verification/Send_Sequence.thy ===== *)
theory Send_Sequence
  imports Transfer_Queue Flight_Run Rtt_Window
begin

text \<open>
  The bookkeeping of a send sequence (transfer.go): what it sends, resends, has acknowledged and
  drops, against the resend queue, the contracts that pay for it, the flight of the unreliable
  carrier, the round-trip window and the budget of retained bytes.

  \<^item> an item is an address. The fields of its struct are spread over the stores of the components
    that use them: the embedded \<open>transferItem\<close> is in the store of the queue, the flight fields
    in the list of the flight, the rest in \<open>ss_items\<close>. The queue's order reads the resend times
    from \<open>ss_items\<close>.
  \<^item> a wire frame is its length; marshalling, encryption and the write are the world's choice: the
    operations take the length of the frame and what became of the write as arguments.
  \<^item> clock readings are arguments; where an operation reads the clock more than once it takes the
    readings as a function of their order. The zero time is \<open>None\<close>.
  \<^item> a call into another part of the client (a callback, the contract manager, the yield and retry
    accounts, the message pool) is an event at the end of \<open>ss_events\<close>. Logs, metrics and test
    hooks are left out.
  \<^item> a panic is \<open>None\<close>.
\<close>

section \<open>Contracts\<close>

type_synonym contract_id = bytes

record sequenceContract =
  sc_contractId :: contract_id
  sc_minUpdateByteCount :: int
  sc_effectiveTransferByteCount :: int
  sc_expirationTimeUnixMilli :: "int option"
  sc_ackedByteCount :: int
  sc_unackedByteCount :: int

definition contractExpiredAt :: "int option \<Rightarrow> int \<Rightarrow> bool" where
  "contractExpiredAt deadline nowUnixMilli = (case deadline of None \<Rightarrow> False | Some d \<Rightarrow> d \<le> nowUnixMilli)"

definition contract_update :: "int \<Rightarrow> int \<Rightarrow> sequenceContract \<Rightarrow> bool \<times> sequenceContract" where
  "contract_update now byteCount c =
     (if contractExpiredAt (sc_expirationTimeUnixMilli c) (now div 10 ^ 6) then (False, c)
      else
        let effectiveByteCount = max (sc_minUpdateByteCount c) byteCount
        in if sc_effectiveTransferByteCount c < i64 (i64 (sc_ackedByteCount c + sc_unackedByteCount c) + effectiveByteCount)
           then (False, c)
           else (True, c\<lparr>sc_unackedByteCount := i64 (sc_unackedByteCount c + effectiveByteCount)\<rparr>))"

definition contract_ack :: "int \<Rightarrow> sequenceContract \<Rightarrow> sequenceContract option" where
  "contract_ack byteCount c =
     (let effectiveByteCount = max (sc_minUpdateByteCount c) byteCount
      in if sc_unackedByteCount c < effectiveByteCount then None
         else Some (c\<lparr>sc_unackedByteCount := i64 (sc_unackedByteCount c - effectiveByteCount),
                      sc_ackedByteCount := i64 (sc_ackedByteCount c + effectiveByteCount)\<rparr>))"

definition contract_unack :: "int \<Rightarrow> sequenceContract \<Rightarrow> sequenceContract" where
  "contract_unack byteCount c =
     (let effectiveByteCount = max (sc_minUpdateByteCount c) byteCount;
          effectiveByteCount = (if sc_unackedByteCount c < effectiveByteCount then sc_unackedByteCount c else effectiveByteCount)
      in c\<lparr>sc_unackedByteCount := i64 (sc_unackedByteCount c - effectiveByteCount)\<rparr>)"

section \<open>State\<close>

datatype ackFunction = UserCallback | ContractOpen nat

record sendItem =
  si_messageByteCount :: int
  si_contractId :: "contract_id option"
  si_head :: bool
  si_hasContractFrame :: bool
  si_sendTime :: int
  si_resendTime :: int
  si_sendCount :: int
  si_frameByteCount :: int
  si_ackCallback :: "ackFunction option"
  si_retainAfterAckTimeout :: bool
  si_retainedCharge :: int
  si_retainedReleased :: bool
  si_backstopDeadline :: "int option"
  si_carrierChanged :: bool
  si_carrierRoute :: "nat option"
  si_unreliableCarrierObserved :: bool
  si_reliableCarrierObserved :: bool
  si_reliableRoute :: "nat option"
  si_hybridReliableCarrierObserved :: bool
  si_ackTimeout :: int
  si_selectiveAcked :: bool

definition frame_MessageByteCount :: "sendItem \<Rightarrow> int" where
  "frame_MessageByteCount item = (if 0 < si_frameByteCount item then si_frameByteCount item else si_messageByteCount item)"

record sendSettings =
  sb_AckTimeout :: int
  sb_SelectiveAckTimeout :: int
  sb_UnreliableAckTimeout :: int
  sb_RetainedAckTimeout :: int
  sb_ResendQueueMaxByteCount :: int
  sb_MaxResendCount :: int
  sb_MaxResendInterval :: int
  sb_MinMessageByteCount :: int
  sb_ReliableLaneProvenRecovery :: bool

record laneAckSlot =
  la_route :: "nat option"
  la_highestSentSequenceNumber :: uint64
  la_set :: bool

record transferWriteDisposition =
  dp_transportType :: string
  dp_unreliable :: bool
  dp_reliable :: bool
  dp_hybridReliable :: bool
  dp_route :: "nat option"

datatype event =
  Callback nat bool
| ItemReturned nat
| FrameReturned nat
| CloseContract contract_id int int
| RequestContract uint64
| PackRefused
| AckedBytes int
| FirstSend int
| Resend int int
| ResendDeferred int
| RefundRetry
| YieldAck int
| YieldLive
| YieldSend int

record SendSequence =
  ss_settings :: sendSettings
  ss_resendQueue :: qstate
  ss_flight :: flightSequence
  ss_rttWindow :: RttWindow
  ss_items :: "nat \<Rightarrow> sendItem"
  ss_sendItems :: "nat option list"
  ss_nextSequenceNumber :: uint64
  ss_sendContract :: "nat option"
  ss_sendContractAcked :: bool
  ss_openSendContracts :: "contract_id \<rightharpoonup> nat"
  ss_contracts :: "nat \<Rightarrow> sequenceContract"
  ss_contractCount :: nat
  ss_contractSeqIndex :: uint64
  ss_retainedByteCount :: int
  ss_retainedSilenceStart :: "int option"
  ss_laneAcks :: "laneAckSlot list"
  ss_events :: "event list"

definition emit :: "event \<Rightarrow> SendSequence \<Rightarrow> SendSequence" where
  "emit e s = s\<lparr>ss_events := ss_events s @ [e]\<rparr>"

text \<open>A write to a field of an item; the order of the queue sees the new resend time.\<close>

definition set_item :: "nat \<Rightarrow> (sendItem \<Rightarrow> sendItem) \<Rightarrow> SendSequence \<Rightarrow> SendSequence" where
  "set_item a f s =
     (let items = (ss_items s)(a := f (ss_items s a))
      in s\<lparr>ss_items := items, ss_resendQueue := (ss_resendQueue s)\<lparr>tq_cmp := resend_cmp (\<lambda>a. si_resendTime (items a))\<rparr>\<rparr>)"

text \<open>A new wire frame: what \<open>MessageByteCount\<close> and \<open>QueueByteCount\<close> answer changes for the queue and the flight.\<close>

definition set_frame :: "nat \<Rightarrow> int \<Rightarrow> SendSequence \<Rightarrow> SendSequence" where
  "set_frame a n s =
     (let s = set_item a (\<lambda>item. item\<lparr>si_frameByteCount := n\<rparr>) s;
          byteCount = frame_MessageByteCount (ss_items s a);
          items = sq_items (ss_flight s)
      in s\<lparr>ss_resendQueue := upd_item a (\<lambda>item. item\<lparr>ti_messageByteCount := byteCount, ti_queueByteCount := byteCount\<rparr>) (ss_resendQueue s),
           ss_flight := (ss_flight s)\<lparr>sq_items := items[a := (items ! a)\<lparr>it_byteCount := byteCount\<rparr>]\<rparr>\<rparr>)"

definition sequenceNumber :: "SendSequence \<Rightarrow> nat \<Rightarrow> uint64" where
  "sequenceNumber s a = ti_sequenceNumber (qs_items (ss_resendQueue s) a)"

definition messageId :: "SendSequence \<Rightarrow> nat \<Rightarrow> message_id" where
  "messageId s a = ti_messageId (qs_items (ss_resendQueue s) a)"

definition queue_remove :: "message_id \<Rightarrow> SendSequence \<Rightarrow> (nat option \<times> SendSequence) option" where
  "queue_remove m s = map_option (\<lambda>(r, q). (r, s\<lparr>ss_resendQueue := q\<rparr>)) (RemoveByMessageId (ss_resendQueue s) m)"

definition queue_add :: "nat \<Rightarrow> SendSequence \<Rightarrow> SendSequence" where
  "queue_add a s = s\<lparr>ss_resendQueue := Add (ss_resendQueue s) a\<rparr>"

definition release_flight :: "nat \<Rightarrow> SendSequence \<Rightarrow> SendSequence option" where
  "release_flight a s = map_option (\<lambda>fl. s\<lparr>ss_flight := fl\<rparr>) (releaseUnreliableFlight a (ss_flight s))"

section \<open>Retained bytes\<close>

definition releaseRetained :: "nat \<Rightarrow> SendSequence \<Rightarrow> SendSequence" where
  "releaseRetained a s =
     (if si_retainedReleased (ss_items s a) then s
      else
        let item = ss_items s a;
            charge = (if si_retainedCharge item = 0 then frame_MessageByteCount item else si_retainedCharge item);
            s = set_item a (\<lambda>item. item\<lparr>si_retainedReleased := True, si_retainedCharge := 0\<rparr>) s
        in s\<lparr>ss_retainedByteCount := i64 (ss_retainedByteCount s - charge)\<rparr>)"

definition restartRetainedSilence :: "int \<Rightarrow> SendSequence \<Rightarrow> SendSequence" where
  "restartRetainedSilence now s = s\<lparr>ss_retainedSilenceStart := (if 0 < ss_retainedByteCount s then Some now else None)\<rparr>"

definition retainedSilenceDeadline :: "SendSequence \<Rightarrow> int option" where
  "retainedSilenceDeadline s =
     (let timeout = sb_RetainedAckTimeout (ss_settings s)
      in case ss_retainedSilenceStart s of
           None \<Rightarrow> None
         | Some start \<Rightarrow> if timeout \<le> 0 \<or> ss_retainedByteCount s \<le> 0 then None else Some (start + timeout))"

definition retainedDestinationSilent :: "int \<Rightarrow> SendSequence \<Rightarrow> bool \<times> SendSequence" where
  "retainedDestinationSilent now s =
     (if IsEmpty (ss_resendQueue s) then (False, s\<lparr>ss_retainedSilenceStart := None\<rparr>)
      else
        (case retainedSilenceDeadline s of
           None \<Rightarrow> (False, s)
         | Some deadline \<Rightarrow> (\<not> now < deadline, s)))"

section \<open>Carriers\<close>

definition laneAckSlotCount :: nat where "laneAckSlotCount = 8"

definition laneCountingActive :: "SendSequence \<Rightarrow> bool" where
  "laneCountingActive s = sb_ReliableLaneProvenRecovery (ss_settings s)"

text \<open>The scan of the table: the slot of the route, and the first free slot before it.\<close>

fun lane_scan :: "nat \<Rightarrow> nat \<Rightarrow> nat option \<Rightarrow> laneAckSlot list \<Rightarrow> nat option \<times> nat option" where
  "lane_scan route index free [] = (None, free)"
| "lane_scan route index free (slot # slots) =
     (if \<not> la_set slot then lane_scan route (Suc index) (if free = None then Some index else free) slots
      else if la_route slot = Some route then (Some index, free)
      else lane_scan route (Suc index) free slots)"

definition laneSlotFor :: "nat option \<Rightarrow> SendSequence \<Rightarrow> nat option \<times> SendSequence" where
  "laneSlotFor route s =
     (case route of
        None \<Rightarrow> (None, s)
      | Some r \<Rightarrow>
          if \<not> laneCountingActive s then (None, s)
          else
            (case lane_scan r 0 None (ss_laneAcks s) of
               (Some index, _) \<Rightarrow> (Some index, s)
             | (None, Some free) \<Rightarrow>
                 (Some free, s\<lparr>ss_laneAcks := (ss_laneAcks s)[free := \<lparr>la_route = Some r, la_highestSentSequenceNumber = 0, la_set = True\<rparr>]\<rparr>)
             | (None, None) \<Rightarrow> (None, s)))"

definition observeLaneSend :: "nat \<Rightarrow> SendSequence \<Rightarrow> SendSequence" where
  "observeLaneSend a s =
     (case si_carrierRoute (ss_items s a) of
        None \<Rightarrow> s
      | Some route \<Rightarrow>
          (case laneSlotFor (Some route) s of
             (None, s) \<Rightarrow> s
           | (Some slot, s) \<Rightarrow>
               let lane = ss_laneAcks s ! slot
               in if la_highestSentSequenceNumber lane < sequenceNumber s a
                  then s\<lparr>ss_laneAcks := (ss_laneAcks s)[slot := lane\<lparr>la_highestSentSequenceNumber := sequenceNumber s a\<rparr>]\<rparr>
                  else s))"

definition laneHighestSent :: "nat option \<Rightarrow> SendSequence \<Rightarrow> uint64 option" where
  "laneHighestSent route s =
     (if \<not> laneCountingActive s \<or> route = None then None
      else map_option la_highestSentSequenceNumber (find (\<lambda>slot. la_set slot \<and> la_route slot = route) (ss_laneAcks s)))"

definition observeCarrierWrite :: "nat \<Rightarrow> transferWriteDisposition \<Rightarrow> int \<Rightarrow> SendSequence \<Rightarrow> SendSequence" where
  "observeCarrierWrite a disposition now s =
     (let s = (if ss_retainedSilenceStart s = None then s\<lparr>ss_retainedSilenceStart := Some now\<rparr> else s);
          item = ss_items s a;
          s = (if si_carrierRoute item \<noteq> None \<and> si_carrierRoute item \<noteq> dp_route disposition
               then set_item a (\<lambda>item. item\<lparr>si_carrierChanged := True\<rparr>) s else s);
          s = set_item a (\<lambda>item. item\<lparr>si_carrierRoute := dp_route disposition\<rparr>) s;
          s = observeLaneSend a s
      in if \<not> dp_unreliable disposition
         then
           if dp_reliable disposition \<and> \<not> si_unreliableCarrierObserved (ss_items s a)
           then set_item a (\<lambda>item. item\<lparr>si_reliableCarrierObserved := True, si_reliableRoute := dp_route disposition,
                                       si_hybridReliableCarrierObserved := dp_hybridReliable disposition\<rparr>) s
           else set_item a (\<lambda>item. item\<lparr>si_reliableCarrierObserved := False, si_reliableRoute := None,
                                       si_hybridReliableCarrierObserved := False\<rparr>) s
         else
           let s = set_item a (\<lambda>item. item\<lparr>si_reliableCarrierObserved := False, si_reliableRoute := None,
                                           si_hybridReliableCarrierObserved := False, si_unreliableCarrierObserved := True\<rparr>) s;
               timeout = sb_UnreliableAckTimeout (ss_settings s);
               s = (if 0 < timeout then set_item a (\<lambda>item. item\<lparr>si_ackTimeout := max (si_ackTimeout item) timeout\<rparr>) s else s)
           in s\<lparr>ss_flight := trackUnreliableFlight a (ss_flight s)\<rparr>)"

section \<open>Settling items\<close>

definition setContractAcked :: "nat \<Rightarrow> bool \<Rightarrow> SendSequence \<Rightarrow> SendSequence" where
  "setContractAcked nextSendContract ack s =
     (if ss_sendContract s = Some nextSendContract then s\<lparr>ss_sendContractAcked := ack\<rparr> else s)"

text \<open>The callback of an item; that of a contract opening records whether it was acknowledged.\<close>

definition safeAck :: "nat \<Rightarrow> bool \<Rightarrow> SendSequence \<Rightarrow> SendSequence" where
  "safeAck a success s =
     (case si_ackCallback (ss_items s a) of
        None \<Rightarrow> s
      | Some UserCallback \<Rightarrow> emit (Callback a success) s
      | Some (ContractOpen k) \<Rightarrow> setContractAcked k success s)"

definition upd_contract :: "nat \<Rightarrow> sequenceContract \<Rightarrow> SendSequence \<Rightarrow> SendSequence" where
  "upd_contract k c s = s\<lparr>ss_contracts := (ss_contracts s)(k := c)\<rparr>"

text \<open>A contract that is not the current one is closed once nothing of it is unacknowledged.\<close>

definition close_settled :: "nat \<Rightarrow> SendSequence \<Rightarrow> SendSequence" where
  "close_settled k s =
     (let c = ss_contracts s k
      in if ss_sendContract s \<noteq> Some k \<and> sc_unackedByteCount c = 0
         then emit (CloseContract (sc_contractId c) (sc_ackedByteCount c) (sc_unackedByteCount c))
                (s\<lparr>ss_openSendContracts := (ss_openSendContracts s)(sc_contractId c := None)\<rparr>)
         else s)"

definition item_contract :: "nat \<Rightarrow> SendSequence \<Rightarrow> nat option" where
  "item_contract a s = Option.bind (si_contractId (ss_items s a)) (ss_openSendContracts s)"

definition ackItemCounted :: "nat \<Rightarrow> bool \<Rightarrow> SendSequence \<Rightarrow> SendSequence option" where
  "ackItemCounted a countYield s =
     (let n = si_frameByteCount (ss_items s a);
          s = (if countYield then emit (YieldAck n) (emit (AckedBytes n) s) else s)
      in Option.bind (release_flight a s) (\<lambda>s.
         Option.bind
           (case item_contract a s of
              None \<Rightarrow> Some s
            | Some k \<Rightarrow>
                map_option (\<lambda>c. close_settled k (upd_contract k c s))
                  (contract_ack (si_messageByteCount (ss_items s a)) (ss_contracts s k)))
           (\<lambda>s. Some (emit (ItemReturned a) (safeAck a True s)))))"

definition ackItem :: "nat \<Rightarrow> SendSequence \<Rightarrow> SendSequence option" where
  "ackItem a s = ackItemCounted a True s"

definition ackItemWithErrDropped :: "nat \<Rightarrow> SendSequence \<Rightarrow> SendSequence option" where
  "ackItemWithErrDropped a s =
     Option.bind (release_flight a s) (\<lambda>s.
       let s = (case item_contract a s of
                  None \<Rightarrow> s
                | Some k \<Rightarrow>
                    close_settled k (upd_contract k (contract_unack (si_messageByteCount (ss_items s a)) (ss_contracts s k)) s))
       in Some (emit (ItemReturned a) (safeAck a False s)))"

definition dropItem :: "nat \<Rightarrow> SendSequence \<Rightarrow> SendSequence option" where
  "dropItem a s =
     (case queue_remove (messageId s a) s of
        None \<Rightarrow> None
      | Some (None, s) \<Rightarrow> Some s
      | Some (Some _, s) \<Rightarrow>
          let s = s\<lparr>ss_sendItems := remove1 (Some a) (ss_sendItems s)\<rparr>;
              s = (if si_retainAfterAckTimeout (ss_items s a) then releaseRetained a s else s)
          in ackItemWithErrDropped a s)"

section \<open>Acknowledgements\<close>

text \<open>The tag of an acknowledgement is \<open>None\<close> where it has none.\<close>

definition observeAckRtt :: "nat \<Rightarrow> uint64 option \<Rightarrow> int \<Rightarrow> SendSequence \<Rightarrow> SendSequence option" where
  "observeAckRtt a tag now s =
     (if si_unreliableCarrierObserved (ss_items s a) then Some s
      else
        (case tag of
           None \<Rightarrow> Some s
         | Some t \<Rightarrow> map_option (\<lambda>w. s\<lparr>ss_rttWindow := w\<rparr>) (closeSendTime t now (ss_rttWindow s))))"

definition receive_selective :: "nat \<Rightarrow> message_id \<Rightarrow> (nat \<Rightarrow> int) \<Rightarrow> SendSequence \<Rightarrow> SendSequence option" where
  "receive_selective a m clock s =
     (case queue_remove m s of
        None \<Rightarrow> None
      | Some (None, s) \<Rightarrow> Some s
      | Some (Some _, s) \<Rightarrow>
          Option.bind (if \<not> si_selectiveAcked (ss_items s a) then release_flight a s else Some s) (\<lambda>s.
            let s = emit YieldLive s;
                s = set_item a (\<lambda>item. item\<lparr>si_resendTime := clock 1 + sb_SelectiveAckTimeout (ss_settings s),
                                            si_sendTime := clock 2, si_selectiveAcked := True\<rparr>) s
            in Some (restartRetainedSilence (clock 3) (queue_add a s))))"

text \<open>
  The loop over the items up to the acknowledged one; the result has the items that are left. An
  item that the queue does not hold any more is passed over.
\<close>

fun ack_loop :: "uint64 \<Rightarrow> nat option list \<Rightarrow> SendSequence \<Rightarrow> (nat option list \<times> SendSequence) option" where
  "ack_loop n [] s = Some ([], s)"
| "ack_loop n (None # items) s = ack_loop n items s"
| "ack_loop n (Some a # items) s =
     (if n < sequenceNumber s a then Some (Some a # items, s)
      else
        (case queue_remove (messageId s a) s of
           None \<Rightarrow> None
         | Some (None, s) \<Rightarrow> ack_loop n items s
         | Some (Some removed, s) \<Rightarrow>
             Option.bind (if \<not> si_selectiveAcked (ss_items s a) then release_flight a s else Some s) (\<lambda>s.
             let s = (if si_retainAfterAckTimeout (ss_items s removed) then releaseRetained removed s else s)
             in Option.bind (ackItem a s) (\<lambda>s. ack_loop n items s))))"

definition receiveAck :: "message_id \<Rightarrow> bool \<Rightarrow> uint64 option \<Rightarrow> (nat \<Rightarrow> int) \<Rightarrow> SendSequence \<Rightarrow> SendSequence option" where
  "receiveAck m selective tag clock s =
     (case GetByMessageId (ss_resendQueue s) m of
        None \<Rightarrow> Some s
      | Some a \<Rightarrow>
          Option.bind (observeAckRtt a tag (clock 0) s) (\<lambda>s.
            if selective then receive_selective a m clock s
            else
              map_option (\<lambda>(items, s). restartRetainedSilence (clock 1) (s\<lparr>ss_sendItems := items\<rparr>))
                (ack_loop (sequenceNumber s a) (ss_sendItems s) s)))"

section \<open>Sending\<close>

definition new_flight_item :: "int \<Rightarrow> flightItem" where
  "new_flight_item byteCount =
     \<lparr>it_byteCount = byteCount, it_schedulingKey = \<lparr>sk_valid = False\<rparr>, it_unreliableFlightTracked = False, it_unreliableFlowReserve = False\<rparr>"

text \<open>The new item at the next address, with the fields the other components keep of it.\<close>

definition new_item :: "message_id \<Rightarrow> uint64 \<Rightarrow> sendItem \<Rightarrow> SendSequence \<Rightarrow> nat \<times> SendSequence" where
  "new_item m n item s =
     (let a = length (sq_items (ss_flight s));
          byteCount = frame_MessageByteCount item;
          s = set_item a (\<lambda>_. item) s;
          base = \<lparr>ti_messageId = m, ti_messageByteCount = byteCount, ti_queueByteCount = byteCount, ti_sequenceNumber = n,
                  ti_heapIndex = 0, ti_maxHeapIndex = 0\<rparr>
      in (a, s\<lparr>ss_resendQueue := upd_item a (\<lambda>_. base) (ss_resendQueue s),
               ss_flight := (ss_flight s)\<lparr>sq_items := sq_items (ss_flight s) @ [new_flight_item byteCount]\<rparr>\<rparr>))"

text \<open>The cap is the product of the maximum and 0.25 in double precision, which is exact below 2 to the 53.\<close>

definition retainCapByteCount :: "SendSequence \<Rightarrow> int" where
  "retainCapByteCount s = go_quot (sb_ResendQueueMaxByteCount (ss_settings s)) 4"

definition admit_retained :: "nat \<Rightarrow> SendSequence \<Rightarrow> SendSequence" where
  "admit_retained a s =
     (if si_retainAfterAckTimeout (ss_items s a)
      then
        let retainCharge = frame_MessageByteCount (ss_items s a)
        in if retainCapByteCount s < i64 (ss_retainedByteCount s + retainCharge)
           then set_item a (\<lambda>item. item\<lparr>si_retainAfterAckTimeout := False, si_backstopDeadline := None\<rparr>) s
           else
             let s = set_item a (\<lambda>item. item\<lparr>si_retainedCharge := retainCharge\<rparr>) s
             in s\<lparr>ss_retainedByteCount := i64 (ss_retainedByteCount s + retainCharge)\<rparr>
      else s)"

text \<open>
  What the world decides about one message: its id, the length of its wire frame and the outcome of
  the write, \<open>None\<close> being an error; \<open>en_clock\<close> has the readings of the clock.
\<close>

record send_env =
  en_messageId :: message_id
  en_frameByteCount :: int
  en_write :: "transferWriteDisposition option"
  en_clock :: "nat \<Rightarrow> int"

definition sendWithSetContract ::
  "send_env \<Rightarrow> int \<Rightarrow> ackFunction option \<Rightarrow> bool \<Rightarrow> bool \<Rightarrow> bool \<Rightarrow> SendSequence \<Rightarrow> SendSequence option" where
  "sendWithSetContract env messageByteCount ackCallback ack setContract retainAfterAckTimeout s =
     (let sendTime = en_clock env 0;
          contractId = map_option (\<lambda>k. sc_contractId (ss_contracts s k)) (ss_sendContract s);
          ack = (ack \<or> ss_sendContract s \<noteq> None \<and> \<not> ss_sendContractAcked s);
          head = (ack \<and> ss_sendItems s = []);
          sequenceNumber = (if ack then ss_nextSequenceNumber s else 0);
          s = (if ack then s\<lparr>ss_nextSequenceNumber := ss_nextSequenceNumber s + 1\<rparr> else s)
      in Option.bind (scaledRtt (en_clock env 1) (ss_rttWindow s)) (\<lambda>(rtt, w).
         let s = s\<lparr>ss_rttWindow := w\<rparr>;
             item = \<lparr>si_messageByteCount = messageByteCount, si_contractId = contractId, si_head = head,
                     si_hasContractFrame = ((head \<or> setContract) \<and> ss_sendContract s \<noteq> None),
                     si_sendTime = sendTime, si_resendTime = sendTime + rtt, si_sendCount = 1,
                     si_frameByteCount = en_frameByteCount env, si_ackCallback = ackCallback,
                     si_retainAfterAckTimeout = retainAfterAckTimeout, si_retainedCharge = 0, si_retainedReleased = False,
                     si_backstopDeadline = (if retainAfterAckTimeout then Some (sendTime + i64 (sb_AckTimeout (ss_settings s) * 10)) else None),
                     si_carrierChanged = False, si_carrierRoute = None, si_unreliableCarrierObserved = False,
                     si_reliableCarrierObserved = False, si_reliableRoute = None, si_hybridReliableCarrierObserved = False,
                     si_ackTimeout = 0, si_selectiveAcked = False\<rparr>;
             (a, s) = new_item (en_messageId env) sequenceNumber item s;
             s = (case en_write env of
                    None \<Rightarrow> s
                  | Some disposition \<Rightarrow>
                      observeCarrierWrite a disposition (en_clock env 2)
                        (emit (YieldSend (en_frameByteCount env)) (emit (FirstSend (en_frameByteCount env)) s)))
         in if ack
            then
              let s = admit_retained a s
              in Some (queue_add a (s\<lparr>ss_sendItems := ss_sendItems s @ [Some a]\<rparr>))
            else if en_write env \<noteq> None then ackItemCounted a False s
            else Some (emit (ItemReturned a) (safeAck a False s))))"

definition setContract :: "nat \<Rightarrow> SendSequence \<Rightarrow> SendSequence" where
  "setContract nextSendContract s =
     (let s = (case ss_sendContract s of
                 None \<Rightarrow> s
               | Some k \<Rightarrow>
                   let c = ss_contracts s k
                   in if sc_unackedByteCount c = 0
                      then emit (CloseContract (sc_contractId c) (sc_ackedByteCount c) (sc_unackedByteCount c))
                             (s\<lparr>ss_openSendContracts := (ss_openSendContracts s)(sc_contractId c := None)\<rparr>)
                      else s)
      in s\<lparr>ss_openSendContracts := (ss_openSendContracts s)(sc_contractId (ss_contracts s nextSendContract) \<mapsto> nextSendContract),
           ss_sendContract := Some nextSendContract, ss_sendContractAcked := False\<rparr>)"

section \<open>Contracts for what is sent\<close>

text \<open>A contract as the platform hands it out: its id, its effective size and its deadline.\<close>

type_synonym platform_contract = "contract_id \<times> int \<times> int option"

definition newSequenceContract :: "platform_contract \<Rightarrow> int \<Rightarrow> sequenceContract" where
  "newSequenceContract contract minUpdateByteCount =
     (case contract of (contractId, effectiveTransferByteCount, deadline) \<Rightarrow>
        \<lparr>sc_contractId = contractId, sc_minUpdateByteCount = minUpdateByteCount,
         sc_effectiveTransferByteCount = effectiveTransferByteCount, sc_expirationTimeUnixMilli = deadline,
         sc_ackedByteCount = 0, sc_unackedByteCount = 0\<rparr>)"

text \<open>
  One attempt to get the next contract: whether one was requested before it, what the contract
  manager had, and the environment of the message that opens it.
\<close>

record contract_attempt =
  at_requested :: bool
  at_contract :: "platform_contract option"
  at_clock :: "nat \<Rightarrow> int"
  at_env :: send_env

definition setNextContract :: "contract_attempt \<Rightarrow> platform_contract \<Rightarrow> int \<Rightarrow> SendSequence \<Rightarrow> (bool \<times> SendSequence) option" where
  "setNextContract attempt contract messageByteCount s =
     (let c = newSequenceContract contract (sb_MinMessageByteCount (ss_settings s));
          refuse = Some (False, emit (CloseContract (sc_contractId c) 0 0) s)
      in if sc_contractId c \<in> dom (ss_openSendContracts s) then Some (False, s)
         else if contractExpiredAt (sc_expirationTimeUnixMilli c) (at_clock attempt 0 div 10 ^ 6) then refuse
         else
           (case contract_update (at_clock attempt 1) 0 c of
              (False, _) \<Rightarrow> refuse
            | (True, c) \<Rightarrow>
                (case contract_update (at_clock attempt 2) messageByteCount c of
                   (False, _) \<Rightarrow> refuse
                 | (True, c) \<Rightarrow>
                     let k = ss_contractCount s;
                         s = setContract k (upd_contract k c (s\<lparr>ss_contractCount := k + 1\<rparr>))
                     in map_option (\<lambda>s. (True, s))
                          (sendWithSetContract (at_env attempt) 0 (Some (ContractOpen k)) True True False s))))"

definition request_contract :: "SendSequence \<Rightarrow> SendSequence" where
  "request_contract s = emit (RequestContract (ss_contractSeqIndex s)) s"

definition nextContract :: "contract_attempt \<Rightarrow> int \<Rightarrow> SendSequence \<Rightarrow> (bool \<times> SendSequence) option" where
  "nextContract attempt messageByteCount s =
     (case at_contract attempt of
        None \<Rightarrow> Some (False, s)
      | Some contract \<Rightarrow>
          map_option (\<lambda>(set, s). if set then (True, request_contract (s\<lparr>ss_contractSeqIndex := ss_contractSeqIndex s + 1\<rparr>)) else (False, s))
            (setNextContract attempt contract messageByteCount s))"

text \<open>The attempts end with the first contract, or with the timeout of the creation.\<close>

fun createContract :: "contract_attempt list \<Rightarrow> int \<Rightarrow> SendSequence \<Rightarrow> (bool \<times> SendSequence) option" where
  "createContract [] messageByteCount s = Some (False, s)"
| "createContract (attempt # attempts) messageByteCount s =
     (case nextContract attempt messageByteCount (if at_requested attempt then request_contract s else s) of
        None \<Rightarrow> None
      | Some (True, s) \<Rightarrow> Some (True, s)
      | Some (False, s) \<Rightarrow> createContract attempts messageByteCount s)"

text \<open>
  \<open>noContract\<close> is the answer of the contract manager for the destination, \<open>standard\<close> the effective
  size of a standard contract. A message that fits in none is a panic. The code sizes contracts by the
  mean round trip, and reading it expires samples of the window; a run has that read as a step of its own.
\<close>

definition updateContract ::
  "bool \<Rightarrow> int \<Rightarrow> contract_attempt list \<Rightarrow> int \<Rightarrow> int \<Rightarrow> SendSequence \<Rightarrow> (bool \<times> SendSequence) option" where
  "updateContract noContract standard attempts now messageByteCount s =
     (let create = (\<lambda>s. if standard < i64 (messageByteCount + sb_MinMessageByteCount (ss_settings s)) then None
                        else createContract attempts messageByteCount s)
      in if noContract then Some (True, s)
         else
           (case ss_sendContract s of
              None \<Rightarrow> create s
            | Some k \<Rightarrow>
                (case contract_update now messageByteCount (ss_contracts s k) of
                   (True, c) \<Rightarrow> Some (True, upd_contract k c s)
                 | (False, _) \<Rightarrow> create s)))"

record send_pack =
  pk_messageByteCount :: int
  pk_ackCallback :: "ackFunction option"
  pk_ack :: bool
  pk_retainAfterAckTimeout :: bool

text \<open>One message of the pack channel; \<open>False\<close> is the exit of a sequence that gets no contract.\<close>

definition send_message ::
  "bool \<Rightarrow> int \<Rightarrow> contract_attempt list \<Rightarrow> int \<Rightarrow> send_env \<Rightarrow> send_pack \<Rightarrow> SendSequence \<Rightarrow> (bool \<times> SendSequence) option" where
  "send_message noContract standard attempts now env pack s =
     (case updateContract noContract standard attempts now (pk_messageByteCount pack) s of
        None \<Rightarrow> None
      | Some (False, s) \<Rightarrow> Some (False, emit PackRefused s)
      | Some (True, s) \<Rightarrow>
          map_option (\<lambda>s. (True, s))
            (sendWithSetContract env (pk_messageByteCount pack) (pk_ackCallback pack) (pk_ack pack) False (pk_retainAfterAckTimeout pack) s))"

section \<open>Resending\<close>

definition resendBackoff :: "int \<Rightarrow> int \<Rightarrow> int \<Rightarrow> int" where
  "resendBackoff rtt sendCount maxResendInterval =
     (let shift = min (sendCount - 1) 16
      in if shift = 0 then rtt
         else if shift < 0 then min 0 maxResendInterval
         else min (i64 (rtt * 2 ^ nat shift)) maxResendInterval)"

definition resendIsFree :: "int \<Rightarrow> bool \<Rightarrow> bool" where
  "resendIsFree sendCount isHead = (let next = sendCount + 1 in next \<le> 2 \<or> isHead \<and> next \<le> 5)"

record resend_env =
  re_sendTime :: int
  re_clock :: "nat \<Rightarrow> int"
  re_head :: "int option"
  re_allowed :: bool
  re_policy :: transferFlightPolicySnapshot
  re_write :: "transferWriteDisposition"
  re_writeError :: bool

datatype resend_outcome = Again | Wait | ExitAckTimeout | ExitHeadError

text \<open>
  The rewrite of an item that becomes the head. The rewritten frame carries the contract, which is
  dereferenced, unless the item already does. \<open>re_head\<close> is its length, \<open>None\<close> an error of the encoding.
\<close>

definition setHead :: "nat \<Rightarrow> resend_env \<Rightarrow> SendSequence \<Rightarrow> int option option" where
  "setHead a env s =
     (if si_contractId (ss_items s a) \<noteq> None \<and> \<not> si_hasContractFrame (ss_items s a) \<and> item_contract a s = None then None
      else Some (re_head env))"

definition apply_policy :: "transferFlightPolicySnapshot \<Rightarrow> SendSequence \<Rightarrow> SendSequence" where
  "apply_policy policy s =
     s\<lparr>ss_flight := (ss_flight s)\<lparr>sq_flightController := map_option (\<lambda>c. snd (applyPolicy policy c)) (sq_flightController (ss_flight s))\<rparr>\<rparr>"

text \<open>The next resend of an item: after its backoff, but not after its acknowledgement timeout.\<close>

definition reschedule :: "nat \<Rightarrow> int \<Rightarrow> int \<Rightarrow> int \<Rightarrow> int \<Rightarrow> SendSequence \<Rightarrow> SendSequence option" where
  "reschedule a sendTime itemAckTimeout now sendCount s =
     map_option (\<lambda>(rtt, w).
         let s = s\<lparr>ss_rttWindow := w\<rparr>;
             timeout = resendBackoff rtt sendCount (sb_MaxResendInterval (ss_settings s));
             timeout = (if \<not> si_retainAfterAckTimeout (ss_items s a) \<and> itemAckTimeout \<le> timeout then itemAckTimeout else timeout)
         in queue_add a (set_item a (\<lambda>item. item\<lparr>si_resendTime := sendTime + timeout\<rparr>) s))
       (scaledRtt now (ss_rttWindow s))"

definition resend_write :: "nat \<Rightarrow> resend_env \<Rightarrow> int \<Rightarrow> SendSequence \<Rightarrow> SendSequence option" where
  "resend_write a env itemAckTimeout s =
     (let s = apply_policy (re_policy env) s
      in Option.bind
           (if a < length (sq_items (ss_flight s)) \<and> it_unreliableFlightTracked (sq_items (ss_flight s) ! a)
            then map_option (\<lambda>(_, fl). s\<lparr>ss_flight := fl\<rparr>) (observeUnreliableResendTimeout a (re_policy env) (ss_flight s))
            else Some s)
           (\<lambda>s.
            let n = si_frameByteCount (ss_items s a);
                s = (if re_writeError env then emit RefundRetry s else s);
                d = re_write env;
                s = (if dp_transportType d \<noteq> '''' \<or> dp_unreliable d \<or> dp_reliable d
                     then emit (YieldSend n) (observeCarrierWrite a d (re_clock env 1) s) else s);
                s = emit (Resend n (si_sendCount (ss_items s a) + 1)) s;
                s = set_item a (\<lambda>item. item\<lparr>si_sendCount := si_sendCount item + 1\<rparr>) s;
                maxResendCount = sb_MaxResendCount (ss_settings s);
                sendCount = si_sendCount (ss_items s a)
            in if 0 < maxResendCount \<and> maxResendCount \<le> sendCount
               then Some (queue_add a (set_item a (\<lambda>item. item\<lparr>si_resendTime := re_sendTime env + sb_AckTimeout (ss_settings s)\<rparr>) s))
               else reschedule a (re_sendTime env) itemAckTimeout (re_clock env 2) sendCount s))"

definition past_backstop :: "nat \<Rightarrow> int \<Rightarrow> SendSequence \<Rightarrow> bool" where
  "past_backstop a sendTime s \<longleftrightarrow> si_retainAfterAckTimeout (ss_items s a)
     \<and> (case si_backstopDeadline (ss_items s a) of None \<Rightarrow> True | Some d \<Rightarrow> \<not> sendTime < d)"

text \<open>One iteration of the resend loop on the first item of the queue. The indexing of an empty slice is a panic.\<close>

definition resend_due :: "nat \<Rightarrow> resend_env \<Rightarrow> int \<Rightarrow> SendSequence \<Rightarrow> (resend_outcome \<times> SendSequence) option" where
  "resend_due a env itemAckTimeout s =
     (case ss_sendItems s of
        Some first # _ \<Rightarrow>
          let isHead = (sequenceNumber s first = sequenceNumber s a);
              promotingHead = (isHead \<and> \<not> si_head (ss_items s a))
          in if promotingHead
             then
               (case setHead a env s of
                  None \<Rightarrow> None
                | Some None \<Rightarrow> map_option (\<lambda>s. (ExitHeadError, s)) (dropItem a s)
                | Some (Some n) \<Rightarrow>
                    Option.bind (queue_remove (messageId s a) s) (\<lambda>(_, s).
                      let s = set_frame a n (set_item a (\<lambda>item. item\<lparr>si_head := True\<rparr>) (emit (FrameReturned a) s))
                      in map_option (\<lambda>s. (Again, s)) (resend_write a env itemAckTimeout s)))
             else
               Option.bind (queue_remove (messageId s a) s) (\<lambda>(_, s).
                 if \<not> resendIsFree (si_sendCount (ss_items s a)) isHead \<and> \<not> re_allowed env
                 then
                   map_option (\<lambda>s. (Again, s))
                     (reschedule a (re_sendTime env) itemAckTimeout (re_clock env 0) (si_sendCount (ss_items s a) + 1)
                       (emit (ResendDeferred (si_frameByteCount (ss_items s a))) s))
                 else map_option (\<lambda>s. (Again, s)) (resend_write a env itemAckTimeout s))
      | _ \<Rightarrow> None)"

definition resend_next :: "resend_env \<Rightarrow> SendSequence \<Rightarrow> (resend_outcome \<times> SendSequence) option" where
  "resend_next env s =
     (case PeekFirst (ss_resendQueue s) of
        None \<Rightarrow> Some (Wait, s)
      | Some a \<Rightarrow>
          let sendTime = re_sendTime env
          in if past_backstop a sendTime s then map_option (\<lambda>s. (Again, s)) (dropItem a s)
             else
               let item = ss_items s a;
                   itemAckTimeout = time_Sub (si_sendTime item + sb_AckTimeout (ss_settings s)) sendTime
               in if itemAckTimeout \<le> 0 \<and> \<not> si_retainAfterAckTimeout item then Some (ExitAckTimeout, s)
                  else if sendTime < si_resendTime item then Some (Wait, s)
                  else resend_due a env itemAckTimeout s)"

section \<open>Dropping\<close>

text \<open>The scan over all retained items, from a snapshot of the queue.\<close>

fun drop_expired :: "int \<Rightarrow> nat list \<Rightarrow> SendSequence \<Rightarrow> SendSequence option" where
  "drop_expired sendTime [] s = Some s"
| "drop_expired sendTime (a # items) s =
     Option.bind (if past_backstop a sendTime s then dropItem a s else Some s) (drop_expired sendTime items)"

definition backstop_scan :: "int \<Rightarrow> SendSequence \<Rightarrow> SendSequence option" where
  "backstop_scan sendTime s = drop_expired sendTime (Snapshot (ss_resendQueue s)) s"

text \<open>The end of a sequence: everything that is queued fails, then the contracts are closed.\<close>

definition teardown_item :: "nat \<Rightarrow> SendSequence \<Rightarrow> SendSequence" where
  "teardown_item a s =
     (let s = (if si_retainAfterAckTimeout (ss_items s a) then releaseRetained a s else s);
          s = (case item_contract a s of
                 None \<Rightarrow> s
               | Some k \<Rightarrow> upd_contract k (contract_unack (si_messageByteCount (ss_items s a)) (ss_contracts s k)) s)
      in emit (ItemReturned a) (safeAck a False s))"

text \<open>\<open>order\<close> is the order in which the map of open contracts is visited.\<close>

definition teardown :: "contract_id list \<Rightarrow> SendSequence \<Rightarrow> SendSequence" where
  "teardown order s =
     (let (items, q) = Clear (ss_resendQueue s);
          s = fold teardown_item items (s\<lparr>ss_resendQueue := q\<rparr>);
          s = s\<lparr>ss_retainedByteCount := 0\<rparr>
      in fold (\<lambda>c s. case ss_openSendContracts s c of
                 None \<Rightarrow> s
               | Some k \<Rightarrow> emit (CloseContract (sc_contractId (ss_contracts s k)) (sc_ackedByteCount (ss_contracts s k))
                                  (sc_unackedByteCount (ss_contracts s k))) s)
           order s)"

definition NewSendSequence :: "sendSettings \<Rightarrow> flightSettings \<Rightarrow> RttWindow \<Rightarrow> mem \<Rightarrow> nat option \<Rightarrow> int \<Rightarrow> bool \<Rightarrow> SendSequence" where
  "NewSendSequence settings flight window m budget minByteCount retainedByteAccounting =
     (let item = \<lparr>si_messageByteCount = 0, si_contractId = None, si_head = False, si_hasContractFrame = False, si_sendTime = 0,
                  si_resendTime = 0, si_sendCount = 0, si_frameByteCount = 0, si_ackCallback = None,
                  si_retainAfterAckTimeout = False, si_retainedCharge = 0, si_retainedReleased = False,
                  si_backstopDeadline = None, si_carrierChanged = False, si_carrierRoute = None,
                  si_unreliableCarrierObserved = False, si_reliableCarrierObserved = False, si_reliableRoute = None,
                  si_hybridReliableCarrierObserved = False, si_ackTimeout = 0, si_selectiveAcked = False\<rparr>;
          base = \<lparr>ti_messageId = [], ti_messageByteCount = 0, ti_queueByteCount = 0, ti_sequenceNumber = 0, ti_heapIndex = 0, ti_maxHeapIndex = 0\<rparr>;
          q = newResendQueue (\<lambda>_. 0) (\<lambda>_. base) m budget minByteCount;
          composed = (case budget of None \<Rightarrow> False | Some b \<Rightarrow> bg_parent (budgets m b) \<noteq> None)
      in \<lparr>ss_settings = settings, ss_resendQueue = (if retainedByteAccounting \<or> composed then setLifetimeBudget q else q),
          ss_flight = new_sequence (Some flight), ss_rttWindow = window, ss_items = (\<lambda>_. item), ss_sendItems = [],
          ss_nextSequenceNumber = 0, ss_sendContract = None, ss_sendContractAcked = False, ss_openSendContracts = Map.empty,
          ss_contracts = (\<lambda>_. newSequenceContract ([], 0, None) 0), ss_contractCount = 0, ss_contractSeqIndex = 0,
          ss_retainedByteCount = 0, ss_retainedSilenceStart = None,
          ss_laneAcks = replicate laneAckSlotCount \<lparr>la_route = None, la_highestSentSequenceNumber = 0, la_set = False\<rparr>,
          ss_events = []\<rparr>)"

end
