(* ===== verification/Send_Books.thy ===== *)
theory Send_Books
  imports Send_Sequence
begin

text \<open>
  What holds of a send sequence in any run: the queue and the list of sent items agree, contracts cover what is
  unacknowledged, the retained budget is exact, nothing stays in flight that has left the queue,
  and every item is settled once.

  The invariant is split into parts, one per component. Each part has its own set of items, so that an
  operation that is halfway through an item can be described by the sets it has already updated.
\<close>

section \<open>The parts of the invariant\<close>

definition item_bound :: int where "item_bound = 2 ^ 31"

definition allocated :: "SendSequence \<Rightarrow> nat" where
  "allocated s = length (sq_items (ss_flight s))"

definition queued :: "SendSequence \<Rightarrow> nat set" where
  "queued s = set (tq_orderedItems (ss_resendQueue s))"

definition synced :: "SendSequence \<Rightarrow> bool" where
  "synced s \<longleftrightarrow> tq_cmp (ss_resendQueue s) = resend_cmp (\<lambda>a. si_resendTime (ss_items s a))"

definition queue_part :: "SendSequence \<Rightarrow> nat set \<Rightarrow> bool" where
  "queue_part s Q \<longleftrightarrow> queue_wf (ss_resendQueue s) \<and> synced s \<and> queued s = Q"

text \<open>The list of sent items, in the order of their sequence numbers.\<close>

definition list_part :: "SendSequence \<Rightarrow> nat set \<Rightarrow> bool" where
  "list_part s Q \<longleftrightarrow> (\<exists>as. ss_sendItems s = map Some as \<and> set as = Q \<and> sorted_wrt (\<lambda>a b. sequenceNumber s a < sequenceNumber s b) as)
     \<and> (\<forall>a \<in> Q. sequenceNumber s a < ss_nextSequenceNumber s \<and> a < allocated s) \<and> unat (ss_nextSequenceNumber s) \<le> allocated s"

definition flight_safe :: "flightSequence \<Rightarrow> bool" where
  "flight_safe fl \<longleftrightarrow> (\<exists>c. sq_flightController fl = Some c \<and> limits_ok c)
     \<and> (\<forall>item \<in> set (sq_items fl). 0 < it_byteCount item \<and> it_byteCount item \<le> flight_bound)"

definition flight_part :: "SendSequence \<Rightarrow> nat set \<Rightarrow> bool" where
  "flight_part s F \<longleftrightarrow> flight_safe (ss_flight s)
     \<and> (\<forall>a < allocated s. it_unreliableFlightTracked (sq_items (ss_flight s) ! a) \<longrightarrow> a \<in> F)"

definition effective :: "SendSequence \<Rightarrow> nat \<Rightarrow> int" where
  "effective s a = max (sb_MinMessageByteCount (ss_settings s)) (si_messageByteCount (ss_items s a))"

definition debt :: "SendSequence \<Rightarrow> nat set \<Rightarrow> contract_id \<Rightarrow> int" where
  "debt s C c = (\<Sum>a\<in>C. if si_contractId (ss_items s a) = Some c then effective s a else 0)"

definition contract_ok :: "SendSequence \<Rightarrow> contract_id \<Rightarrow> nat \<Rightarrow> bool" where
  "contract_ok s c k \<longleftrightarrow>
     (let d = ss_contracts s k
      in sc_contractId d = c \<and> k < ss_contractCount s \<and> sc_minUpdateByteCount d = sb_MinMessageByteCount (ss_settings s)
         \<and> 0 \<le> sc_ackedByteCount d \<and> 0 \<le> sc_unackedByteCount d
         \<and> sc_ackedByteCount d + sc_unackedByteCount d \<le> sc_effectiveTransferByteCount d \<and> sc_effectiveTransferByteCount d \<le> 2 ^ 62)"

text \<open>The unacknowledged bytes of a contract cover its items in \<open>C\<close> and the debits \<open>P\<close> no item has been made for yet.\<close>

definition contract_part :: "SendSequence \<Rightarrow> nat set \<Rightarrow> (contract_id \<Rightarrow> int) \<Rightarrow> bool" where
  "contract_part s C P \<longleftrightarrow> finite C
     \<and> (\<forall>c k. ss_openSendContracts s c = Some k \<longrightarrow> contract_ok s c k \<and> debt s C c + P c \<le> sc_unackedByteCount (ss_contracts s k))
     \<and> (\<forall>a \<in> C. (\<forall>c. si_contractId (ss_items s a) = Some c \<longrightarrow> c \<in> dom (ss_openSendContracts s))
          \<and> 0 \<le> si_messageByteCount (ss_items s a) \<and> si_messageByteCount (ss_items s a) \<le> item_bound)
     \<and> (\<forall>k. ss_sendContract s = Some k \<longrightarrow> ss_openSendContracts s (sc_contractId (ss_contracts s k)) = Some k)
     \<and> 1 \<le> sb_MinMessageByteCount (ss_settings s) \<and> sb_MinMessageByteCount (ss_settings s) \<le> item_bound
     \<and> (\<forall>c. 0 \<le> P c)"

definition retained_share :: "SendSequence \<Rightarrow> nat \<Rightarrow> int" where
  "retained_share s a =
     (if si_retainAfterAckTimeout (ss_items s a) \<and> \<not> si_retainedReleased (ss_items s a) then si_retainedCharge (ss_items s a) else 0)"

definition retained_part :: "SendSequence \<Rightarrow> nat set \<Rightarrow> bool" where
  "retained_part s R \<longleftrightarrow> finite R \<and> ss_retainedByteCount s = (\<Sum>a\<in>R. retained_share s a)
     \<and> (\<forall>a \<in> R. si_retainAfterAckTimeout (ss_items s a) \<longrightarrow> \<not> si_retainedReleased (ss_items s a) \<and> 0 < si_retainedCharge (ss_items s a))
     \<and> ss_retainedByteCount s \<le> retainCapByteCount s \<and> 0 \<le> retainCapByteCount s \<and> retainCapByteCount s \<le> 2 ^ 62"

text \<open>An item is returned once, when it is settled, and its callback runs once.\<close>

definition callbacks :: "event list \<Rightarrow> nat \<Rightarrow> event list" where
  "callbacks es a = filter (\<lambda>e. e = Callback a True \<or> e = Callback a False) es"

definition settle_part :: "SendSequence \<Rightarrow> nat set \<Rightarrow> bool" where
  "settle_part s S \<longleftrightarrow> (\<forall>a. count_list (ss_events s) (ItemReturned a) = (if a < allocated s \<and> a \<notin> S then 1 else 0)
     \<and> length (callbacks (ss_events s) a) = (if a < allocated s \<and> a \<notin> S \<and> si_ackCallback (ss_items s a) = Some UserCallback then 1 else 0))
     \<and> (\<forall>a \<in> S. a < allocated s)"

definition no_debits :: "contract_id \<Rightarrow> int" where "no_debits = (\<lambda>_. 0)"

definition seq_ok :: "SendSequence \<Rightarrow> nat set \<Rightarrow> bool" where
  "seq_ok s H \<longleftrightarrow> queue_part s H \<and> list_part s H \<and> flight_part s H \<and> contract_part s H no_debits \<and> retained_part s H
     \<and> settle_part s H \<and> window_ok (ss_rttWindow s)"

section \<open>What the parts depend on\<close>

definition core :: "sendItem \<Rightarrow> (int \<times> contract_id option) \<times> (int \<times> ackFunction option) \<times> bool \<times> int \<times> bool" where
  "core i = ((si_messageByteCount i, si_contractId i), (si_resendTime i, si_ackCallback i),
     si_retainAfterAckTimeout i, si_retainedCharge i, si_retainedReleased i)"

lemma core_eq:
  assumes "core i = core j"
  shows "si_messageByteCount i = si_messageByteCount j" "si_contractId i = si_contractId j" "si_resendTime i = si_resendTime j"
    "si_ackCallback i = si_ackCallback j" "si_retainAfterAckTimeout i = si_retainAfterAckTimeout j"
    "si_retainedCharge i = si_retainedCharge j" "si_retainedReleased i = si_retainedReleased j"
  using assms by (simp_all add: core_def)

lemma contract_part_cong:
  assumes "ss_settings s' = ss_settings s" "ss_openSendContracts s' = ss_openSendContracts s" "ss_contracts s' = ss_contracts s"
    "ss_contractCount s' = ss_contractCount s" "ss_sendContract s' = ss_sendContract s"
    "\<And>a. a \<in> C \<Longrightarrow> si_contractId (ss_items s' a) = si_contractId (ss_items s a) \<and> si_messageByteCount (ss_items s' a) = si_messageByteCount (ss_items s a)"
    "contract_part s C P"
  shows "contract_part s' C P"
proof -
  have "debt s' C c = debt s C c" for c using assms(1,6) by (auto simp: debt_def effective_def intro!: sum.cong)
  moreover have "contract_ok s' c k = contract_ok s c k" for c k using assms(1-5) by (simp add: contract_ok_def)
  ultimately show ?thesis using assms unfolding contract_part_def by auto
qed

lemma retained_part_cong:
  assumes "ss_settings s' = ss_settings s" "ss_retainedByteCount s' = ss_retainedByteCount s"
    "\<And>a. a \<in> R \<Longrightarrow> si_retainAfterAckTimeout (ss_items s' a) = si_retainAfterAckTimeout (ss_items s a)
       \<and> si_retainedCharge (ss_items s' a) = si_retainedCharge (ss_items s a) \<and> si_retainedReleased (ss_items s' a) = si_retainedReleased (ss_items s a)"
    "retained_part s R"
  shows "retained_part s' R"
proof -
  have "(\<Sum>a\<in>R. retained_share s' a) = (\<Sum>a\<in>R. retained_share s a)" using assms(3) by (auto simp: retained_share_def intro!: sum.cong)
  moreover have "retainCapByteCount s' = retainCapByteCount s" using assms(1) by (simp add: retainCapByteCount_def)
  ultimately show ?thesis using assms unfolding retained_part_def by auto
qed

lemma settle_part_cong:
  assumes "ss_events s' = ss_events s" "allocated s' = allocated s"
    "\<And>a. a < allocated s \<Longrightarrow> si_ackCallback (ss_items s' a) = si_ackCallback (ss_items s a)" "settle_part s S"
  shows "settle_part s' S"
  using assms unfolding settle_part_def by auto

lemma list_part_cong:
  assumes "ss_sendItems s' = ss_sendItems s" "\<And>a. sequenceNumber s' a = sequenceNumber s a"
    "ss_nextSequenceNumber s' = ss_nextSequenceNumber s" "allocated s' = allocated s" "list_part s Q"
  shows "list_part s' Q"
  using assms unfolding list_part_def by simp

lemma flight_part_cong: "ss_flight s' = ss_flight s \<Longrightarrow> flight_part s F \<Longrightarrow> flight_part s' F"
  by (simp add: flight_part_def allocated_def)

lemma flight_part_mono: "flight_part s F \<Longrightarrow> F \<subseteq> G \<Longrightarrow> flight_part s G"
  by (auto simp: flight_part_def)

text \<open>A step that leaves the books alone: it writes carrier observations, lanes and the silence clock only.\<close>

definition quiet :: "SendSequence \<Rightarrow> SendSequence \<Rightarrow> bool" where
  "quiet s s' \<longleftrightarrow> ss_settings s' = ss_settings s \<and> ss_resendQueue s' = ss_resendQueue s \<and> ss_flight s' = ss_flight s
     \<and> ss_rttWindow s' = ss_rttWindow s \<and> ss_sendItems s' = ss_sendItems s \<and> ss_nextSequenceNumber s' = ss_nextSequenceNumber s
     \<and> ss_sendContract s' = ss_sendContract s \<and> ss_openSendContracts s' = ss_openSendContracts s \<and> ss_contracts s' = ss_contracts s
     \<and> ss_contractCount s' = ss_contractCount s \<and> ss_retainedByteCount s' = ss_retainedByteCount s \<and> ss_events s' = ss_events s
     \<and> (\<forall>a. core (ss_items s' a) = core (ss_items s a))"

lemma quiet_refl [simp]: "quiet s s"
  by (simp add: quiet_def)

lemma quiet_trans: "quiet s t \<Longrightarrow> quiet t u \<Longrightarrow> quiet s u"
  by (simp add: quiet_def)

lemma quiet_fields:
  assumes "quiet s s'"
  shows "ss_settings s' = ss_settings s" "ss_resendQueue s' = ss_resendQueue s" "ss_flight s' = ss_flight s"
    "ss_rttWindow s' = ss_rttWindow s" "ss_sendItems s' = ss_sendItems s" "ss_nextSequenceNumber s' = ss_nextSequenceNumber s"
    "ss_sendContract s' = ss_sendContract s" "ss_openSendContracts s' = ss_openSendContracts s" "ss_contracts s' = ss_contracts s"
    "ss_contractCount s' = ss_contractCount s" "ss_retainedByteCount s' = ss_retainedByteCount s" "ss_events s' = ss_events s"
    "core (ss_items s' a) = core (ss_items s a)"
  using assms by (simp_all add: quiet_def)

lemma quiet_parts:
  assumes "quiet s s'"
  shows "queue_part s Q \<Longrightarrow> queue_part s' Q" "list_part s Q \<Longrightarrow> list_part s' Q" "flight_part s F \<Longrightarrow> flight_part s' F"
    "contract_part s C P \<Longrightarrow> contract_part s' C P" "retained_part s R \<Longrightarrow> retained_part s' R" "settle_part s S \<Longrightarrow> settle_part s' S"
    "allocated s' = allocated s" "sequenceNumber s' a = sequenceNumber s a" "messageId s' a = messageId s a" "synced s' = synced s"
proof -
  note f = quiet_fields [OF assms] and c = core_eq [OF quiet_fields(13) [OF assms]]
  show al: "allocated s' = allocated s" and sn: "\<And>a. sequenceNumber s' a = sequenceNumber s a" "messageId s' a = messageId s a"
    and sy: "synced s' = synced s"
    using f(2,3) c(3) by (simp_all add: allocated_def sequenceNumber_def messageId_def synced_def)
  show "queue_part s Q \<Longrightarrow> queue_part s' Q" using f(2) sy by (simp add: queue_part_def queued_def)
  show "list_part s Q \<Longrightarrow> list_part s' Q" by (rule list_part_cong [OF f(5) sn(1) f(6) al])
  show "flight_part s F \<Longrightarrow> flight_part s' F" by (rule flight_part_cong [OF f(3)])
  show "contract_part s C P \<Longrightarrow> contract_part s' C P" by (rule contract_part_cong [OF f(1,8,9,10,7)]) (simp_all add: c)
  show "retained_part s R \<Longrightarrow> retained_part s' R" by (rule retained_part_cong [OF f(1,11)]) (simp_all add: c)
  show "settle_part s S \<Longrightarrow> settle_part s' S" by (rule settle_part_cong [OF f(12) al]) (simp_all add: c)
qed

lemma set_item_fields [simp]:
  "ss_settings (set_item a f s) = ss_settings s" "ss_flight (set_item a f s) = ss_flight s" "ss_rttWindow (set_item a f s) = ss_rttWindow s"
  "ss_sendItems (set_item a f s) = ss_sendItems s" "ss_nextSequenceNumber (set_item a f s) = ss_nextSequenceNumber s"
  "ss_sendContract (set_item a f s) = ss_sendContract s" "ss_sendContractAcked (set_item a f s) = ss_sendContractAcked s"
  "ss_openSendContracts (set_item a f s) = ss_openSendContracts s" "ss_contracts (set_item a f s) = ss_contracts s"
  "ss_contractCount (set_item a f s) = ss_contractCount s" "ss_retainedByteCount (set_item a f s) = ss_retainedByteCount s"
  "ss_retainedSilenceStart (set_item a f s) = ss_retainedSilenceStart s" "ss_laneAcks (set_item a f s) = ss_laneAcks s"
  "ss_events (set_item a f s) = ss_events s" "ss_items (set_item a f s) = (ss_items s)(a := f (ss_items s a))"
  "ss_resendQueue (set_item a f s) = (ss_resendQueue s)\<lparr>tq_cmp := resend_cmp (\<lambda>b. si_resendTime (((ss_items s)(a := f (ss_items s a))) b))\<rparr>"
  "allocated (set_item a f s) = allocated s" "sequenceNumber (set_item a f s) b = sequenceNumber s b" "messageId (set_item a f s) b = messageId s b"
  by (simp_all add: set_item_def Let_def allocated_def sequenceNumber_def messageId_def)

lemma quiet_set_item:
  assumes "synced s" "core (f (ss_items s a)) = core (ss_items s a)"
  shows "quiet s (set_item a f s)"
proof -
  have "si_resendTime (((ss_items s)(a := f (ss_items s a))) b) = si_resendTime (ss_items s b)" for b
    using core_eq(3) [OF assms(2)] by simp
  then have "ss_resendQueue (set_item a f s) = (ss_resendQueue s)\<lparr>tq_cmp := tq_cmp (ss_resendQueue s)\<rparr>"
    using assms(1) by (simp add: synced_def)
  moreover have "q\<lparr>tq_cmp := tq_cmp q\<rparr> = q" for q :: qstate by (cases q) simp
  ultimately show ?thesis using assms(2) by (simp add: quiet_def)
qed

lemma quiet_silence [simp]: "quiet s (s\<lparr>ss_retainedSilenceStart := t\<rparr>)"
  by (simp add: quiet_def)

lemma quiet_lanes [simp]: "quiet s (s\<lparr>ss_laneAcks := l\<rparr>)"
  by (simp add: quiet_def)

lemma quiet_restart [simp]: "quiet s (restartRetainedSilence now s)"
  by (simp add: restartRetainedSilence_def)

lemma quiet_laneSlotFor: "laneSlotFor route s = (slot, s') \<Longrightarrow> quiet s s'"
  by (auto simp: laneSlotFor_def split: option.splits if_splits prod.splits)

lemma quiet_observeLaneSend [simp]: "quiet s (observeLaneSend a s)"
proof (cases "si_carrierRoute (ss_items s a)")
  case None
  then show ?thesis by (simp add: observeLaneSend_def)
next
  case (Some route)
  obtain slot t where l: "laneSlotFor (Some route) s = (slot, t)" by fastforce
  have "quiet t (observeLaneSend a s) \<or> observeLaneSend a s = t"
    using Some l by (auto simp: observeLaneSend_def Let_def split: option.splits)
  then show ?thesis using quiet_laneSlotFor [OF l] quiet_trans by blast
qed

definition with_track :: "bool \<Rightarrow> nat \<Rightarrow> SendSequence \<Rightarrow> SendSequence" where
  "with_track b a s = (if b then s\<lparr>ss_flight := trackUnreliableFlight a (ss_flight s)\<rparr> else s)"

text \<open>A write is quiet but for the flight, which it charges on an unreliable carrier.\<close>

lemma observeCarrierWrite_quiet:
  assumes "synced s"
  shows "\<exists>t. quiet s t \<and> observeCarrierWrite a d now s = with_track (dp_unreliable d) a t"
proof -
  define s1 where "s1 = (if ss_retainedSilenceStart s = None then s\<lparr>ss_retainedSilenceStart := Some now\<rparr> else s)"
  define s2 where "s2 = (if si_carrierRoute (ss_items s1 a) \<noteq> None \<and> si_carrierRoute (ss_items s1 a) \<noteq> dp_route d
    then set_item a (\<lambda>item. item\<lparr>si_carrierChanged := True\<rparr>) s1 else s1)"
  define s3 where "s3 = set_item a (\<lambda>item. item\<lparr>si_carrierRoute := dp_route d\<rparr>) s2"
  define s4 where "s4 = observeLaneSend a s3"
  have q1: "quiet s s1" by (simp add: s1_def)
  have y1: "synced s1" using quiet_parts(10) [OF q1] assms by simp
  have q2: "quiet s1 s2" unfolding s2_def by (auto intro!: quiet_set_item [OF y1] simp: core_def)
  have y2: "synced s2" using quiet_parts(10) [OF q2] y1 by simp
  have q3: "quiet s2 s3" unfolding s3_def by (rule quiet_set_item [OF y2]) (simp add: core_def)
  have q4: "quiet s3 s4" by (simp add: s4_def)
  have q: "quiet s s4" using quiet_trans q1 q2 q3 q4 by blast
  have y: "synced s4" using quiet_parts(10) [OF q] assms by simp
  have u: "quiet s4 (set_item a f s4)" if "\<And>i. core (f i) = core i" for f using quiet_set_item [OF y] that by blast
  let ?seen = "\<lambda>item. item\<lparr>si_reliableCarrierObserved := True, si_reliableRoute := dp_route d, si_hybridReliableCarrierObserved := dp_hybridReliable d\<rparr>"
  let ?none = "\<lambda>item. item\<lparr>si_reliableCarrierObserved := False, si_reliableRoute := None, si_hybridReliableCarrierObserved := False\<rparr>"
  define s5 where "s5 = set_item a (\<lambda>item. item\<lparr>si_reliableCarrierObserved := False, si_reliableRoute := None,
    si_hybridReliableCarrierObserved := False, si_unreliableCarrierObserved := True\<rparr>) s4"
  define s6 where "s6 = (if 0 < sb_UnreliableAckTimeout (ss_settings s5)
    then set_item a (\<lambda>item. item\<lparr>si_ackTimeout := max (si_ackTimeout item) (sb_UnreliableAckTimeout (ss_settings s5))\<rparr>) s5 else s5)"
  have q5: "quiet s4 s5" unfolding s5_def by (rule u) (simp add: core_def)
  have y5: "synced s5" using quiet_parts(10) [OF q5] y by simp
  have q6: "quiet s5 s6" unfolding s6_def by (auto intro!: quiet_set_item [OF y5] simp: core_def)
  have e: "observeCarrierWrite a d now s = (if \<not> dp_unreliable d
      then if dp_reliable d \<and> \<not> si_unreliableCarrierObserved (ss_items s4 a) then set_item a ?seen s4 else set_item a ?none s4
      else s6\<lparr>ss_flight := trackUnreliableFlight a (ss_flight s6)\<rparr>)"
    unfolding observeCarrierWrite_def Let_def s6_def s5_def s4_def s3_def s2_def s1_def by (rule refl)
  have v: "quiet s (set_item a ?seen s4)" "quiet s (set_item a ?none s4)"
    by (rule quiet_trans [OF q u], simp add: core_def)+
  show ?thesis
  proof (cases "dp_unreliable d")
    case False
    then show ?thesis using e v by (auto simp: with_track_def)
  next
    case True
    then show ?thesis using e quiet_trans [OF q quiet_trans [OF q5 q6]] by (intro exI [of _ s6]) (simp add: with_track_def)
  qed
qed

section \<open>The flight\<close>

definition in_flight :: "flightSequence \<Rightarrow> nat set" where
  "in_flight fl = {i. i < length (sq_items fl) \<and> it_unreliableFlightTracked (sq_items fl ! i)}"

lemma flight_part_iff: "flight_part s F \<longleftrightarrow> flight_safe (ss_flight s) \<and> in_flight (ss_flight s) \<subseteq> F"
  by (auto simp: flight_part_def in_flight_def allocated_def)

lemma track_safe:
  assumes "flight_safe fl"
  shows "flight_safe (trackUnreliableFlight i fl)" "length (sq_items (trackUnreliableFlight i fl)) = length (sq_items fl)"
    "in_flight (trackUnreliableFlight i fl) \<subseteq> insert i (in_flight fl)"
proof -
  obtain c where c: "sq_flightController fl = Some c" "limits_ok c"
    "\<forall>item \<in> set (sq_items fl). 0 < it_byteCount item \<and> it_byteCount item \<le> flight_bound"
    using assms by (auto simp: flight_safe_def)
  have "flight_safe (trackUnreliableFlight i fl) \<and> length (sq_items (trackUnreliableFlight i fl)) = length (sq_items fl)
    \<and> in_flight (trackUnreliableFlight i fl) \<subseteq> insert i (in_flight fl)"
  proof (cases "length (sq_items fl) \<le> i \<or> it_unreliableFlightTracked (sq_items fl ! i)")
    case True
    then show ?thesis using assms c(1) by (auto simp: trackUnreliableFlight_def)
  next
    case False
    let ?it = "sq_items fl ! i"
    have n: "0 < it_byteCount ?it" "it_byteCount ?it \<le> flight_bound" using c(3) False by auto
    obtain reserved c' where r: "sendForKey (it_byteCount ?it) (it_schedulingKey ?it) c = (reserved, c')" by fastforce
    have "limits_ok c'" using sendForKey_counts [OF n(1), of "it_schedulingKey ?it" c] r c(2) by auto
    then show ?thesis using c False n r
      by (auto simp: trackUnreliableFlight_def Let_def flight_safe_def in_flight_def nth_list_update dest!: in_set_update split: if_splits)
  qed
  then show "flight_safe (trackUnreliableFlight i fl)" "length (sq_items (trackUnreliableFlight i fl)) = length (sq_items fl)"
    "in_flight (trackUnreliableFlight i fl) \<subseteq> insert i (in_flight fl)" by auto
qed

lemma release_safe:
  assumes "flight_safe fl"
  obtains fl' where "releaseUnreliableFlight i fl = Some fl'" "flight_safe fl'" "length (sq_items fl') = length (sq_items fl)"
    "in_flight fl' = in_flight fl - {i}"
proof -
  obtain c where c: "sq_flightController fl = Some c" "limits_ok c"
    "\<forall>item \<in> set (sq_items fl). 0 < it_byteCount item \<and> it_byteCount item \<le> flight_bound"
    using assms by (auto simp: flight_safe_def)
  show thesis
  proof (cases "length (sq_items fl) \<le> i \<or> \<not> it_unreliableFlightTracked (sq_items fl ! i)")
    case True
    then show ?thesis using assms c(1) by (intro that [of fl]) (auto simp: releaseUnreliableFlight_def in_flight_def)
  next
    case False
    let ?it = "sq_items fl ! i"
    have n: "0 < it_byteCount ?it" "it_byteCount ?it \<le> flight_bound" using c(3) False by auto
    obtain c' where a: "acknowledgeForKey (it_byteCount ?it) (it_schedulingKey ?it) (it_unreliableFlowReserve ?it) c = Some c'" "limits_ok c'"
      using acknowledge_ok [OF c(2) n, of "it_schedulingKey ?it" "it_unreliableFlowReserve ?it"] by blast
    let ?fl = "fl\<lparr>sq_flightController := Some c',
      sq_items := (sq_items fl)[i := ?it\<lparr>it_unreliableFlightTracked := False, it_unreliableFlowReserve := False\<rparr>]\<rparr>"
    have "releaseUnreliableFlight i fl = Some ?fl" using c(1) False a by (simp add: releaseUnreliableFlight_def Let_def)
    moreover have "flight_safe ?fl" using a(2) c(3) n by (auto simp: flight_safe_def dest!: in_set_update)
    moreover have "in_flight ?fl = in_flight fl - {i}" using False by (auto simp: in_flight_def nth_list_update split: if_splits)
    ultimately show ?thesis by (intro that [of ?fl]) simp_all
  qed
qed

lemma forget_safe:
  assumes "flight_safe fl"
  shows "flight_safe (forgetUnreliableFlight i fl) \<and> length (sq_items (forgetUnreliableFlight i fl)) = length (sq_items fl)
    \<and> in_flight (forgetUnreliableFlight i fl) \<subseteq> in_flight fl"
proof -
  obtain c where c: "sq_flightController fl = Some c" "limits_ok c"
    "\<forall>item \<in> set (sq_items fl). 0 < it_byteCount item \<and> it_byteCount item \<le> flight_bound"
    using assms by (auto simp: flight_safe_def)
  show ?thesis
  proof (cases "length (sq_items fl) \<le> i \<or> \<not> it_unreliableFlightTracked (sq_items fl ! i)")
    case True
    then show ?thesis using assms c(1) by (simp add: forgetUnreliableFlight_def)
  next
    case False
    let ?it = "sq_items fl ! i"
    have n: "0 < it_byteCount ?it" "it_byteCount ?it \<le> flight_bound" using c(3) False by auto
    have "limits_ok (forget (it_byteCount ?it) (it_schedulingKey ?it) (it_unreliableFlowReserve ?it) c)"
      using c(2) by (simp add: forget_counts)
    then show ?thesis using c False n
      by (auto simp: forgetUnreliableFlight_def Let_def flight_safe_def in_flight_def nth_list_update dest!: in_set_update split: if_splits)
  qed
qed

lemma controller_safe:
  assumes "flight_safe fl" "sq_flightController fl = Some c" "limits_ok c'"
  shows "flight_safe (fl\<lparr>sq_flightController := Some c'\<rparr>)" "in_flight (fl\<lparr>sq_flightController := Some c'\<rparr>) = in_flight fl"
  using assms by (simp_all add: flight_safe_def in_flight_def)

lemma timeout_safe:
  assumes "flight_safe fl"
  obtains b fl' where "observeUnreliableResendTimeout i policy fl = Some (b, fl')" "flight_safe fl'"
    "length (sq_items fl') = length (sq_items fl)" "in_flight fl' \<subseteq> in_flight fl"
proof -
  obtain c where c: "sq_flightController fl = Some c" "limits_ok c" using assms by (auto simp: flight_safe_def)
  note k = controller_safe [OF assms c(1) reduceForLoss_ok(1) [OF c(2)]]
  note f = forget_safe [OF k(1), of i]
  show thesis
  proof (cases "po_reliableRouteAvailable policy")
    case True
    then show ?thesis using f k(2) c(1)
      by (intro that [of True "forgetUnreliableFlight i (fl\<lparr>sq_flightController := Some (snd (reduceForLoss c))\<rparr>)"])
        (simp_all add: observeUnreliableResendTimeout_def Let_def)
  next
    case False
    then show ?thesis using k c(1)
      by (intro that [of False "fl\<lparr>sq_flightController := Some (snd (reduceForLoss c))\<rparr>"]) (simp_all add: observeUnreliableResendTimeout_def Let_def)
  qed
qed

text \<open>A change of the flight alone.\<close>

lemma flight_change:
  assumes "length (sq_items fl) = length (sq_items (ss_flight s))"
  shows "queue_part s Q \<Longrightarrow> queue_part (s\<lparr>ss_flight := fl\<rparr>) Q" "list_part s Q \<Longrightarrow> list_part (s\<lparr>ss_flight := fl\<rparr>) Q"
    "contract_part s C P \<Longrightarrow> contract_part (s\<lparr>ss_flight := fl\<rparr>) C P" "retained_part s R \<Longrightarrow> retained_part (s\<lparr>ss_flight := fl\<rparr>) R"
    "settle_part s S \<Longrightarrow> settle_part (s\<lparr>ss_flight := fl\<rparr>) S"
proof -
  show "queue_part s Q \<Longrightarrow> queue_part (s\<lparr>ss_flight := fl\<rparr>) Q" by (simp add: queue_part_def queued_def synced_def)
  show "list_part s Q \<Longrightarrow> list_part (s\<lparr>ss_flight := fl\<rparr>) Q" by (rule list_part_cong) (simp_all add: assms allocated_def sequenceNumber_def)
  show "contract_part s C P \<Longrightarrow> contract_part (s\<lparr>ss_flight := fl\<rparr>) C P" by (rule contract_part_cong) simp_all
  show "retained_part s R \<Longrightarrow> retained_part (s\<lparr>ss_flight := fl\<rparr>) R" by (rule retained_part_cong) simp_all
  show "settle_part s S \<Longrightarrow> settle_part (s\<lparr>ss_flight := fl\<rparr>) S" by (rule settle_part_cong) (simp_all add: assms allocated_def)
qed

lemma release_flight_parts:
  assumes "flight_part s F"
  obtains fl where "release_flight a s = Some (s\<lparr>ss_flight := fl\<rparr>)" "flight_part (s\<lparr>ss_flight := fl\<rparr>) (F - {a})"
    "length (sq_items fl) = length (sq_items (ss_flight s))"
proof -
  have safe: "flight_safe (ss_flight s)" and sub: "in_flight (ss_flight s) \<subseteq> F" using assms by (simp_all add: flight_part_iff)
  obtain fl where "releaseUnreliableFlight a (ss_flight s) = Some fl" "flight_safe fl" "length (sq_items fl) = length (sq_items (ss_flight s))"
    "in_flight fl = in_flight (ss_flight s) - {a}" using release_safe [OF safe] .
  then show thesis using sub by (intro that [of fl]) (auto simp: release_flight_def flight_part_iff)
qed

lemma with_track_parts:
  assumes "flight_part s F"
  shows "flight_part (with_track b a s) (insert a F)"
  using assms track_safe [of "ss_flight s" a] by (auto simp: with_track_def flight_part_iff)

lemma with_track_change:
  assumes "flight_part s F"
  shows "\<exists>fl. with_track b a s = s\<lparr>ss_flight := fl\<rparr> \<and> length (sq_items fl) = length (sq_items (ss_flight s))"
proof (cases b)
  case True
  then show ?thesis using assms track_safe(2) [of "ss_flight s" a] by (auto simp: with_track_def flight_part_iff)
next
  case False
  then show ?thesis by (intro exI [of _ "ss_flight s"]) (simp add: with_track_def)
qed

section \<open>The queue\<close>

lemma queue_change:
  assumes "same_items (ss_resendQueue s) q"
  shows "list_part s Q \<Longrightarrow> list_part (s\<lparr>ss_resendQueue := q\<rparr>) Q" "flight_part s F \<Longrightarrow> flight_part (s\<lparr>ss_resendQueue := q\<rparr>) F"
    "contract_part s C P \<Longrightarrow> contract_part (s\<lparr>ss_resendQueue := q\<rparr>) C P" "retained_part s R \<Longrightarrow> retained_part (s\<lparr>ss_resendQueue := q\<rparr>) R"
    "settle_part s S \<Longrightarrow> settle_part (s\<lparr>ss_resendQueue := q\<rparr>) S"
    "sequenceNumber (s\<lparr>ss_resendQueue := q\<rparr>) a = sequenceNumber s a" "messageId (s\<lparr>ss_resendQueue := q\<rparr>) a = messageId s a"
    "allocated (s\<lparr>ss_resendQueue := q\<rparr>) = allocated s"
proof -
  show n: "\<And>a. sequenceNumber (s\<lparr>ss_resendQueue := q\<rparr>) a = sequenceNumber s a" "messageId (s\<lparr>ss_resendQueue := q\<rparr>) a = messageId s a"
    and al: "allocated (s\<lparr>ss_resendQueue := q\<rparr>) = allocated s"
    using assms by (simp_all add: same_items_def sequenceNumber_def messageId_def allocated_def)
  show "list_part s Q \<Longrightarrow> list_part (s\<lparr>ss_resendQueue := q\<rparr>) Q" by (rule list_part_cong) (simp_all add: n al)
  show "flight_part s F \<Longrightarrow> flight_part (s\<lparr>ss_resendQueue := q\<rparr>) F" by (rule flight_part_cong) simp_all
  show "contract_part s C P \<Longrightarrow> contract_part (s\<lparr>ss_resendQueue := q\<rparr>) C P" by (rule contract_part_cong) simp_all
  show "retained_part s R \<Longrightarrow> retained_part (s\<lparr>ss_resendQueue := q\<rparr>) R" by (rule retained_part_cong) simp_all
  show "settle_part s S \<Longrightarrow> settle_part (s\<lparr>ss_resendQueue := q\<rparr>) S" by (rule settle_part_cong) (simp_all add: al)
qed

lemma queued_by_id:
  assumes "queue_part s Q"
  shows "GetByMessageId (ss_resendQueue s) i = Some a \<longleftrightarrow> a \<in> Q \<and> messageId s a = i"
  using assms in_queue(1) [of "ss_resendQueue s"] by (simp add: queue_part_def queued_def GetByMessageId_def messageId_def)

lemma queue_part_inj:
  assumes "queue_part s Q" "a \<in> Q" "b \<in> Q"
  shows "messageId s a = messageId s b \<Longrightarrow> a = b" "sequenceNumber s a = sequenceNumber s b \<Longrightarrow> a = b"
proof -
  have w: "queue_wf (ss_resendQueue s)" "a \<in> set (tq_orderedItems (ss_resendQueue s))" "b \<in> set (tq_orderedItems (ss_resendQueue s))"
    using assms by (simp_all add: queue_part_def queued_def)
  show "messageId s a = messageId s b \<Longrightarrow> a = b"
    using in_queue(1) [OF w(1), of "messageId s a" a] in_queue(1) [OF w(1), of "messageId s a" b] w(2,3) by (simp add: messageId_def)
  show "sequenceNumber s a = sequenceNumber s b \<Longrightarrow> a = b"
    using in_queue(2) [OF w(1), of "sequenceNumber s a" a] in_queue(2) [OF w(1), of "sequenceNumber s a" b] w(2,3)
    by (simp add: sequenceNumber_def)
qed

lemma queue_part_finite: "queue_part s Q \<Longrightarrow> finite Q"
  by (auto simp: queue_part_def queued_def)

lemma queue_remove_parts:
  assumes "queue_part s Q" "a \<in> Q"
  obtains q where "queue_remove (messageId s a) s = Some (Some a, s\<lparr>ss_resendQueue := q\<rparr>)" "queue_part (s\<lparr>ss_resendQueue := q\<rparr>) (Q - {a})"
    "same_items (ss_resendQueue s) q"
proof -
  have w: "queue_wf (ss_resendQueue s)" "synced s" "set (tq_orderedItems (ss_resendQueue s)) = Q" using assms by (simp_all add: queue_part_def queued_def)
  have g: "GetByMessageId (ss_resendQueue s) (messageId s a) = Some a" using queued_by_id [OF assms(1)] assms(2) by blast
  obtain q where q: "RemoveByMessageId (ss_resendQueue s) (messageId s a) = Some (Some a, q)" "removal (ss_resendQueue s) (Some a) q"
    using RemoveBy_removal(1) [OF w(1), of "messageId s a"] g by auto
  have "set (tq_orderedItems q) = Q - {a}" using removal_set [OF w(1) q(2)] w(3) by simp
  then show thesis using q w(2) by (intro that [of q]) (auto simp: queue_remove_def removal_def same_items_def queue_part_def queued_def synced_def)
qed

lemma queue_add_parts:
  assumes "queue_part s Q" "a \<notin> Q" "\<forall>b \<in> Q. messageId s b \<noteq> messageId s a \<and> sequenceNumber s b \<noteq> sequenceNumber s a"
  obtains q where "queue_add a s = s\<lparr>ss_resendQueue := q\<rparr>" "queue_part (s\<lparr>ss_resendQueue := q\<rparr>) (insert a Q)" "same_items (ss_resendQueue s) q"
proof -
  let ?q = "ss_resendQueue s"
  have w: "queue_wf ?q" "synced s" "set (tq_orderedItems ?q) = Q" using assms by (simp_all add: queue_part_def queued_def)
  have "tq_messageIdItems ?q (ti_messageId (qs_items ?q a)) = None" "tq_sequenceNumberItems ?q (ti_sequenceNumber (qs_items ?q a)) = None"
    using in_queue(1) [OF w(1), of "ti_messageId (qs_items ?q a)"] in_queue(2) [OF w(1), of "ti_sequenceNumber (qs_items ?q a)"] w(3) assms(3)
    by (cases "tq_messageIdItems ?q (ti_messageId (qs_items ?q a))", force simp: messageId_def, force simp: messageId_def,
        cases "tq_sequenceNumberItems ?q (ti_sequenceNumber (qs_items ?q a))", force simp: sequenceNumber_def, force simp: sequenceNumber_def)
  note add = Add_wf [OF w(1) _ this]
  have n: "a \<notin> set (tq_orderedItems ?q)" using w(3) assms(2) by simp
  have "set (tq_orderedItems (Add ?q a)) = insert a Q" using add(2) [OF n] w(3) by (metis set_mset_add_mset_insert set_mset_mset)
  then show thesis using add(1,3) [OF n] w(2)
    by (intro that [of "Add ?q a"]) (auto simp: queue_add_def queue_part_def queued_def synced_def same_items_def)
qed

lemma queue_wf_cmp:
  assumes "queue_wf q" "cmp_ok cmp" "\<And>a b. a \<in> set (tq_orderedItems q) \<Longrightarrow> b \<in> set (tq_orderedItems q) \<Longrightarrow> cmp a b = tq_cmp q a b"
  shows "queue_wf (q\<lparr>tq_cmp := cmp\<rparr>)"
proof -
  note W = assms(1) [unfolded queue_wf_def]
  have ms: "set (tq_maxItems q) = set (tq_orderedItems q)" using W by (metis set_mset_mset)
  have "cmp_ok (tq_cmp q)" using W by (simp add: min_ok_def min_inv_def)
  then have o: "before cmp a b = before (tq_cmp q) a b" "after cmp a b = after (tq_cmp q) a b"
    if "a \<in> set (tq_orderedItems q)" "b \<in> set (tq_orderedItems q)" for a b
    using assms(2,3) that by (simp_all add: before_def after_def)
  have p: "(k - 1) div 2 < n" if "k < n" for k n :: nat using that by linarith
  have h: "is_heap lt xs (length xs) \<Longrightarrow> is_heap lt' xs (length xs)"
    if "\<And>a b. a \<in> set xs \<Longrightarrow> b \<in> set xs \<Longrightarrow> lt' a b = lt a b" for lt lt' :: "nat \<Rightarrow> nat \<Rightarrow> bool" and xs
    using that p [of _ "length xs"] by (auto simp: is_heap_def heap_ok_def)
  have "is_heap (before cmp) (tq_orderedItems q) (length (tq_orderedItems q))"
    by (rule h [of _ _ "before (tq_cmp q)"]) (use W o in \<open>auto simp: min_ok_def\<close>)
  moreover have "is_heap (after cmp) (tq_maxItems q) (length (tq_maxItems q))"
    by (rule h [of _ _ "after (tq_cmp q)"]) (use W o ms in \<open>auto simp: max_ok_def\<close>)
  ultimately have "min_ok (q\<lparr>tq_cmp := cmp\<rparr>)" "max_ok (q\<lparr>tq_cmp := cmp\<rparr>)"
    using W assms(2) by (simp_all add: min_ok_def max_ok_def min_inv_def max_inv_def)
  moreover have "indexed (q\<lparr>tq_cmp := cmp\<rparr>) (set (tq_orderedItems q))" "counted (q\<lparr>tq_cmp := cmp\<rparr>) (mset (tq_orderedItems q))" "borrow_ok (q\<lparr>tq_cmp := cmp\<rparr>)"
    using W by (simp_all add: indexed_def counted_def borrow_ok_def cong: option.case_cong)
  ultimately show ?thesis using W by (simp add: queue_wf_def)
qed

text \<open>Any write to an item that is not queued, its resend time included.\<close>

lemma set_item_queue:
  assumes "queue_part s Q" "a \<notin> Q"
  shows "queue_part (set_item a f s) Q"
proof -
  let ?t = "\<lambda>b. si_resendTime (((ss_items s)(a := f (ss_items s a))) b)"
  have w: "queue_wf (ss_resendQueue s)" "synced s" "set (tq_orderedItems (ss_resendQueue s)) = Q" using assms by (simp_all add: queue_part_def queued_def)
  have "queue_wf ((ss_resendQueue s)\<lparr>tq_cmp := resend_cmp ?t\<rparr>)"
    by (rule queue_wf_cmp [OF w(1) resend_cmp_ok]) (use assms(2) w(2,3) in \<open>auto simp: synced_def resend_cmp_def\<close>)
  then show ?thesis using w(3) by (simp add: queue_part_def queued_def synced_def)
qed

lemma set_item_parts:
  assumes "core (f (ss_items s a)) = core ((ss_items s a)\<lparr>si_resendTime := t\<rparr>)"
  shows "list_part s Q \<Longrightarrow> list_part (set_item a f s) Q" "flight_part s F \<Longrightarrow> flight_part (set_item a f s) F"
    "contract_part s C P \<Longrightarrow> contract_part (set_item a f s) C P" "retained_part s R \<Longrightarrow> retained_part (set_item a f s) R"
    "settle_part s S \<Longrightarrow> settle_part (set_item a f s) S"
proof -
  note c = core_eq [OF assms, simplified]
  show "list_part s Q \<Longrightarrow> list_part (set_item a f s) Q" by (rule list_part_cong) simp_all
  show "flight_part s F \<Longrightarrow> flight_part (set_item a f s) F" by (rule flight_part_cong) simp_all
  show "contract_part s C P \<Longrightarrow> contract_part (set_item a f s) C P" by (rule contract_part_cong) (simp_all add: c)
  show "retained_part s R \<Longrightarrow> retained_part (set_item a f s) R" by (rule retained_part_cong) (simp_all add: c)
  show "settle_part s S \<Longrightarrow> settle_part (set_item a f s) S" by (rule settle_part_cong) (simp_all add: c)
qed

section \<open>Settling\<close>

lemma emit_fields [simp]:
  "ss_settings (emit e s) = ss_settings s" "ss_resendQueue (emit e s) = ss_resendQueue s" "ss_flight (emit e s) = ss_flight s"
  "ss_rttWindow (emit e s) = ss_rttWindow s" "ss_items (emit e s) = ss_items s" "ss_sendItems (emit e s) = ss_sendItems s"
  "ss_nextSequenceNumber (emit e s) = ss_nextSequenceNumber s" "ss_sendContract (emit e s) = ss_sendContract s"
  "ss_sendContractAcked (emit e s) = ss_sendContractAcked s"
  "ss_openSendContracts (emit e s) = ss_openSendContracts s" "ss_contracts (emit e s) = ss_contracts s"
  "ss_contractCount (emit e s) = ss_contractCount s" "ss_retainedByteCount (emit e s) = ss_retainedByteCount s"
  "ss_events (emit e s) = ss_events s @ [e]" "allocated (emit e s) = allocated s" "sequenceNumber (emit e s) a = sequenceNumber s a"
  "messageId (emit e s) a = messageId s a" "item_contract a (emit e s) = item_contract a s"
  by (simp_all add: emit_def allocated_def sequenceNumber_def messageId_def item_contract_def)

text \<open>A step that touches nothing the queue, the list, the flight and the retained bytes depend on.\<close>

definition billing :: "SendSequence \<Rightarrow> SendSequence \<Rightarrow> bool" where
  "billing s s' \<longleftrightarrow> ss_settings s' = ss_settings s \<and> ss_resendQueue s' = ss_resendQueue s \<and> ss_flight s' = ss_flight s
     \<and> ss_rttWindow s' = ss_rttWindow s \<and> ss_items s' = ss_items s \<and> ss_sendItems s' = ss_sendItems s
     \<and> ss_nextSequenceNumber s' = ss_nextSequenceNumber s \<and> ss_retainedByteCount s' = ss_retainedByteCount s
     \<and> ss_sendContract s' = ss_sendContract s"

lemma billing_refl [simp]: "billing s s"
  by (simp add: billing_def)

lemma billing_trans: "billing s t \<Longrightarrow> billing t u \<Longrightarrow> billing s u"
  by (simp add: billing_def)

lemma billing_emit [simp]: "billing s (emit e s)"
  by (simp add: billing_def)

lemma billing_fields:
  assumes "billing s s'"
  shows "ss_settings s' = ss_settings s" "ss_resendQueue s' = ss_resendQueue s" "ss_flight s' = ss_flight s" "ss_rttWindow s' = ss_rttWindow s"
    "ss_items s' = ss_items s" "ss_sendItems s' = ss_sendItems s" "ss_nextSequenceNumber s' = ss_nextSequenceNumber s"
    "ss_retainedByteCount s' = ss_retainedByteCount s" "allocated s' = allocated s" "sequenceNumber s' a = sequenceNumber s a"
    "messageId s' a = messageId s a" "ss_sendContract s' = ss_sendContract s"
  using assms by (simp_all add: billing_def allocated_def sequenceNumber_def messageId_def)

lemma billing_parts:
  assumes "billing s s'"
  shows "queue_part s Q \<Longrightarrow> queue_part s' Q" "list_part s Q \<Longrightarrow> list_part s' Q" "flight_part s F \<Longrightarrow> flight_part s' F"
    "retained_part s R \<Longrightarrow> retained_part s' R"
proof -
  note f = billing_fields [OF assms]
  show "queue_part s Q \<Longrightarrow> queue_part s' Q" by (simp add: queue_part_def queued_def synced_def f)
  show "list_part s Q \<Longrightarrow> list_part s' Q" by (rule list_part_cong) (simp_all add: f)
  show "flight_part s F \<Longrightarrow> flight_part s' F" by (rule flight_part_cong) (simp_all add: f)
  show "retained_part s R \<Longrightarrow> retained_part s' R" by (rule retained_part_cong) (simp_all add: f)
qed

fun settles :: "event \<Rightarrow> bool" where
  "settles (Callback _ _) = True"
| "settles (ItemReturned _) = True"
| "settles _ = False"

lemma emit_contract: "contract_part s C P \<Longrightarrow> contract_part (emit e s) C P"
  by (rule contract_part_cong) simp_all

lemma emit_settle: "\<not> settles e \<Longrightarrow> settle_part s S \<Longrightarrow> settle_part (emit e s) S"
  by (cases e) (simp_all add: settle_part_def callbacks_def)

lemma setContractAcked_parts:
  "billing s (setContractAcked k b s)" "contract_part s C P \<Longrightarrow> contract_part (setContractAcked k b s) C P"
  "ss_events (setContractAcked k b s) = ss_events s"
proof -
  show "billing s (setContractAcked k b s)" "ss_events (setContractAcked k b s) = ss_events s"
    by (simp_all add: setContractAcked_def billing_def)
  show "contract_part s C P \<Longrightarrow> contract_part (setContractAcked k b s) C P"
    by (rule contract_part_cong) (simp_all add: setContractAcked_def)
qed

lemma settle_item:
  fixes a b s
  defines "s' \<equiv> emit (ItemReturned a) (safeAck a b s)"
  shows "billing s s'" "contract_part s C P \<Longrightarrow> contract_part s' C P" "settle_part s S \<Longrightarrow> a \<in> S \<Longrightarrow> settle_part s' (S - {a})"
    "ss_openSendContracts s' = ss_openSendContracts s" "ss_contracts s' = ss_contracts s" "ss_sendContract s' = ss_sendContract s"
    "ss_contractCount s' = ss_contractCount s"
proof -
  have b: "billing s (safeAck a b s)"
    unfolding safeAck_def by (auto split: option.split ackFunction.split intro: setContractAcked_parts)
  then show bl: "billing s s'" using billing_trans unfolding s'_def by auto
  show "contract_part s C P \<Longrightarrow> contract_part s' C P"
    unfolding s'_def safeAck_def by (auto split: option.split ackFunction.split intro!: emit_contract setContractAcked_parts)
  show "ss_openSendContracts s' = ss_openSendContracts s" "ss_contracts s' = ss_contracts s" "ss_sendContract s' = ss_sendContract s"
    "ss_contractCount s' = ss_contractCount s"
    unfolding s'_def safeAck_def by (auto split: option.split ackFunction.split simp: setContractAcked_def)
  note f = billing_fields [OF bl]
  have e: "ss_events s' = ss_events s @ (if si_ackCallback (ss_items s a) = Some UserCallback then [Callback a b] else []) @ [ItemReturned a]"
    unfolding s'_def safeAck_def by (auto split: option.split ackFunction.split simp: setContractAcked_parts(3))
  assume p: "settle_part s S" "a \<in> S"
  have al: "a < allocated s" using p by (simp add: settle_part_def)
  have c: "count_list (ss_events s') (ItemReturned x) = count_list (ss_events s) (ItemReturned x) + (if x = a then 1 else 0)" for x
    by (simp add: e)
  have k: "length (callbacks (ss_events s') x) = length (callbacks (ss_events s) x)
    + (if x = a \<and> si_ackCallback (ss_items s a) = Some UserCallback then 1 else 0)" for x
    by (simp add: e callbacks_def)
  show "settle_part s' (S - {a})" using p al unfolding settle_part_def c k f by auto
qed

section \<open>Contracts\<close>

lemma effective_bounds:
  assumes "contract_part s C P" "a \<in> C"
  shows "1 \<le> effective s a" "effective s a \<le> item_bound"
  using assms by (auto simp: contract_part_def effective_def)

lemma debt_remove:
  assumes "contract_part s C P" "a \<in> C"
  shows "debt s (C - {a}) c = debt s C c - (if si_contractId (ss_items s a) = Some c then effective s a else 0)"
proof -
  have "finite C" using assms by (simp add: contract_part_def)
  then show ?thesis using assms(2) sum.remove [of C a "\<lambda>a. if si_contractId (ss_items s a) = Some c then effective s a else 0"] by (simp add: debt_def)
qed

lemma debt_nonneg:
  assumes "contract_part s C P" "D \<subseteq> C"
  shows "0 \<le> debt s D c" "a \<in> D \<Longrightarrow> si_contractId (ss_items s a) = Some c \<Longrightarrow> effective s a \<le> debt s D c"
proof -
  have f: "finite D" using assms finite_subset by (auto simp: contract_part_def)
  have n: "x \<in> D \<Longrightarrow> 0 \<le> (if si_contractId (ss_items s x) = Some c then effective s x else 0)" for x
    using effective_bounds(1) [OF assms(1), of x] assms(2) by auto
  show "0 \<le> debt s D c" unfolding debt_def using n by (intro sum_nonneg)
  show "a \<in> D \<Longrightarrow> si_contractId (ss_items s a) = Some c \<Longrightarrow> effective s a \<le> debt s D c"
    unfolding debt_def using member_le_sum [of a D "\<lambda>x. if si_contractId (ss_items s x) = Some c then effective s x else 0"] n f by simp
qed

lemma upd_contract_fields [simp]:
  "ss_settings (upd_contract k d s) = ss_settings s" "ss_items (upd_contract k d s) = ss_items s"
  "ss_openSendContracts (upd_contract k d s) = ss_openSendContracts s" "ss_sendContract (upd_contract k d s) = ss_sendContract s"
  "ss_contracts (upd_contract k d s) = (ss_contracts s)(k := d)" "ss_contractCount (upd_contract k d s) = ss_contractCount s"
  "ss_events (upd_contract k d s) = ss_events s" "billing s (upd_contract k d s)" "allocated (upd_contract k d s) = allocated s"
  by (simp_all add: upd_contract_def billing_def allocated_def)

lemma item_contract_eq:
  assumes "contract_part s C P" "a \<in> C"
  shows "item_contract a s = Some k \<longleftrightarrow> (\<exists>c. si_contractId (ss_items s a) = Some c \<and> ss_openSendContracts s c = Some k)"
    "item_contract a s = None \<longleftrightarrow> si_contractId (ss_items s a) = None"
proof -
  show "item_contract a s = Some k \<longleftrightarrow> (\<exists>c. si_contractId (ss_items s a) = Some c \<and> ss_openSendContracts s c = Some k)"
    by (auto simp: item_contract_def bind_eq_Some_conv)
  have "c \<in> dom (ss_openSendContracts s)" if "si_contractId (ss_items s a) = Some c" for c using assms that by (simp add: contract_part_def)
  then show "item_contract a s = None \<longleftrightarrow> si_contractId (ss_items s a) = None"
    by (cases "si_contractId (ss_items s a)") (auto simp: item_contract_def)
qed

lemma contract_none:
  assumes "contract_part s C P" "a \<in> C" "item_contract a s = None"
  shows "contract_part s (C - {a}) P"
proof -
  have "si_contractId (ss_items s a) = None" using item_contract_eq(2) [OF assms(1,2)] assms(3) by simp
  then have "debt s (C - {a}) c = debt s C c" for c using debt_remove [OF assms(1,2)] by simp
  then show ?thesis using assms(1) by (auto simp: contract_part_def)
qed

text \<open>A settled item takes its debit off the contract, and a contract without debits may be closed.\<close>

lemma contract_settled:
  assumes "contract_part s C P" "a \<in> C" "item_contract a s = Some k"
    "sc_unackedByteCount d = sc_unackedByteCount (ss_contracts s k) - effective s a" "0 \<le> sc_ackedByteCount d"
    "sc_ackedByteCount d \<le> sc_ackedByteCount (ss_contracts s k) + effective s a" "sc_contractId d = sc_contractId (ss_contracts s k)"
    "sc_minUpdateByteCount d = sc_minUpdateByteCount (ss_contracts s k)"
    "sc_effectiveTransferByteCount d = sc_effectiveTransferByteCount (ss_contracts s k)"
  shows "contract_part (upd_contract k d s) (C - {a}) P" "contract_part (close_settled k (upd_contract k d s)) (C - {a}) P"
proof -
  note p = assms(1) [unfolded contract_part_def]
  obtain c where c: "si_contractId (ss_items s a) = Some c" "ss_openSendContracts s c = Some k" using item_contract_eq(1) [OF assms(1,2)] assms(3) by blast
  have ck: "contract_ok s c k" "debt s C c + P c \<le> sc_unackedByteCount (ss_contracts s k)" using p c(2) by blast+
  have id: "sc_contractId (ss_contracts s k) = c" using ck(1) by (simp add: contract_ok_def Let_def)
  have other: "c' = c" if "ss_openSendContracts s c' = Some k" for c'
    using that p id by (auto simp: contract_ok_def Let_def)
  let ?s = "upd_contract k d s" and ?D = "C - {a}"
  have dd: "debt ?s ?D c' = debt s ?D c'" for c' unfolding debt_def effective_def by (simp cong: if_cong)
  have du: "debt s ?D c + P c \<le> sc_unackedByteCount d" using debt_remove [OF assms(1,2), of c] c(1) ck(2) assms(4) by simp
  have un: "0 \<le> sc_unackedByteCount d" using du debt_nonneg(1) [OF assms(1), of ?D c] p by (auto intro: order_trans [of 0 "debt s ?D c + P c"])
  have ok: "contract_ok ?s c k" using ck(1) assms(4-9) un by (auto simp: contract_ok_def Let_def)
  have all: "contract_ok ?s c' k' \<and> debt ?s ?D c' + P c' \<le> sc_unackedByteCount (ss_contracts ?s k')" if o: "ss_openSendContracts s c' = Some k'" for c' k'
  proof (cases "k' = k")
    case True
    then show ?thesis using other [of c'] o ok du dd by simp
  next
    case False
    then have "c' \<noteq> c" using o c(2) by auto
    then have "debt s ?D c' = debt s C c'" using debt_remove [OF assms(1,2), of c'] c(1) by simp
    then show ?thesis using p o False dd by (auto simp: contract_ok_def Let_def)
  qed
  show part: "contract_part ?s ?D P" using p all id assms(7) by (auto simp: contract_part_def)
  show "contract_part (close_settled k ?s) ?D P"
  proof (cases "ss_sendContract s \<noteq> Some k \<and> sc_unackedByteCount d = 0")
    case False
    then show ?thesis using part by (auto simp: close_settled_def Let_def)
  next
    case True
    let ?t = "?s\<lparr>ss_openSendContracts := (ss_openSendContracts s)(c := None)\<rparr>"
    have e: "close_settled k ?s = emit (CloseContract (sc_contractId d) (sc_ackedByteCount d) (sc_unackedByteCount d)) ?t"
      using True assms(7) id by (simp add: close_settled_def Let_def)
    have none: "si_contractId (ss_items s x) \<noteq> Some c" if x: "x \<in> ?D" for x
    proof
      assume h: "si_contractId (ss_items s x) = Some c"
      have "effective s x \<le> debt s ?D c" using debt_nonneg(2) [OF assms(1), of ?D x c] x h by blast
      moreover have "1 \<le> effective s x" "0 \<le> P c" using effective_bounds(1) [OF assms(1)] x p by auto
      ultimately show False using du True by simp
    qed
    have ot: "contract_ok ?t c' k' = contract_ok ?s c' k'" "debt ?t ?D c' = debt ?s ?D c'" for c' k' unfolding contract_ok_def debt_def effective_def by (simp_all cong: if_cong)
    have "contract_part ?t ?D P"
      unfolding contract_part_def ot
    proof (intro conjI)
      show "\<forall>x\<in>?D. (\<forall>c'. si_contractId (ss_items ?t x) = Some c' \<longrightarrow> c' \<in> dom (ss_openSendContracts ?t))
          \<and> 0 \<le> si_messageByteCount (ss_items ?t x) \<and> si_messageByteCount (ss_items ?t x) \<le> item_bound"
        using p none by auto
      show "\<forall>k'. ss_sendContract ?t = Some k' \<longrightarrow> ss_openSendContracts ?t (sc_contractId (ss_contracts ?t k')) = Some k'"
        using p True c(2) id by auto
    qed (use p all in auto)
    then show ?thesis unfolding e by (rule emit_contract)
  qed
qed

section \<open>Retained bytes\<close>

lemma retained_bounds:
  assumes "retained_part s R" "a \<in> R"
  shows "0 \<le> retained_share s a" "retained_share s a \<le> ss_retainedByteCount s" "(\<Sum>b\<in>R - {a}. retained_share s b) = ss_retainedByteCount s - retained_share s a"
proof -
  have p: "finite R" "ss_retainedByteCount s = (\<Sum>a\<in>R. retained_share s a)"
    "\<forall>a \<in> R. si_retainAfterAckTimeout (ss_items s a) \<longrightarrow> \<not> si_retainedReleased (ss_items s a) \<and> 0 < si_retainedCharge (ss_items s a)"
    using assms(1) unfolding retained_part_def by blast+
  have n: "b \<in> R \<Longrightarrow> 0 \<le> retained_share s b" for b using p(3) by (auto simp: retained_share_def)
  show "0 \<le> retained_share s a" using n assms(2) by blast
  show "retained_share s a \<le> ss_retainedByteCount s" unfolding p(2) using n assms(2) p(1) by (intro member_le_sum) auto
  show "(\<Sum>b\<in>R - {a}. retained_share s b) = ss_retainedByteCount s - retained_share s a"
    unfolding p(2) using sum.remove [OF p(1) assms(2), of "retained_share s"] by simp
qed

definition drop_retained :: "nat \<Rightarrow> SendSequence \<Rightarrow> SendSequence" where
  "drop_retained a s = (if si_retainAfterAckTimeout (ss_items s a) then releaseRetained a s else s)"

lemma drop_retained_parts:
  assumes "retained_part s R" "a \<in> R"
  shows "retained_part (drop_retained a s) (R - {a})" "queue_part s Q \<Longrightarrow> a \<notin> Q \<Longrightarrow> queue_part (drop_retained a s) Q"
    "list_part s L \<Longrightarrow> list_part (drop_retained a s) L" "flight_part s F \<Longrightarrow> flight_part (drop_retained a s) F"
    "contract_part s C P \<Longrightarrow> contract_part (drop_retained a s) C P" "settle_part s S \<Longrightarrow> settle_part (drop_retained a s) S"
    "sequenceNumber (drop_retained a s) x = sequenceNumber s x" "messageId (drop_retained a s) x = messageId s x"
    "ss_rttWindow (drop_retained a s) = ss_rttWindow s" "ss_settings (drop_retained a s) = ss_settings s" "ss_flight (drop_retained a s) = ss_flight s"
    "ss_nextSequenceNumber (drop_retained a s) = ss_nextSequenceNumber s"
proof -
  note b = retained_bounds [OF assms]
  let ?f = "\<lambda>item. item\<lparr>si_retainedReleased := True, si_retainedCharge := 0\<rparr>"
  have p: "finite R" "ss_retainedByteCount s \<le> retainCapByteCount s" "0 \<le> retainCapByteCount s" "retainCapByteCount s \<le> 2 ^ 62"
    and r: "si_retainAfterAckTimeout (ss_items s a) \<Longrightarrow> \<not> si_retainedReleased (ss_items s a) \<and> 0 < si_retainedCharge (ss_items s a)"
    using assms unfolding retained_part_def by blast+
  have i: "i64 (ss_retainedByteCount s - retained_share s a) = ss_retainedByteCount s - retained_share s a"
    using b(1,2) p(2-4) by (intro i64_id) (simp add: in64_def)
  have e: "drop_retained a s = (if si_retainAfterAckTimeout (ss_items s a)
      then (set_item a ?f s)\<lparr>ss_retainedByteCount := ss_retainedByteCount s - retained_share s a\<rparr> else s)"
  proof (cases "si_retainAfterAckTimeout (ss_items s a)")
    case True
    then have "drop_retained a s = (set_item a ?f s)\<lparr>ss_retainedByteCount := i64 (ss_retainedByteCount s - retained_share s a)\<rparr>"
      using r by (simp add: drop_retained_def releaseRetained_def Let_def retained_share_def)
    then show ?thesis using True i by simp
  qed (simp add: drop_retained_def)
  have c: "ss_settings (drop_retained a s) = ss_settings s" "ss_flight (drop_retained a s) = ss_flight s" "ss_rttWindow (drop_retained a s) = ss_rttWindow s"
    "ss_sendItems (drop_retained a s) = ss_sendItems s" "ss_nextSequenceNumber (drop_retained a s) = ss_nextSequenceNumber s"
    "ss_sendContract (drop_retained a s) = ss_sendContract s" "ss_openSendContracts (drop_retained a s) = ss_openSendContracts s"
    "ss_contracts (drop_retained a s) = ss_contracts s" "ss_contractCount (drop_retained a s) = ss_contractCount s"
    "ss_events (drop_retained a s) = ss_events s" "allocated (drop_retained a s) = allocated s"
    "\<And>x. sequenceNumber (drop_retained a s) x = sequenceNumber s x" "\<And>x. messageId (drop_retained a s) x = messageId s x"
    "\<And>x. si_contractId (ss_items (drop_retained a s) x) = si_contractId (ss_items s x)"
    "\<And>x. si_messageByteCount (ss_items (drop_retained a s) x) = si_messageByteCount (ss_items s x)"
    "\<And>x. si_ackCallback (ss_items (drop_retained a s) x) = si_ackCallback (ss_items s x)"
    "\<And>x. x \<noteq> a \<Longrightarrow> ss_items (drop_retained a s) x = ss_items s x"
    unfolding e by (simp_all add: sequenceNumber_def messageId_def allocated_def)
  show "sequenceNumber (drop_retained a s) x = sequenceNumber s x" "messageId (drop_retained a s) x = messageId s x"
    "ss_rttWindow (drop_retained a s) = ss_rttWindow s" "ss_settings (drop_retained a s) = ss_settings s" "ss_flight (drop_retained a s) = ss_flight s"
    "ss_nextSequenceNumber (drop_retained a s) = ss_nextSequenceNumber s" by (rule c)+
  show "list_part s L \<Longrightarrow> list_part (drop_retained a s) L" by (rule list_part_cong [OF c(4,12,5,11)])
  show "flight_part s F \<Longrightarrow> flight_part (drop_retained a s) F" by (rule flight_part_cong [OF c(2)])
  show "contract_part s C P \<Longrightarrow> contract_part (drop_retained a s) C P" by (rule contract_part_cong [OF c(1,7,8,9,6)]) (simp_all add: c(14,15))
  show "settle_part s S \<Longrightarrow> settle_part (drop_retained a s) S" by (rule settle_part_cong [OF c(10,11)]) (simp_all add: c(16))
  show "queue_part s Q \<Longrightarrow> a \<notin> Q \<Longrightarrow> queue_part (drop_retained a s) Q"
    using set_item_queue [of s Q a ?f] unfolding e by (simp add: queue_part_def queued_def synced_def)
  have cap: "retainCapByteCount (drop_retained a s) = retainCapByteCount s" using c(1) by (simp add: retainCapByteCount_def)
  have sum: "(\<Sum>b\<in>R - {a}. retained_share (drop_retained a s) b) = (\<Sum>b\<in>R - {a}. retained_share s b)"
    using c(17) by (intro sum.cong) (auto simp: retained_share_def)
  have count: "ss_retainedByteCount (drop_retained a s) = ss_retainedByteCount s - retained_share s a"
    unfolding e by (simp add: retained_share_def)
  show "retained_part (drop_retained a s) (R - {a})"
    using assms(1) b sum count cap c(17) unfolding retained_part_def by auto
qed

section \<open>Acknowledging and dropping an item\<close>

text \<open>A settled item leaves the flight, the contracts and the unsettled items; the rest stays.\<close>

definition settling :: "SendSequence \<Rightarrow> SendSequence \<Rightarrow> bool" where
  "settling s s' \<longleftrightarrow> (\<exists>fl. length (sq_items fl) = length (sq_items (ss_flight s)) \<and> billing (s\<lparr>ss_flight := fl\<rparr>) s')"

lemma settling_fields:
  assumes "settling s s'"
  shows "ss_settings s' = ss_settings s" "ss_resendQueue s' = ss_resendQueue s" "ss_rttWindow s' = ss_rttWindow s" "ss_items s' = ss_items s"
    "ss_sendItems s' = ss_sendItems s" "ss_nextSequenceNumber s' = ss_nextSequenceNumber s" "ss_retainedByteCount s' = ss_retainedByteCount s"
    "allocated s' = allocated s" "sequenceNumber s' a = sequenceNumber s a" "messageId s' a = messageId s a" "ss_sendContract s' = ss_sendContract s"
proof -
  obtain fl where fl: "length (sq_items fl) = length (sq_items (ss_flight s))" "billing (s\<lparr>ss_flight := fl\<rparr>) s'" using assms by (auto simp: settling_def)
  note b = billing_fields [OF fl(2)]
  show "ss_settings s' = ss_settings s" "ss_resendQueue s' = ss_resendQueue s" "ss_rttWindow s' = ss_rttWindow s" "ss_items s' = ss_items s"
    "ss_sendItems s' = ss_sendItems s" "ss_nextSequenceNumber s' = ss_nextSequenceNumber s" "ss_retainedByteCount s' = ss_retainedByteCount s"
    "allocated s' = allocated s" "sequenceNumber s' a = sequenceNumber s a" "messageId s' a = messageId s a" "ss_sendContract s' = ss_sendContract s"
    using b fl(1) by (simp_all add: allocated_def sequenceNumber_def messageId_def)
qed

lemma settling_parts:
  assumes "settling s s'"
  shows "queue_part s Q \<Longrightarrow> queue_part s' Q" "list_part s L \<Longrightarrow> list_part s' L" "retained_part s R \<Longrightarrow> retained_part s' R"
proof -
  obtain fl where fl: "length (sq_items fl) = length (sq_items (ss_flight s))" "billing (s\<lparr>ss_flight := fl\<rparr>) s'" using assms by (auto simp: settling_def)
  show "queue_part s Q \<Longrightarrow> queue_part s' Q" using flight_change(1) [OF fl(1)] billing_parts(1) [OF fl(2)] by blast
  show "list_part s L \<Longrightarrow> list_part s' L" using flight_change(2) [OF fl(1)] billing_parts(2) [OF fl(2)] by blast
  show "retained_part s R \<Longrightarrow> retained_part s' R" using flight_change(4) [OF fl(1)] billing_parts(4) [OF fl(2)] by blast
qed

definition settled :: "nat \<Rightarrow> SendSequence \<Rightarrow> nat set \<Rightarrow> nat set \<Rightarrow> (contract_id \<Rightarrow> int) \<Rightarrow> nat set \<Rightarrow> SendSequence \<Rightarrow> bool" where
  "settled a s F C P S s' \<longleftrightarrow> settling s s' \<and> flight_part s' (F - {a}) \<and> contract_part s' (C - {a}) P \<and> settle_part s' (S - {a})"

lemma billing_close: "billing s (close_settled k s)" "settle_part s S \<Longrightarrow> settle_part (close_settled k s) S"
proof -
  let ?t = "s\<lparr>ss_openSendContracts := (ss_openSendContracts s)(sc_contractId (ss_contracts s k) := None)\<rparr>"
  have "billing s ?t" by (simp add: billing_def)
  then show "billing s (close_settled k s)" using billing_trans [OF _ billing_emit] by (auto simp: close_settled_def Let_def)
  have "settle_part s S \<Longrightarrow> settle_part ?t S" by (rule settle_part_cong) (simp_all add: allocated_def)
  then show "settle_part s S \<Longrightarrow> settle_part (close_settled k s) S" by (auto simp: close_settled_def Let_def intro!: emit_settle)
qed

lemma bill_contract:
  assumes "contract_part s C P" "settle_part s S" "a \<in> C" "item_contract a s = Some k"
    "d = contract_unack (si_messageByteCount (ss_items s a)) (ss_contracts s k)
     \<or> contract_ack (si_messageByteCount (ss_items s a)) (ss_contracts s k) = Some d"
  shows "billing s (close_settled k (upd_contract k d s))" "contract_part (close_settled k (upd_contract k d s)) (C - {a}) P"
    "settle_part (close_settled k (upd_contract k d s)) S" "contract_part (upd_contract k d s) (C - {a}) P" "settle_part (upd_contract k d s) S"
proof -
  note p = assms(1) [unfolded contract_part_def]
  obtain c where c: "si_contractId (ss_items s a) = Some c" "ss_openSendContracts s c = Some k" using item_contract_eq(1) [OF assms(1,3)] assms(4) by blast
  have ck: "contract_ok s c k" "debt s C c + P c \<le> sc_unackedByteCount (ss_contracts s k)" "0 \<le> P c" using p c(2) by blast+
  have le: "effective s a \<le> sc_unackedByteCount (ss_contracts s k)" using debt_nonneg(2) [OF assms(1), of C a c] assms(3) c(1) ck(2,3) by simp
  have ef: "max (sc_minUpdateByteCount (ss_contracts s k)) (si_messageByteCount (ss_items s a)) = effective s a"
    using ck(1) by (simp add: contract_ok_def Let_def effective_def)
  have b: "0 \<le> sc_ackedByteCount (ss_contracts s k)" "0 \<le> effective s a"
    "sc_ackedByteCount (ss_contracts s k) + sc_unackedByteCount (ss_contracts s k) \<le> 2 ^ 62"
    using ck(1) effective_bounds(1) [OF assms(1,3)] by (auto simp: contract_ok_def Let_def)
  have i: "i64 (sc_unackedByteCount (ss_contracts s k) - effective s a) = sc_unackedByteCount (ss_contracts s k) - effective s a"
    "i64 (sc_ackedByteCount (ss_contracts s k) + effective s a) = sc_ackedByteCount (ss_contracts s k) + effective s a"
    using b le by (auto intro!: i64_id simp: in64_def)
  have d: "sc_unackedByteCount d = sc_unackedByteCount (ss_contracts s k) - effective s a" "0 \<le> sc_ackedByteCount d"
    "sc_ackedByteCount d \<le> sc_ackedByteCount (ss_contracts s k) + effective s a" "sc_contractId d = sc_contractId (ss_contracts s k)"
    "sc_minUpdateByteCount d = sc_minUpdateByteCount (ss_contracts s k)"
    "sc_effectiveTransferByteCount d = sc_effectiveTransferByteCount (ss_contracts s k)"
    using assms(5) le i b unfolding contract_unack_def contract_ack_def ef Let_def by (auto split: if_splits)
  show "contract_part (upd_contract k d s) (C - {a}) P" "contract_part (close_settled k (upd_contract k d s)) (C - {a}) P"
    using contract_settled [OF assms(1,3,4) d] by blast+
  show st: "settle_part (upd_contract k d s) S" using assms(2) by (rule settle_part_cong [rotated -1]) simp_all
  show "settle_part (close_settled k (upd_contract k d s)) S" by (rule billing_close(2) [OF st])
  show "billing s (close_settled k (upd_contract k d s))" using billing_trans [OF upd_contract_fields(8) billing_close(1)] .
qed

lemma contract_ack_covered:
  assumes "contract_part s C P" "a \<in> C" "item_contract a s = Some k"
  shows "\<exists>d. contract_ack (si_messageByteCount (ss_items s a)) (ss_contracts s k) = Some d"
proof -
  obtain c where c: "si_contractId (ss_items s a) = Some c" "ss_openSendContracts s c = Some k" using item_contract_eq(1) [OF assms(1,2)] assms(3) by blast
  have ck: "contract_ok s c k" "debt s C c + P c \<le> sc_unackedByteCount (ss_contracts s k)" "0 \<le> P c"
    using assms(1) c(2) unfolding contract_part_def by blast+
  have "effective s a \<le> sc_unackedByteCount (ss_contracts s k)" using debt_nonneg(2) [OF assms(1), of C a c] assms(2) c(1) ck(2,3) by simp
  moreover have "max (sc_minUpdateByteCount (ss_contracts s k)) (si_messageByteCount (ss_items s a)) = effective s a"
    using ck(1) by (simp add: contract_ok_def Let_def effective_def)
  ultimately show ?thesis by (simp add: contract_ack_def Let_def)
qed

text \<open>The callbacks that ran between two states: that of \<open>a\<close>, if it has one, with the given result.\<close>

definition reports :: "nat \<Rightarrow> bool \<Rightarrow> SendSequence \<Rightarrow> SendSequence \<Rightarrow> bool" where
  "reports a b s s' \<longleftrightarrow> (\<forall>x. callbacks (ss_events s') x =
     callbacks (ss_events s) x @ (if x = a \<and> si_ackCallback (ss_items s a) = Some UserCallback then [Callback a b] else []))"

definition silent :: "SendSequence \<Rightarrow> SendSequence \<Rightarrow> bool" where
  "silent s s' \<longleftrightarrow> (\<forall>x. callbacks (ss_events s') x = callbacks (ss_events s) x)"

lemma silent_simps [simp]: "silent s s" "ss_events s' = ss_events s \<Longrightarrow> silent s s'" "\<not> settles e \<Longrightarrow> silent s (emit e s)"
  by (auto simp: silent_def callbacks_def)

lemma silent_trans: "silent s t \<Longrightarrow> silent t u \<Longrightarrow> silent s u"
  by (simp add: silent_def)

lemma silent_reports: "silent s t \<Longrightarrow> reports a b t u \<Longrightarrow> si_ackCallback (ss_items t a) = si_ackCallback (ss_items s a) \<Longrightarrow> reports a b s u"
  by (simp add: silent_def reports_def)

lemma silent_close: "silent s (close_settled k (upd_contract k d s))"
  by (auto simp: close_settled_def Let_def silent_def callbacks_def)

lemma settle_reports: "reports a b s (emit (ItemReturned a) (safeAck a b s))"
  by (auto simp: reports_def safeAck_def callbacks_def setContractAcked_def split: option.split ackFunction.split)

lemma emit_parts:
  assumes "\<not> settles e"
  shows "flight_part s F \<Longrightarrow> flight_part (emit e s) F" "contract_part s C P \<Longrightarrow> contract_part (emit e s) C P"
    "settle_part s S \<Longrightarrow> settle_part (emit e s) S" "settling s (emit e s)"
proof -
  show "flight_part s F \<Longrightarrow> flight_part (emit e s) F" by (rule flight_part_cong) simp_all
  show "contract_part s C P \<Longrightarrow> contract_part (emit e s) C P" by (rule emit_contract)
  show "settle_part s S \<Longrightarrow> settle_part (emit e s) S" by (rule emit_settle [OF assms])
  show "settling s (emit e s)" unfolding settling_def by (intro exI [of _ "ss_flight s"]) simp
qed

lemma settling_trans:
  assumes "settling s t" "settling t u"
  shows "settling s u"
proof -
  obtain fl fm where a: "length (sq_items fl) = length (sq_items (ss_flight s))" "billing (s\<lparr>ss_flight := fl\<rparr>) t"
    "length (sq_items fm) = length (sq_items (ss_flight t))" "billing (t\<lparr>ss_flight := fm\<rparr>) u" using assms by (auto simp: settling_def)
  have "billing (s\<lparr>ss_flight := fm\<rparr>) u" using a(2,4) by (simp add: billing_def)
  moreover have "length (sq_items fm) = length (sq_items (ss_flight s))" using a(1,2,3) by (simp add: billing_def)
  ultimately show ?thesis by (auto simp: settling_def)
qed

lemma settling_billing: "billing s t \<Longrightarrow> settling s t"
  unfolding settling_def by (intro exI [of _ "ss_flight s"]) simp

lemma release_settling:
  assumes "flight_part s F" "contract_part s C P" "settle_part s S"
  obtains t where "release_flight a s = Some t" "settling s t" "flight_part t (F - {a})" "contract_part t C P" "settle_part t S" "silent s t"
    "ss_contracts t = ss_contracts s" "item_contract a t = item_contract a s"
proof -
  obtain fl where fl: "release_flight a s = Some (s\<lparr>ss_flight := fl\<rparr>)" "flight_part (s\<lparr>ss_flight := fl\<rparr>) (F - {a})"
    "length (sq_items fl) = length (sq_items (ss_flight s))" using release_flight_parts [OF assms(1)] .
  show thesis
    by (rule that [of "s\<lparr>ss_flight := fl\<rparr>"])
      (use fl flight_change(3,5) [OF fl(3)] assms in \<open>auto simp: settling_def item_contract_def\<close>)
qed

lemma settle_after:
  assumes "settling s t" "flight_part t (F - {a})" "contract_part t (C - {a}) P" "settle_part t S" "a \<in> S" "silent s t"
  shows "settled a s F C P S (emit (ItemReturned a) (safeAck a b t)) \<and> reports a b s (emit (ItemReturned a) (safeAck a b t))"
proof -
  let ?u = "emit (ItemReturned a) (safeAck a b t)"
  note i = settle_item [where a = a and b = b and s = t]
  have "settling s ?u" using settling_trans [OF assms(1) settling_billing [OF i(1)]] .
  moreover have "flight_part ?u (F - {a})" using billing_parts(3) [OF i(1) assms(2)] .
  moreover have "reports a b s ?u" using silent_reports [OF assms(6) settle_reports] settling_fields(4) [OF assms(1)] by simp
  ultimately show ?thesis using i(2) [OF assms(3)] i(3) [OF assms(4,5)] by (simp add: settled_def)
qed

lemma ackItemCounted_ok:
  assumes "flight_part s F" "contract_part s C P" "settle_part s S" "a \<in> C" "a \<in> S"
  obtains s' where "ackItemCounted a b s = Some s'" "settled a s F C P S s'" "reports a True s s'"
proof -
  define s1 where "s1 = (if b then emit (YieldAck (si_frameByteCount (ss_items s a))) (emit (AckedBytes (si_frameByteCount (ss_items s a))) s) else s)"
  have p1: "flight_part s1 F \<and> contract_part s1 C P \<and> settle_part s1 S \<and> settling s s1 \<and> silent s s1"
  proof (cases b)
    case True
    define t where "t = emit (AckedBytes (si_frameByteCount (ss_items s a))) s"
    have s1: "s1 = emit (YieldAck (si_frameByteCount (ss_items s a))) t" using True by (simp add: s1_def t_def)
    have n: "\<not> settles (AckedBytes (si_frameByteCount (ss_items s a)))" "\<not> settles (YieldAck (si_frameByteCount (ss_items s a)))" by simp_all
    note t = emit_parts [OF n(1), of s, folded t_def] and u = emit_parts [OF n(2), of t, folded s1]
    show ?thesis
      using u(1) [OF t(1) [OF assms(1)]] u(2) [OF t(2) [OF assms(2)]] u(3) [OF t(3) [OF assms(3)]] settling_trans [OF t(4) u(4)]
        silent_trans [of s t s1] silent_simps(3) [OF n(1), of s, folded t_def] silent_simps(3) [OF n(2), of t, folded s1] by blast
  next
    case False
    then show ?thesis using assms(1-3) settling_billing [OF billing_refl] by (simp add: s1_def)
  qed
  obtain s2 where s2: "release_flight a s1 = Some s2" "settling s1 s2" "flight_part s2 (F - {a})" "contract_part s2 C P" "settle_part s2 S" "silent s1 s2"
    using p1 release_settling [of s1 F C P S a] by metis
  have q: "settling s s2" "silent s s2" using p1 settling_trans [OF _ s2(2)] silent_trans [OF _ s2(6)] by blast+
  let ?n = "si_messageByteCount (ss_items s2 a)"
  show thesis
  proof (cases "item_contract a s2")
    case None
    let ?u = "emit (ItemReturned a) (safeAck a True s2)"
    have "ackItemCounted a b s = Some ?u" using s2(1) None by (simp add: ackItemCounted_def Let_def s1_def)
    then show ?thesis using settle_after [OF q(1) s2(3) contract_none [OF s2(4) assms(4) None] s2(5) assms(5) q(2), of True] that by blast
  next
    case (Some k)
    obtain d where d: "contract_ack ?n (ss_contracts s2 k) = Some d" using contract_ack_covered [OF s2(4) assms(4) Some] by blast
    let ?t = "close_settled k (upd_contract k d s2)"
    note bc = bill_contract [OF s2(4,5) assms(4) Some disjI2 [OF d]]
    have "ackItemCounted a b s = Some (emit (ItemReturned a) (safeAck a True ?t))"
      using s2(1) Some d by (simp add: ackItemCounted_def Let_def s1_def)
    then show ?thesis
      using settle_after [OF settling_trans [OF q(1) settling_billing [OF bc(1)]] billing_parts(3) [OF bc(1) s2(3)] bc(2,3) assms(5)
          silent_trans [OF q(2) silent_close], of True] that by blast
  qed
qed

lemma ackItemWithErrDropped_ok:
  assumes "flight_part s F" "contract_part s C P" "settle_part s S" "a \<in> C" "a \<in> S"
  obtains s' where "ackItemWithErrDropped a s = Some s'" "settled a s F C P S s'" "reports a False s s'"
proof -
  obtain s2 where s2: "release_flight a s = Some s2" "settling s s2" "flight_part s2 (F - {a})" "contract_part s2 C P" "settle_part s2 S" "silent s s2"
    using release_settling [OF assms(1-3)] by metis
  let ?n = "si_messageByteCount (ss_items s2 a)"
  show thesis
  proof (cases "item_contract a s2")
    case None
    let ?u = "emit (ItemReturned a) (safeAck a False s2)"
    have "ackItemWithErrDropped a s = Some ?u" using s2(1) None by (simp add: ackItemWithErrDropped_def Let_def)
    then show ?thesis using settle_after [OF s2(2,3) contract_none [OF s2(4) assms(4) None] s2(5) assms(5) s2(6), of False] that by blast
  next
    case (Some k)
    define d where "d = contract_unack ?n (ss_contracts s2 k)"
    let ?t = "close_settled k (upd_contract k d s2)"
    note bc = bill_contract [OF s2(4,5) assms(4) Some disjI1 [OF d_def]]
    have "ackItemWithErrDropped a s = Some (emit (ItemReturned a) (safeAck a False ?t))"
      using s2(1) Some by (simp add: ackItemWithErrDropped_def Let_def d_def)
    then show ?thesis
      using settle_after [OF settling_trans [OF s2(2) settling_billing [OF bc(1)]] billing_parts(3) [OF bc(1) s2(3)] bc(2,3) assms(5)
          silent_trans [OF s2(6) silent_close], of False] that by blast
  qed
qed

text \<open>The parts of a state between two operations, without the list of sent items.\<close>

definition parts :: "SendSequence \<Rightarrow> nat set \<Rightarrow> (contract_id \<Rightarrow> int) \<Rightarrow> bool" where
  "parts s H P \<longleftrightarrow> queue_part s H \<and> flight_part s H \<and> contract_part s H P \<and> retained_part s H \<and> settle_part s H"

lemma seq_ok_iff: "seq_ok s H \<longleftrightarrow> parts s H no_debits \<and> list_part s H \<and> window_ok (ss_rttWindow s)"
  by (auto simp: seq_ok_def parts_def)

lemma settled_parts:
  assumes "settled a s F C P S s'" "queue_part s Q" "retained_part s R" "list_part s L"
  shows "queue_part s' Q" "retained_part s' R" "list_part s' L" "flight_part s' (F - {a})" "contract_part s' (C - {a}) P" "settle_part s' (S - {a})"
  using assms settling_parts [of s s'] by (auto simp: settled_def)

text \<open>What settling items leaves as it was.\<close>

definition steady :: "SendSequence \<Rightarrow> SendSequence \<Rightarrow> bool" where
  "steady s s' \<longleftrightarrow> ss_settings s' = ss_settings s \<and> ss_rttWindow s' = ss_rttWindow s \<and> ss_nextSequenceNumber s' = ss_nextSequenceNumber s
     \<and> ss_sendContract s' = ss_sendContract s \<and> allocated s' = allocated s \<and> (\<forall>x. sequenceNumber s' x = sequenceNumber s x \<and> messageId s' x = messageId s x
       \<and> si_ackCallback (ss_items s' x) = si_ackCallback (ss_items s x))"

lemma steady_refl [simp]: "steady s s"
  by (simp add: steady_def)

lemma steady_trans: "steady s t \<Longrightarrow> steady t u \<Longrightarrow> steady s u"
  by (simp add: steady_def)

lemma steady_settling: "settling s t \<Longrightarrow> steady s t"
  using settling_fields by (simp add: steady_def)

lemma steady_queue: "same_items (ss_resendQueue s) q \<Longrightarrow> steady s (s\<lparr>ss_resendQueue := q\<rparr>)"
  using queue_change(6-8) by (simp add: steady_def)

lemma steady_retained: "retained_part s R \<Longrightarrow> a \<in> R \<Longrightarrow> steady s (drop_retained a s)"
  using drop_retained_parts(7-12) by (simp add: steady_def drop_retained_def releaseRetained_def Let_def allocated_def)

lemma drop_retained_events: "ss_events (drop_retained a s) = ss_events s" "ss_sendItems (drop_retained a s) = ss_sendItems s"
  by (simp_all add: drop_retained_def releaseRetained_def Let_def)

lemma drop_parts:
  assumes "queue_part s (H - {a})" "flight_part s H" "contract_part s H P" "retained_part s H" "settle_part s H" "a \<in> H"
  shows "queue_part (drop_retained a s) (H - {a})" "flight_part (drop_retained a s) H" "contract_part (drop_retained a s) H P"
    "retained_part (drop_retained a s) (H - {a})" "settle_part (drop_retained a s) H" "steady s (drop_retained a s)" "silent s (drop_retained a s)"
  using drop_retained_parts(1-6) [OF assms(4,6)] assms steady_retained [OF assms(4,6)] drop_retained_events(1) [of a s] by auto

lemma silent_settled:
  assumes "silent s t" "steady s t" "reports a b t u"
  shows "reports a b s u"
  using silent_reports [OF assms(1,3)] assms(2) by (simp add: steady_def)

lemma queue_removed:
  assumes "parts s H P" "a \<in> H"
  obtains q where "queue_remove (messageId s a) s = Some (Some a, s\<lparr>ss_resendQueue := q\<rparr>)" "queue_part (s\<lparr>ss_resendQueue := q\<rparr>) (H - {a})"
    "flight_part (s\<lparr>ss_resendQueue := q\<rparr>) H" "contract_part (s\<lparr>ss_resendQueue := q\<rparr>) H P" "retained_part (s\<lparr>ss_resendQueue := q\<rparr>) H"
    "settle_part (s\<lparr>ss_resendQueue := q\<rparr>) H" "steady s (s\<lparr>ss_resendQueue := q\<rparr>)" "same_items (ss_resendQueue s) q"
proof -
  have p: "queue_part s H" "flight_part s H" "contract_part s H P" "retained_part s H" "settle_part s H" using assms(1) by (simp_all add: parts_def)
  obtain q where q: "queue_remove (messageId s a) s = Some (Some a, s\<lparr>ss_resendQueue := q\<rparr>)" "queue_part (s\<lparr>ss_resendQueue := q\<rparr>) (H - {a})"
    "same_items (ss_resendQueue s) q" using queue_remove_parts [OF p(1) assms(2)] .
  show thesis by (rule that [OF q(1,2) _ _ _ _ steady_queue [OF q(3)] q(3)]) (use queue_change(2-5) [OF q(3)] p in blast)+
qed

lemma dropItem_parts:
  assumes "parts s H P" "a \<in> H"
  obtains s' where "dropItem a s = Some s'" "parts s' (H - {a}) P" "steady s s'" "reports a False s s'"
    "ss_sendItems s' = remove1 (Some a) (ss_sendItems s)"
proof -
  obtain q where q: "queue_remove (messageId s a) s = Some (Some a, s\<lparr>ss_resendQueue := q\<rparr>)" "queue_part (s\<lparr>ss_resendQueue := q\<rparr>) (H - {a})"
    "flight_part (s\<lparr>ss_resendQueue := q\<rparr>) H" "contract_part (s\<lparr>ss_resendQueue := q\<rparr>) H P" "retained_part (s\<lparr>ss_resendQueue := q\<rparr>) H"
    "settle_part (s\<lparr>ss_resendQueue := q\<rparr>) H" "steady s (s\<lparr>ss_resendQueue := q\<rparr>)" using queue_removed [OF assms] by metis
  define s1 where "s1 = s\<lparr>ss_resendQueue := q, ss_sendItems := remove1 (Some a) (ss_sendItems s)\<rparr>"
  have b: "billing (s\<lparr>ss_resendQueue := q\<rparr>) (s1\<lparr>ss_sendItems := ss_sendItems s\<rparr>)" by (simp add: billing_def s1_def)
  have p1: "queue_part s1 (H - {a})" "flight_part s1 H" "contract_part s1 H P" "retained_part s1 H" "settle_part s1 H"
  proof -
    show "queue_part s1 (H - {a})" using q(2) by (simp add: s1_def queue_part_def queued_def synced_def)
    show "flight_part s1 H" using q(3) by (rule flight_part_cong [rotated]) (simp add: s1_def)
    show "contract_part s1 H P" using q(4) by (rule contract_part_cong [rotated -1]) (simp_all add: s1_def)
    show "retained_part s1 H" using q(5) by (rule retained_part_cong [rotated -1]) (simp_all add: s1_def)
    show "settle_part s1 H" using q(6) by (rule settle_part_cong [rotated -1]) (simp_all add: s1_def allocated_def)
  qed
  have st: "steady s s1" "silent s s1" using q(7) by (simp_all add: steady_def s1_def allocated_def sequenceNumber_def messageId_def)
  note d = drop_parts [OF p1 assms(2)]
  obtain s2 where s2: "ackItemWithErrDropped a (drop_retained a s1) = Some s2" "settled a (drop_retained a s1) H H P H s2"
    "reports a False (drop_retained a s1) s2" using ackItemWithErrDropped_ok [OF d(2,3,5) assms(2,2)] .
  have e: "dropItem a s = Some s2" using q(1) s2(1) by (simp add: dropItem_def Let_def drop_retained_def s1_def split: if_splits)
  have g: "settling (drop_retained a s1) s2" using s2(2) by (simp add: settled_def)
  have "parts s2 (H - {a}) P" using s2(2) settling_parts(1,3) [OF g] d(1,4) by (auto simp: parts_def settled_def)
  moreover have "steady s s2" using steady_trans [OF steady_trans [OF st(1) d(6)] steady_settling [OF g]] .
  moreover have "reports a False s s2"
    using silent_settled [OF silent_trans [OF st(2) d(7)] steady_trans [OF st(1) d(6)] s2(3)] .
  moreover have "ss_sendItems s2 = remove1 (Some a) (ss_sendItems s)"
    using settling_fields(5) [OF g] by (simp add: drop_retained_events s1_def)
  ultimately show thesis using e that by blast
qed

lemma ack_one:
  assumes "parts s H P" "a \<in> H"
  obtains s1 s2 s' where "queue_remove (messageId s a) s = Some (Some a, s1)"
    "(if \<not> si_selectiveAcked (ss_items s1 a) then release_flight a s1 else Some s1) = Some s2"
    "ackItem a (drop_retained a s2) = Some s'" "parts s' (H - {a}) P" "steady s s'" "reports a True s s'" "ss_sendItems s' = ss_sendItems s"
proof -
  obtain q where q: "queue_remove (messageId s a) s = Some (Some a, s\<lparr>ss_resendQueue := q\<rparr>)" "queue_part (s\<lparr>ss_resendQueue := q\<rparr>) (H - {a})"
    "flight_part (s\<lparr>ss_resendQueue := q\<rparr>) H" "contract_part (s\<lparr>ss_resendQueue := q\<rparr>) H P" "retained_part (s\<lparr>ss_resendQueue := q\<rparr>) H"
    "settle_part (s\<lparr>ss_resendQueue := q\<rparr>) H" "steady s (s\<lparr>ss_resendQueue := q\<rparr>)" using queue_removed [OF assms] by metis
  define s1 where "s1 = s\<lparr>ss_resendQueue := q\<rparr>"
  note p1 = q(2-7) [folded s1_def]
  obtain t where t: "release_flight a s1 = Some t" "settling s1 t" "flight_part t (H - {a})" "contract_part t H P" "settle_part t H" "silent s1 t"
    using release_settling [OF p1(2,3,5)] by metis
  define s2 where "s2 = (if \<not> si_selectiveAcked (ss_items s1 a) then t else s1)"
  have p2: "queue_part s2 (H - {a})" "flight_part s2 H" "contract_part s2 H P" "retained_part s2 H" "settle_part s2 H" "settling s1 s2" "silent s1 s2"
    unfolding s2_def using t p1 settling_parts [OF t(2)] flight_part_mono [OF t(3), of H] settling_billing [OF billing_refl, of s1] by auto
  note d = drop_parts [OF p2(1-5) assms(2)]
  obtain s' where s': "ackItem a (drop_retained a s2) = Some s'" "settled a (drop_retained a s2) H H P H s'" "reports a True (drop_retained a s2) s'"
    using ackItemCounted_ok [OF d(2,3,5) assms(2,2), of True] by (auto simp: ackItem_def)
  have g: "settling (drop_retained a s2) s'" using s'(2) by (simp add: settled_def)
  have y: "steady s (drop_retained a s2)" using steady_trans [OF steady_trans [OF p1(6) steady_settling [OF p2(6)]] d(6)] .
  have z: "silent s (drop_retained a s2)" using silent_trans [OF silent_trans [OF _ p2(7)] d(7), of s] by (simp add: s1_def)
  show thesis
  proof (rule that [of s1 s2 s'])
    show "parts s' (H - {a}) P" using s'(2) settling_parts(1,3) [OF g] d(1,4) by (auto simp: parts_def settled_def)
    show "steady s s'" using steady_trans [OF y steady_settling [OF g]] .
    show "reports a True s s'" using silent_settled [OF z y s'(3)] .
    show "ss_sendItems s' = ss_sendItems s" using settling_fields(5) [OF g] settling_fields(5) [OF p2(6)] by (simp add: drop_retained_events s1_def)
  qed (use q(1) t(1) s'(1) in \<open>simp_all add: s1_def s2_def\<close>)
qed

text \<open>The callbacks of a set of items, each with success.\<close>

definition acked_events :: "nat set \<Rightarrow> SendSequence \<Rightarrow> SendSequence \<Rightarrow> bool" where
  "acked_events A s s' \<longleftrightarrow> (\<forall>x. callbacks (ss_events s') x =
     callbacks (ss_events s) x @ (if x \<in> A \<and> si_ackCallback (ss_items s x) = Some UserCallback then [Callback x True] else []))"

lemma ack_loop_ok:
  assumes "parts s H P" "set as \<subseteq> H" "distinct as"
  shows "\<exists>s'. ack_loop n (map Some as) s = Some (map Some (dropWhile (\<lambda>a. sequenceNumber s a \<le> n) as), s')
    \<and> parts s' (H - set (takeWhile (\<lambda>a. sequenceNumber s a \<le> n) as)) P \<and> steady s s'
    \<and> acked_events (set (takeWhile (\<lambda>a. sequenceNumber s a \<le> n) as)) s s' \<and> ss_sendItems s' = ss_sendItems s"
  using assms
proof (induction as arbitrary: s H)
  case Nil
  then show ?case by (simp add: acked_events_def)
next
  case (Cons a as)
  show ?case
  proof (cases "sequenceNumber s a \<le> n")
    case False
    then have w: "takeWhile (\<lambda>a. sequenceNumber s a \<le> n) (a # as) = []" "dropWhile (\<lambda>a. sequenceNumber s a \<le> n) (a # as) = a # as" by simp_all
    have "n < sequenceNumber s a" using False by simp
    then show ?thesis unfolding w using Cons.prems by (intro exI [of _ s]) (simp add: acked_events_def)
  next
    case True
    have aH: "a \<in> H" using Cons.prems(2) by simp
    obtain s1 s2 t where t: "queue_remove (messageId s a) s = Some (Some a, s1)"
      "(if \<not> si_selectiveAcked (ss_items s1 a) then release_flight a s1 else Some s1) = Some s2"
      "ackItem a (drop_retained a s2) = Some t" "parts t (H - {a}) P" "steady s t" "reports a True s t" "ss_sendItems t = ss_sendItems s"
      using ack_one [OF Cons.prems(1) aH] .
    have sn: "(\<lambda>a. sequenceNumber t a \<le> n) = (\<lambda>a. sequenceNumber s a \<le> n)" using t(5) by (simp add: steady_def)
    have "set as \<subseteq> H - {a}" "distinct as" using Cons.prems(2,3) by auto
    then obtain s' where s': "ack_loop n (map Some as) t = Some (map Some (dropWhile (\<lambda>a. sequenceNumber s a \<le> n) as), s')"
      "parts s' (H - {a} - set (takeWhile (\<lambda>a. sequenceNumber s a \<le> n) as)) P" "steady t s'"
      "acked_events (set (takeWhile (\<lambda>a. sequenceNumber s a \<le> n) as)) t s'" "ss_sendItems s' = ss_sendItems t"
      using Cons.IH [OF t(4)] unfolding sn by blast
    have "ack_loop n (map Some (a # as)) s = Some (map Some (dropWhile (\<lambda>a. sequenceNumber s a \<le> n) as), s')"
      using True t(1,2,3) s'(1) by (simp add: drop_retained_def linorder_not_less split: if_splits)
    moreover have "H - set (takeWhile (\<lambda>a. sequenceNumber s a \<le> n) (a # as)) = H - {a} - set (takeWhile (\<lambda>a. sequenceNumber s a \<le> n) as)"
      using True by auto
    moreover have "a \<notin> set (takeWhile (\<lambda>a. sequenceNumber s a \<le> n) as)" using Cons.prems(3) by (auto dest: set_takeWhileD)
    then have "acked_events (set (takeWhile (\<lambda>a. sequenceNumber s a \<le> n) (a # as))) s s'"
      using s'(4) t(5,6) True by (auto simp: acked_events_def reports_def steady_def)
    ultimately show ?thesis using s' t(5,7) True steady_trans by (intro exI [of _ s']) auto
  qed
qed

end
