(* ===== verification/Send_Steps.thy ===== *)
theory Send_Steps
  imports Send_Books
begin

text \<open>
  Every operation of a send sequence keeps the books: acknowledgements, sends with the search for a
  contract, resends, the scan for expired items and the policy of the flight. No operation panics,
  and each lemma says which items it settles.
\<close>

section \<open>Acknowledgements\<close>

definition good :: "SendSequence \<Rightarrow> nat set \<Rightarrow> (contract_id \<Rightarrow> int) \<Rightarrow> bool" where
  "good s H P \<longleftrightarrow> parts s H P \<and> list_part s H \<and> window_ok (ss_rttWindow s)"

lemma seq_ok_good: "seq_ok s H \<longleftrightarrow> good s H no_debits"
  by (auto simp: seq_ok_iff good_def)

text \<open>The item \<open>a\<close> has been taken out of the queue and will go back.\<close>

definition held :: "SendSequence \<Rightarrow> nat set \<Rightarrow> nat \<Rightarrow> (contract_id \<Rightarrow> int) \<Rightarrow> bool" where
  "held s H a P \<longleftrightarrow> queue_part s (H - {a}) \<and> flight_part s H \<and> contract_part s H P \<and> retained_part s H \<and> settle_part s H
     \<and> list_part s H \<and> window_ok (ss_rttWindow s) \<and> a \<in> H
     \<and> (\<forall>b \<in> H - {a}. messageId s b \<noteq> messageId s a \<and> sequenceNumber s b \<noteq> sequenceNumber s a)"

lemma list_part_steady: "steady s s' \<Longrightarrow> ss_sendItems s' = ss_sendItems s \<Longrightarrow> list_part s H \<Longrightarrow> list_part s' H"
  by (rule list_part_cong [rotated -1]) (simp_all add: steady_def)

lemma detach:
  assumes "good s H P" "a \<in> H"
  obtains q where "queue_remove (messageId s a) s = Some (Some a, s\<lparr>ss_resendQueue := q\<rparr>)" "held (s\<lparr>ss_resendQueue := q\<rparr>) H a P"
proof -
  have p: "parts s H P" "list_part s H" "window_ok (ss_rttWindow s)" using assms(1) by (simp_all add: good_def)
  obtain q where q: "queue_remove (messageId s a) s = Some (Some a, s\<lparr>ss_resendQueue := q\<rparr>)" "queue_part (s\<lparr>ss_resendQueue := q\<rparr>) (H - {a})"
    "flight_part (s\<lparr>ss_resendQueue := q\<rparr>) H" "contract_part (s\<lparr>ss_resendQueue := q\<rparr>) H P" "retained_part (s\<lparr>ss_resendQueue := q\<rparr>) H"
    "settle_part (s\<lparr>ss_resendQueue := q\<rparr>) H" "same_items (ss_resendQueue s) q" using queue_removed [OF p(1) assms(2)] by metis
  have "messageId s b \<noteq> messageId s a \<and> sequenceNumber s b \<noteq> sequenceNumber s a" if "b \<in> H - {a}" for b
    using queue_part_inj [of s H b a] p(1) assms(2) that by (auto simp: parts_def)
  then have "held (s\<lparr>ss_resendQueue := q\<rparr>) H a P"
    using q(2-6) queue_change(1,6,7) [OF q(7)] p(2,3) assms(2) by (simp add: held_def)
  with q(1) show thesis by (rule that)
qed

lemma reattach:
  assumes "held s H a P"
  shows "good (queue_add a s) H P" "steady s (queue_add a s)" "ss_sendItems (queue_add a s) = ss_sendItems s" "silent s (queue_add a s)"
proof -
  have p: "queue_part s (H - {a})" "flight_part s H" "contract_part s H P" "retained_part s H" "settle_part s H" "list_part s H"
    "window_ok (ss_rttWindow s)" "insert a (H - {a}) = H" "a \<notin> H - {a}"
    "\<forall>b \<in> H - {a}. messageId s b \<noteq> messageId s a \<and> sequenceNumber s b \<noteq> sequenceNumber s a" using assms by (auto simp: held_def)
  obtain q where q: "queue_add a s = s\<lparr>ss_resendQueue := q\<rparr>" "queue_part (s\<lparr>ss_resendQueue := q\<rparr>) H" "same_items (ss_resendQueue s) q"
    using queue_add_parts [OF p(1,9,10)] p(8) by metis
  show "good (queue_add a s) H P" using q(2) queue_change(1-5) [OF q(3)] p unfolding q(1) by (simp add: good_def parts_def)
  show "steady s (queue_add a s)" "ss_sendItems (queue_add a s) = ss_sendItems s" "silent s (queue_add a s)"
    using steady_queue [OF q(3)] unfolding q(1) by simp_all
qed

lemma held_quiet:
  assumes "quiet s s'" "held s H a P"
  shows "held s' H a P"
  using assms(2) quiet_parts(1-6,8,9) [OF assms(1)] quiet_fields(4) [OF assms(1)] by (simp add: held_def)

lemma good_quiet:
  assumes "quiet s s'" "good s H P"
  shows "good s' H P"
  using assms(2) quiet_parts(1-6) [OF assms(1)] quiet_fields(4) [OF assms(1)] by (simp add: good_def parts_def)

lemma quiet_steady: "quiet s s' \<Longrightarrow> steady s s'"
  using quiet_parts(7-9) [of s s'] quiet_fields [of s s'] core_eq(4) [of "ss_items s' _" "ss_items s _"] by (simp add: steady_def)

lemma held_settling:
  assumes "settling s s'" "held s H a P" "flight_part s' H" "contract_part s' H P" "settle_part s' H"
  shows "held s' H a P"
  using assms(2-5) settling_parts [OF assms(1)] settling_fields(3,9,10) [OF assms(1)] by (simp add: held_def)

lemma good_settling:
  assumes "settling s s'" "good s H P" "flight_part s' H" "contract_part s' H P" "settle_part s' H"
  shows "good s' H P"
  using assms(2-5) settling_parts [OF assms(1)] settling_fields(3) [OF assms(1)] by (simp add: good_def parts_def)

lemma held_emit:
  assumes "\<not> settles e" "held s H a P"
  shows "held (emit e s) H a P"
  by (rule held_settling [OF emit_parts(4) [OF assms(1)] assms(2)]) (use assms emit_parts(1-3) in \<open>auto simp: held_def\<close>)

lemma good_emit:
  assumes "\<not> settles e" "good s H P"
  shows "good (emit e s) H P"
  by (rule good_settling [OF emit_parts(4) [OF assms(1)] assms(2)]) (use assms emit_parts(1-3) in \<open>auto simp: good_def parts_def\<close>)

lemma held_set_item:
  assumes "core (f (ss_items s a)) = core ((ss_items s a)\<lparr>si_resendTime := t\<rparr>)" "held s H a P"
  shows "held (set_item a f s) H a P"
  using assms(2) set_item_queue [of s "H - {a}" a f] set_item_parts [where f = f and s = s and a = a, OF assms(1)] by (simp add: held_def)

lemma steady_set_item:
  assumes "core (f (ss_items s a)) = core ((ss_items s a)\<lparr>si_resendTime := t\<rparr>)"
  shows "steady s (set_item a f s)"
  using core_eq(4) [OF assms] by (simp add: steady_def)

lemma rtt_parts:
  assumes "window_ok w"
  shows "good s H P \<Longrightarrow> good (s\<lparr>ss_rttWindow := w\<rparr>) H P" "held s H a P \<Longrightarrow> held (s\<lparr>ss_rttWindow := w\<rparr>) H a P"
    "parts s H P \<Longrightarrow> parts (s\<lparr>ss_rttWindow := w\<rparr>) H P" "list_part s H \<Longrightarrow> list_part (s\<lparr>ss_rttWindow := w\<rparr>) H"
proof -
  let ?t = "s\<lparr>ss_rttWindow := w\<rparr>"
  have q: "queue_part s Q \<Longrightarrow> queue_part ?t Q" for Q by (simp add: queue_part_def queued_def synced_def)
  have l: "list_part s Q \<Longrightarrow> list_part ?t Q" for Q by (rule list_part_cong) (simp_all add: allocated_def sequenceNumber_def)
  have f: "flight_part s Q \<Longrightarrow> flight_part ?t Q" for Q by (rule flight_part_cong) simp
  have c: "contract_part s Q P \<Longrightarrow> contract_part ?t Q P" for Q P by (rule contract_part_cong) simp_all
  have r: "retained_part s Q \<Longrightarrow> retained_part ?t Q" for Q by (rule retained_part_cong) simp_all
  have e: "settle_part s Q \<Longrightarrow> settle_part ?t Q" for Q by (rule settle_part_cong) (simp_all add: allocated_def)
  have n: "messageId ?t x = messageId s x" "sequenceNumber ?t x = sequenceNumber s x" for x by (simp_all add: messageId_def sequenceNumber_def)
  show "parts s H P \<Longrightarrow> parts ?t H P" "list_part s H \<Longrightarrow> list_part ?t H" using q l f c r e by (simp_all add: parts_def)
  show "good s H P \<Longrightarrow> good ?t H P" using q l f c r e assms by (simp add: good_def parts_def)
  show "held s H a P \<Longrightarrow> held ?t H a P" using q l f c r e assms n by (simp add: held_def)
qed

lemma steady_but_rtt:
  assumes "s' = s\<lparr>ss_rttWindow := w\<rparr>"
  shows "allocated s' = allocated s" "sequenceNumber s' = sequenceNumber s" "messageId s' = messageId s" "silent s s'"
  using assms by (auto simp: allocated_def sequenceNumber_def messageId_def fun_eq_iff)

lemma closeSendTime_some:
  assumes "window_ok w"
  obtains w' where "closeSendTime t now w = Some w'" "window_ok w'"
proof (cases "sint t * 10 ^ 6 \<le> now")
  case True
  show thesis using window_ok_close [OF assms refl True] that by metis
next
  case False
  then show thesis using that [of w] assms by (simp add: closeSendTime_def Let_def)
qed

lemma observeAckRtt_ok:
  assumes "good s H P"
  obtains w where "observeAckRtt a tag now s = Some (s\<lparr>ss_rttWindow := w\<rparr>)" "window_ok w"
proof -
  have w: "window_ok (ss_rttWindow s)" using assms by (simp add: good_def)
  have same: "s\<lparr>ss_rttWindow := ss_rttWindow s\<rparr> = s" by simp
  show thesis
  proof (cases "si_unreliableCarrierObserved (ss_items s a) \<or> tag = None")
    case True
    then show ?thesis using that [OF _ w] by (auto simp: observeAckRtt_def)
  next
    case False
    then obtain t where t: "tag = Some t" by auto
    obtain w' where "closeSendTime t now (ss_rttWindow s) = Some w'" "window_ok w'" using closeSendTime_some [OF w] .
    then show ?thesis using False t that by (simp add: observeAckRtt_def)
  qed
qed

lemma receive_selective_ok:
  assumes "good s H P" "a \<in> H"
  obtains s' where "receive_selective a (messageId s a) clock s = Some s'" "good s' H P" "steady s s'" "ss_sendItems s' = ss_sendItems s" "silent s s'"
proof -
  obtain q where q: "queue_remove (messageId s a) s = Some (Some a, s\<lparr>ss_resendQueue := q\<rparr>)" "held (s\<lparr>ss_resendQueue := q\<rparr>) H a P"
    using detach [OF assms] .
  define s1 where "s1 = s\<lparr>ss_resendQueue := q\<rparr>"
  have h1: "held s1 H a P" using q(2) by (simp add: s1_def)
  have y1: "steady s s1" "silent s s1"
  proof -
    obtain q' where q': "queue_remove (messageId s a) s = Some (Some a, s\<lparr>ss_resendQueue := q'\<rparr>)" "steady s (s\<lparr>ss_resendQueue := q'\<rparr>)"
      using queue_removed [of s H P a] assms by (metis good_def)
    then have "s\<lparr>ss_resendQueue := q'\<rparr> = s1" using q(1) by (simp add: s1_def)
    then show "steady s s1" "silent s s1" using q'(2) by (auto simp: s1_def)
  qed
  obtain t where t: "release_flight a s1 = Some t" "settling s1 t" "flight_part t (H - {a})" "contract_part t H P" "settle_part t H" "silent s1 t"
    using release_settling [of s1 H H P H a] h1 by (metis held_def)
  define s2 where "s2 = (if \<not> si_selectiveAcked (ss_items s1 a) then t else s1)"
  have h2: "held s2 H a P" "steady s1 s2" "silent s1 s2" "ss_sendItems s2 = ss_sendItems s1"
    using held_settling [OF t(2) h1 flight_part_mono [OF t(3)] t(4,5)] h1 steady_settling [OF t(2)] t(6) settling_fields(5) [OF t(2)]
    by (auto simp: s2_def)
  define s3 where "s3 = emit YieldLive s2"
  have h3: "held s3 H a P" using held_emit [of YieldLive, OF _ h2(1)] by (simp add: s3_def)
  let ?f = "\<lambda>item. item\<lparr>si_resendTime := clock 1 + sb_SelectiveAckTimeout (ss_settings s3), si_sendTime := clock 2, si_selectiveAcked := True\<rparr>"
  have cf: "core (?f (ss_items s3 a)) = core ((ss_items s3 a)\<lparr>si_resendTime := clock 1 + sb_SelectiveAckTimeout (ss_settings s3)\<rparr>)" by (simp add: core_def)
  define s4 where "s4 = set_item a ?f s3"
  have h4: "held s4 H a P" "steady s3 s4" using held_set_item [where f = ?f, OF cf h3] steady_set_item [where f = ?f and s = s3, OF cf] by (simp_all add: s4_def)
  note r = reattach [OF h4(1)]
  let ?u = "restartRetainedSilence (clock 3) (queue_add a s4)"
  have e: "receive_selective a (messageId s a) clock s = Some ?u"
    using q(1) t(1) by (simp add: receive_selective_def Let_def s4_def s3_def s2_def s1_def split: if_splits)
  have y3: "steady s2 s3" "silent s2 s3" by (simp_all add: s3_def steady_def)
  have "good ?u H P" using good_quiet [OF quiet_restart r(1)] .
  moreover have "steady s ?u"
    using steady_trans [OF y1(1) steady_trans [OF h2(2) steady_trans [OF y3(1) steady_trans [OF h4(2) steady_trans [OF r(2) quiet_steady [OF quiet_restart]]]]]] .
  moreover have "ss_sendItems ?u = ss_sendItems s" using r(3) h2(4) by (simp add: restartRetainedSilence_def s4_def s3_def s1_def)
  moreover have "silent s ?u"
  proof -
    have "silent s3 s4" "silent (queue_add a s4) ?u" by (simp_all add: s4_def restartRetainedSilence_def)
    then show ?thesis using silent_trans y1(2) h2(3) y3(2) r(4) by metis
  qed
  ultimately show thesis using e that by blast
qed

text \<open>What every operation but sending leaves as it was.\<close>

definition stable :: "SendSequence \<Rightarrow> SendSequence \<Rightarrow> bool" where
  "stable s s' \<longleftrightarrow> ss_settings s' = ss_settings s \<and> ss_nextSequenceNumber s' = ss_nextSequenceNumber s \<and> ss_sendContract s' = ss_sendContract s
     \<and> allocated s' = allocated s
     \<and> (\<forall>x. sequenceNumber s' x = sequenceNumber s x \<and> messageId s' x = messageId s x
       \<and> si_ackCallback (ss_items s' x) = si_ackCallback (ss_items s x))"

lemma stable_refl [simp]: "stable s s"
  by (simp add: stable_def)

lemma stable_trans: "stable s t \<Longrightarrow> stable t u \<Longrightarrow> stable s u"
  by (simp add: stable_def)

lemma steady_stable: "steady s t \<Longrightarrow> stable s t"
  by (simp add: stable_def steady_def)

lemma stable_rtt: "stable s (s\<lparr>ss_rttWindow := w\<rparr>)" "stable s (s\<lparr>ss_sendItems := l\<rparr>)"
  by (simp_all add: stable_def allocated_def sequenceNumber_def messageId_def)

lemma list_part_items:
  assumes "list_part s H" "ss_sendItems s = map Some as"
  shows "set as = H" "sorted_wrt (\<lambda>a b. sequenceNumber s a < sequenceNumber s b) as" "distinct as"
proof -
  obtain bs where "ss_sendItems s = map Some bs" "set bs = H" "sorted_wrt (\<lambda>a b. sequenceNumber s a < sequenceNumber s b) bs"
    using assms(1) by (auto simp: list_part_def)
  moreover from this assms(2) have "bs = as" by (metis list.inj_map_strong option.inject)
  ultimately show *: "set as = H" "sorted_wrt (\<lambda>a b. sequenceNumber s a < sequenceNumber s b) as" by simp_all
  show "distinct as" using *(2) by (induction as) auto
qed

lemma list_part_obtain:
  assumes "list_part s H"
  obtains as where "ss_sendItems s = map Some as" "set as = H" "sorted_wrt (\<lambda>a b. sequenceNumber s a < sequenceNumber s b) as" "distinct as"
  using assms list_part_items [OF assms] by (metis list_part_def)

lemma list_part_shrink:
  assumes "list_part s H" "stable s s'" "ss_sendItems s' = map Some bs" "set bs \<subseteq> H" "sorted_wrt (\<lambda>a b. sequenceNumber s a < sequenceNumber s b) bs"
  shows "list_part s' (set bs)"
  using assms unfolding list_part_def stable_def by auto

lemma dropItem_ok:
  assumes "good s H P" "a \<in> H"
  obtains s' where "dropItem a s = Some s'" "good s' (H - {a}) P" "stable s s'" "reports a False s s'"
proof -
  have p: "parts s H P" "list_part s H" "window_ok (ss_rttWindow s)" using assms(1) by (simp_all add: good_def)
  obtain s' where s': "dropItem a s = Some s'" "parts s' (H - {a}) P" "steady s s'" "reports a False s s'"
    "ss_sendItems s' = remove1 (Some a) (ss_sendItems s)" using dropItem_parts [OF p(1) assms(2)] .
  obtain as where as: "ss_sendItems s = map Some as" "set as = H" "sorted_wrt (\<lambda>a b. sequenceNumber s a < sequenceNumber s b) as" "distinct as"
    using list_part_obtain [OF p(2)] .
  have r: "remove1 (Some a) (map Some as) = map Some (remove1 a as)" by (induction as) auto
  have "sorted_wrt (\<lambda>a b. sequenceNumber s a < sequenceNumber s b) (remove1 a as)"
    using sorted_wrt_filter [OF as(3)] by (simp add: distinct_remove1_removeAll [OF as(4)] removeAll_filter_not_eq)
  then have "list_part s' (H - {a})"
    using list_part_shrink [OF p(2) steady_stable [OF s'(3)], of "remove1 a as"] s'(5) as(1,2,4) r by (simp add: Diff_subset)
  moreover have "window_ok (ss_rttWindow s')" using s'(3) p(3) by (simp add: steady_def)
  ultimately show thesis using that [OF s'(1) _ steady_stable [OF s'(3)] s'(4)] s'(2) by (simp add: good_def)
qed

text \<open>The items that a cumulative acknowledgement of a queued message covers.\<close>

definition covered :: "SendSequence \<Rightarrow> nat set \<Rightarrow> message_id \<Rightarrow> bool \<Rightarrow> nat set" where
  "covered s H m selective = (if selective then {} else {x \<in> H. \<exists>a \<in> H. messageId s a = m \<and> sequenceNumber s x \<le> sequenceNumber s a})"

lemma acked_events_none: "silent s s' \<Longrightarrow> acked_events {} s s'"
  by (simp add: acked_events_def silent_def)

lemma sorted_takeWhile:
  assumes "sorted_wrt (\<lambda>a b. f a < f b) as"
  shows "set (takeWhile (\<lambda>a. f a \<le> (n::uint64)) as) = {a \<in> set as. f a \<le> n}"
    "set (dropWhile (\<lambda>a. f a \<le> n) as) = {a \<in> set as. \<not> f a \<le> n}"
proof -
  have "set (takeWhile (\<lambda>a. f a \<le> n) as) = {a \<in> set as. f a \<le> n} \<and> set (dropWhile (\<lambda>a. f a \<le> n) as) = {a \<in> set as. \<not> f a \<le> n}"
    using assms
  proof (induction as)
    case (Cons a as)
    show ?case
    proof (cases "f a \<le> n")
      case True
      then show ?thesis using Cons by auto
    next
      case False
      then have "\<not> f b \<le> n" if "b \<in> set as" for b using Cons.prems that by (meson less_le_trans less_imp_le sorted_wrt.simps(2) order_trans)
      then show ?thesis using False by auto
    qed
  qed simp
  then show "set (takeWhile (\<lambda>a. f a \<le> n) as) = {a \<in> set as. f a \<le> n}" "set (dropWhile (\<lambda>a. f a \<le> n) as) = {a \<in> set as. \<not> f a \<le> n}"
    by blast+
qed

lemma sorted_dropWhile: "sorted_wrt R as \<Longrightarrow> sorted_wrt R (dropWhile Q as)"
  by (induction as) auto

lemma cumulative_ok:
  assumes "good s H P"
  obtains items s' where "ack_loop n (ss_sendItems s) s = Some (items, s')" "good (s'\<lparr>ss_sendItems := items\<rparr>) {x \<in> H. \<not> sequenceNumber s x \<le> n} P"
    "stable s s'" "acked_events {x \<in> H. sequenceNumber s x \<le> n} s s'"
proof -
  have p: "parts s H P" "list_part s H" "window_ok (ss_rttWindow s)" using assms(1) by (simp_all add: good_def)
  obtain as where as: "ss_sendItems s = map Some as" "set as = H" "sorted_wrt (\<lambda>a b. sequenceNumber s a < sequenceNumber s b) as" "distinct as"
    using list_part_obtain [OF p(2)] .
  let ?t = "takeWhile (\<lambda>a. sequenceNumber s a \<le> n) as" and ?d = "dropWhile (\<lambda>a. sequenceNumber s a \<le> n) as"
  have td: "set ?t = {x \<in> H. sequenceNumber s x \<le> n}" "set ?d = {x \<in> H. \<not> sequenceNumber s x \<le> n}"
    using sorted_takeWhile [OF as(3)] unfolding as(2) by blast+
  have hd: "H - set ?t = set ?d" using td by auto
  obtain s' where s': "ack_loop n (map Some as) s = Some (map Some ?d, s')" "parts s' (set ?d) P" "steady s s'" "acked_events (set ?t) s s'"
    using ack_loop_ok [OF p(1) _ as(4), of n] unfolding as(2) hd by blast
  let ?u = "s'\<lparr>ss_sendItems := map Some ?d\<rparr>"
  have "parts ?u (set ?d) P"
  proof -
    have "queue_part s' Q \<Longrightarrow> queue_part ?u Q" for Q by (simp add: queue_part_def queued_def synced_def)
    moreover have "flight_part s' Q \<Longrightarrow> flight_part ?u Q" for Q by (rule flight_part_cong) simp
    moreover have "contract_part s' Q P \<Longrightarrow> contract_part ?u Q P" for Q by (rule contract_part_cong) simp_all
    moreover have "retained_part s' Q \<Longrightarrow> retained_part ?u Q" for Q by (rule retained_part_cong) simp_all
    moreover have "settle_part s' Q \<Longrightarrow> settle_part ?u Q" for Q by (rule settle_part_cong) (simp_all add: allocated_def)
    ultimately show ?thesis using s'(2) by (simp add: parts_def)
  qed
  moreover have "list_part ?u (set ?d)"
    by (rule list_part_shrink [OF p(2) stable_trans [OF steady_stable [OF s'(3)] stable_rtt(2)]])
      (use as(2,3) set_dropWhileD in \<open>auto intro: sorted_dropWhile\<close>)
  moreover have "window_ok (ss_rttWindow ?u)" using s'(3) p(3) by (simp add: steady_def)
  ultimately have "good ?u {x \<in> H. \<not> sequenceNumber s x \<le> n} P" unfolding td(2) good_def by blast
  then show thesis using that [of "map Some ?d" s'] s'(1,4) steady_stable [OF s'(3)] unfolding as(1) td by blast
qed

lemma receiveAck_ok:
  assumes "good s H P"
  obtains s' where "receiveAck m selective tag clock s = Some s'" "good s' (H - covered s H m selective) P" "stable s s'"
    "acked_events (covered s H m selective) s s'"
proof (cases "GetByMessageId (ss_resendQueue s) m")
  case None
  have "queue_part s H" using assms by (simp add: good_def parts_def)
  then have "covered s H m selective = {}" using None queued_by_id [of s H m] by (auto simp: covered_def)
  then show thesis using None that [of s] assms acked_events_none [of s s] by (simp add: receiveAck_def)
next
  case (Some a)
  have q: "queue_part s H" using assms by (simp add: good_def parts_def)
  have a: "a \<in> H" "messageId s a = m" using Some queued_by_id [OF q, of m a] by simp_all
  obtain w where w: "observeAckRtt a tag (clock 0) s = Some (s\<lparr>ss_rttWindow := w\<rparr>)" "window_ok w" using observeAckRtt_ok [OF assms] .
  define t where "t = s\<lparr>ss_rttWindow := w\<rparr>"
  have t: "good t H P" "stable s t" "silent s t" using rtt_parts(1) [OF w(2) assms] stable_rtt(1) by (simp_all add: t_def)
  have n: "messageId t a = m" "sequenceNumber t x = sequenceNumber s x" "si_ackCallback (ss_items t x) = si_ackCallback (ss_items s x)" for x
    using a(2) t(2) by (simp_all add: stable_def)
  show thesis
  proof (cases selective)
    case True
    obtain s' where s': "receive_selective a (messageId t a) clock t = Some s'" "good s' H P" "steady t s'" "silent t s'"
      using receive_selective_ok [OF t(1) a(1), of clock] by blast
    have "receiveAck m selective tag clock s = Some s'" using Some w(1) s'(1) n(1) True by (simp add: receiveAck_def t_def)
    moreover have "acked_events (covered s H m selective) s s'" using acked_events_none [OF silent_trans [OF t(3) s'(4)]] True by (simp add: covered_def)
    ultimately show ?thesis using that [of s'] s'(2) stable_trans [OF t(2) steady_stable [OF s'(3)]] True by (simp add: covered_def)
  next
    case False
    have "b = a" if "b \<in> H" "messageId s b = m" for b using queue_part_inj(1) [OF q that(1) a(1)] that(2) a(2) by simp
    then have "(\<exists>b \<in> H. messageId s b = m \<and> sequenceNumber s x \<le> sequenceNumber s b) \<longleftrightarrow> sequenceNumber s x \<le> sequenceNumber s a" for x
      using a by metis
    then have cov: "covered s H m selective = {x \<in> H. sequenceNumber s x \<le> sequenceNumber s a}" using False by (simp add: covered_def)
    obtain items s' where s': "ack_loop (sequenceNumber s a) (ss_sendItems t) t = Some (items, s')"
      "good (s'\<lparr>ss_sendItems := items\<rparr>) {x \<in> H. \<not> sequenceNumber s x \<le> sequenceNumber s a} P"
      "stable t s'" "acked_events (covered s H m selective) t s'" using cumulative_ok [OF t(1), of "sequenceNumber s a"] unfolding n(2) cov .
    let ?u = "restartRetainedSilence (clock 1) (s'\<lparr>ss_sendItems := items\<rparr>)"
    have e: "receiveAck m selective tag clock s = Some ?u" using Some w(1) s'(1) n(2) False by (simp add: receiveAck_def t_def)
    have h: "H - covered s H m selective = {x \<in> H. \<not> sequenceNumber s x \<le> sequenceNumber s a}" by (auto simp: cov)
    have "stable s ?u"
      using stable_trans [OF t(2) stable_trans [OF s'(3) stable_trans [OF stable_rtt(2) steady_stable [OF quiet_steady [OF quiet_restart]]]]] .
    moreover have "acked_events (covered s H m selective) s ?u"
      using s'(4) t(3) n(3) by (simp add: acked_events_def restartRetainedSilence_def silent_def)
    ultimately show ?thesis using that [OF e] good_quiet [OF quiet_restart s'(2)] unfolding h by blast
  qed
qed

text \<open>The scan for retained items that are past their deadline.\<close>

lemma drop_expired_ok:
  assumes "good s H P" "set as \<subseteq> H" "distinct as"
  shows "\<exists>s' D. drop_expired now as s = Some s' \<and> D \<subseteq> H \<and> good s' (H - D) P \<and> stable s s'"
  using assms
proof (induction as arbitrary: s H)
  case Nil
  then show ?case by (auto intro!: exI [of _ "{}"])
next
  case (Cons a as)
  show ?case
  proof (cases "past_backstop a now s")
    case True
    obtain t where t: "dropItem a s = Some t" "good t (H - {a}) P" "stable s t" using dropItem_ok [OF Cons.prems(1)] Cons.prems(2) by (metis list.set_intros(1) subsetD)
    obtain s' D where s': "drop_expired now as t = Some s'" "D \<subseteq> H - {a}" "good s' (H - {a} - D) P" "stable t s'"
      using Cons.IH [OF t(2)] Cons.prems(2,3) by (metis Diff_empty distinct.simps(2) set_subset_Cons subset_Diff_insert subset_trans)
    have "H - insert a D = H - {a} - D" by auto
    then show ?thesis using s' t True Cons.prems(2) stable_trans by (intro exI [of _ s'] exI [of _ "insert a D"]) auto
  next
    case False
    then show ?thesis using Cons.IH [OF Cons.prems(1)] Cons.prems(2,3) by simp
  qed
qed

lemma backstop_scan_ok:
  assumes "good s H P"
  obtains s' D where "backstop_scan now s = Some s'" "D \<subseteq> H" "good s' (H - D) P" "stable s s'"
proof -
  have q: "queue_part s H" using assms by (simp add: good_def parts_def)
  then have "set (tq_orderedItems (ss_resendQueue s)) = H" "distinct (tq_orderedItems (ss_resendQueue s))"
    by (auto simp: queue_part_def queued_def queue_wf_def min_ok_def min_inv_def)
  then show thesis using drop_expired_ok [OF assms, of "Snapshot (ss_resendQueue s)" now] that by (auto simp: backstop_scan_def Snapshot_def)
qed

section \<open>Sending\<close>

lemma queue_wf_outside:
  assumes "queue_wf q" "a \<notin> set (tq_orderedItems q)"
  shows "queue_wf (upd_item a f q)"
proof -
  have ms: "a \<notin> set (tq_maxItems q)" using assms by (metis queue_wf_def set_mset_mset)
  have o: "tq_orderedItems q ! i \<noteq> a" if "i < length (tq_orderedItems q)" for i using assms(2) that nth_mem by metis
  have m: "tq_maxItems q ! i \<noteq> a" if "i < length (tq_maxItems q)" for i using ms that nth_mem by metis
  have "min_ok (upd_item a f q)" using assms(1) o by (auto simp: queue_wf_def min_ok_def min_inv_def upd_item_def)
  moreover have "max_ok (upd_item a f q)" using assms(1) m by (auto simp: queue_wf_def max_ok_def max_inv_def upd_item_def)
  moreover have "indexed (upd_item a f q) (set (tq_orderedItems q))" using assms by (auto simp: queue_wf_def indexed_def upd_item_def)
  moreover have "counted (upd_item a f q) (mset (tq_orderedItems q))"
  proof -
    have i: "qs_items (upd_item a f q) b = qs_items q b" if "b \<in># mset (tq_orderedItems q)" for b
      using assms(2) that by (auto simp: upd_item_def)
    have "image_mset (\<lambda>b. ti_messageByteCount (qs_items (upd_item a f q) b)) (mset (tq_orderedItems q)) = image_mset (\<lambda>b. ti_messageByteCount (qs_items q b)) (mset (tq_orderedItems q))"
      "image_mset (\<lambda>b. QueueByteCount (qs_items (upd_item a f q) b)) (mset (tq_orderedItems q)) = image_mset (\<lambda>b. QueueByteCount (qs_items q b)) (mset (tq_orderedItems q))"
      using i by (auto intro!: image_mset_cong)
    then show ?thesis using assms(1) by (simp add: queue_wf_def counted_def) (simp add: upd_item_def)
  qed
  moreover have "borrow_ok (upd_item a f q)" using assms(1) by (simp add: queue_wf_def borrow_ok_def upd_item_def split: option.splits)
  ultimately show ?thesis using assms(1) by (simp add: queue_wf_def upd_item_def)
qed

lemma queue_outside:
  assumes "queue_part s Q" "a \<notin> Q"
  shows "queue_part (s\<lparr>ss_resendQueue := upd_item a f (ss_resendQueue s)\<rparr>) Q"
  using assms queue_wf_outside [of "ss_resendQueue s" a f] by (simp add: queue_part_def queued_def synced_def) (simp add: upd_item_def)

text \<open>A state and the same state with one more item, at the address \<open>a\<close>.\<close>

definition extends :: "SendSequence \<Rightarrow> nat \<Rightarrow> SendSequence \<Rightarrow> bool" where
  "extends s a s' \<longleftrightarrow> a = allocated s \<and> allocated s' = Suc a \<and> ss_settings s' = ss_settings s
     \<and> (\<forall>x. x \<noteq> a \<longrightarrow> sequenceNumber s' x = sequenceNumber s x \<and> messageId s' x = messageId s x
         \<and> si_ackCallback (ss_items s' x) = si_ackCallback (ss_items s x))"

lemma extends_stable: "extends s a t \<Longrightarrow> stable t u \<Longrightarrow> extends s a u" "stable s t \<Longrightarrow> extends t a u \<Longrightarrow> extends s a u"
  by (simp_all add: extends_def stable_def)

lemma good_finite: "good s H P \<Longrightarrow> finite H"
  by (simp add: good_def parts_def contract_part_def)

lemma good_fresh:
  assumes "good s H P"
  shows "allocated s \<notin> H" "a \<in> H \<Longrightarrow> a < allocated s"
  using assms by (auto simp: good_def list_part_def)

lemma new_item_parts:
  assumes "good s H P" "0 < frame_MessageByteCount item" "frame_MessageByteCount item \<le> flight_bound"
  obtains t where "new_item m n item s = (allocated s, t)" "queue_part t H" "list_part t H" "flight_part t H" "contract_part t H P"
    "retained_part t H" "settle_part t (insert (allocated s) H)" "extends s (allocated s) t" "sequenceNumber t (allocated s) = n"
    "messageId t (allocated s) = m" "ss_items t = (ss_items s)(allocated s := item)" "ss_rttWindow t = ss_rttWindow s"
    "ss_sendContract t = ss_sendContract s" "ss_openSendContracts t = ss_openSendContracts s" "ss_contracts t = ss_contracts s"
    "ss_sendItems t = ss_sendItems s" "ss_nextSequenceNumber t = ss_nextSequenceNumber s" "ss_events t = ss_events s"
proof -
  define a where "a = allocated s"
  have fr: "a \<notin> H" "\<And>b. b \<in> H \<Longrightarrow> b \<noteq> a" using good_fresh [OF assms(1)] by (auto simp: a_def)
  have p: "queue_part s H" "flight_part s H" "contract_part s H P" "retained_part s H" "settle_part s H" "list_part s H"
    using assms(1) by (simp_all add: good_def parts_def)
  let ?base = "\<lparr>ti_messageId = m, ti_messageByteCount = frame_MessageByteCount item, ti_queueByteCount = frame_MessageByteCount item,
    ti_sequenceNumber = n, ti_heapIndex = 0, ti_maxHeapIndex = 0\<rparr>"
  define u where "u = set_item a (\<lambda>_. item) s"
  define v where "v = u\<lparr>ss_resendQueue := upd_item a (\<lambda>_. ?base) (ss_resendQueue u)\<rparr>"
  define fl where "fl = (ss_flight s)\<lparr>sq_items := sq_items (ss_flight s) @ [new_flight_item (frame_MessageByteCount item)]\<rparr>"
  define t where "t = v\<lparr>ss_flight := fl\<rparr>"
  have e: "new_item m n item s = (a, t)" by (simp add: new_item_def Let_def t_def v_def u_def fl_def a_def allocated_def)
  have "queue_part u H" unfolding u_def by (rule set_item_queue [OF p(1) fr(1)])
  then have "queue_part v H" unfolding v_def by (rule queue_outside [OF _ fr(1)])
  then have q: "queue_part t H" by (simp add: t_def queue_part_def queued_def synced_def)
  have f: "ss_settings t = ss_settings s" "ss_openSendContracts t = ss_openSendContracts s" "ss_contracts t = ss_contracts s"
    "ss_contractCount t = ss_contractCount s" "ss_sendContract t = ss_sendContract s" "ss_items t = (ss_items s)(a := item)"
    "ss_retainedByteCount t = ss_retainedByteCount s" "ss_events t = ss_events s" "ss_sendItems t = ss_sendItems s"
    "ss_nextSequenceNumber t = ss_nextSequenceNumber s" "ss_rttWindow t = ss_rttWindow s" "ss_flight t = fl" "allocated t = Suc a"
    by (simp_all add: t_def v_def u_def fl_def allocated_def a_def)
  have i: "sequenceNumber t x = (if x = a then n else sequenceNumber s x)" "messageId t x = (if x = a then m else messageId s x)" for x
    by (simp_all add: t_def v_def u_def sequenceNumber_def messageId_def upd_item_def set_item_def)
  have "list_part t H"
  proof -
    obtain as where as: "ss_sendItems s = map Some as" "set as = H" "sorted_wrt (\<lambda>a b. sequenceNumber s a < sequenceNumber s b) as"
      using list_part_obtain [OF p(6)] .
    have "sorted_wrt (\<lambda>a b. sequenceNumber t a < sequenceNumber t b) as"
      by (rule sorted_wrt_mono_rel [OF _ as(3)]) (use as(2) fr i(1) in auto)
    moreover have "sequenceNumber s b < ss_nextSequenceNumber s \<and> b < a" if "b \<in> H" for b using p(6) that by (simp add: list_part_def a_def)
    moreover have "unat (ss_nextSequenceNumber s) \<le> a" using p(6) by (simp add: list_part_def a_def)
    ultimately show ?thesis unfolding list_part_def f(9,10,13) using as(1,2) fr i(1) by (auto intro!: exI [of _ as] less_SucI le_SucI)
  qed
  moreover have "flight_part t H"
  proof -
    have "it_unreliableFlightTracked (sq_items fl ! b) \<longrightarrow> b \<in> H" if "b < Suc a" for b
      using p(2) that by (cases "b = a") (auto simp: flight_part_def fl_def nth_append a_def allocated_def new_flight_item_def)
    then show ?thesis using p(2) assms(2,3) unfolding flight_part_def f(12,13) by (auto simp: flight_safe_def fl_def new_flight_item_def)
  qed
  moreover have "contract_part t H P" using p(3) by (rule contract_part_cong [rotated -1]) (use fr f in auto)
  moreover have "retained_part t H" using p(4) by (rule retained_part_cong [rotated -1]) (use fr f in auto)
  moreover have "settle_part t (insert a H)"
    using p(5) unfolding settle_part_def f(8,13) f(6) by (auto simp: a_def [symmetric] less_Suc_eq)
  moreover have "extends s a t" using f i by (simp add: extends_def a_def)
  ultimately show thesis using that [of t] e q i [of a] f unfolding a_def by simp
qed

text \<open>The item \<open>a\<close> is new: it is settled nowhere and in no queue.\<close>

definition draft :: "SendSequence \<Rightarrow> nat set \<Rightarrow> nat \<Rightarrow> nat set \<Rightarrow> (contract_id \<Rightarrow> int) \<Rightarrow> bool" where
  "draft s H a F P \<longleftrightarrow> queue_part s H \<and> list_part s H \<and> flight_part s F \<and> contract_part s H P \<and> retained_part s H
     \<and> settle_part s (insert a H) \<and> window_ok (ss_rttWindow s) \<and> a \<notin> H \<and> a < allocated s"

lemma draft_emit:
  assumes "\<not> settles e" "draft s H a F P"
  shows "draft (emit e s) H a F P"
  using assms(2) emit_parts(1-3) [OF assms(1)] settling_parts [OF emit_parts(4) [OF assms(1)]] settling_fields(3,8) [OF emit_parts(4) [OF assms(1)]]
  by (simp add: draft_def)

lemma observe_change:
  assumes "synced s" "flight_part s F"
  obtains t fl where "quiet s t" "observeCarrierWrite a d now s = t\<lparr>ss_flight := fl\<rparr>" "length (sq_items fl) = length (sq_items (ss_flight t))"
    "flight_part (t\<lparr>ss_flight := fl\<rparr>) (insert a F)"
proof -
  obtain t where t: "quiet s t" "observeCarrierWrite a d now s = with_track (dp_unreliable d) a t" using observeCarrierWrite_quiet [OF assms(1)] by blast
  have f: "flight_part t F" using quiet_parts(3) [OF t(1) assms(2)] .
  obtain fl where fl: "with_track (dp_unreliable d) a t = t\<lparr>ss_flight := fl\<rparr>" "length (sq_items fl) = length (sq_items (ss_flight t))"
    using with_track_change [OF f] by blast
  show thesis using that [of t fl] t fl with_track_parts [OF f, of "dp_unreliable d" a] by simp
qed

lemma flight_stable: "length (sq_items fl) = length (sq_items (ss_flight s)) \<Longrightarrow> steady s (s\<lparr>ss_flight := fl\<rparr>)"
  by (simp add: steady_def allocated_def sequenceNumber_def messageId_def)

lemma observe_ok:
  assumes "synced s" "flight_part s F"
  shows "steady s (observeCarrierWrite a d now s)" "silent s (observeCarrierWrite a d now s)"
    "core (ss_items (observeCarrierWrite a d now s) x) = core (ss_items s x)"
    "ss_contracts (observeCarrierWrite a d now s) = ss_contracts s" "ss_sendItems (observeCarrierWrite a d now s) = ss_sendItems s"
    "draft s H a F P \<Longrightarrow> draft (observeCarrierWrite a d now s) H a (insert a F) P"
    "held s H a P \<Longrightarrow> held (observeCarrierWrite a d now s) H a P"
proof -
  obtain t fl where t: "quiet s t" "observeCarrierWrite a d now s = t\<lparr>ss_flight := fl\<rparr>" "length (sq_items fl) = length (sq_items (ss_flight t))"
    "flight_part (t\<lparr>ss_flight := fl\<rparr>) (insert a F)" using observe_change [OF assms] .
  note q = quiet_fields [OF t(1)] and c = flight_change [OF t(3)]
  show y: "steady s (observeCarrierWrite a d now s)" unfolding t(2) by (rule steady_trans [OF quiet_steady [OF t(1)] flight_stable [OF t(3)]])
  show "silent s (observeCarrierWrite a d now s)" "core (ss_items (observeCarrierWrite a d now s) x) = core (ss_items s x)"
    "ss_contracts (observeCarrierWrite a d now s) = ss_contracts s" "ss_sendItems (observeCarrierWrite a d now s) = ss_sendItems s"
    unfolding t(2) using q by simp_all
  show "draft s H a F P \<Longrightarrow> draft (observeCarrierWrite a d now s) H a (insert a F) P"
    using quiet_parts(1-6) [OF t(1)] c t(4) y unfolding t(2) by (simp add: draft_def steady_def)
  assume h: "held s H a P"
  have "flight_part s H" using h by (simp add: held_def)
  then obtain t' fl' where t': "quiet s t'" "observeCarrierWrite a d now s = t'\<lparr>ss_flight := fl'\<rparr>" "length (sq_items fl') = length (sq_items (ss_flight t'))"
    "flight_part (t'\<lparr>ss_flight := fl'\<rparr>) (insert a H)" using observe_change [OF assms(1)] by metis
  have "insert a H = H" using h by (auto simp: held_def)
  then show "held (observeCarrierWrite a d now s) H a P"
    using held_quiet [OF t'(1) h] flight_change [OF t'(3)] t'(4) flight_stable [OF t'(3)] unfolding t'(2) by (simp add: held_def steady_def)
qed

text \<open>The debit that a message of \<open>n\<close> bytes makes on the current contract.\<close>

definition debit :: "SendSequence \<Rightarrow> int \<Rightarrow> contract_id \<Rightarrow> int" where
  "debit s n c = (if map_option (\<lambda>k. sc_contractId (ss_contracts s k)) (ss_sendContract s) = Some c then max (sb_MinMessageByteCount (ss_settings s)) n else 0)"

lemma contract_part_less:
  assumes "contract_part s C P" "\<And>c. 0 \<le> P' c \<and> P' c \<le> P c"
  shows "contract_part s C P'"
  using assms unfolding contract_part_def by (meson add_left_mono order_trans)

lemma contract_debit:
  assumes "contract_part s H (\<lambda>c. P c + debit s n c)" "\<And>c. 0 \<le> P c" "a \<notin> H" "0 \<le> n" "n \<le> item_bound" "si_messageByteCount (ss_items s a) = n"
    "si_contractId (ss_items s a) = map_option (\<lambda>k. sc_contractId (ss_contracts s k)) (ss_sendContract s)"
  shows "contract_part s (insert a H) P"
proof -
  have f: "finite H" "\<And>k. ss_sendContract s = Some k \<Longrightarrow> ss_openSendContracts s (sc_contractId (ss_contracts s k)) = Some k"
    using assms(1) by (simp_all add: contract_part_def)
  have d: "debt s (insert a H) c = debt s H c + debit s n c" for c
    unfolding debit_def assms(7) [symmetric] using f(1) assms(3,6) by (simp add: debt_def effective_def)
  have o: "c \<in> dom (ss_openSendContracts s)" if "si_contractId (ss_items s a) = Some c" for c using that f(2) assms(7) by auto
  show ?thesis using assms(1,2,4-6) o unfolding contract_part_def d by (auto simp: algebra_simps)
qed

lemma admit_retained_ok:
  assumes "retained_part s H" "a \<notin> H" "\<not> si_retainedReleased (ss_items s a)" "0 < frame_MessageByteCount (ss_items s a)"
    "frame_MessageByteCount (ss_items s a) \<le> item_bound"
  shows "retained_part (admit_retained a s) (insert a H)"
proof -
  let ?n = "frame_MessageByteCount (ss_items s a)"
  have p: "finite H" "ss_retainedByteCount s = (\<Sum>a\<in>H. retained_share s a)"
    "\<forall>a \<in> H. si_retainAfterAckTimeout (ss_items s a) \<longrightarrow> \<not> si_retainedReleased (ss_items s a) \<and> 0 < si_retainedCharge (ss_items s a)"
    "ss_retainedByteCount s \<le> retainCapByteCount s" "0 \<le> retainCapByteCount s" "retainCapByteCount s \<le> 2 ^ 62"
    using assms(1) by (simp_all add: retained_part_def)
  have n: "0 \<le> retained_share s b" if "b \<in> H" for b using p(3) that by (auto simp: retained_share_def)
  have "0 \<le> ss_retainedByteCount s" unfolding p(2) using n by (intro sum_nonneg)
  then have i: "i64 (ss_retainedByteCount s + ?n) = ss_retainedByteCount s + ?n"
    using p(4,6) assms(4,5) by (intro i64_small) (simp_all add: item_bound_def)
  have sh: "(\<Sum>b\<in>H. retained_share (set_item a f s) b) = ss_retainedByteCount s" for f
    unfolding p(2) by (rule sum.cong) (use assms(2) in \<open>auto simp: retained_share_def\<close>)
  have other: "ss_items (set_item a f s) b = ss_items s b" if "b \<in> H" for b f using assms(2) that by auto
  have cap: "retainCapByteCount (set_item a f s) = retainCapByteCount s" for f by (simp add: retainCapByteCount_def)
  show ?thesis
  proof (cases "si_retainAfterAckTimeout (ss_items s a)")
    case False
    then show ?thesis using assms(1,2) p(1) by (simp add: admit_retained_def retained_part_def retained_share_def)
  next
    case True
    show ?thesis
    proof (cases "retainCapByteCount s < ss_retainedByteCount s + ?n")
      case over: True
      let ?t = "set_item a (\<lambda>item. item\<lparr>si_retainAfterAckTimeout := False, si_backstopDeadline := None\<rparr>) s"
      have e: "admit_retained a s = ?t" using True over i by (simp add: admit_retained_def)
      have "retained_share ?t a = 0" by (simp add: retained_share_def)
      then have "(\<Sum>b\<in>insert a H. retained_share ?t b) = ss_retainedByteCount s" using sh p(1) assms(2) by simp
      then show ?thesis unfolding e retained_part_def cap using p other by simp
    next
      case False
      let ?u = "set_item a (\<lambda>item. item\<lparr>si_retainedCharge := ?n\<rparr>) s"
      let ?t = "?u\<lparr>ss_retainedByteCount := ss_retainedByteCount s + ?n\<rparr>"
      have e: "admit_retained a s = ?t" using True False i by (simp add: admit_retained_def Let_def)
      have "retained_share ?t b = retained_share ?u b" for b by (simp add: retained_share_def)
      moreover have "retained_share ?u a = ?n" using True assms(3) by (simp add: retained_share_def)
      ultimately have "(\<Sum>b\<in>insert a H. retained_share ?t b) = ss_retainedByteCount s + ?n" using sh p(1) assms(2) by simp
      moreover have "retainCapByteCount ?t = retainCapByteCount s" by (simp add: retainCapByteCount_def)
      ultimately show ?thesis unfolding e retained_part_def using p other assms(3,4) False by simp
    qed
  qed
qed

lemma admit_retained_keeps:
  assumes "a \<notin> H"
  shows "queue_part s H \<Longrightarrow> queue_part (admit_retained a s) H" "flight_part s F \<Longrightarrow> flight_part (admit_retained a s) F"
    "contract_part s C P \<Longrightarrow> contract_part (admit_retained a s) C P" "settle_part s S \<Longrightarrow> settle_part (admit_retained a s) S"
    "steady s (admit_retained a s)" "ss_sendItems (admit_retained a s) = ss_sendItems s" "silent s (admit_retained a s)"
    "ss_contracts (admit_retained a s) = ss_contracts s"
proof -
  have "(queue_part s H \<longrightarrow> queue_part (admit_retained a s) H)
    \<and> ss_flight (admit_retained a s) = ss_flight s \<and> ss_contracts (admit_retained a s) = ss_contracts s
    \<and> ss_openSendContracts (admit_retained a s) = ss_openSendContracts s \<and> ss_contractCount (admit_retained a s) = ss_contractCount s
    \<and> ss_sendContract (admit_retained a s) = ss_sendContract s \<and> ss_settings (admit_retained a s) = ss_settings s
    \<and> ss_events (admit_retained a s) = ss_events s \<and> ss_sendItems (admit_retained a s) = ss_sendItems s
    \<and> ss_rttWindow (admit_retained a s) = ss_rttWindow s \<and> ss_nextSequenceNumber (admit_retained a s) = ss_nextSequenceNumber s
    \<and> (\<forall>x. sequenceNumber (admit_retained a s) x = sequenceNumber s x \<and> messageId (admit_retained a s) x = messageId s x
       \<and> si_ackCallback (ss_items (admit_retained a s) x) = si_ackCallback (ss_items s x)
       \<and> si_contractId (ss_items (admit_retained a s) x) = si_contractId (ss_items s x)
       \<and> si_messageByteCount (ss_items (admit_retained a s) x) = si_messageByteCount (ss_items s x))"
  proof (cases "si_retainAfterAckTimeout (ss_items s a)")
    case True
    have q: "queue_part (u\<lparr>ss_retainedByteCount := n\<rparr>) H = queue_part u H" for u n by (simp add: queue_part_def queued_def synced_def)
    show ?thesis
    proof (cases "retainCapByteCount s < i64 (ss_retainedByteCount s + frame_MessageByteCount (ss_items s a))")
      case over: True
      then show ?thesis using True set_item_queue [OF _ assms, of s] by (simp add: admit_retained_def)
    next
      case False
      then show ?thesis using True set_item_queue [OF _ assms, of s] q
        by (simp add: admit_retained_def Let_def) (simp add: sequenceNumber_def messageId_def set_item_def)
    qed
  qed (simp add: admit_retained_def)
  note f = this
  have al: "allocated (admit_retained a s) = allocated s" using f by (simp add: allocated_def)
  show "queue_part s H \<Longrightarrow> queue_part (admit_retained a s) H" "ss_sendItems (admit_retained a s) = ss_sendItems s"
    "ss_contracts (admit_retained a s) = ss_contracts s" using f by simp_all
  show "silent s (admit_retained a s)" using f by (simp add: silent_def)
  show "flight_part s F \<Longrightarrow> flight_part (admit_retained a s) F" by (rule flight_part_cong) (use f in simp_all)
  show "contract_part s C P \<Longrightarrow> contract_part (admit_retained a s) C P" by (rule contract_part_cong) (use f in simp_all)
  show "settle_part s S \<Longrightarrow> settle_part (admit_retained a s) S" by (rule settle_part_cong) (use f al in simp_all)
  show "steady s (admit_retained a s)" using f al by (simp add: steady_def)
qed

lemma scaledRtt_some:
  assumes "window_ok w"
  obtains r w' where "scaledRtt now w = Some (r, w')" "window_ok w'"
  using window_ok_queries [OF assms refl, of now] that by (auto simp: scaledRtt_def)

lemma enqueue_ok:
  assumes "draft s H a (insert a H) D" "contract_part s (insert a H) P" "\<not> si_retainedReleased (ss_items s a)"
    "0 < frame_MessageByteCount (ss_items s a)" "frame_MessageByteCount (ss_items s a) \<le> item_bound"
    "\<forall>b \<in> H. messageId s b \<noteq> messageId s a" "\<forall>b \<in> H. sequenceNumber s b < sequenceNumber s a" "sequenceNumber s a < ss_nextSequenceNumber s"
  defines "u \<equiv> (admit_retained a s)\<lparr>ss_sendItems := ss_sendItems (admit_retained a s) @ [Some a]\<rparr>"
  shows "good (queue_add a u) (insert a H) P \<and> steady s (queue_add a u) \<and> silent s (queue_add a u) \<and> ss_contracts (queue_add a u) = ss_contracts s"
proof -
  have d: "queue_part s H" "list_part s H" "flight_part s (insert a H)" "retained_part s H" "settle_part s (insert a H)"
    "window_ok (ss_rttWindow s)" "a \<notin> H" "a < allocated s" using assms(1) by (simp_all add: draft_def)
  define t where "t = admit_retained a s"
  note k = admit_retained_keeps [OF d(7), of s, folded t_def]
  have rt: "retained_part t (insert a H)" using admit_retained_ok [OF d(4,7) assms(3-5)] by (simp add: t_def)
  have u: "u = t\<lparr>ss_sendItems := ss_sendItems s @ [Some a]\<rparr>" using k(6) by (simp add: u_def t_def)
  have sn: "sequenceNumber u x = sequenceNumber s x" "messageId u x = messageId s x" for x
    using k(5) by (simp_all add: u steady_def sequenceNumber_def messageId_def)
  have su: "steady s u" using k(5) by (simp add: u steady_def allocated_def sequenceNumber_def messageId_def)
  have "queue_part u H" using k(1) [OF d(1)] by (simp add: u queue_part_def queued_def synced_def)
  moreover have fr: "\<forall>b \<in> H. messageId u b \<noteq> messageId u a \<and> sequenceNumber u b \<noteq> sequenceNumber u a" using assms(6,7) sn by auto
  ultimately obtain q where q: "queue_add a u = u\<lparr>ss_resendQueue := q\<rparr>" "queue_part (u\<lparr>ss_resendQueue := q\<rparr>) (insert a H)" "same_items (ss_resendQueue u) q"
    using queue_add_parts [OF _ d(7)] by metis
  have "flight_part u (insert a H)" using k(2) [OF d(3)] by (rule flight_part_cong [rotated]) (simp add: u)
  moreover have "contract_part u (insert a H) P" using k(3) [OF assms(2)] by (rule contract_part_cong [rotated -1]) (simp_all add: u)
  moreover have "retained_part u (insert a H)" using rt by (rule retained_part_cong [rotated -1]) (simp_all add: u)
  moreover have "settle_part u (insert a H)" using k(4) [OF d(5)] by (rule settle_part_cong [rotated -1]) (simp_all add: u allocated_def)
  moreover have "list_part u (insert a H)"
  proof -
    obtain as where as: "ss_sendItems s = map Some as" "set as = H" "sorted_wrt (\<lambda>a b. sequenceNumber s a < sequenceNumber s b) as"
      using list_part_obtain [OF d(2)] .
    have "ss_sendItems u = map Some (as @ [a])" using as(1) by (simp add: u)
    moreover have "sorted_wrt (\<lambda>a b. sequenceNumber u a < sequenceNumber u b) (as @ [a])"
      unfolding sn using as(2,3) assms(7) by (simp add: sorted_wrt_append)
    moreover have "set (as @ [a]) = insert a H" using as(2) by simp
    moreover have "ss_nextSequenceNumber u = ss_nextSequenceNumber s" "allocated u = allocated s" using su by (simp_all add: steady_def)
    moreover have "sequenceNumber s b < ss_nextSequenceNumber s \<and> b < allocated s" if "b \<in> insert a H" for b
      using d(2,8) assms(8) that by (auto simp: list_part_def)
    moreover have "unat (ss_nextSequenceNumber s) \<le> allocated s" using d(2) by (simp add: list_part_def)
    ultimately show ?thesis unfolding list_part_def by (metis sn(1))
  qed
  moreover have "window_ok (ss_rttWindow u)" using su d(6) by (simp add: steady_def)
  ultimately have "good (queue_add a u) (insert a H) P" using q(2) queue_change(1-5) [OF q(3)] unfolding q(1) good_def parts_def by simp
  moreover have "steady s (queue_add a u)" using steady_trans [OF su steady_queue [OF q(3)]] unfolding q(1) .
  moreover have "silent s (queue_add a u)" "ss_contracts (queue_add a u) = ss_contracts s" using k(7,8) unfolding q(1) by (simp_all add: u silent_def)
  ultimately show ?thesis by blast
qed

lemma new_item_next: "new_item m n item (s\<lparr>ss_nextSequenceNumber := x\<rparr>) = (case new_item m n item s of (a, t) \<Rightarrow> (a, t\<lparr>ss_nextSequenceNumber := x\<rparr>))"
  by (simp add: new_item_def set_item_def Let_def)

lemma observeLaneSend_items: "ss_items (observeLaneSend a s) = ss_items s"
  by (auto simp: observeLaneSend_def laneSlotFor_def Let_def split: option.splits prod.splits if_splits)

lemma observe_frame: "si_frameByteCount (ss_items (observeCarrierWrite a d now s) x) = si_frameByteCount (ss_items s x)"
  by (simp add: observeCarrierWrite_def Let_def observeLaneSend_items cong: if_cong)

text \<open>The new item, after its write.\<close>

definition written :: "send_env \<Rightarrow> nat \<Rightarrow> SendSequence \<Rightarrow> SendSequence" where
  "written env a s =
     (case en_write env of
        None \<Rightarrow> s
      | Some disposition \<Rightarrow> observeCarrierWrite a disposition (en_clock env 2) (emit (YieldSend (en_frameByteCount env)) (emit (FirstSend (en_frameByteCount env)) s)))"

lemma written_ok:
  assumes "draft s H a H D"
  shows "draft (written env a s) H a (if en_write env = None then H else insert a H) D" "steady s (written env a s)" "silent s (written env a s)"
    "core (ss_items (written env a s) x) = core (ss_items s x)" "ss_contracts (written env a s) = ss_contracts s"
    "si_frameByteCount (ss_items (written env a s) x) = si_frameByteCount (ss_items s x)"
proof -
  let ?n = "en_frameByteCount env"
  define t where "t = emit (YieldSend ?n) (emit (FirstSend ?n) s)"
  have t: "draft t H a H D" using draft_emit [OF _ draft_emit [OF _ assms], of "YieldSend ?n" "FirstSend ?n"] by (simp add: t_def)
  have st: "steady s t" "silent s t" "ss_items t = ss_items s" "ss_contracts t = ss_contracts s"
    by (simp_all add: t_def steady_def silent_def callbacks_def)
  have y: "synced t" "flight_part t H" using t by (simp_all add: draft_def queue_part_def)
  have w: "written env a s = (case en_write env of None \<Rightarrow> s | Some d \<Rightarrow> observeCarrierWrite a d (en_clock env 2) t)"
    unfolding written_def t_def by (rule refl)
  note o = observe_ok [OF y, where a = a]
  show "draft (written env a s) H a (if en_write env = None then H else insert a H) D" "steady s (written env a s)" "silent s (written env a s)"
    "core (ss_items (written env a s) x) = core (ss_items s x)" "ss_contracts (written env a s) = ss_contracts s"
    "si_frameByteCount (ss_items (written env a s) x) = si_frameByteCount (ss_items s x)"
    unfolding w using assms o(1-4) o(6) [OF t] st observe_frame steady_trans [OF st(1) o(1)] silent_trans [OF st(2) o(2)] by (simp_all split: option.split)
qed

lemma draft_next:
  assumes "draft s H a F P" "unat (ss_nextSequenceNumber s) < allocated s" "allocated s < 2 ^ 64"
  shows "draft (s\<lparr>ss_nextSequenceNumber := ss_nextSequenceNumber s + 1\<rparr>) H a F P" "ss_nextSequenceNumber s < ss_nextSequenceNumber s + 1"
    "b \<in> H \<Longrightarrow> sequenceNumber s b < ss_nextSequenceNumber s"
proof -
  let ?n = "ss_nextSequenceNumber s" let ?t = "s\<lparr>ss_nextSequenceNumber := ?n + 1\<rparr>"
  have u: "unat (?n + 1) = unat ?n + 1" using assms(2,3) by (simp add: unat_word_ariths)
  show lt: "?n < ?n + 1" using u by (simp add: word_less_nat_alt)
  have d: "queue_part s H" "list_part s H" "flight_part s F" "contract_part s H P" "retained_part s H" "settle_part s (insert a H)"
    "window_ok (ss_rttWindow s)" "a \<notin> H" "a < allocated s" using assms(1) by (simp_all add: draft_def)
  show "b \<in> H \<Longrightarrow> sequenceNumber s b < ?n" for b using d(2) by (simp add: list_part_def)
  have f: "sequenceNumber ?t x = sequenceNumber s x" "allocated ?t = allocated s" for x by (simp_all add: sequenceNumber_def allocated_def)
  have "queue_part ?t H" using d(1) by (simp add: queue_part_def queued_def synced_def)
  moreover have "list_part ?t H" using d(2) lt u assms(2) unfolding list_part_def f by (auto intro: less_trans)
  moreover have "flight_part ?t F" using d(3) by (rule flight_part_cong [rotated]) simp
  moreover have "contract_part ?t H P" using d(4) by (rule contract_part_cong [rotated -1]) simp_all
  moreover have "retained_part ?t H" using d(5) by (rule retained_part_cong [rotated -1]) simp_all
  moreover have "settle_part ?t (insert a H)" using d(6) by (rule settle_part_cong [rotated -1]) (simp_all add: f)
  ultimately show "draft ?t H a F P" using d(7-9) by (simp add: draft_def f)
qed

definition must_ack :: "bool \<Rightarrow> SendSequence \<Rightarrow> bool" where
  "must_ack ack s \<longleftrightarrow> ack \<or> ss_sendContract s \<noteq> None \<and> \<not> ss_sendContractAcked s"

text \<open>The parts of a send: the new item, the state it is added to, and what follows the write.\<close>

definition send_item :: "send_env \<Rightarrow> int \<Rightarrow> ackFunction option \<Rightarrow> bool \<Rightarrow> bool \<Rightarrow> bool \<Rightarrow> int \<Rightarrow> SendSequence \<Rightarrow> sendItem" where
  "send_item env n callback ack withContract retain rtt s =
   \<lparr>si_messageByteCount = n, si_contractId = map_option (\<lambda>k. sc_contractId (ss_contracts s k)) (ss_sendContract s),
    si_head = must_ack ack s \<and> ss_sendItems s = [],
    si_hasContractFrame = ((must_ack ack s \<and> ss_sendItems s = [] \<or> withContract) \<and> ss_sendContract s \<noteq> None),
    si_sendTime = en_clock env 0, si_resendTime = en_clock env 0 + rtt, si_sendCount = 1,
    si_frameByteCount = en_frameByteCount env, si_ackCallback = callback,
    si_retainAfterAckTimeout = retain, si_retainedCharge = 0, si_retainedReleased = False,
    si_backstopDeadline = (if retain then Some (en_clock env 0 + i64 (sb_AckTimeout (ss_settings s) * 10)) else None),
    si_carrierChanged = False, si_carrierRoute = None, si_unreliableCarrierObserved = False,
    si_reliableCarrierObserved = False, si_reliableRoute = None, si_hybridReliableCarrierObserved = False,
    si_ackTimeout = 0, si_selectiveAcked = False\<rparr>"

definition send_base :: "bool \<Rightarrow> RttWindow \<Rightarrow> SendSequence \<Rightarrow> SendSequence" where
  "send_base ack w s = (if must_ack ack s then s\<lparr>ss_nextSequenceNumber := ss_nextSequenceNumber s + 1, ss_rttWindow := w\<rparr> else s\<lparr>ss_rttWindow := w\<rparr>)"

definition send_rest :: "send_env \<Rightarrow> bool \<Rightarrow> nat \<Rightarrow> SendSequence \<Rightarrow> SendSequence option" where
  "send_rest env ack a u =
     (if ack then Some (queue_add a ((admit_retained a u)\<lparr>ss_sendItems := ss_sendItems (admit_retained a u) @ [Some a]\<rparr>))
      else if en_write env \<noteq> None then ackItemCounted a False u
      else Some (emit (ItemReturned a) (safeAck a False u)))"

lemma send_unfold:
  "sendWithSetContract env n callback ack withContract retain s =
     Option.bind (scaledRtt (en_clock env 1) (ss_rttWindow s)) (\<lambda>(rtt, w).
       case new_item (en_messageId env) (if must_ack ack s then ss_nextSequenceNumber s else 0)
              (send_item env n callback ack withContract retain rtt s) (send_base ack w s) of
         (a, t) \<Rightarrow> send_rest env (must_ack ack s) a (written env a t))"
proof -
  have "(if must_ack ack s then s\<lparr>ss_nextSequenceNumber := ss_nextSequenceNumber s + 1\<rparr> else s)\<lparr>ss_rttWindow := w\<rparr> = send_base ack w s" for w
    by (simp add: send_base_def)
  moreover have "ss_sendContract (send_base ack w s) = ss_sendContract s" "ss_settings (send_base ack w s) = ss_settings s" for w
    by (simp_all add: send_base_def)
  ultimately show ?thesis
    unfolding sendWithSetContract_def Let_def must_ack_def [symmetric] written_def [symmetric] send_rest_def [symmetric]
    by (simp add: send_item_def)
qed

text \<open>Sending up to the write: a new item, which owes its debit.\<close>

lemma send_draft:
  assumes "good s H D" "0 \<le> n" "0 < en_frameByteCount env" "en_frameByteCount env \<le> item_bound" "allocated s + 1 < 2 ^ 64"
  obtains t where
    "sendWithSetContract env n callback ack withContract retain s = send_rest env (must_ack ack s) (allocated s) (written env (allocated s) t)"
    "draft t H (allocated s) H D" "extends s (allocated s) t" "messageId t (allocated s) = en_messageId env" "silent s t"
    "ss_contracts t = ss_contracts s" "ss_sendContract t = ss_sendContract s" "si_messageByteCount (ss_items t (allocated s)) = n" "\<not> si_retainedReleased (ss_items t (allocated s))"
    "si_contractId (ss_items t (allocated s)) = map_option (\<lambda>k. sc_contractId (ss_contracts s k)) (ss_sendContract s)"
    "frame_MessageByteCount (ss_items t (allocated s)) = en_frameByteCount env" "si_frameByteCount (ss_items t (allocated s)) = en_frameByteCount env"
    "si_ackCallback (ss_items t (allocated s)) = callback"
    "must_ack ack s \<longrightarrow> (\<forall>b \<in> H. sequenceNumber t b < sequenceNumber t (allocated s)) \<and> sequenceNumber t (allocated s) < ss_nextSequenceNumber t"
proof -
  define a where "a = allocated s"
  obtain rtt w where w: "scaledRtt (en_clock env 1) (ss_rttWindow s) = Some (rtt, w)" "window_ok w"
    using scaledRtt_some [of "ss_rttWindow s" "en_clock env 1"] assms(1) by (metis good_def)
  define s1 where "s1 = s\<lparr>ss_rttWindow := w\<rparr>"
  have g1: "good s1 H D" using rtt_parts(1) [OF w(2) assms(1)] by (simp add: s1_def)
  have a1: "allocated s1 = a" by (simp add: s1_def a_def allocated_def)
  define m where "m = (if must_ack ack s then ss_nextSequenceNumber s else 0)"
  define item where "item = send_item env n callback ack withContract retain rtt s"
  have fb: "frame_MessageByteCount item = en_frameByteCount env" using assms(3) by (simp add: item_def send_item_def frame_MessageByteCount_def)
  obtain t where t: "new_item (en_messageId env) m item s1 = (a, t)" "queue_part t H" "list_part t H" "flight_part t H" "contract_part t H D"
    "retained_part t H" "settle_part t (insert a H)" "extends s1 a t" "sequenceNumber t a = m" "messageId t a = en_messageId env"
    "ss_items t = (ss_items s1)(a := item)" "ss_rttWindow t = ss_rttWindow s1" "ss_contracts t = ss_contracts s1"
    "ss_nextSequenceNumber t = ss_nextSequenceNumber s1" "ss_events t = ss_events s1" "ss_sendContract t = ss_sendContract s1"
    using new_item_parts [OF g1, of item "en_messageId env" m] fb assms(3,4) unfolding a1 item_bound_def by metis
  have dt: "draft t H a H D"
    using t(2-8,12) w(2) good_fresh(1) [OF assms(1)] by (simp add: draft_def extends_def s1_def a_def)
  have al: "allocated t = Suc a" "unat (ss_nextSequenceNumber t) < allocated t" "allocated t < 2 ^ 64"
    using t(8,14) assms(1,5) by (auto simp: extends_def good_def list_part_def s1_def a_def)
  define t' where "t' = (if must_ack ack s then t\<lparr>ss_nextSequenceNumber := ss_nextSequenceNumber t + 1\<rparr> else t)"
  note dn = draft_next [OF dt al(2,3)]
  have i: "ss_items t' a = item" "sequenceNumber t' x = sequenceNumber t x" "messageId t' x = messageId t x" "allocated t' = allocated t" for x
    using t(11) by (simp_all add: t'_def sequenceNumber_def messageId_def allocated_def)
  have "new_item (en_messageId env) m item (send_base ack w s) = (a, t')"
  proof (cases "must_ack ack s")
    case True
    then have "send_base ack w s = s1\<lparr>ss_nextSequenceNumber := ss_nextSequenceNumber s + 1\<rparr>" by (simp add: send_base_def s1_def)
    then show ?thesis using t(1,14) True by (simp add: new_item_next t'_def s1_def)
  next
    case False
    then show ?thesis using t(1) by (simp add: send_base_def t'_def s1_def)
  qed
  then have e: "sendWithSetContract env n callback ack withContract retain s = send_rest env (must_ack ack s) a (written env a t')"
    using w(1) by (simp add: send_unfold m_def item_def)
  have x: "extends s a t'" using t(8,11) i(2-4)
    by (simp add: extends_def a_def t'_def s1_def allocated_def sequenceNumber_def messageId_def)
  have sq: "(\<forall>b \<in> H. sequenceNumber t' b < sequenceNumber t' a) \<and> sequenceNumber t' a < ss_nextSequenceNumber t'" if "must_ack ack s"
    using that dn(2,3) t(9,14) i(2) by (simp add: t'_def m_def s1_def)
  have "draft t' H a H D" using dt dn(1) by (simp add: t'_def)
  moreover have "silent s t'" "ss_contracts t' = ss_contracts s" "ss_sendContract t' = ss_sendContract s" using t(13,15,16) by (simp_all add: t'_def s1_def)
  ultimately show thesis
    using that [of t', folded a_def] e x sq i(1) t(10) i(3) fb by (simp add: item_def send_item_def)
qed

lemma debit_cong:
  assumes "ss_contracts s' = ss_contracts s" "ss_sendContract s' = ss_sendContract s" "ss_settings s' = ss_settings s"
  shows "debit s' n = debit s n"
  by (rule ext) (simp only: debit_def assms)

lemma send_queued:
  assumes "draft t H a H (\<lambda>c. P c + debit s n c)" "\<And>c. 0 \<le> P c" "0 \<le> n" "n \<le> item_bound" "si_messageByteCount (ss_items t a) = n"
    "si_contractId (ss_items t a) = map_option (\<lambda>k. sc_contractId (ss_contracts s k)) (ss_sendContract s)"
    "ss_settings t = ss_settings s" "ss_contracts t = ss_contracts s" "ss_sendContract t = ss_sendContract s"
  shows "contract_part (written env a t) (insert a H) P"
proof -
  note w = written_ok [OF assms(1), of env]
  have c: "si_messageByteCount (ss_items (written env a t) a) = n"
    "si_contractId (ss_items (written env a t) a) = map_option (\<lambda>k. sc_contractId (ss_contracts s k)) (ss_sendContract s)"
    using core_eq(1,2) [OF w(4), of a] assms(5,6) by simp_all
  have f: "ss_contracts (written env a t) = ss_contracts s" "ss_sendContract (written env a t) = ss_sendContract s" "ss_settings (written env a t) = ss_settings s"
    using w(2,5) assms(7-9) by (simp_all add: steady_def)
  then have "debit (written env a t) n = debit s n" by (rule debit_cong)
  then show ?thesis using contract_debit [of "written env a t" H P n a] w(1) assms(2-4) c f by (simp add: draft_def)
qed

lemma written_frame:
  assumes "draft t H a H D"
  shows "frame_MessageByteCount (ss_items (written env a t) a) = frame_MessageByteCount (ss_items t a)"
  using written_ok(6) [OF assms, of env a] core_eq(1) [OF written_ok(4) [OF assms, of env a]] by (simp add: frame_MessageByteCount_def)

lemma unsent_ok:
  assumes "draft u H a H D" "contract_part u H P"
  shows "good (emit (ItemReturned a) (safeAck a False u)) H P" "stable u (emit (ItemReturned a) (safeAck a False u))"
proof -
  let ?v = "emit (ItemReturned a) (safeAck a False u)"
  note i = settle_item [where a = a and b = False and s = u]
  have d: "queue_part u H" "list_part u H" "flight_part u H" "retained_part u H" "settle_part u (insert a H)" "window_ok (ss_rttWindow u)" "a \<notin> H"
    using assms(1) by (simp_all add: draft_def)
  have "insert a H - {a} = H" using d(7) by simp
  then show "good ?v H P" using billing_parts [OF i(1)] i(2) [OF assms(2)] i(3) [OF d(5)] billing_fields(4) [OF i(1)] d by (simp add: good_def parts_def)
  show "stable u ?v" using billing_fields [OF i(1)] by (simp add: stable_def)
qed

lemma nacked_ok:
  assumes "draft u H a (insert a H) D" "contract_part u (insert a H) P"
  obtains v where "ackItemCounted a False u = Some v" "good v H P" "stable u v" "reports a True u v"
proof -
  have d: "queue_part u H" "list_part u H" "flight_part u (insert a H)" "retained_part u H" "settle_part u (insert a H)" "window_ok (ss_rttWindow u)" "a \<notin> H"
    using assms(1) by (simp_all add: draft_def)
  have h: "insert a H - {a} = H" using d(7) by simp
  obtain v where v: "ackItemCounted a False u = Some v" "settled a u (insert a H) (insert a H) P (insert a H) v" "reports a True u v"
    using ackItemCounted_ok [OF d(3) assms(2) d(5)] by blast
  have g: "settling u v" using v(2) by (simp add: settled_def)
  have "good v H P" using settled_parts [OF v(2) d(1,4,2)] settling_fields(3) [OF g] d(6) h by (simp add: good_def parts_def)
  then show thesis using that v steady_stable [OF steady_settling [OF g]] by blast
qed

lemma sendWithSetContract_ok:
  assumes "good s H (\<lambda>c. P c + debit s n c)" "\<And>c. 0 \<le> P c" "0 \<le> n" "n \<le> item_bound" "0 < en_frameByteCount env" "en_frameByteCount env \<le> item_bound"
    "\<forall>b \<in> H. messageId s b \<noteq> en_messageId env" "allocated s + 1 < 2 ^ 64"
  obtains s' where "sendWithSetContract env n callback ack withContract retain s = Some s'"
    "good s' (if must_ack ack s then insert (allocated s) H else H) P" "extends s (allocated s) s'" "ss_sendContract s' = ss_sendContract s"
    "messageId s' (allocated s) = en_messageId env" "must_ack ack s \<longrightarrow> silent s s' \<and> ss_contracts s' = ss_contracts s"
    "si_ackCallback (ss_items s' (allocated s)) = callback"
    "\<not> must_ack ack s \<longrightarrow> (\<forall>x. callbacks (ss_events s') x = callbacks (ss_events s) x
       @ (if x = allocated s \<and> callback = Some UserCallback then [Callback x (en_write env \<noteq> None)] else []))"
proof -
  define a where "a = allocated s"
  obtain t where e: "sendWithSetContract env n callback ack withContract retain s = send_rest env (must_ack ack s) a (written env a t)"
    and t: "draft t H a H (\<lambda>c. P c + debit s n c)" "extends s a t" "messageId t a = en_messageId env" "silent s t"
    "ss_contracts t = ss_contracts s" "ss_sendContract t = ss_sendContract s" "si_messageByteCount (ss_items t a) = n" "\<not> si_retainedReleased (ss_items t a)"
    "si_contractId (ss_items t a) = map_option (\<lambda>k. sc_contractId (ss_contracts s k)) (ss_sendContract s)"
    "frame_MessageByteCount (ss_items t a) = en_frameByteCount env" "si_frameByteCount (ss_items t a) = en_frameByteCount env"
    "si_ackCallback (ss_items t a) = callback"
    "must_ack ack s \<longrightarrow> (\<forall>b \<in> H. sequenceNumber t b < sequenceNumber t a) \<and> sequenceNumber t a < ss_nextSequenceNumber t"
    using send_draft [OF assms(1,3,5,6,8), of callback ack withContract retain, folded a_def] .
  define u where "u = written env a t"
  note w = written_ok [OF t(1), of env, folded u_def]
  have st: "ss_settings t = ss_settings s" using t(2) by (simp add: extends_def)
  have c: "contract_part u (insert a H) P" using send_queued [OF t(1) assms(2-4) t(7,9) st t(5,6), of env] by (simp add: u_def)
  have a: "a \<notin> H" using t(1) by (simp add: draft_def)
  have xu: "extends s a u" "messageId u a = en_messageId env" "silent s u" "ss_sendContract u = ss_sendContract s" "ss_contracts u = ss_contracts s"
    "si_ackCallback (ss_items u a) = callback"
    using extends_stable(1) [OF t(2) steady_stable [OF w(2)]] w(2,5) t(3,5,6,12) silent_trans [OF t(4) w(3)] by (simp_all add: steady_def)
  show thesis
  proof (cases "must_ack ack s")
    case True
    have du: "draft u H a (insert a H) (\<lambda>c. P c + debit s n c)"
      using w(1) flight_part_mono [of u H "insert a H"] by (auto simp: draft_def split: if_splits)
    have rel: "\<not> si_retainedReleased (ss_items u a)" using core_eq(7) [OF w(4), of a] t(8) by simp
    have fb: "frame_MessageByteCount (ss_items u a) = en_frameByteCount env" using written_frame [OF t(1), of env] t(10) by (simp add: u_def)
    have "\<forall>b \<in> H. messageId u b \<noteq> messageId u a" using assms(7) xu(1,2) a unfolding extends_def by metis
    moreover have "\<forall>b \<in> H. sequenceNumber u b < sequenceNumber u a" "sequenceNumber u a < ss_nextSequenceNumber u"
      using t(13) True w(2) by (simp_all add: steady_def)
    ultimately have q: "good v (insert a H) P \<and> steady u v \<and> silent u v \<and> ss_contracts v = ss_contracts u"
      if "v = queue_add a ((admit_retained a u)\<lparr>ss_sendItems := ss_sendItems (admit_retained a u) @ [Some a]\<rparr>)" for v
      using enqueue_ok [OF du c rel] fb assms(5,6) that by simp
    define v where "v = queue_add a ((admit_retained a u)\<lparr>ss_sendItems := ss_sendItems (admit_retained a u) @ [Some a]\<rparr>)"
    note q = q [OF v_def]
    have ev: "sendWithSetContract env n callback ack withContract retain s = Some v" using e True by (simp add: send_rest_def v_def u_def)
    show ?thesis by (rule that [OF ev, folded a_def])
      (use True q xu extends_stable(1) [OF xu(1) steady_stable, of v] silent_trans [OF xu(3), of v] in \<open>auto simp: steady_def\<close>)
  next
    case False
    show ?thesis
    proof (cases "en_write env = None")
      case True
      have du: "draft u H a H (\<lambda>c. P c + debit s n c)" using w(1) True by simp
      have "0 \<le> debit s n c" for c using assms(3) by (auto simp: debit_def)
      then have "contract_part u H P" using du contract_part_less [of u H "\<lambda>c. P c + debit s n c" P] assms(2) by (simp add: draft_def)
      note o = unsent_ok [OF du this]
      have ev: "sendWithSetContract env n callback ack withContract retain s = Some (emit (ItemReturned a) (safeAck a False u))"
        using e False True by (simp add: send_rest_def u_def)
      show ?thesis by (rule that [OF ev, folded a_def])
        (use False True o xu extends_stable(1) [OF xu(1) o(2)] settle_reports [of a False u] in \<open>auto simp: stable_def reports_def silent_def\<close>)
    next
      case ok: False
      have du: "draft u H a (insert a H) (\<lambda>c. P c + debit s n c)" using w(1) ok by simp
      obtain v where v: "ackItemCounted a False u = Some v" "good v H P" "stable u v" "reports a True u v" using nacked_ok [OF du c] .
      have ev: "sendWithSetContract env n callback ack withContract retain s = Some v" using e False ok v(1) by (simp add: send_rest_def u_def)
      show ?thesis by (rule that [OF ev, folded a_def])
        (use False ok v xu extends_stable(1) [OF xu(1) v(3)] in \<open>auto simp: stable_def reports_def silent_def\<close>)
    qed
  qed
qed

section \<open>Contracts\<close>

lemma contract_update_ok:
  assumes "contract_update now n c = (True, d)" "0 \<le> sc_ackedByteCount c" "0 \<le> sc_unackedByteCount c"
    "sc_ackedByteCount c + sc_unackedByteCount c \<le> 2 ^ 62" "0 \<le> sc_minUpdateByteCount c" "sc_minUpdateByteCount c \<le> item_bound" "n \<le> item_bound"
  shows "d = c\<lparr>sc_unackedByteCount := sc_unackedByteCount c + max (sc_minUpdateByteCount c) n\<rparr>"
    "sc_ackedByteCount c + sc_unackedByteCount c + max (sc_minUpdateByteCount c) n \<le> sc_effectiveTransferByteCount c"
proof -
  let ?e = "max (sc_minUpdateByteCount c) n"
  have e: "0 \<le> ?e" "?e \<le> 2 ^ 31" using assms(5-7) by (simp_all add: item_bound_def)
  have i: "i64 (sc_ackedByteCount c + sc_unackedByteCount c) = sc_ackedByteCount c + sc_unackedByteCount c"
    "i64 (sc_ackedByteCount c + sc_unackedByteCount c + ?e) = sc_ackedByteCount c + sc_unackedByteCount c + ?e"
    "i64 (sc_unackedByteCount c + ?e) = sc_unackedByteCount c + ?e"
    using assms(2-4) e by (auto intro!: i64_small)
  show "d = c\<lparr>sc_unackedByteCount := sc_unackedByteCount c + ?e\<rparr>" "sc_ackedByteCount c + sc_unackedByteCount c + ?e \<le> sc_effectiveTransferByteCount c"
    using assms(1) unfolding contract_update_def Let_def i by (auto split: if_splits)
qed

lemma billing_good:
  assumes "billing s s'" "ss_events s' = ss_events s" "good s H P" "contract_part s' H P'"
  shows "good s' H P'"
proof -
  have "settle_part s' H" by (rule settle_part_cong [of s' s]) (use assms billing_fields [OF assms(1)] in \<open>simp_all add: good_def parts_def\<close>)
  then show ?thesis using assms(3,4) billing_parts [OF assms(1)] billing_fields(4) [OF assms(1)] by (simp add: good_def parts_def)
qed

text \<open>A message is debited on the current contract.\<close>

lemma spend_ok:
  assumes "good s H P" "ss_sendContract s = Some k" "contract_update now n (ss_contracts s k) = (True, d)" "n \<le> item_bound"
  shows "good (upd_contract k d s) H (\<lambda>c. P c + debit (upd_contract k d s) n c)" "sc_contractId d = sc_contractId (ss_contracts s k)"
proof -
  let ?t = "upd_contract k d s" and ?c = "ss_contracts s k"
  have cp: "contract_part s H P" using assms(1) by (simp add: good_def parts_def)
  then have o: "ss_openSendContracts s (sc_contractId ?c) = Some k" and m: "1 \<le> sb_MinMessageByteCount (ss_settings s)" "sb_MinMessageByteCount (ss_settings s) \<le> item_bound"
    using assms(2) by (simp_all add: contract_part_def)
  have ok: "contract_ok s (sc_contractId ?c) k" using cp o by (simp add: contract_part_def)
  note u = contract_update_ok [OF assms(3)]
  have d: "d = ?c\<lparr>sc_unackedByteCount := sc_unackedByteCount ?c + max (sb_MinMessageByteCount (ss_settings s)) n\<rparr>"
    "sc_ackedByteCount ?c + sc_unackedByteCount ?c + max (sb_MinMessageByteCount (ss_settings s)) n \<le> sc_effectiveTransferByteCount ?c"
    using u ok m assms(4) by (simp_all add: contract_ok_def Let_def)
  then show id: "sc_contractId d = sc_contractId ?c" by simp
  have cs: "ss_contracts ?t = (ss_contracts s)(k := d)" "ss_openSendContracts ?t = ss_openSendContracts s" "ss_settings ?t = ss_settings s"
    "ss_contractCount ?t = ss_contractCount s" "ss_sendContract ?t = ss_sendContract s" "ss_items ?t = ss_items s" by (simp_all add: upd_contract_def)
  have db: "debit ?t n c = (if c = sc_contractId ?c then max (sb_MinMessageByteCount (ss_settings s)) n else 0)" for c
    using assms(2) id by (simp add: debit_def cs)
  have dt: "debt ?t H c = debt s H c" for c unfolding debt_def effective_def cs by (rule refl)
  have "contract_ok ?t c k' \<and> debt ?t H c + (P c + debit ?t n c) \<le> sc_unackedByteCount (ss_contracts ?t k')" if "ss_openSendContracts s c = Some k'" for c k'
  proof -
    have k': "contract_ok s c k'" "debt s H c + P c \<le> sc_unackedByteCount (ss_contracts s k')" using cp that by (simp_all add: contract_part_def)
    show ?thesis
    proof (cases "c = sc_contractId ?c")
      case True
      then have "k' = k" using that o by simp
      then show ?thesis using True k' ok d m unfolding dt db by (simp add: contract_ok_def Let_def cs)
    next
      case False
      then have "k' \<noteq> k" using k'(1) by (auto simp: contract_ok_def Let_def)
      then show ?thesis using False k' unfolding dt db by (simp add: contract_ok_def Let_def cs)
    qed
  qed
  moreover have "0 \<le> P c + debit ?t n c" for c using cp m unfolding db by (auto simp: contract_part_def)
  ultimately have "contract_part ?t H (\<lambda>c. P c + debit ?t n c)" using cp assms(2) o id unfolding contract_part_def cs by auto
  then show "good ?t H (\<lambda>c. P c + debit ?t n c)" by (rule billing_good [OF upd_contract_fields(8,7) assms(1)])
qed

text \<open>The current contract is closed when it is settled, and the new one takes its place.\<close>

lemma close_current:
  assumes "contract_part s H no_debits" "ss_sendContract s = Some k" "sc_unackedByteCount (ss_contracts s k) = 0" "a \<in> H"
  shows "si_contractId (ss_items s a) \<noteq> Some (sc_contractId (ss_contracts s k))"
proof
  let ?c = "sc_contractId (ss_contracts s k)"
  assume c: "si_contractId (ss_items s a) = Some ?c"
  have "ss_openSendContracts s ?c = Some k" using assms(1,2) by (simp add: contract_part_def)
  then have "debt s H ?c + no_debits ?c \<le> sc_unackedByteCount (ss_contracts s k)" using assms(1) unfolding contract_part_def by blast
  then have "debt s H ?c \<le> 0" using assms(3) by (simp add: no_debits_def)
  then show False using debt_nonneg(2) [OF assms(1) subset_refl assms(4) c] effective_bounds(1) [OF assms(1,4)] by simp
qed

definition closed_current :: "SendSequence \<Rightarrow> SendSequence" where
  "closed_current s =
     (case ss_sendContract s of
        None \<Rightarrow> s
      | Some k \<Rightarrow>
          if sc_unackedByteCount (ss_contracts s k) = 0
          then emit (CloseContract (sc_contractId (ss_contracts s k)) (sc_ackedByteCount (ss_contracts s k)) (sc_unackedByteCount (ss_contracts s k)))
                 (s\<lparr>ss_openSendContracts := (ss_openSendContracts s)(sc_contractId (ss_contracts s k) := None)\<rparr>)
          else s)"

lemma setContract_unfold:
  "setContract k s = (closed_current s)\<lparr>ss_openSendContracts := (ss_openSendContracts (closed_current s))(sc_contractId (ss_contracts s k) \<mapsto> k),
     ss_sendContract := Some k, ss_sendContractAcked := False\<rparr>"
  by (simp add: setContract_def closed_current_def Let_def split: option.split)

lemma closed_current_fields:
  "ss_settings (closed_current s) = ss_settings s" "ss_resendQueue (closed_current s) = ss_resendQueue s" "ss_flight (closed_current s) = ss_flight s"
  "ss_rttWindow (closed_current s) = ss_rttWindow s" "ss_items (closed_current s) = ss_items s" "ss_sendItems (closed_current s) = ss_sendItems s"
  "ss_nextSequenceNumber (closed_current s) = ss_nextSequenceNumber s" "ss_retainedByteCount (closed_current s) = ss_retainedByteCount s"
  "ss_contracts (closed_current s) = ss_contracts s" "ss_contractCount (closed_current s) = ss_contractCount s"
  "callbacks (ss_events (closed_current s)) x = callbacks (ss_events s) x"
  "count_list (ss_events (closed_current s)) (ItemReturned x) = count_list (ss_events s) (ItemReturned x)"
  "ss_openSendContracts (closed_current s) c = (if \<exists>k. ss_sendContract s = Some k \<and> sc_unackedByteCount (ss_contracts s k) = 0
     \<and> sc_contractId (ss_contracts s k) = c then None else ss_openSendContracts s c)"
  by (auto simp: closed_current_def callbacks_def split: option.split)

definition kept :: "SendSequence \<Rightarrow> SendSequence \<Rightarrow> bool" where
  "kept s s' \<longleftrightarrow> ss_settings s' = ss_settings s \<and> allocated s' = allocated s
     \<and> (\<forall>x. sequenceNumber s' x = sequenceNumber s x \<and> messageId s' x = messageId s x
       \<and> si_ackCallback (ss_items s' x) = si_ackCallback (ss_items s x))"

lemma stable_kept: "stable s t \<Longrightarrow> kept s t"
  by (simp add: stable_def kept_def)

lemma kept_extends: "kept s t \<Longrightarrow> extends t a u \<Longrightarrow> extends s a u"
  by (simp add: kept_def extends_def)

lemma install_contract:
  assumes "good s H no_debits" "sc_contractId d \<notin> dom (ss_openSendContracts s)" "sc_minUpdateByteCount d = sb_MinMessageByteCount (ss_settings s)"
    "sc_ackedByteCount d = 0" "sc_unackedByteCount d = n" "0 \<le> n" "n \<le> sc_effectiveTransferByteCount d" "sc_effectiveTransferByteCount d \<le> 2 ^ 62"
  defines "k \<equiv> ss_contractCount s"
  defines "t \<equiv> setContract k (upd_contract k d (s\<lparr>ss_contractCount := k + 1\<rparr>))"
  shows "good t H (\<lambda>c. if c = sc_contractId d then n else 0)" "ss_sendContract t = Some k" "ss_contracts t k = d" "kept s t" "silent s t"
proof -
  define s1 where "s1 = upd_contract k d (s\<lparr>ss_contractCount := k + 1\<rparr>)"
  have f1: "ss_settings s1 = ss_settings s" "ss_items s1 = ss_items s" "ss_openSendContracts s1 = ss_openSendContracts s" "ss_sendContract s1 = ss_sendContract s"
    "ss_contracts s1 = (ss_contracts s)(k := d)" "ss_contractCount s1 = k + 1" "ss_events s1 = ss_events s" "ss_resendQueue s1 = ss_resendQueue s"
    "ss_flight s1 = ss_flight s" "ss_rttWindow s1 = ss_rttWindow s" "ss_sendItems s1 = ss_sendItems s" "ss_nextSequenceNumber s1 = ss_nextSequenceNumber s"
    "ss_retainedByteCount s1 = ss_retainedByteCount s" by (simp_all add: s1_def upd_contract_def)
  note cc = closed_current_fields [of s1]
  have t: "t = (closed_current s1)\<lparr>ss_openSendContracts := (ss_openSendContracts (closed_current s1))(sc_contractId d \<mapsto> k),
     ss_sendContract := Some k, ss_sendContractAcked := False\<rparr>"
    using setContract_unfold [of k s1] f1(5) by (simp add: t_def s1_def)
  have f: "ss_settings t = ss_settings s" "ss_items t = ss_items s" "ss_sendContract t = Some k" "ss_contracts t = (ss_contracts s)(k := d)"
    "ss_contractCount t = k + 1" "ss_resendQueue t = ss_resendQueue s"
    "ss_flight t = ss_flight s" "ss_rttWindow t = ss_rttWindow s" "ss_sendItems t = ss_sendItems s" "ss_nextSequenceNumber t = ss_nextSequenceNumber s"
    "ss_retainedByteCount t = ss_retainedByteCount s" "callbacks (ss_events t) x = callbacks (ss_events s) x"
    "count_list (ss_events t) (ItemReturned x) = count_list (ss_events s) (ItemReturned x)" for x
    by (simp_all add: t cc f1)
  have g: "queue_part s H" "flight_part s H" "contract_part s H no_debits" "retained_part s H" "settle_part s H" "list_part s H" "window_ok (ss_rttWindow s)"
    using assms(1) by (simp_all add: good_def parts_def)
  have al: "allocated t = allocated s" "sequenceNumber t x = sequenceNumber s x" "messageId t x = messageId s x" for x
    using f by (simp_all add: allocated_def sequenceNumber_def messageId_def)
  have ok: "contract_ok s c k'" "k' < k" if "ss_openSendContracts s c = Some k'" for c k'
    using g(3) that by (auto simp: contract_part_def contract_ok_def Let_def k_def)
  have cur: "ss_openSendContracts s (sc_contractId (ss_contracts s k')) = Some k'" if "ss_sendContract s = Some k'" for k' using g(3) that by (simp add: contract_part_def)
  have cur1: "ss_contracts s1 k' = ss_contracts s k'" if "ss_sendContract s = Some k'" for k' using ok(2) [OF cur [OF that]] by (simp add: f1)
  have op: "ss_openSendContracts t c = (if c = sc_contractId d then Some k else if \<exists>k'. ss_sendContract s = Some k' \<and> sc_unackedByteCount (ss_contracts s k') = 0
     \<and> sc_contractId (ss_contracts s k') = c then None else ss_openSendContracts s c)" for c
    using cur1 by (simp add: t cc f1(3,4)) metis
  have dt: "debt t H c = debt s H c" for c unfolding debt_def effective_def f by (rule refl)
  have none: "si_contractId (ss_items s a) \<noteq> Some (sc_contractId d)" if "a \<in> H" for a using g(3) assms(2) that by (auto simp: contract_part_def)
  have d0: "debt s H (sc_contractId d) = 0" unfolding debt_def using none by (intro sum.neutral) auto
  have "contract_ok t c k' \<and> debt t H c + (if c = sc_contractId d then n else 0) \<le> sc_unackedByteCount (ss_contracts t k')"
    if "ss_openSendContracts t c = Some k'" for c k'
  proof (cases "c = sc_contractId d")
    case True
    then have "k' = k" using that op by simp
    then show ?thesis using True assms(3-8) d0 unfolding dt by (simp add: contract_ok_def Let_def f)
  next
    case False
    then have o: "ss_openSendContracts s c = Some k'" using that op by (auto split: if_splits)
    then have "debt s H c + no_debits c \<le> sc_unackedByteCount (ss_contracts s k')" using g(3) unfolding contract_part_def by blast
    then show ?thesis using False ok [OF o] unfolding dt by (auto simp: contract_ok_def Let_def f no_debits_def)
  qed
  moreover have "c \<in> dom (ss_openSendContracts t)" if "a \<in> H" "si_contractId (ss_items s a) = Some c" for a c
  proof -
    have "c \<in> dom (ss_openSendContracts s)" using g(3) that unfolding contract_part_def by blast
    moreover have "\<not> (\<exists>k'. ss_sendContract s = Some k' \<and> sc_unackedByteCount (ss_contracts s k') = 0 \<and> sc_contractId (ss_contracts s k') = c)"
      using close_current [OF g(3)] that by metis
    ultimately show ?thesis by (auto simp: op)
  qed
  moreover have "ss_openSendContracts t (sc_contractId d) = Some k" by (simp add: op)
  ultimately have cp: "contract_part t H (\<lambda>c. if c = sc_contractId d then n else 0)"
    using g(3) assms(6) unfolding contract_part_def f by (auto simp: fun_upd_same)
  have "queue_part t H" using g(1) by (simp add: queue_part_def queued_def synced_def f)
  moreover have "flight_part t H" using g(2) by (rule flight_part_cong [rotated]) (simp add: f)
  moreover have "retained_part t H" using g(4) by (rule retained_part_cong [rotated -1]) (simp_all add: f)
  moreover have "settle_part t H" using g(5) unfolding settle_part_def al f by simp
  moreover have "list_part t H" using g(6) by (rule list_part_cong [rotated -1]) (simp_all add: f al)
  ultimately show "good t H (\<lambda>c. if c = sc_contractId d then n else 0)" using cp g(7) by (simp add: good_def parts_def f)
  show "ss_sendContract t = Some k" "ss_contracts t k = d" "kept s t" "silent s t" using f al by (simp_all add: kept_def silent_def)
qed

text \<open>What the world may hand out: sizes and lengths within bounds, and a message id that is not in use.\<close>

definition env_ok :: "SendSequence \<Rightarrow> nat set \<Rightarrow> send_env \<Rightarrow> bool" where
  "env_ok s H env \<longleftrightarrow> 0 < en_frameByteCount env \<and> en_frameByteCount env \<le> item_bound \<and> (\<forall>b \<in> H. messageId s b \<noteq> en_messageId env)"

definition attempt_ok :: "SendSequence \<Rightarrow> nat set \<Rightarrow> contract_attempt \<Rightarrow> bool" where
  "attempt_ok s H attempt \<longleftrightarrow> env_ok s H (at_env attempt) \<and> (\<forall>c n d. at_contract attempt = Some (c, n, d) \<longrightarrow> n \<le> 2 ^ 62)"

lemma env_ok_kept: "kept s t \<Longrightarrow> env_ok t H env = env_ok s H env" "kept s t \<Longrightarrow> attempt_ok t H attempt = attempt_ok s H attempt"
  by (simp_all add: env_ok_def kept_def attempt_ok_def)

text \<open>The outcomes of the search for a contract.\<close>

definition searched :: "SendSequence \<Rightarrow> nat set \<Rightarrow> int \<Rightarrow> send_env list \<Rightarrow> bool \<Rightarrow> SendSequence \<Rightarrow> bool" where
  "searched s H n envs b s' \<longleftrightarrow> silent s s' \<and> (if b
     then good s' (insert (allocated s) H) (debit s' n) \<and> extends s (allocated s) s' \<and> ss_sendContract s' \<noteq> None
       \<and> messageId s' (allocated s) \<in> en_messageId ` set envs
     else good s' H no_debits \<and> stable s s')"

lemma setNextContract_ok:
  assumes "good s H no_debits" "attempt_ok s H attempt" "at_contract attempt = Some contract" "0 \<le> n" "n \<le> item_bound" "allocated s + 1 < 2 ^ 64"
  obtains b s' where "setNextContract attempt contract n s = Some (b, s')" "searched s H n [at_env attempt] b s'"
proof -
  define c where "c = newSequenceContract contract (sb_MinMessageByteCount (ss_settings s))"
  have c: "sc_minUpdateByteCount c = sb_MinMessageByteCount (ss_settings s)" "sc_ackedByteCount c = 0" "sc_unackedByteCount c = 0"
    "sc_effectiveTransferByteCount c \<le> 2 ^ 62"
    using assms(2,3) by (auto simp: c_def newSequenceContract_def attempt_ok_def split: prod.split)
  have m: "1 \<le> sb_MinMessageByteCount (ss_settings s)" "sb_MinMessageByteCount (ss_settings s) \<le> item_bound"
    using assms(1) by (simp_all add: good_def parts_def contract_part_def)
  let ?refuse = "emit (CloseContract (sc_contractId c) 0 0) s"
  have r: "searched s H n [at_env attempt] False ?refuse" "searched s H n [at_env attempt] False s"
    using good_emit [of "CloseContract (sc_contractId c) 0 0" s H no_debits] assms(1) by (simp_all add: searched_def stable_def)
  note defs = setNextContract_def Let_def c_def [symmetric]
  show thesis
  proof (cases "sc_contractId c \<in> dom (ss_openSendContracts s) \<or> contractExpiredAt (sc_expirationTimeUnixMilli c) (at_clock attempt 0 div 10 ^ 6)")
    case True
    then show ?thesis using that r by (cases "sc_contractId c \<in> dom (ss_openSendContracts s)") (auto simp: defs)
  next
    case fresh: False
    obtain b1 d1 where u1: "contract_update (at_clock attempt 1) 0 c = (b1, d1)" by fastforce
    obtain b2 d2 where u2: "contract_update (at_clock attempt 2) n d1 = (b2, d2)" by fastforce
    show ?thesis
    proof (cases "b1 \<and> b2")
      case False
      then show ?thesis using that [OF _ r(1)] fresh u1 u2 by (cases b1; cases b2) (simp_all add: defs)
    next
      case True
      let ?M = "sb_MinMessageByteCount (ss_settings s)"
      have d1: "d1 = c\<lparr>sc_unackedByteCount := max ?M 0\<rparr>" using contract_update_ok(1) [of _ 0 c d1] u1 True c m by (simp add: item_bound_def)
      have d2: "d2 = d1\<lparr>sc_unackedByteCount := max ?M 0 + max ?M n\<rparr>" "max ?M 0 + max ?M n \<le> sc_effectiveTransferByteCount c"
        using contract_update_ok [of _ n d1 d2] u2 True c m assms(5) d1 by (auto simp: item_bound_def)
      define k where "k = ss_contractCount s"
      define t where "t = setContract k (upd_contract k d2 (s\<lparr>ss_contractCount := k + 1\<rparr>))"
      have idd: "sc_contractId d2 = sc_contractId c" using d1 d2(1) by simp
      have pre: "sc_contractId d2 \<notin> dom (ss_openSendContracts s)" "sc_minUpdateByteCount d2 = ?M" "sc_ackedByteCount d2 = 0"
        "sc_unackedByteCount d2 = max ?M 0 + max ?M n" "0 \<le> max ?M 0 + max ?M n" "max ?M 0 + max ?M n \<le> sc_effectiveTransferByteCount d2"
        "sc_effectiveTransferByteCount d2 \<le> 2 ^ 62"
        using d1 d2 c fresh idd m(1) by (simp_all only: sequenceContract.simps) auto
      note i = install_contract [OF assms(1) pre, folded k_def, folded t_def]
      have st: "ss_settings t = ss_settings s" "allocated t = allocated s" using i(4) by (simp_all add: kept_def)
      have deb: "debit t x y = (if y = sc_contractId d2 then max ?M x else 0)" for x y using i(2,3) st(1) by (simp add: debit_def)
      have "(\<lambda>y. if y = sc_contractId d2 then max ?M 0 + max ?M n else 0) = (\<lambda>y. debit t n y + debit t 0 y)" by (auto simp: deb)
      then have gt: "good t H (\<lambda>y. debit t n y + debit t 0 y)" using i(1) by simp
      have env: "env_ok t H (at_env attempt)" using env_ok_kept(1) [OF i(4)] assms(2) by (simp add: attempt_ok_def)
      have pn: "0 \<le> debit t n y" for y using m(1) by (auto simp: deb)
      have pre': "(0::int) \<le> 0" "(0::int) \<le> item_bound" "0 < en_frameByteCount (at_env attempt)" "en_frameByteCount (at_env attempt) \<le> item_bound"
        "\<forall>b \<in> H. messageId t b \<noteq> en_messageId (at_env attempt)" "allocated t + 1 < 2 ^ 64"
        using env assms(6) st(2) by (simp_all add: env_ok_def item_bound_def)
      obtain s' where s': "sendWithSetContract (at_env attempt) 0 (Some (ContractOpen k)) True True False t = Some s'"
        "good s' (if must_ack True t then insert (allocated t) H else H) (debit t n)" "extends t (allocated t) s'" "ss_sendContract s' = ss_sendContract t"
        "messageId s' (allocated t) = en_messageId (at_env attempt)" "must_ack True t \<longrightarrow> silent t s' \<and> ss_contracts s' = ss_contracts t"
        using sendWithSetContract_ok [OF gt pn pre', of "Some (ContractOpen k)" True True False] by blast
      have ma: "must_ack True t" by (simp add: must_ack_def)
      have "debit s' n = debit t n" by (rule debit_cong) (use s'(3,4,6) ma in \<open>simp_all add: extends_def\<close>)
      then have "searched s H n [at_env attempt] True s'"
        using s' ma st(2) i(2) kept_extends [OF i(4) s'(3)] silent_trans [OF i(5), of s'] by (simp add: searched_def)
      moreover have "setNextContract attempt contract n s = Some (True, s')" using fresh u1 u2 True s'(1) by (simp add: defs t_def k_def)
      ultimately show ?thesis using that by blast
    qed
  qed
qed

lemma searched_emit:
  assumes "\<not> settles e" "searched s H n envs b t"
  shows "searched s H n envs b (emit e t)"
proof -
  have "debit (emit e t) n = debit t n" by (rule debit_cong) simp_all
  moreover have "stable t (emit e t)" "silent t (emit e t)" using assms(1) by (simp_all add: stable_def)
  ultimately show ?thesis
    using assms(2) good_emit [OF assms(1)] extends_stable(1) [of s "allocated s" t "emit e t"] stable_trans [of s t "emit e t"] silent_trans [of s t "emit e t"]
    by (auto simp: searched_def stable_def)
qed

lemma searched_index:
  assumes "searched s H n envs b t"
  shows "searched s H n envs b (t\<lparr>ss_contractSeqIndex := i\<rparr>)"
proof -
  let ?t = "t\<lparr>ss_contractSeqIndex := i\<rparr>"
  have q: "quiet t ?t" by (simp add: quiet_def)
  have "debit ?t n = debit t n" by (rule debit_cong) simp_all
  moreover have "stable t ?t" "silent t ?t" using steady_stable [OF quiet_steady [OF q]] by simp_all
  ultimately show ?thesis
    using assms good_quiet [OF q] extends_stable(1) [of s "allocated s" t ?t] stable_trans [of s t ?t] silent_trans [of s t ?t]
    by (auto simp: searched_def stable_def)
qed

lemma nextContract_ok:
  assumes "good s H no_debits" "attempt_ok s H attempt" "0 \<le> n" "n \<le> item_bound" "allocated s + 1 < 2 ^ 64"
  obtains b s' where "nextContract attempt n s = Some (b, s')" "searched s H n [at_env attempt] b s'"
proof (cases "at_contract attempt")
  case None
  then show thesis using that [of False s] assms(1) by (simp add: nextContract_def searched_def)
next
  case (Some contract)
  obtain b t where t: "setNextContract attempt contract n s = Some (b, t)" "searched s H n [at_env attempt] b t"
    using setNextContract_ok [OF assms(1,2) Some assms(3-5)] .
  let ?u = "request_contract (t\<lparr>ss_contractSeqIndex := ss_contractSeqIndex t + 1\<rparr>)"
  have "searched s H n [at_env attempt] b ?u" unfolding request_contract_def by (rule searched_emit [OF _ searched_index [OF t(2)]]) simp
  then show thesis using that [of b "if b then ?u else t"] t Some by (cases b) (simp_all add: nextContract_def)
qed

lemma searched_later:
  assumes "searched t H n envs b u" "stable s t" "silent s t" "set envs \<subseteq> set envs'"
  shows "searched s H n envs' b u"
proof -
  have "allocated t = allocated s" using assms(2) by (simp add: stable_def)
  then show ?thesis
    using assms stable_trans [OF assms(2), of u] kept_extends [OF stable_kept [OF assms(2)], of "allocated s" u] silent_trans [OF assms(3), of u]
    by (auto simp: searched_def split: if_splits)
qed

lemma createContract_ok:
  assumes "good s H no_debits" "\<forall>attempt \<in> set attempts. attempt_ok s H attempt" "0 \<le> n" "n \<le> item_bound" "allocated s + 1 < 2 ^ 64"
  shows "\<exists>b s'. createContract attempts n s = Some (b, s') \<and> searched s H n (map at_env attempts) b s'"
  using assms
proof (induction attempts arbitrary: s)
  case Nil
  then show ?case by (intro exI [of _ False] exI [of _ s]) (simp add: searched_def)
next
  case (Cons attempt attempts)
  define s1 where "s1 = (if at_requested attempt then request_contract s else s)"
  have s1: "good s1 H no_debits" "stable s s1" "silent s s1"
    using Cons.prems(1) good_emit [of "RequestContract (ss_contractSeqIndex s)" s H] by (simp_all add: s1_def request_contract_def stable_def)
  have ok: "attempt_ok s1 H x = attempt_ok s H x" for x using env_ok_kept(2) [OF stable_kept [OF s1(2)]] .
  have al: "allocated s1 = allocated s" using s1(2) by (simp add: stable_def)
  obtain b t where t: "nextContract attempt n s1 = Some (b, t)" "searched s1 H n [at_env attempt] b t"
    using nextContract_ok [OF s1(1), of attempt n] Cons.prems ok al by auto
  show ?case
  proof (cases b)
    case True
    then show ?thesis using t(1) searched_later [OF t(2) s1(2,3), of "map at_env (attempt # attempts)"]
      by (intro exI [of _ True] exI [of _ t]) (simp add: s1_def)
  next
    case False
    have g: "good t H no_debits" "stable s1 t" "silent s1 t" using t(2) False by (simp_all add: searched_def)
    have okt: "attempt_ok t H x = attempt_ok s H x" for x using env_ok_kept(2) [OF stable_kept [OF g(2)]] ok by simp
    obtain b' s' where s': "createContract attempts n t = Some (b', s')" "searched t H n (map at_env attempts) b' s'"
      using Cons.IH [OF g(1)] Cons.prems okt al g(2) by (auto simp: stable_def)
    have "searched s H n (map at_env (attempt # attempts)) b' s'"
      by (rule searched_later [OF s'(2) stable_trans [OF s1(2) g(2)] silent_trans [OF s1(3) g(3)]]) auto
    then show ?thesis using t(1) s'(1) False by (intro exI [of _ b'] exI [of _ s']) (simp add: s1_def)
  qed
qed

text \<open>The state after the contract is found: the message may be sent, and owes its debit.\<close>

definition contracted :: "SendSequence \<Rightarrow> nat set \<Rightarrow> int \<Rightarrow> send_env list \<Rightarrow> SendSequence \<Rightarrow> nat set \<Rightarrow> bool" where
  "contracted s H n envs t H' \<longleftrightarrow> good t H' (debit t n) \<and> H \<subseteq> H' \<and> silent s t \<and> ss_settings t = ss_settings s \<and> allocated s \<le> allocated t
     \<and> allocated t \<le> allocated s + 1 \<and> (\<forall>x \<in> H. messageId t x = messageId s x) \<and> (\<forall>x \<in> H' - H. messageId t x \<in> en_messageId ` set envs)"

lemma debit_none: "ss_sendContract s = None \<Longrightarrow> debit s n = no_debits"
  by (simp add: debit_def no_debits_def fun_eq_iff)

text \<open>
  The one message that cannot be sent: a contract is needed, the current one (if any) does not take
  the message, and it does not fit into a standard contract either. The code panics then.
\<close>

definition too_large :: "bool \<Rightarrow> int \<Rightarrow> int \<Rightarrow> int \<Rightarrow> SendSequence \<Rightarrow> bool" where
  "too_large noContract standard now n s \<longleftrightarrow> \<not> noContract
     \<and> (case ss_sendContract s of None \<Rightarrow> True | Some k \<Rightarrow> \<not> fst (contract_update now n (ss_contracts s k)))
     \<and> standard < n + sb_MinMessageByteCount (ss_settings s)"

lemma message_fits:
  assumes "good s H no_debits" "0 \<le> n" "n \<le> item_bound"
  shows "i64 (n + sb_MinMessageByteCount (ss_settings s)) = n + sb_MinMessageByteCount (ss_settings s)"
proof -
  have "1 \<le> sb_MinMessageByteCount (ss_settings s)" "sb_MinMessageByteCount (ss_settings s) \<le> item_bound"
    using assms(1) by (simp_all add: good_def parts_def contract_part_def)
  then show ?thesis using assms(2,3) by (intro i64_small) (simp_all add: item_bound_def)
qed

lemma updateContract_too_large:
  assumes "good s H no_debits" "0 \<le> n" "n \<le> item_bound" "too_large noContract standard now n s"
  shows "updateContract noContract standard attempts now n s = None"
  using assms(4) message_fits [OF assms(1-3)] unfolding too_large_def updateContract_def Let_def
  by (cases "ss_sendContract s") (auto split: prod.split bool.split)

lemma updateContract_ok:
  assumes "good s H no_debits" "\<forall>attempt \<in> set attempts. attempt_ok s H attempt" "0 \<le> n" "n \<le> item_bound" "allocated s + 1 < 2 ^ 64"
    "noContract \<longrightarrow> ss_sendContract s = None" "\<not> too_large noContract standard now n s"
  obtains b t where "updateContract noContract standard attempts now n s = Some (b, t)"
    "\<not> b \<longrightarrow> good t H no_debits \<and> stable s t \<and> silent s t" "b \<longrightarrow> (\<exists>H'. contracted s H n (map at_env attempts) t H')"
    "noContract \<longrightarrow> b \<and> ss_sendContract t = None"
proof (cases noContract)
  case True
  then have "contracted s H n (map at_env attempts) s H" using assms(1,6) by (simp add: contracted_def debit_none)
  then show thesis using that [of True s] True assms(6) by (auto simp: updateContract_def)
next
  case False
  note fits = message_fits [OF assms(1,3,4)]
  obtain b t where t: "createContract attempts n s = Some (b, t)" "searched s H n (map at_env attempts) b t"
    using createContract_ok [OF assms(1-5)] by blast
  have tb: "\<not> b \<longrightarrow> good t H no_debits \<and> stable s t \<and> silent s t" using t(2) by (simp add: searched_def)
  have tc: "contracted s H n (map at_env attempts) t (insert (allocated s) H)" if b
  proof -
    have x: "good t (insert (allocated s) H) (debit t n)" "extends s (allocated s) t" "silent s t" "messageId t (allocated s) \<in> en_messageId ` set (map at_env attempts)"
      using t(2) that by (simp_all add: searched_def)
    have "messageId t x = messageId s x" if "x \<in> H" for x using x(2) that good_fresh(1) [OF assms(1)] unfolding extends_def by metis
    then show ?thesis using x good_fresh(1) [OF assms(1)] by (auto simp: contracted_def extends_def)
  qed
  show thesis
  proof (cases "\<exists>k d. ss_sendContract s = Some k \<and> contract_update now n (ss_contracts s k) = (True, d)")
    case True
    then obtain k d where k: "ss_sendContract s = Some k" "contract_update now n (ss_contracts s k) = (True, d)" by blast
    have "good (upd_contract k d s) H (debit (upd_contract k d s) n)"
      using spend_ok(1) [OF assms(1) k assms(4)] by (simp add: no_debits_def)
    then have "contracted s H n (map at_env attempts) (upd_contract k d s) H"
      using billing_fields [OF upd_contract_fields(8) [of s k d]] by (simp add: contracted_def)
    moreover have "updateContract noContract standard attempts now n s = Some (True, upd_contract k d s)" using False k by (simp add: updateContract_def)
    ultimately show ?thesis using that [of True] False by blast
  next
    case none: False
    have "updateContract noContract standard attempts now n s = createContract attempts n s"
    proof (cases "ss_sendContract s")
      case None
      then show ?thesis using False fits assms(7) by (simp add: updateContract_def Let_def too_large_def)
    next
      case (Some k)
      obtain b' d where u: "contract_update now n (ss_contracts s k) = (b', d)" by fastforce
      with none Some have "\<not> b'" by auto
      then show ?thesis using False Some u fits assms(7) by (simp add: updateContract_def Let_def too_large_def)
    qed
    then have e: "updateContract noContract standard attempts now n s = Some (b, t)" using t(1) by simp
    show ?thesis by (rule that [OF e tb]) (use tc False in auto)
  qed
qed

lemma send_message_ok:
  assumes "good s H no_debits" "\<forall>attempt \<in> set attempts. attempt_ok s H attempt" "env_ok s H env"
    "en_messageId env \<notin> en_messageId ` at_env ` set attempts"
    "0 \<le> pk_messageByteCount pack" "pk_messageByteCount pack \<le> item_bound" "allocated s + 2 < 2 ^ 64"
    "noContract \<longrightarrow> ss_sendContract s = None" "\<not> too_large noContract standard now (pk_messageByteCount pack) s"
  obtains b s' H' where "send_message noContract standard attempts now env pack s = Some (b, s')" "good s' H' no_debits" "H \<subseteq> H'"
    "ss_settings s' = ss_settings s" "allocated s' \<le> allocated s + 2" "noContract \<longrightarrow> ss_sendContract s' = None"
proof -
  let ?n = "pk_messageByteCount pack"
  obtain b t where t: "updateContract noContract standard attempts now ?n s = Some (b, t)"
    "\<not> b \<longrightarrow> good t H no_debits \<and> stable s t \<and> silent s t" "b \<longrightarrow> (\<exists>H'. contracted s H ?n (map at_env attempts) t H')"
    "noContract \<longrightarrow> b \<and> ss_sendContract t = None"
    using updateContract_ok [OF assms(1,2,5,6) _ assms(8,9)] assms(7) by auto
  show thesis
  proof (cases b)
    case False
    then have "good (emit PackRefused t) H no_debits" "stable s t" using t(2) good_emit [of PackRefused t H no_debits] by simp_all
    then show ?thesis using that [of False "emit PackRefused t" H] t(1,4) False by (auto simp: send_message_def stable_def)
  next
    case True
    then obtain H' where c: "contracted s H ?n (map at_env attempts) t H'" using t(3) by blast
    have g: "good t H' (\<lambda>c. no_debits c + debit t ?n c)" using c by (simp add: contracted_def no_debits_def)
    have "\<forall>x \<in> H. messageId t x = messageId s x" "\<forall>x \<in> H' - H. messageId t x \<in> en_messageId ` at_env ` set attempts"
      using c by (simp_all add: contracted_def)
    then have "messageId t x \<noteq> en_messageId env" if "x \<in> H'" for x
      using assms(3,4) that unfolding env_ok_def by (metis DiffI)
    then have e: "\<forall>b \<in> H'. messageId t b \<noteq> en_messageId env" by blast
    have f: "0 < en_frameByteCount env" "en_frameByteCount env \<le> item_bound" "allocated t + 1 < 2 ^ 64" "\<And>c. 0 \<le> no_debits c"
      using assms(3,7) c by (simp_all add: env_ok_def contracted_def no_debits_def)
    obtain s' where s': "sendWithSetContract env ?n (pk_ackCallback pack) (pk_ack pack) False (pk_retainAfterAckTimeout pack) t = Some s'"
      "good s' (if must_ack (pk_ack pack) t then insert (allocated t) H' else H') no_debits" "extends t (allocated t) s'" "ss_sendContract s' = ss_sendContract t"
      using sendWithSetContract_ok [OF g f(4) assms(5,6) f(1,2) e f(3)] by metis
    show ?thesis
      by (rule that [OF _ s'(2)]) (use t(1,4) True s' c in \<open>auto simp: send_message_def contracted_def extends_def\<close>)
  qed
qed

section \<open>Resending\<close>

lemma held_flight:
  assumes "held s H a P" "length (sq_items fl) = length (sq_items (ss_flight s))" "flight_safe fl" "in_flight fl \<subseteq> in_flight (ss_flight s)"
  shows "held (s\<lparr>ss_flight := fl\<rparr>) H a P" "steady s (s\<lparr>ss_flight := fl\<rparr>)"
proof -
  have "flight_part s H" using assms(1) by (simp add: held_def)
  then have "flight_part (s\<lparr>ss_flight := fl\<rparr>) H" using assms(3,4) by (auto simp: flight_part_iff)
  then show "held (s\<lparr>ss_flight := fl\<rparr>) H a P"
    using assms(1) flight_change [OF assms(2)] flight_stable [OF assms(2)] by (simp add: held_def steady_def)
  show "steady s (s\<lparr>ss_flight := fl\<rparr>)" by (rule flight_stable [OF assms(2)])
qed

lemma apply_policy_ok:
  assumes "held s H a P"
  shows "held (apply_policy policy s) H a P" "steady s (apply_policy policy s)"
proof -
  have "flight_safe (ss_flight s)" using assms by (simp add: held_def flight_part_def)
  then obtain c where c: "sq_flightController (ss_flight s) = Some c" "limits_ok c" by (auto simp: flight_safe_def)
  note k = controller_safe [OF \<open>flight_safe (ss_flight s)\<close> c(1) applyPolicy_ok(1) [OF c(2)]]
  show "held (apply_policy policy s) H a P" "steady s (apply_policy policy s)"
    unfolding apply_policy_def using held_flight [OF assms, of "(ss_flight s)\<lparr>sq_flightController := Some (snd (applyPolicy policy c))\<rparr>"] k c(1) by simp_all
qed

lemma set_frame_ok:
  assumes "held s H a P" "0 < n" "n \<le> item_bound"
  shows "held (set_frame a n s) H a P" "steady s (set_frame a n s)" "silent s (set_frame a n s)"
proof -
  define u where "u = set_item a (\<lambda>item. item\<lparr>si_frameByteCount := n\<rparr>) s"
  have c: "core ((\<lambda>item. item\<lparr>si_frameByteCount := n\<rparr>) (ss_items s a)) = core ((ss_items s a)\<lparr>si_resendTime := si_resendTime (ss_items s a)\<rparr>)" by (simp add: core_def)
  have hu: "held u H a P" "steady s u"
    unfolding u_def by (rule held_set_item [where f = "\<lambda>item. item\<lparr>si_frameByteCount := n\<rparr>", OF c assms(1)],
      rule steady_set_item [where f = "\<lambda>item. item\<lparr>si_frameByteCount := n\<rparr>" and s = s, OF c])
  have fb: "frame_MessageByteCount (ss_items u a) = n" using assms(2) by (simp add: u_def frame_MessageByteCount_def)
  define f where "f = (\<lambda>item :: transferItem. item\<lparr>ti_messageByteCount := n, ti_queueByteCount := n\<rparr>)"
  define v where "v = u\<lparr>ss_resendQueue := upd_item a f (ss_resendQueue u)\<rparr>"
  have i: "sequenceNumber v x = sequenceNumber u x" "messageId v x = messageId u x" "allocated v = allocated u" for x
    by (simp_all add: v_def f_def sequenceNumber_def messageId_def upd_item_def allocated_def)
  have hv: "held v H a P"
  proof -
    have h: "queue_part u (H - {a})" "flight_part u H" "contract_part u H P" "retained_part u H" "settle_part u H" "list_part u H"
      using hu(1) by (simp_all add: held_def)
    have "queue_part v (H - {a})" unfolding v_def by (rule queue_outside [OF h(1)]) simp
    moreover have "flight_part v H" using h(2) by (rule flight_part_cong [rotated]) (simp add: v_def)
    moreover have "contract_part v H P" using h(3) by (rule contract_part_cong [rotated -1]) (simp_all add: v_def)
    moreover have "retained_part v H" using h(4) by (rule retained_part_cong [rotated -1]) (simp_all add: v_def)
    moreover have "settle_part v H" using h(5) by (rule settle_part_cong [rotated -1]) (simp_all add: i, simp_all add: v_def)
    moreover have "list_part v H" using h(6) by (rule list_part_cong [rotated -1]) (simp_all add: i, simp_all add: v_def)
    ultimately show ?thesis using hu(1) by (simp add: held_def i) (simp add: v_def)
  qed
  let ?items = "sq_items (ss_flight s)"
  define fl where "fl = (ss_flight s)\<lparr>sq_items := ?items[a := (?items ! a)\<lparr>it_byteCount := n\<rparr>]\<rparr>"
  have fv: "ss_flight v = ss_flight s" by (simp add: v_def u_def)
  have e: "set_frame a n s = v\<lparr>ss_flight := fl\<rparr>"
    using fb by (simp add: set_frame_def Let_def u_def [symmetric] v_def f_def fl_def) (simp add: u_def)
  have l: "length (sq_items fl) = length (sq_items (ss_flight v))" by (simp add: fl_def fv)
  have "flight_safe (ss_flight s)" using assms(1) by (simp add: held_def flight_part_def)
  then have sf: "flight_safe fl" using assms(2,3) by (auto simp: flight_safe_def fl_def item_bound_def dest!: set_update_subset_insert [THEN subsetD])
  have "it_unreliableFlightTracked (?items[a := (?items ! a)\<lparr>it_byteCount := n\<rparr>] ! x) = it_unreliableFlightTracked (?items ! x)" for x
    by (cases "x = a"; cases "a < length ?items") (simp_all add: list_update_beyond)
  then have fi: "in_flight fl \<subseteq> in_flight (ss_flight v)" by (simp add: in_flight_def fl_def fv)
  show "held (set_frame a n s) H a P" unfolding e by (rule held_flight(1) [OF hv l sf fi])
  have "steady u v" using i by (simp add: steady_def) (simp add: v_def)
  then show "steady s (set_frame a n s)" unfolding e using steady_trans [OF hu(2) steady_trans [OF _ held_flight(2) [OF hv l sf fi]]] by blast
  show "silent s (set_frame a n s)" unfolding e by (simp add: v_def u_def)
qed

lemma resend_at_ok:
  fixes t
  assumes "held s H a P"
  defines "u \<equiv> queue_add a (set_item a (\<lambda>item. item\<lparr>si_resendTime := t\<rparr>) s)"
  shows "good u H P" "stable s u" "silent s u"
proof -
  have c: "core ((\<lambda>item. item\<lparr>si_resendTime := t\<rparr>) (ss_items s a)) = core ((ss_items s a)\<lparr>si_resendTime := t\<rparr>)" by simp
  have h: "held (set_item a (\<lambda>item. item\<lparr>si_resendTime := t\<rparr>) s) H a P" by (rule held_set_item [where f = "\<lambda>item. item\<lparr>si_resendTime := t\<rparr>", OF c assms(1)])
  note r = reattach [OF h, folded u_def]
  show "good u H P" by (rule r(1))
  have "steady s (set_item a (\<lambda>item. item\<lparr>si_resendTime := t\<rparr>) s)" by (rule steady_set_item [where f = "\<lambda>item. item\<lparr>si_resendTime := t\<rparr>" and s = s, OF c])
  then show "stable s u" using steady_stable steady_trans r(2) by blast
  have "silent s (set_item a (\<lambda>item. item\<lparr>si_resendTime := t\<rparr>) s)" by simp
  then show "silent s u" using silent_trans r(4) by blast
qed

lemma reschedule_ok:
  assumes "held s H a P"
  obtains s' where "reschedule a sendTime itemAckTimeout now sendCount s = Some s'" "good s' H P" "stable s s'" "silent s s'"
proof -
  have "window_ok (ss_rttWindow s)" using assms by (simp add: held_def)
  then obtain rtt w where w: "scaledRtt now (ss_rttWindow s) = Some (rtt, w)" "window_ok w" using scaledRtt_some by metis
  have h: "held (s\<lparr>ss_rttWindow := w\<rparr>) H a P" by (rule rtt_parts(2) [OF w(2) assms])
  let ?timeout = "resendBackoff rtt sendCount (sb_MaxResendInterval (ss_settings s))"
  let ?t = "if \<not> si_retainAfterAckTimeout (ss_items s a) \<and> itemAckTimeout \<le> ?timeout then itemAckTimeout else ?timeout"
  note r = resend_at_ok [OF h, of "sendTime + ?t"]
  show thesis
    by (rule that [OF _ r(1) stable_trans [OF stable_rtt(1) r(2)] silent_trans [OF _ r(3)]]) (simp_all add: reschedule_def w(1) Let_def)
qed

lemma resend_write_ok:
  assumes "held s H a P"
  obtains s' where "resend_write a env itemAckTimeout s = Some s'" "good s' H P" "stable s s'" "silent s s'"
proof -
  define s1 where "s1 = apply_policy (re_policy env) s"
  have h1: "held s1 H a P" "steady s s1" using apply_policy_ok [OF assms] by (simp_all add: s1_def)
  have "flight_safe (ss_flight s1)" using h1(1) by (simp add: held_def flight_part_def)
  then obtain b fl where fl: "observeUnreliableResendTimeout a (re_policy env) (ss_flight s1) = Some (b, fl)" "flight_safe fl"
    "length (sq_items fl) = length (sq_items (ss_flight s1))" "in_flight fl \<subseteq> in_flight (ss_flight s1)" using timeout_safe by metis
  define tracked where "tracked \<longleftrightarrow> a < length (sq_items (ss_flight s1)) \<and> it_unreliableFlightTracked (sq_items (ss_flight s1) ! a)"
  define s2 where "s2 = (if tracked then s1\<lparr>ss_flight := fl\<rparr> else s1)"
  have h2: "held s2 H a P" "steady s1 s2" using held_flight [OF h1(1) fl(3,2,4)] h1(1) by (simp_all add: s2_def)
  define n where "n = si_frameByteCount (ss_items s2 a)"
  define s3 where "s3 = (if re_writeError env then emit RefundRetry s2 else s2)"
  have h3: "held s3 H a P" "steady s2 s3" "silent s2 s3" using h2(1) held_emit [OF _ h2(1), of RefundRetry] by (simp_all add: s3_def steady_def)
  let ?d = "re_write env"
  define s4 where "s4 = (if dp_transportType ?d \<noteq> '''' \<or> dp_unreliable ?d \<or> dp_reliable ?d
    then emit (YieldSend n) (observeCarrierWrite a ?d (re_clock env 1) s3) else s3)"
  have y3: "synced s3" "flight_part s3 H" using h3(1) by (simp_all add: held_def queue_part_def)
  note o = observe_ok [OF y3, where a = a and d = ?d and now = "re_clock env 1"]
  have h4: "held s4 H a P" "steady s3 s4" "silent s3 s4"
  proof -
    have "held (emit (YieldSend n) (observeCarrierWrite a ?d (re_clock env 1) s3)) H a P" by (rule held_emit [OF _ o(7) [OF h3(1)]]) simp
    moreover have "steady s3 (emit (YieldSend n) (observeCarrierWrite a ?d (re_clock env 1) s3))"
      by (rule steady_trans [OF o(1)]) (simp add: steady_def)
    moreover have "silent s3 (emit (YieldSend n) (observeCarrierWrite a ?d (re_clock env 1) s3))" by (rule silent_trans [OF o(2)]) simp
    ultimately show "held s4 H a P" "steady s3 s4" "silent s3 s4" using h3(1) by (simp_all add: s4_def)
  qed
  define s5 where "s5 = emit (Resend n (si_sendCount (ss_items s4 a) + 1)) s4"
  have h5: "held s5 H a P" "steady s4 s5" "silent s4 s5" using held_emit [OF _ h4(1)] by (simp_all add: s5_def steady_def)
  let ?f = "\<lambda>item. item\<lparr>si_sendCount := si_sendCount item + 1\<rparr>"
  define s6 where "s6 = set_item a ?f s5"
  have c: "core (?f (ss_items s5 a)) = core ((ss_items s5 a)\<lparr>si_resendTime := si_resendTime (ss_items s5 a)\<rparr>)" by (simp add: core_def)
  have h6: "held s6 H a P" "steady s5 s6" "silent s5 s6"
    using held_set_item [where f = ?f, OF c h5(1)] steady_set_item [where f = ?f and s = s5, OF c] by (simp_all add: s6_def)
  define m where "m = sb_MaxResendCount (ss_settings s6)"
  have st: "stable s s6"
    using steady_stable [OF steady_trans [OF h1(2) steady_trans [OF h2(2) steady_trans [OF h3(2) steady_trans [OF h4(2) steady_trans [OF h5(2) h6(2)]]]]]] .
  have "silent s s1" "silent s1 s2" by (simp_all add: s1_def apply_policy_def s2_def)
  then have si: "silent s s6" using silent_trans h3(3) h4(3) h5(3) h6(3) by metis
  obtain u where u: "reschedule a (re_sendTime env) itemAckTimeout (re_clock env 2) (si_sendCount (ss_items s6 a)) s6 = Some u"
    "good u H P" "stable s6 u" "silent s6 u" using reschedule_ok [OF h6(1)] .
  define v where "v = queue_add a (set_item a (\<lambda>item. item\<lparr>si_resendTime := re_sendTime env + sb_AckTimeout (ss_settings s6)\<rparr>) s6)"
  have v: "good v H P" "stable s6 v" "silent s6 v" unfolding v_def by (rule resend_at_ok [OF h6(1)])+
  have two: "(if a < length (sq_items (ss_flight s1)) \<and> it_unreliableFlightTracked (sq_items (ss_flight s1) ! a)
    then map_option (\<lambda>(_, fl). s1\<lparr>ss_flight := fl\<rparr>) (observeUnreliableResendTimeout a (re_policy env) (ss_flight s1)) else Some s1) = Some s2"
    using fl(1) by (simp add: s2_def tracked_def)
  have e: "resend_write a env itemAckTimeout s = Some (if 0 < m \<and> m \<le> si_sendCount (ss_items s6 a) then v else u)"
    unfolding resend_write_def Let_def s1_def [symmetric] two bind.simps n_def [symmetric] s3_def [symmetric] s4_def [symmetric] s5_def [symmetric]
      s6_def [symmetric] m_def [symmetric] v_def [symmetric] u(1) by simp
  show thesis by (rule that [OF e]) (use u v stable_trans [OF st] silent_trans [OF si] in auto)
qed

definition resend_env_ok :: "resend_env \<Rightarrow> bool" where
  "resend_env_ok env \<longleftrightarrow> (\<forall>n. re_head env = Some n \<longrightarrow> 0 < n \<and> n \<le> item_bound)"

lemma resend_due_ok:
  assumes "good s H P" "a \<in> H" "resend_env_ok env"
  obtains r s' H' where "resend_due a env itemAckTimeout s = Some (r, s')" "good s' H' P" "H' \<subseteq> H" "stable s s'"
proof -
  obtain as where as: "ss_sendItems s = map Some as" "set as = H" using list_part_obtain [of s H] assms(1) by (metis good_def)
  then obtain first rest where f: "as = first # rest" using assms(2) by (cases as) auto
  define isHead where "isHead \<longleftrightarrow> sequenceNumber s first = sequenceNumber s a"
  obtain q where q: "queue_remove (messageId s a) s = Some (Some a, s\<lparr>ss_resendQueue := q\<rparr>)" "held (s\<lparr>ss_resendQueue := q\<rparr>) H a P"
    using detach [OF assms(1,2)] .
  define t where "t = s\<lparr>ss_resendQueue := q\<rparr>"
  have t: "held t H a P" "stable s t"
  proof -
    show "held t H a P" using q(2) by (simp add: t_def)
    obtain q' where q': "queue_remove (messageId s a) s = Some (Some a, s\<lparr>ss_resendQueue := q'\<rparr>)" "steady s (s\<lparr>ss_resendQueue := q'\<rparr>)"
      using queue_removed [of s H P a] assms(1,2) by (metis good_def)
    then have "s\<lparr>ss_resendQueue := q'\<rparr> = t" using q(1) by (simp add: t_def)
    then show "stable s t" using steady_stable [OF q'(2)] by simp
  qed
  have due: "resend_due a env itemAckTimeout s =
    (if isHead \<and> \<not> si_head (ss_items s a)
     then (case setHead a env s of
             None \<Rightarrow> None
           | Some None \<Rightarrow> map_option (\<lambda>s. (ExitHeadError, s)) (dropItem a s)
           | Some (Some n) \<Rightarrow> map_option (\<lambda>s. (Again, s)) (resend_write a env itemAckTimeout
               (set_frame a n (set_item a (\<lambda>item. item\<lparr>si_head := True\<rparr>) (emit (FrameReturned a) t)))))
     else if \<not> resendIsFree (si_sendCount (ss_items t a)) isHead \<and> \<not> re_allowed env
     then map_option (\<lambda>s. (Again, s)) (reschedule a (re_sendTime env) itemAckTimeout (re_clock env 0) (si_sendCount (ss_items t a) + 1)
            (emit (ResendDeferred (si_frameByteCount (ss_items t a))) t))
     else map_option (\<lambda>s. (Again, s)) (resend_write a env itemAckTimeout t))"
    unfolding resend_due_def as(1) f by (simp add: Let_def isHead_def q(1) t_def cong: option.case_cong)
  show thesis
  proof (cases "isHead \<and> \<not> si_head (ss_items s a)")
    case True
    have cp: "contract_part s H P" using assms(1) by (simp add: good_def parts_def)
    have sh: "setHead a env s = Some (re_head env)" using item_contract_eq(2) [OF cp assms(2)] by (auto simp: setHead_def)
    show ?thesis
    proof (cases "re_head env")
      case None
      obtain s' where s': "dropItem a s = Some s'" "good s' (H - {a}) P" "stable s s'" using dropItem_ok [OF assms(1,2)] .
      show ?thesis by (rule that [OF _ s'(2) _ s'(3)]) (use due True sh None s'(1) in auto)
    next
      case (Some n)
      have n: "0 < n" "n \<le> item_bound" using assms(3) Some by (simp_all add: resend_env_ok_def)
      let ?f = "\<lambda>item. item\<lparr>si_head := True\<rparr>"
      define u where "u = emit (FrameReturned a) t"
      have u: "held u H a P" "stable t u" using held_emit [OF _ t(1), of "FrameReturned a"] by (simp_all add: u_def stable_def)
      define v where "v = set_item a ?f u"
      have c: "core (?f (ss_items u a)) = core ((ss_items u a)\<lparr>si_resendTime := si_resendTime (ss_items u a)\<rparr>)" by (simp add: core_def)
      have v: "held v H a P" "steady u v"
        using held_set_item [where f = ?f, OF c u(1)] steady_set_item [where f = ?f and s = u, OF c] by (simp_all add: v_def)
      note w = set_frame_ok [OF v(1) n]
      obtain s' where s': "resend_write a env itemAckTimeout (set_frame a n v) = Some s'" "good s' H P" "stable (set_frame a n v) s'"
        using resend_write_ok [OF w(1)] by metis
      have "stable s s'"
        using stable_trans [OF t(2) stable_trans [OF u(2) stable_trans [OF steady_stable [OF v(2)] stable_trans [OF steady_stable [OF w(2)] s'(3)]]]] .
      then show ?thesis using that [of Again s' H] due True sh Some s'(1,2) by (simp add: v_def u_def)
    qed
  next
    case nohead: False
    show ?thesis
    proof (cases "\<not> resendIsFree (si_sendCount (ss_items t a)) isHead \<and> \<not> re_allowed env")
      case True
      let ?u = "emit (ResendDeferred (si_frameByteCount (ss_items t a))) t"
      have u: "held ?u H a P" "stable t ?u" using held_emit [OF _ t(1)] by (simp_all add: stable_def)
      obtain s' where s': "reschedule a (re_sendTime env) itemAckTimeout (re_clock env 0) (si_sendCount (ss_items t a) + 1) ?u = Some s'"
        "good s' H P" "stable ?u s'" using reschedule_ok [OF u(1)] by metis
      show ?thesis
        by (rule that [OF _ s'(2) subset_refl stable_trans [OF t(2) stable_trans [OF u(2) s'(3)]]])
          (simp only: due nohead True s'(1) if_False if_True option.map simp_thms)
    next
      case False
      obtain s' where s': "resend_write a env itemAckTimeout t = Some s'" "good s' H P" "stable t s'" using resend_write_ok [OF t(1)] by metis
      show ?thesis
        by (rule that [OF _ s'(2) subset_refl stable_trans [OF t(2) s'(3)]])
          (simp only: due nohead False s'(1) if_False if_True option.map simp_thms)
    qed
  qed
qed

lemma resend_next_ok:
  assumes "good s H P" "resend_env_ok env"
  obtains r s' H' where "resend_next env s = Some (r, s')" "good s' H' P" "H' \<subseteq> H" "stable s s'"
proof (cases "PeekFirst (ss_resendQueue s)")
  case None
  then show thesis using that [of Wait s H] assms(1) by (simp add: resend_next_def)
next
  case (Some a)
  have "queue_part s H" using assms(1) by (simp add: good_def parts_def)
  then have aH: "a \<in> H" using Some nth_mem [of 0 "tq_orderedItems (ss_resendQueue s)"] by (auto simp: queue_part_def queued_def PeekFirst_def split: if_splits)
  obtain t where t: "dropItem a s = Some t" "good t (H - {a}) P" "stable s t" using dropItem_ok [OF assms(1) aH] .
  obtain r s' H' where s': "resend_due a env (time_Sub (si_sendTime (ss_items s a) + sb_AckTimeout (ss_settings s)) (re_sendTime env)) s = Some (r, s')"
    "good s' H' P" "H' \<subseteq> H" "stable s s'" using resend_due_ok [OF assms(1) aH assms(2)] .
  show thesis
  proof (cases "past_backstop a (re_sendTime env) s")
    case True
    show ?thesis by (rule that [OF _ t(2) _ t(3)]) (use Some True t(1) in \<open>auto simp: resend_next_def\<close>)
  next
    case False
    let ?timeout = "time_Sub (si_sendTime (ss_items s a) + sb_AckTimeout (ss_settings s)) (re_sendTime env)"
    have e: "resend_next env s =
      (if ?timeout \<le> 0 \<and> \<not> si_retainAfterAckTimeout (ss_items s a) then Some (ExitAckTimeout, s)
       else if re_sendTime env < si_resendTime (ss_items s a) then Some (Wait, s) else Some (r, s'))"
      using Some False s'(1) by (simp add: resend_next_def Let_def)
    consider "resend_next env s = Some (ExitAckTimeout, s)" | "resend_next env s = Some (Wait, s)" | "resend_next env s = Some (r, s')"
      using e by presburger
    then show ?thesis using that [OF _ assms(1) subset_refl stable_refl] that [OF _ s'(2-4)] by cases blast+
  qed
qed

lemma silence_ok:
  assumes "good s H P"
  shows "good (snd (retainedDestinationSilent now s)) H P" "stable s (snd (retainedDestinationSilent now s))"
proof -
  have q: "quiet s (snd (retainedDestinationSilent now s))" by (auto simp: retainedDestinationSilent_def split: option.split)
  show "good (snd (retainedDestinationSilent now s)) H P" by (rule good_quiet [OF q assms])
  show "stable s (snd (retainedDestinationSilent now s))" by (rule steady_stable [OF quiet_steady [OF q]])
qed

lemma policy_ok:
  assumes "good s H P"
  shows "good (apply_policy policy s) H P" "stable s (apply_policy policy s)"
proof -
  have "flight_part s H" using assms by (simp add: good_def parts_def)
  then obtain c where c: "sq_flightController (ss_flight s) = Some c" "limits_ok c" "flight_safe (ss_flight s)" by (auto simp: flight_part_def flight_safe_def)
  let ?fl = "(ss_flight s)\<lparr>sq_flightController := Some (snd (applyPolicy policy c))\<rparr>"
  note k = controller_safe [OF c(3,1) applyPolicy_ok(1) [OF c(2)]]
  have e: "apply_policy policy s = s\<lparr>ss_flight := ?fl\<rparr>" using c(1) by (simp add: apply_policy_def)
  have l: "length (sq_items ?fl) = length (sq_items (ss_flight s))" by simp
  have "flight_part (s\<lparr>ss_flight := ?fl\<rparr>) H" using \<open>flight_part s H\<close> k by (simp add: flight_part_iff)
  then show "good (apply_policy policy s) H P" unfolding e using assms flight_change [OF l] by (simp add: good_def parts_def)
  show "stable s (apply_policy policy s)" unfolding e by (rule steady_stable [OF flight_stable [OF l]])
qed

end
