(* ===== verification/Send_Run.thy ===== *)
theory Send_Run
  imports Send_Steps
begin

text \<open>
  Runs of a send sequence: the step relation over all operations of \<open>Run\<close>, the invariant of every
  reachable state, the end of a sequence, and what they say of the code.
\<close>

section \<open>The end of a sequence\<close>

lemma teardown_item_ok:
  assumes "settle_part s S" "a \<in> S"
  shows "settle_part (teardown_item a s) (S - {a})" "reports a False s (teardown_item a s)" "allocated (teardown_item a s) = allocated s"
    "si_ackCallback (ss_items (teardown_item a s) x) = si_ackCallback (ss_items s x)"
    "tq_orderedItems (ss_resendQueue (teardown_item a s)) = tq_orderedItems (ss_resendQueue s)"
proof -
  define t where "t = (if si_retainAfterAckTimeout (ss_items s a) then releaseRetained a s else s)"
  have t: "ss_events t = ss_events s" "allocated t = allocated s" "si_ackCallback (ss_items t y) = si_ackCallback (ss_items s y)"
    "tq_orderedItems (ss_resendQueue t) = tq_orderedItems (ss_resendQueue s)" for y
    by (simp_all add: t_def releaseRetained_def Let_def) (simp_all add: allocated_def)
  define u where "u = (case item_contract a t of None \<Rightarrow> t
    | Some k \<Rightarrow> upd_contract k (contract_unack (si_messageByteCount (ss_items t a)) (ss_contracts t k)) t)"
  have u: "ss_events u = ss_events s" "allocated u = allocated s" "si_ackCallback (ss_items u y) = si_ackCallback (ss_items s y)"
    "tq_orderedItems (ss_resendQueue u) = tq_orderedItems (ss_resendQueue s)" for y
    using t by (simp_all add: u_def split: option.split) (simp add: upd_contract_def)
  have e: "teardown_item a s = emit (ItemReturned a) (safeAck a False u)" unfolding teardown_item_def Let_def t_def u_def by (rule refl)
  note i = settle_item [where a = a and b = False and s = u, folded e]
  have "settle_part u S" by (rule settle_part_cong [OF u(1-3) assms(1)])
  then show "settle_part (teardown_item a s) (S - {a})" by (rule i(3) [OF _ assms(2)])
  show "reports a False s (teardown_item a s)" using settle_reports [of a False u, folded e] u by (simp add: reports_def)
  show "allocated (teardown_item a s) = allocated s" "si_ackCallback (ss_items (teardown_item a s) x) = si_ackCallback (ss_items s x)"
    "tq_orderedItems (ss_resendQueue (teardown_item a s)) = tq_orderedItems (ss_resendQueue s)"
    using billing_fields(2,5,9) [OF i(1)] u by simp_all
qed

lemma teardown_items_ok:
  assumes "settle_part s S" "set as \<subseteq> S" "distinct as"
  shows "settle_part (fold teardown_item as s) (S - set as) \<and> allocated (fold teardown_item as s) = allocated s
    \<and> tq_orderedItems (ss_resendQueue (fold teardown_item as s)) = tq_orderedItems (ss_resendQueue s)
    \<and> (\<forall>x. callbacks (ss_events (fold teardown_item as s)) x = callbacks (ss_events s) x
         @ (if x \<in> set as \<and> si_ackCallback (ss_items s x) = Some UserCallback then [Callback x False] else []))
    \<and> (\<forall>x. si_ackCallback (ss_items (fold teardown_item as s) x) = si_ackCallback (ss_items s x))"
  using assms
proof (induction as arbitrary: s S)
  case (Cons a as)
  have a: "a \<in> S" using Cons.prems(2) by simp
  note t = teardown_item_ok [OF Cons.prems(1) a]
  have "set as \<subseteq> S - {a}" "distinct as" using Cons.prems(2,3) by auto
  note ih = Cons.IH [OF t(1) this]
  have "S - set (a # as) = S - {a} - set as" by auto
  moreover have "callbacks (ss_events (fold teardown_item as (teardown_item a s))) x = callbacks (ss_events s) x
    @ (if x \<in> set (a # as) \<and> si_ackCallback (ss_items s x) = Some UserCallback then [Callback x False] else [])" for x
    using ih t(2,4) Cons.prems(3) by (auto simp: reports_def)
  ultimately show ?case using ih t(3-5) by simp
qed simp

definition close_contract :: "contract_id \<Rightarrow> SendSequence \<Rightarrow> SendSequence" where
  "close_contract c s =
     (case ss_openSendContracts s c of
        None \<Rightarrow> s
      | Some k \<Rightarrow> emit (CloseContract (sc_contractId (ss_contracts s k)) (sc_ackedByteCount (ss_contracts s k)) (sc_unackedByteCount (ss_contracts s k))) s)"

lemma close_contracts_ok:
  "settle_part s S \<Longrightarrow> settle_part (fold close_contract order s) S \<and> ss_resendQueue (fold close_contract order s) = ss_resendQueue s
    \<and> allocated (fold close_contract order s) = allocated s
    \<and> (\<forall>x. callbacks (ss_events (fold close_contract order s)) x = callbacks (ss_events s) x)"
proof (induction order arbitrary: s)
  case (Cons c order)
  have "settle_part (close_contract c s) S"
    using emit_settle [OF _ Cons.prems] Cons.prems by (simp add: close_contract_def split: option.split)
  note ih = Cons.IH [OF this]
  have "ss_resendQueue (close_contract c s) = ss_resendQueue s" "allocated (close_contract c s) = allocated s"
    "callbacks (ss_events (close_contract c s)) x = callbacks (ss_events s) x" for x
    by (simp_all add: close_contract_def callbacks_def split: option.split)
  then show ?case using ih by simp
qed simp

lemma teardown_ok:
  assumes "seq_ok s H"
  shows "settle_part (teardown order s) {} \<and> queued (teardown order s) = {} \<and> allocated (teardown order s) = allocated s
    \<and> (\<forall>x. callbacks (ss_events (teardown order s)) x = callbacks (ss_events s) x
         @ (if x \<in> H \<and> si_ackCallback (ss_items s x) = Some UserCallback then [Callback x False] else []))"
proof -
  have p: "queue_part s H" "settle_part s H" using assms by (simp_all add: seq_ok_def)
  have w: "queue_wf (ss_resendQueue s)" "set (tq_orderedItems (ss_resendQueue s)) = H" "distinct (tq_orderedItems (ss_resendQueue s))"
    using p(1) by (auto simp: queue_part_def queued_def queue_wf_def min_ok_def min_inv_def)
  obtain items q where c: "Clear (ss_resendQueue s) = (items, q)" by fastforce
  have i: "items = tq_orderedItems (ss_resendQueue s)" "tq_orderedItems q = []" using Clear_wf [OF w(1)] c by simp_all
  define t where "t = s\<lparr>ss_resendQueue := q\<rparr>"
  have "settle_part t H" using p(2) by (rule settle_part_cong [rotated -1]) (simp_all add: t_def allocated_def)
  note f = teardown_items_ok [OF this, of items]
  define u where "u = (fold teardown_item items t)\<lparr>ss_retainedByteCount := 0\<rparr>"
  have fu: "settle_part (fold teardown_item items t) {}" "allocated (fold teardown_item items t) = allocated s"
    "tq_orderedItems (ss_resendQueue (fold teardown_item items t)) = []"
    "callbacks (ss_events (fold teardown_item items t)) x = callbacks (ss_events s) x
         @ (if x \<in> H \<and> si_ackCallback (ss_items s x) = Some UserCallback then [Callback x False] else [])" for x
    using f i w(2,3) by (simp_all add: t_def allocated_def)
  have "settle_part u {}" using fu(1) by (rule settle_part_cong [rotated -1]) (simp_all add: u_def allocated_def)
  note k = close_contracts_ok [OF this, of order]
  have "teardown order s = fold close_contract order u"
    by (simp add: teardown_def c Let_def u_def t_def close_contract_def [abs_def])
  then show ?thesis using k fu by (simp add: u_def queued_def allocated_def)
qed

section \<open>The new sequence\<close>

definition seq_settings_ok :: "sendSettings \<Rightarrow> bool" where
  "seq_settings_ok st \<longleftrightarrow> 1 \<le> sb_MinMessageByteCount st \<and> sb_MinMessageByteCount st \<le> item_bound
     \<and> 0 \<le> sb_ResendQueueMaxByteCount st \<and> sb_ResendQueueMaxByteCount st \<le> 2 ^ 62"

lemma new_sequence_ok:
  assumes "seq_settings_ok st" "settings_ok flight" "window_ok window" "0 \<le> minByteCount" "in64 minByteCount"
  shows "seq_ok (NewSendSequence st flight window m budget minByteCount accounting) {}"
proof -
  let ?s = "NewSendSequence st flight window m budget minByteCount accounting"
  have f: "ss_settings ?s = st" "ss_flight ?s = new_sequence (Some flight)" "ss_rttWindow ?s = window" "ss_sendItems ?s = []" "ss_nextSequenceNumber ?s = 0"
    "ss_sendContract ?s = None" "ss_openSendContracts ?s = Map.empty" "ss_retainedByteCount ?s = 0" "ss_events ?s = []"
    "si_resendTime (ss_items ?s a) = 0" for a
    by (simp_all add: NewSendSequence_def Let_def)
  have w: "queue_wf (newResendQueue (\<lambda>_. 0) items m budget minByteCount)" "queue_wf (setLifetimeBudget (newResendQueue (\<lambda>_. 0) items m budget minByteCount))" for items
    using new_wf [OF resend_cmp_ok assms(4,5)] by (simp_all add: newResendQueue_def)
  have i: "tq_orderedItems (newResendQueue (\<lambda>_. 0) items m budget minByteCount) = []" "tq_cmp (newResendQueue (\<lambda>_. 0) items m budget minByteCount) = resend_cmp (\<lambda>_. 0)"
    "tq_orderedItems (setLifetimeBudget q) = tq_orderedItems q" "tq_cmp (setLifetimeBudget q) = tq_cmp q" for items q
    by (simp_all add: newResendQueue_def setLifetimeBudget_def setBudget_def newTransferQueue_def Let_def split: option.split)
  have "queue_part ?s {}" unfolding queue_part_def queued_def synced_def f(10) using w i by (simp add: NewSendSequence_def Let_def)
  moreover have "list_part ?s {}" by (simp add: list_part_def f)
  moreover have "flight_part ?s {}"
    using new_limits_ok(1) [of "Some flight"] assms(2) by (simp add: flight_part_def flight_safe_def f new_sequence_def allocated_def)
  moreover have "contract_part ?s {} no_debits" using assms(1) by (simp add: contract_part_def f seq_settings_ok_def no_debits_def)
  moreover have "retained_part ?s {}"
  proof -
    have q: "go_quot n 4 = n div 4" if "0 \<le> n" "n \<le> 2 ^ 62" for n
    proof -
      have "sgn n * sgn 4 * (\<bar>n\<bar> div \<bar>4\<bar>) = n div 4" using that by (cases "n = 0") simp_all
      moreover have "i64 (n div 4) = n div 4" using that by (intro i64_small) simp_all
      ultimately show ?thesis unfolding go_quot_def by presburger
    qed
    have "0 \<le> go_quot n 4" "go_quot n 4 \<le> 2 ^ 62" if "0 \<le> n" "n \<le> 2 ^ 62" for n using that q [OF that] by simp_all
    then show ?thesis using assms(1) by (simp add: retained_part_def f retainCapByteCount_def seq_settings_ok_def)
  qed
  moreover have "settle_part ?s {}" by (simp add: settle_part_def f allocated_def new_sequence_def callbacks_def)
  ultimately show ?thesis using assms(3) by (simp add: seq_ok_def f)
qed

section \<open>Runs\<close>

text \<open>
  What the world may do to a sequence when a message is sent: message ids are fresh, sizes and the
  number of items fit, and the peer is not made a no-contract peer while a contract is current.
  (Where that happens the message is sent in the name of the contract without being debited from
  it, see \<open>no_contract_skips_debit\<close> below.) The mean round trip is read at any time: a contract is
  sized by it.
\<close>

definition send_ok :: "bool \<Rightarrow> contract_attempt list \<Rightarrow> send_env \<Rightarrow> send_pack \<Rightarrow> SendSequence \<Rightarrow> bool" where
  "send_ok noContract attempts env pack s \<longleftrightarrow>
     (noContract \<longrightarrow> ss_sendContract s = None)
   \<and> (\<forall>attempt \<in> set attempts. attempt_ok s (queued s) attempt) \<and> env_ok s (queued s) env
   \<and> en_messageId env \<notin> en_messageId ` at_env ` set attempts
   \<and> 0 \<le> pk_messageByteCount pack \<and> pk_messageByteCount pack \<le> item_bound \<and> allocated s + 2 < 2 ^ 64"

inductive seq_step :: "SendSequence \<Rightarrow> SendSequence \<Rightarrow> bool" where
  sent: "send_ok noContract attempts env pack s \<Longrightarrow> send_message noContract standard attempts now env pack s = Some (b, s') \<Longrightarrow>
    seq_step s s'"
| acked: "receiveAck m selective tag clock s = Some s' \<Longrightarrow> seq_step s s'"
| resent: "resend_env_ok env \<Longrightarrow> resend_next env s = Some (r, s') \<Longrightarrow> seq_step s s'"
| scanned: "backstop_scan now s = Some s' \<Longrightarrow> seq_step s s'"
| silenced: "retainedDestinationSilent now s = (b, s') \<Longrightarrow> seq_step s s'"
| policed: "seq_step s (apply_policy policy s)"
| measured: "MeanRtt now (ss_rttWindow s) = Some (mean, w) \<Longrightarrow> seq_step s (s\<lparr>ss_rttWindow := w\<rparr>)"

inductive seq_reachable :: "SendSequence \<Rightarrow> bool" where
  seq_new: "seq_settings_ok st \<Longrightarrow> settings_ok flight \<Longrightarrow> NewRttWindow windowSize windowTimeout rttScale minScaledRtt rest = Some window \<Longrightarrow>
    0 \<le> minByteCount \<Longrightarrow> in64 minByteCount \<Longrightarrow> seq_reachable (NewSendSequence st flight window m budget minByteCount accounting)"
| seq_next: "seq_reachable s \<Longrightarrow> seq_step s s' \<Longrightarrow> seq_reachable s'"

text \<open>The invariant of a run, with the set of queued items.\<close>

definition run_inv :: "SendSequence \<Rightarrow> bool" where
  "run_inv s \<longleftrightarrow> seq_ok s (queued s)"

lemma good_queued: "good s H P \<Longrightarrow> queued s = H"
  by (simp add: good_def parts_def queue_part_def)

lemma run_invI: "good s H no_debits \<Longrightarrow> run_inv s"
  using good_queued [of s H no_debits] by (simp add: run_inv_def seq_ok_good)

lemma run_inv_good: "run_inv s \<Longrightarrow> good s (queued s) no_debits"
  by (simp add: run_inv_def seq_ok_good)

lemma send_run:
  assumes "run_inv s" "send_ok noContract attempts env pack s"
  shows "if too_large noContract standard now (pk_messageByteCount pack) s
    then send_message noContract standard attempts now env pack s = None
    else \<exists>b s'. send_message noContract standard attempts now env pack s = Some (b, s') \<and> run_inv s'"
proof -
  note g = run_inv_good [OF assms(1)]
  have p: "\<forall>attempt \<in> set attempts. attempt_ok s (queued s) attempt" "env_ok s (queued s) env" "en_messageId env \<notin> en_messageId ` at_env ` set attempts"
    "0 \<le> pk_messageByteCount pack" "pk_messageByteCount pack \<le> item_bound" "allocated s + 2 < 2 ^ 64" "noContract \<longrightarrow> ss_sendContract s = None"
    using assms(2) by (simp_all add: send_ok_def)
  show ?thesis
  proof (cases "too_large noContract standard now (pk_messageByteCount pack) s")
    case True
    then show ?thesis using updateContract_too_large [OF g p(4,5)] by (simp add: send_message_def)
  next
    case False
    obtain b s' H' where s': "send_message noContract standard attempts now env pack s = Some (b, s')" "good s' H' no_debits" "queued s \<subseteq> H'"
      "ss_settings s' = ss_settings s" "allocated s' \<le> allocated s + 2" "noContract \<longrightarrow> ss_sendContract s' = None"
      using send_message_ok [OF g p False] .
    then show ?thesis using False run_invI [OF s'(2)] by simp
  qed
qed

lemma seq_step_inv:
  assumes "seq_step s s'" "run_inv s"
  shows "run_inv s'"
  using assms(1)
proof (cases rule: seq_step.cases)
  case (sent noContract attempts env pack standard now b)
  then show ?thesis using send_run [OF assms(2) sent(1), of standard now] by (auto split: if_splits)
next
  case (acked m selective tag clock)
  then show ?thesis using receiveAck_ok [OF run_inv_good [OF assms(2)], of m selective tag clock] run_invI by (metis option.inject)
next
  case (resent env r)
  then show ?thesis using resend_next_ok [OF run_inv_good [OF assms(2)], of env] run_invI by (metis option.inject prod.inject)
next
  case (scanned now)
  then show ?thesis using backstop_scan_ok [OF run_inv_good [OF assms(2)], of now] run_invI by (metis option.inject)
next
  case (silenced now b)
  then show ?thesis using silence_ok [OF run_inv_good [OF assms(2)], of now] run_invI by (metis snd_conv)
next
  case (policed policy)
  then show ?thesis using policy_ok [OF run_inv_good [OF assms(2)], of policy] run_invI by metis
next
  case (measured now mean w)
  note g = run_inv_good [OF assms(2)]
  obtain w' where "coalesce now (ss_rttWindow s) = Some w'" "window_ok w'"
    using window_ok_queries [OF _ refl, of "ss_rttWindow s" now] g by (metis good_def)
  then have "window_ok w" using measured(2) by (simp add: MeanRtt_def)
  then show ?thesis using run_invI [OF rtt_parts(1) [OF _ g]] measured(1) by simp
qed

lemma seq_reachable_inv: "seq_reachable s \<Longrightarrow> run_inv s"
proof (induction rule: seq_reachable.induct)
  case (seq_new st flight windowSize windowTimeout rttScale minScaledRtt rest window minByteCount m budget accounting)
  have "seq_ok (NewSendSequence st flight window m budget minByteCount accounting) {}"
    by (rule new_sequence_ok [OF seq_new(1,2) new_window_ok(1) [OF seq_new(3)] seq_new(4,5)])
  then show ?case by (rule run_invI [OF seq_ok_good [THEN iffD1]])
qed (rule seq_step_inv)

section \<open>An example\<close>

text \<open>
  A new sequence, with a message that needs no contract, and with a message that opens one of 1000 bytes.
\<close>

definition ex_send_settings :: sendSettings where
  "ex_send_settings =
     \<lparr>sb_AckTimeout = 1000, sb_SelectiveAckTimeout = 100, sb_UnreliableAckTimeout = 0, sb_RetainedAckTimeout = 0,
      sb_ResendQueueMaxByteCount = 4000, sb_MaxResendCount = 0, sb_MaxResendInterval = 50, sb_MinMessageByteCount = 10,
      sb_ReliableLaneProvenRecovery = True\<rparr>"

definition ex_sequence0 :: SendSequence where
  "ex_sequence0 = NewSendSequence ex_send_settings example_settings (the test_new) mem0 None 0 True"

definition ex_disposition :: transferWriteDisposition where
  "ex_disposition = \<lparr>dp_transportType = ''h1'', dp_unreliable = True, dp_reliable = False, dp_hybridReliable = False, dp_route = Some 1\<rparr>"

definition ex_env :: "nat \<Rightarrow> send_env" where
  "ex_env n = \<lparr>en_messageId = [of_nat n], en_frameByteCount = 100 + int n, en_write = Some ex_disposition, en_clock = (\<lambda>i. int i + 10 * int n)\<rparr>"

definition ex_attempt :: contract_attempt where
  "ex_attempt = \<lparr>at_requested = True, at_contract = Some ([7], 1000, None), at_clock = (\<lambda>i. int i), at_env = ex_env 1\<rparr>"

definition ex_pack :: send_pack where
  "ex_pack = \<lparr>pk_messageByteCount = 80, pk_ackCallback = Some UserCallback, pk_ack = True, pk_retainAfterAckTimeout = True\<rparr>"

definition ex_plain :: SendSequence where
  "ex_plain = snd (the (send_message True 1000 [] 5 (ex_env 2) ex_pack ex_sequence0))"

definition ex_contract :: SendSequence where
  "ex_contract = snd (the (send_message False 1000 [ex_attempt] 5 (ex_env 2) ex_pack ex_sequence0))"

lemma ex_sequence0_facts:
  "seq_reachable ex_sequence0" "queued ex_sequence0 = {}" "allocated ex_sequence0 = 0" "ss_settings ex_sequence0 = ex_send_settings"
  "ss_sendContract ex_sequence0 = None" "good ex_sequence0 {} no_debits" "ss_events ex_sequence0 = []"
proof -
  have w: "NewRttWindow 4 (10 ^ 9) (\<lambda>ms. ms) 0 [10 ^ 9] = Some (the test_new)" by (simp add: test_new_def NewRttWindow_def)
  have st: "seq_settings_ok ex_send_settings" by (simp add: seq_settings_ok_def ex_send_settings_def item_bound_def)
  show r: "seq_reachable ex_sequence0" unfolding ex_sequence0_def
    by (rule seq_new [OF st example_settings_ok w]) (simp_all add: in64_def)
  have ok: "seq_ok ex_sequence0 {}" unfolding ex_sequence0_def
    by (rule new_sequence_ok [OF st example_settings_ok new_window_ok(1) [OF w]]) (simp_all add: in64_def)
  then show "queued ex_sequence0 = {}" by (simp add: seq_ok_def queue_part_def)
  show "good ex_sequence0 {} no_debits" using ok by (simp add: seq_ok_good)
  show "allocated ex_sequence0 = 0" "ss_settings ex_sequence0 = ex_send_settings" "ss_sendContract ex_sequence0 = None" "ss_events ex_sequence0 = []"
    by (simp_all add: ex_sequence0_def NewSendSequence_def Let_def allocated_def new_sequence_def)
qed

lemma ex_sends_ok: "send_ok noContract [] (ex_env 2) ex_pack ex_sequence0" "send_ok False [ex_attempt] (ex_env 2) ex_pack ex_sequence0"
  by (simp_all add: send_ok_def ex_sequence0_facts attempt_ok_def env_ok_def ex_attempt_def ex_env_def ex_pack_def ex_send_settings_def item_bound_def)

lemma ex_contract_reachable: "seq_reachable ex_contract"
proof -
  have "\<not> too_large False 1000 5 (pk_messageByteCount ex_pack) ex_sequence0"
    by (simp add: too_large_def ex_sequence0_facts ex_pack_def ex_send_settings_def)
  then obtain b s' where s': "send_message False 1000 [ex_attempt] 5 (ex_env 2) ex_pack ex_sequence0 = Some (b, s')"
    using send_run [OF seq_reachable_inv [OF ex_sequence0_facts(1)] ex_sends_ok(2), of 1000 5] by auto
  then have "ex_contract = s'" by (simp add: ex_contract_def)
  then show ?thesis using seq_next [OF ex_sequence0_facts(1) sent [OF ex_sends_ok(2) s']] by simp
qed

lemma ex_plain_facts:
  "seq_reachable ex_plain" "queued ex_plain = {0}" "messageId ex_plain 0 = [2]" "allocated ex_plain = 1" "ss_settings ex_plain = ex_send_settings"
  "si_ackCallback (ss_items ex_plain 0) = Some UserCallback" "callbacks (ss_events ex_plain) x = []"
  "ss_sendContract ex_plain = None"
proof -
  let ?s = ex_sequence0
  have d: "debit ?s n = no_debits" for n by (rule debit_none) (rule ex_sequence0_facts(5))
  have g: "good ?s {} (\<lambda>c. no_debits c + debit ?s 80 c)" using ex_sequence0_facts(6) by (simp add: d no_debits_def)
  have p: "\<And>c. 0 \<le> no_debits c" "(0::int) \<le> 80" "(80::int) \<le> item_bound" "0 < en_frameByteCount (ex_env 2)" "en_frameByteCount (ex_env 2) \<le> item_bound"
    "\<forall>b \<in> {}. messageId ?s b \<noteq> en_messageId (ex_env 2)" "allocated ?s + 1 < 2 ^ 64"
    by (simp_all add: no_debits_def item_bound_def ex_env_def ex_sequence0_facts)
  have ma: "must_ack True ?s" by (simp add: must_ack_def)
  obtain s' where s': "sendWithSetContract (ex_env 2) 80 (Some UserCallback) True False True ?s = Some s'"
    "good s' (if must_ack True ?s then insert (allocated ?s) {} else {}) no_debits" "extends ?s (allocated ?s) s'" "ss_sendContract s' = ss_sendContract ?s"
    "messageId s' (allocated ?s) = en_messageId (ex_env 2)" "must_ack True ?s \<longrightarrow> silent ?s s' \<and> ss_contracts s' = ss_contracts ?s"
    "si_ackCallback (ss_items s' (allocated ?s)) = Some UserCallback" using sendWithSetContract_ok [OF g p] by blast
  have m: "send_message True 1000 [] 5 (ex_env 2) ex_pack ?s = Some (True, s')"
    using s'(1) by (simp add: send_message_def updateContract_def ex_pack_def)
  then have e: "ex_plain = s'" by (simp add: ex_plain_def)
  show "seq_reachable ex_plain" using seq_next [OF ex_sequence0_facts(1) sent [OF ex_sends_ok(1) m]] e by simp
  show "ss_sendContract ex_plain = None" using s'(4) e by (simp add: ex_sequence0_facts)
  show "queued ex_plain = {0}" using good_queued [OF s'(2)] ma e by (simp add: ex_sequence0_facts)
  show "messageId ex_plain 0 = [2]" "allocated ex_plain = 1" "ss_settings ex_plain = ex_send_settings"
    "si_ackCallback (ss_items ex_plain 0) = Some UserCallback"
    using s'(3,5,7) e by (simp_all add: ex_sequence0_facts ex_env_def extends_def)
  show "callbacks (ss_events ex_plain) x = []" using s'(6) ma e by (simp add: silent_def ex_sequence0_facts callbacks_def)
qed

section \<open>What the code promises\<close>

text \<open>
  C4. The only panic of a send sequence in a run is that of a message that can never be sent. In
  every reachable state an acknowledgement can be received, the first item resent and the expired
  items dropped, and the result is a reachable state again: the accounting of a contract never
  fails with \<open>Bad accounting\<close>, the heaps are never indexed out of range, the head is never looked up
  in an empty list, and a rewritten head always finds its contract. Sending a message returns in a
  reachable state as well, except exactly when a contract is needed, the current contract does not
  take the message, and its size plus the minimum message size exceeds a standard contract: then
  the code panics with \<open>Message too large for contract\<close>. Sends to a peer that was made a
  no-contract peer while a contract of the sequence is current are not covered.
\<close>

theorem send_sequence_panics_only_too_large:
  assumes "seq_reachable s"
  shows "(send_ok noContract attempts env pack s \<longrightarrow>
      (if \<not> noContract \<and> (case ss_sendContract s of None \<Rightarrow> True
             | Some k \<Rightarrow> \<not> fst (contract_update now (pk_messageByteCount pack) (ss_contracts s k)))
           \<and> standard < pk_messageByteCount pack + sb_MinMessageByteCount (ss_settings s)
       then send_message noContract standard attempts now env pack s = None
       else \<exists>b s'. send_message noContract standard attempts now env pack s = Some (b, s') \<and> seq_reachable s'))
    \<and> (\<exists>s'. receiveAck m selective tag clock s = Some s' \<and> seq_reachable s')
    \<and> (resend_env_ok resendEnv \<longrightarrow> (\<exists>r s'. resend_next resendEnv s = Some (r, s') \<and> seq_reachable s'))
    \<and> (\<exists>s'. backstop_scan sendTime s = Some s' \<and> seq_reachable s')"
proof (intro conjI impI, unfold too_large_def [symmetric])
  note inv = seq_reachable_inv [OF assms] and g = run_inv_good [OF seq_reachable_inv [OF assms]]
  show "if too_large noContract standard now (pk_messageByteCount pack) s then send_message noContract standard attempts now env pack s = None
      else \<exists>b s'. send_message noContract standard attempts now env pack s = Some (b, s') \<and> seq_reachable s'"
    if "send_ok noContract attempts env pack s" using send_run [OF inv that, of standard now] seq_next [OF assms sent [OF that]] by metis
  show "\<exists>s'. receiveAck m selective tag clock s = Some s' \<and> seq_reachable s'"
    using receiveAck_ok [OF g, of m selective tag clock] seq_next [OF assms acked] by metis
  show "\<exists>r s'. resend_next resendEnv s = Some (r, s') \<and> seq_reachable s'" if "resend_env_ok resendEnv"
    using resend_next_ok [OF g that] seq_next [OF assms resent [OF that]] by metis
  show "\<exists>s'. backstop_scan sendTime s = Some s' \<and> seq_reachable s'"
    using backstop_scan_ok [OF g, of sendTime] seq_next [OF assms scanned] by metis
qed

theorem send_sequence_panics_only_too_large_witness:
  "send_message True 1000 [] 20 (ex_env 3) ex_pack ex_plain \<noteq> None \<and> send_message False 90 [] 20 (ex_env 3) ex_pack ex_plain \<noteq> None
   \<and> send_message False 89 [] 20 (ex_env 3) ex_pack ex_plain = None
   \<and> receiveAck [2] True (Some 0) (\<lambda>_. 30) ex_plain \<noteq> None \<and> backstop_scan 90000 ex_plain \<noteq> None"
proof -
  have ok: "send_ok noContract [] (ex_env 3) ex_pack ex_plain" for noContract
    by (simp add: send_ok_def ex_plain_facts env_ok_def ex_env_def ex_pack_def ex_send_settings_def item_bound_def)
  have n: "ss_sendContract ex_plain = None" "pk_messageByteCount ex_pack = 80" "sb_MinMessageByteCount (ss_settings ex_plain) = 10"
    by (simp_all add: ex_plain_facts ex_pack_def ex_send_settings_def)
  note panics = send_sequence_panics_only_too_large [OF ex_plain_facts(1), of _ "[]" "ex_env 3" ex_pack 20 _ "[2]" True "Some 0" "\<lambda>_. 30" undefined 90000]
  have "send_message True 1000 [] 20 (ex_env 3) ex_pack ex_plain \<noteq> None" "receiveAck [2] True (Some 0) (\<lambda>_. 30) ex_plain \<noteq> None"
    "backstop_scan 90000 ex_plain \<noteq> None"
    using panics [of True 1000] ok [of True] by auto
  moreover have "send_message False 90 [] 20 (ex_env 3) ex_pack ex_plain \<noteq> None" using panics [of False 90] ok [of False] n by auto
  moreover have "send_message False 89 [] 20 (ex_env 3) ex_pack ex_plain = None" using panics [of False 89] ok [of False] n by simp
  ultimately show ?thesis by blast
qed

text \<open>
  C2. Every item is settled exactly once. In a run the buffer of an item has been returned, and the
  callback of its message called, once if the item has left the queue and never if it is still
  queued. After the teardown of the sequence, whatever it still held, the buffer of every item has
  been returned once and every callback called once.
\<close>

theorem send_items_settled_once:
  assumes "seq_reachable s"
  shows "count_list (ss_events s) (ItemReturned a) = (if a < allocated s \<and> a \<notin> queued s then 1 else 0)
    \<and> length (callbacks (ss_events s) a)
        = (if a < allocated s \<and> a \<notin> queued s \<and> si_ackCallback (ss_items s a) = Some UserCallback then 1 else 0)
    \<and> queued (teardown order s) = {}
    \<and> count_list (ss_events (teardown order s)) (ItemReturned a) = (if a < allocated s then 1 else 0)
    \<and> length (callbacks (ss_events (teardown order s)) a)
        = (if a < allocated s \<and> si_ackCallback (ss_items s a) = Some UserCallback then 1 else 0)"
proof -
  have ok: "seq_ok s (queued s)" using seq_reachable_inv [OF assms] by (simp add: run_inv_def)
  note t = teardown_ok [OF ok, of order]
  have p: "count_list (ss_events s) (ItemReturned a) = (if a < allocated s \<and> a \<notin> queued s then 1 else 0)"
    "length (callbacks (ss_events s) a) = (if a < allocated s \<and> a \<notin> queued s \<and> si_ackCallback (ss_items s a) = Some UserCallback then 1 else 0)"
    "a \<in> queued s \<Longrightarrow> a < allocated s"
    using ok by (simp_all add: seq_ok_def settle_part_def)
  have "count_list (ss_events (teardown order s)) (ItemReturned a) = (if a < allocated s then 1 else 0)"
    using t by (simp add: settle_part_def)
  moreover have "length (callbacks (ss_events (teardown order s)) a) = (if a < allocated s \<and> si_ackCallback (ss_items s a) = Some UserCallback then 1 else 0)"
    using t p(2,3) by auto
  ultimately show ?thesis using p t by blast
qed

theorem send_items_settled_once_witness:
  "count_list (ss_events ex_plain) (ItemReturned 0) = 0 \<and> callbacks (ss_events ex_plain) 0 = []
   \<and> queued (teardown [] ex_plain) = {} \<and> count_list (ss_events (teardown [] ex_plain)) (ItemReturned 0) = 1
   \<and> length (callbacks (ss_events (teardown [] ex_plain)) 0) = 1"
  using send_items_settled_once [OF ex_plain_facts(1), of 0 "[]"] by (simp add: ex_plain_facts)

text \<open>
  C1. The books of a run are exact. The retained bytes are the sum of the charges of the queued
  retained items and stay within their cap. Every open contract is spent within its effective
  size, and what is unacknowledged of it covers the debits of all its queued items; the contract of
  a queued item is open. The list of sent items holds exactly the queued items, ordered by their sequence
  numbers, and only queued items are charged to the flight.
\<close>

theorem send_sequence_books:
  assumes "seq_reachable s"
  shows "ss_retainedByteCount s = (\<Sum>a\<in>queued s. if si_retainAfterAckTimeout (ss_items s a) then si_retainedCharge (ss_items s a) else 0)
    \<and> ss_retainedByteCount s \<le> retainCapByteCount s
    \<and> (\<forall>c k. ss_openSendContracts s c = Some k \<longrightarrow>
         0 \<le> sc_ackedByteCount (ss_contracts s k)
       \<and> sc_ackedByteCount (ss_contracts s k) + sc_unackedByteCount (ss_contracts s k) \<le> sc_effectiveTransferByteCount (ss_contracts s k)
       \<and> (\<Sum>a\<in>queued s. if si_contractId (ss_items s a) = Some c
            then max (sb_MinMessageByteCount (ss_settings s)) (si_messageByteCount (ss_items s a)) else 0) \<le> sc_unackedByteCount (ss_contracts s k))
    \<and> (\<forall>a\<in>queued s. \<forall>c. si_contractId (ss_items s a) = Some c \<longrightarrow> ss_openSendContracts s c \<noteq> None)
    \<and> (\<exists>as. ss_sendItems s = map Some as \<and> set as = queued s \<and> sorted_wrt (\<lambda>a b. sequenceNumber s a < sequenceNumber s b) as)
    \<and> (\<forall>a < allocated s. it_unreliableFlightTracked (sq_items (ss_flight s) ! a) \<longrightarrow> a \<in> queued s)"
proof -
  let ?H = "queued s"
  have p: "retained_part s ?H" "contract_part s ?H no_debits" "list_part s ?H" "flight_part s ?H"
    using seq_reachable_inv [OF assms] by (simp_all add: run_inv_def seq_ok_def)
  have "(\<Sum>a\<in>?H. retained_share s a) = (\<Sum>a\<in>?H. if si_retainAfterAckTimeout (ss_items s a) then si_retainedCharge (ss_items s a) else 0)"
    by (rule sum.cong [OF refl]) (use p(1) in \<open>auto simp: retained_part_def retained_share_def\<close>)
  then have r: "ss_retainedByteCount s = (\<Sum>a\<in>?H. if si_retainAfterAckTimeout (ss_items s a) then si_retainedCharge (ss_items s a) else 0)"
    "ss_retainedByteCount s \<le> retainCapByteCount s" using p(1) by (simp_all add: retained_part_def)
  have c: "0 \<le> sc_ackedByteCount (ss_contracts s k)"
    "sc_ackedByteCount (ss_contracts s k) + sc_unackedByteCount (ss_contracts s k) \<le> sc_effectiveTransferByteCount (ss_contracts s k)"
    "(\<Sum>a\<in>?H. if si_contractId (ss_items s a) = Some c
       then max (sb_MinMessageByteCount (ss_settings s)) (si_messageByteCount (ss_items s a)) else 0) \<le> sc_unackedByteCount (ss_contracts s k)"
    if "ss_openSendContracts s c = Some k" for c k
  proof -
    have "contract_ok s c k" "debt s ?H c + no_debits c \<le> sc_unackedByteCount (ss_contracts s k)" using p(2) that unfolding contract_part_def by blast+
    then show "0 \<le> sc_ackedByteCount (ss_contracts s k)"
      "sc_ackedByteCount (ss_contracts s k) + sc_unackedByteCount (ss_contracts s k) \<le> sc_effectiveTransferByteCount (ss_contracts s k)"
      "(\<Sum>a\<in>?H. if si_contractId (ss_items s a) = Some c
         then max (sb_MinMessageByteCount (ss_settings s)) (si_messageByteCount (ss_items s a)) else 0) \<le> sc_unackedByteCount (ss_contracts s k)"
      unfolding debt_def effective_def contract_ok_def Let_def by (simp_all add: no_debits_def)
  qed
  have o: "ss_openSendContracts s c \<noteq> None" if "a \<in> ?H" "si_contractId (ss_items s a) = Some c" for a c
    using p(2) that unfolding contract_part_def by blast
  show ?thesis using r c o p(3,4) unfolding list_part_def flight_part_def by blast
qed

theorem send_sequence_books_witness:
  "ss_retainedByteCount ex_contract \<le> retainCapByteCount ex_contract
   \<and> (\<exists>as. ss_sendItems ex_contract = map Some as \<and> set as = queued ex_contract
        \<and> sorted_wrt (\<lambda>a b. sequenceNumber ex_contract a < sequenceNumber ex_contract b) as)
   \<and> ss_retainedByteCount ex_plain = (if si_retainAfterAckTimeout (ss_items ex_plain 0) then si_retainedCharge (ss_items ex_plain 0) else 0)"
  using send_sequence_books [OF ex_contract_reachable] send_sequence_books [OF ex_plain_facts(1)] by (simp add: ex_plain_facts(2))

text \<open>
  C3. An acknowledgement settles exactly the items it covers. In a run a cumulative acknowledgement of a
  queued message takes out of the queue the items up to its sequence number and calls their callbacks with
  success; a selective acknowledgement, or one for a message that is not queued, settles nothing.
  No other callback is called.
\<close>

theorem receiveAck_settles_exactly:
  assumes "seq_reachable s"
  shows "\<exists>s' A. receiveAck m selective tag clock s = Some s'
    \<and> A = (if selective then {} else {x \<in> queued s. \<exists>a \<in> queued s. messageId s a = m \<and> sequenceNumber s x \<le> sequenceNumber s a})
    \<and> queued s' = queued s - A
    \<and> (\<forall>x. callbacks (ss_events s') x =
          callbacks (ss_events s) x @ (if x \<in> A \<and> si_ackCallback (ss_items s x) = Some UserCallback then [Callback x True] else []))"
proof -
  have g: "good s (queued s) no_debits" using run_inv_good [OF seq_reachable_inv [OF assms]] .
  obtain s' where s': "receiveAck m selective tag clock s = Some s'" "good s' (queued s - covered s (queued s) m selective) no_debits"
    "stable s s'" "acked_events (covered s (queued s) m selective) s s'" using receiveAck_ok [OF g] .
  then show ?thesis using good_queued [OF s'(2)] unfolding acked_events_def covered_def by blast
qed

theorem receiveAck_settles_exactly_witness:
  "\<exists>s'. receiveAck [2] False (Some 0) (\<lambda>_. 30) ex_plain = Some s' \<and> queued s' = {} \<and> callbacks (ss_events s') 0 = [Callback 0 True]"
  using receiveAck_settles_exactly [OF ex_plain_facts(1), of "[2]" False "Some 0" "\<lambda>_. 30"] by (auto simp: ex_plain_facts)

text \<open>
  A message without acknowledgement whose write fails is returned, but its debit stays on the contract: no item
  is left that would ever acknowledge it.
\<close>

lemma unsent_keeps_debit:
  assumes "good s H (\<lambda>c. P c + debit s n c)" "0 \<le> n" "0 < en_frameByteCount env" "en_frameByteCount env \<le> item_bound" "allocated s + 1 < 2 ^ 64"
    "\<not> must_ack ack s" "en_write env = None"
  shows "\<exists>s'. sendWithSetContract env n callback ack withContract retain s = Some s' \<and> ss_contracts s' = ss_contracts s
    \<and> count_list (ss_events s') (ItemReturned (allocated s)) = 1"
proof -
  define a where "a = allocated s"
  obtain t where t: "sendWithSetContract env n callback ack withContract retain s = send_rest env (must_ack ack s) a (written env a t)"
    "draft t H a H (\<lambda>c. P c + debit s n c)" "ss_contracts t = ss_contracts s" "extends s a t"
    using send_draft [OF assms(1-5), of callback ack withContract retain, folded a_def] by blast
  have w: "written env a t = t" using assms(7) by (simp add: written_def)
  note i = settle_item [where a = a and b = False and s = t]
  let ?u = "emit (ItemReturned a) (safeAck a False t)"
  have "settle_part ?u (insert a H - {a})" by (rule i(3)) (use t(2) in \<open>simp_all add: draft_def\<close>)
  then have "count_list (ss_events ?u) (ItemReturned a) = (if a < allocated ?u \<and> a \<notin> insert a H - {a} then 1 else 0)"
    unfolding settle_part_def by blast
  moreover have "allocated ?u = Suc a" using billing_fields(9) [OF i(1)] t(4) by (simp add: extends_def)
  ultimately have "count_list (ss_events ?u) (ItemReturned a) = 1" by (simp only:) simp
  then show ?thesis using t(1,3) i(5) assms(6,7) unfolding w a_def [symmetric] by (simp add: send_rest_def)
qed

text \<open>
  A peer that is made a no-contract peer while a contract is current: the message is sent in the name
  of the contract, but nothing is debited. When what is unacknowledged of the contract does not cover
  the message any more, its acknowledgement is the \<open>Bad accounting\<close> panic.
\<close>

lemma no_contract_skips_debit:
  "updateContract True standard attempts now n s = Some (True, s)"
  "sc_unackedByteCount c < n \<Longrightarrow> contract_ack n c = None"
  by (simp_all add: updateContract_def contract_ack_def Let_def)

end
