(* ===== verification/Spec2Isabelle.thy ===== *)
theory Spec2Isabelle
  imports Message_Framer Transfer_Queue Ip_Packet Fragment_Cache Send_Run
begin

text \<open>
  A verification development for the UrNetwork provider (Go module \<^verbatim>\<open>github.com/urnetwork/connect\<close>),
  a relay that carries IP packets of its clients inside transfer messages.

  \<^bold>\<open>The program\<close>

  A packet that enters the provider is parsed (ip.go, ip_ipv6_ext.go), reassembled if it is a
  fragment (ip_fragment.go, ip_ipv6_fragment.go) and answered with an out-of-sequence packet if its
  flow is gone (ip_packet.go). Packets travel in messages of send sequences (transfer.go). A
  sequence keeps every message until it is acknowledged in an ordered queue (transfer_queue.go),
  which borrows its memory from budgets that all sequences share (transfer_memory_budget.go). It
  bounds what is in flight on an unreliable carrier (transfer_flight.go) and times its resends by
  the round trips it has seen (transfer_rtt.go). On a stream transport the messages are framed by
  length prefixes (message_framer.go, message_framer_xl.go).

  \<^bold>\<open>The theories\<close>

  \<^item> \<^verbatim>\<open>Go_Prelude\<close>: byte slices, 64-bit arithmetic with wrap-around, big-endian words, the pool
    buffers, readers and writers of the standard library, and the rules the components share.
  \<^item> \<^verbatim>\<open>Go_Heap\<close>: container/heap. The locale \<open>heap_interface\<close> states what \<open>Less\<close>, \<open>Swap\<close>, \<open>Push\<close> and
    \<open>Pop\<close> promise and proves what \<open>heap.Push\<close> and \<open>heap.Remove\<close> then do. It is interpreted three
    times: for the min heap and the max heap of the queue, and for the heap of round trips.
  \<^item> \<^verbatim>\<open>Message_Framer\<close>: \<open>Framer\<close> and \<open>FramerXl\<close>, one definition for each method. What is
    written is read back, for single messages and batches, whatever the writer accepts at a time; a
    batch is checked before its first byte is written.
  \<^item> \<^verbatim>\<open>Transfer_Memory_Budget\<close>, \<^verbatim>\<open>Memory_Waiters\<close>: the budgets and their waiters are objects in an
    explicit store. No admitted reservation overdraws a budget or an ancestor, a reservation and a move do
    exactly what they say or nothing. The pointers of the waiters represent a queue, a pass over it
    refines a function on lists, grants stay within the free bytes, and nobody is overtaken.
  \<^item> \<^verbatim>\<open>Transfer_Queue\<close>: both heaps, both indexes, the byte counts and the borrowing agree after
    every operation; an item can be removed by either key; the queue drains in order; what it
    borrows it returns, and in lifetime mode it moves the use of no pool.
  \<^item> \<^verbatim>\<open>Ip_Wire\<close>, \<^verbatim>\<open>Ip_Packet\<close>: parsers, checksums, builders and ICMP signals. No read is out of
    range, built packets parse to the flow and payload they were built from, their checksums are
    right, and a signal names exactly its flow.
  \<^item> \<^verbatim>\<open>Fragment_Store\<close>, \<^verbatim>\<open>Fragment_Assembly\<close>, \<^verbatim>\<open>Ip_Fragment\<close>: the bounded cache of incomplete
    datagrams, once for both address families, and the fragmenters, reassemblers and the gate built
    on it. \<^verbatim>\<open>Fragment_Roundtrip\<close>, \<^verbatim>\<open>Fragment_Roundtrip6\<close>: the fragments of a packet reassemble to it in any
    order. \<^verbatim>\<open>Fragment_Cache\<close>: any sequence of packets keeps the limits, and nothing of a recycled buffer
    gets out.
  \<^item> \<^verbatim>\<open>Transfer_Flight\<close>, \<^verbatim>\<open>Flight_Run\<close>: the flight controller and the handlers of a send sequence
    that charge items to it. The limits stay in the range of the policy, no division is by zero,
    the message counts are those of the items in flight, the byte count is off by at most what items
    were rewritten by in flight, and slow start loses no acknowledged byte.
  \<^item> \<^verbatim>\<open>Rtt_Window\<close>: ring, heap and sum of the round-trip samples. They hold the same samples.
    A close and a read drop the expired samples from the tail of the ring up to the first that is not
    expired or the head slot, and the mean is that of the 64-bit sum of the samples that are left; two
    lemmas show an expired sample that stays in the head slot and a sum that wraps around.
  \<^item> \<^verbatim>\<open>Send_Sequence\<close>: the handlers of \<open>SendSequence\<close> and the iterations of its \<open>Run\<close>, composed from
    the queue, the flight and the round-trip window above, together with the contracts that pay for
    messages and the budget of retained bytes. \<^verbatim>\<open>Send_Books\<close>: the invariant, in parts that each have
    their own set of items, and the operations that settle an item. \<^verbatim>\<open>Send_Steps\<close>: every operation
    keeps it. \<^verbatim>\<open>Send_Run\<close>: in any run the only panic is that of a message too large for any contract, every item is settled once, an
    acknowledgement settles exactly what it covers, contracts are not overspent and the retained bytes are exact.

  \<^bold>\<open>How the code is represented\<close>

  Structs are records and their fields carry a prefix; a pointer is an address into a store that is
  part of the state, and nil is \<open>None\<close>. A method is a function from the state to the new state and its
  results. A panic or an error is a value. Locks are not modelled: each operation holds
  the lock of its object from start to end in the code, so operations are steps, and a run is a
  sequence of steps. A clock reading is an argument. A channel of an admission waiter is
  the number of tokens in it.

  \<^bold>\<open>Fuel and bounds\<close>

  Loops over pointers carry fuel. The pass over the waiters gets the number of registered ones and
  the coalescing of the round-trip window the number of slots; the lemmas show that the loop ends before the
  fuel does. The evictions of the fragment cache get one step more than there are datagrams, and each
  removes one. The chain of a budget's ancestors follows parents with smaller
  addresses, the order in which budgets are constructed. The flight limits are proved
  for settings up to 2 GiB and runs in which the bytes in flight cannot reach the end of a 64-bit integer.
  The runs of a send sequence have messages and frames up to 2 GiB, contracts and queues up to 4 EiB, fewer
  items than there are sequence numbers, message ids that are not in use when they are drawn, and no
  destination that stops needing contracts while one is current.

  \<^bold>\<open>Not modelled\<close>

  The goroutines that select over channels and timers, and everything behind a socket: of the send
  sequence the waiting in \<open>Run\<close>, \<open>Pack\<close> and \<open>Ack\<close> and the recovery \<open>scheduleSelectiveAckRecovery\<close>, which
  only tests call; the receive sequence; routes, the contract manager, encryption, NAT, transports, dialing,
  extenders, the platform API and the operator's tools. Frames of a send sequence are their lengths, and the outcome
  of a write, the contracts of the platform and the answers of the retry budget are arguments. Generated protobuf code and vendored packages are not source
  of this program. The message pool appears only as buffers with arbitrary content, and the product
  with the \<open>float32\<close> scale of the round-trip window only as a function that the window is given.
\<close>

end
